(* ===== verification/Prelude.thy ===== *)
theory Prelude
  imports Main "HOL-Library.Word"
begin

text \<open>
  What every component shares: the machine types of the C++ code, its errors as values,
  the sequencing of calls that may throw, and generic facts on bytes and lists.

  A C++ call that may end abnormally returns a value of type \<open>'a res\<close>: \<open>Inl\<close> of the
  reason, or \<open>Inr\<close> of the result. A call on an object returns that together with the
  object's new state, also when it throws: what was written before a \<open>throw\<close> stays.
\<close>

section \<open>Machine types\<close>

type_synonym byte = "8 word"
type_synonym bytes = "8 word list"
type_synonym u16 = "16 word"
type_synonym u32 = "32 word"

text \<open>\<open>uint256_t\<close>, and \<open>ReplicaID = uint16_t\<close> of include/hotstuff/type.h.\<close>

type_synonym uint256 = "256 word"
type_synonym replica_id = "16 word"

section \<open>Errors and sequencing\<close>

text \<open>
  \<open>RuntimeError\<close>, \<open>InvalidArgument\<close> and \<open>HotStuffError\<close> are the exceptions the code throws
  itself, \<open>OutOfRange\<close> is thrown by \<open>at\<close>, \<open>IosFailure\<close> by a stream that runs short;
  \<open>AssertFail\<close> is a failed \<open>assert\<close> (the build keeps assertions on). \<open>OutOfBounds\<close>,
  \<open>NullDeref\<close>, \<open>BadCast\<close> and \<open>Uninitialised\<close> are accesses whose behaviour C++ leaves
  undefined, \<open>DivByZero\<close> likewise, and \<open>Diverges\<close> is a loop that never ends.
\<close>

datatype cxx_error =
    RuntimeError string
  | InvalidArgument string
  | HotStuffError string
  | OutOfRange
  | IosFailure
  | AssertFail
  | OutOfBounds
  | NullDeref
  | BadCast
  | Uninitialised
  | DivByZero
  | Diverges

type_synonym 'a res = "cxx_error + 'a"

named_theorems res_simps "evaluation of sequenced calls"

definition bindE :: "'a res \<Rightarrow> ('a \<Rightarrow> 'b res) \<Rightarrow> 'b res" where
  "bindE m f = (case m of Inl e \<Rightarrow> Inl e | Inr x \<Rightarrow> f x)"

definition bindS :: "'a res \<times> 's \<Rightarrow> ('a \<Rightarrow> 's \<Rightarrow> 'b res \<times> 's) \<Rightarrow> 'b res \<times> 's" where
  "bindS m f = (case m of (Inl e, s) \<Rightarrow> (Inl e, s) | (Inr x, s) \<Rightarrow> f x s)"

lemma bindE_simps [simp, res_simps]:
  "bindE (Inl e) f = Inl e" "bindE (Inr x) f = f x"
  by (simp_all add: bindE_def)

lemma bindS_simps [simp, res_simps]:
  "bindS (Inl e, s) f = (Inl e, s)" "bindS (Inr x, s) f = f x s"
  by (simp_all add: bindS_def)

lemma bindE_Inr_iff: "bindE m f = Inr y \<longleftrightarrow> (\<exists>x. m = Inr x \<and> f x = Inr y)"
  by (cases m) simp_all

lemma bindE_InrE [elim?]:
  assumes "bindE m f = Inr y"
  obtains x where "m = Inr x" and "f x = Inr y"
  using assms by (auto simp: bindE_Inr_iff)

lemma bindS_Inr_iff: "bindS m f = (Inr y, t) \<longleftrightarrow> (\<exists>x s. m = (Inr x, s) \<and> f x s = (Inr y, t))"
  by (cases m; cases "fst m") auto

lemma bindS_snd_cases:
  assumes "bindS m f = (r, t)"
  obtains (err) e where "m = (Inl e, t)" "r = Inl e"
    | (ok) x s where "m = (Inr x, s)" "f x s = (r, t)"
  using assms by (cases m; cases "fst m") auto

text \<open>A property of the state that both calls keep is kept by their sequence.\<close>

lemma bindS_keeps:
  assumes "P (snd m)" and "\<And>x s. m = (Inr x, s) \<Longrightarrow> P s \<Longrightarrow> P (snd (f x s))"
  shows "P (snd (bindS m f))"
  using assms by (cases m; cases "fst m") auto

text \<open>A call repeated over a list, as long as it does not throw.\<close>

fun foldE :: "('q \<Rightarrow> 'x \<Rightarrow> 'q res) \<Rightarrow> 'q \<Rightarrow> 'x list \<Rightarrow> 'q res" where
  "foldE f q [] = Inr q"
| "foldE f q (x # xs) = bindE (f q x) (\<lambda>q'. foldE f q' xs)"

lemma foldE_invariant:
  assumes "foldE f q xs = Inr q'" and "P q"
    and "\<And>q x q'. x \<in> set xs \<Longrightarrow> P q \<Longrightarrow> f q x = Inr q' \<Longrightarrow> P q'"
  shows "P q'"
  using assms
proof (induction xs arbitrary: q)
  case (Cons x xs)
  from Cons.prems(1) obtain q1 where "f q x = Inr q1" "foldE f q1 xs = Inr q'"
    by (auto simp: bindE_Inr_iff)
  moreover have "P q1" using Cons.prems(2,3) \<open>f q x = Inr q1\<close> by auto
  ultimately show ?case using Cons.IH [of q1] Cons.prems(3) by auto
qed simp

text \<open>The errors a call can end with, by the structure of the call.\<close>

named_theorems fails_intros "introduction rules for fails_with"

definition fails_with :: "cxx_error set \<Rightarrow> 'a res \<Rightarrow> bool" where
  "fails_with X m \<longleftrightarrow> (\<forall>e. m = Inl e \<longrightarrow> e \<in> X)"

lemma fails_withD: "fails_with X m \<Longrightarrow> m = Inl e \<Longrightarrow> e \<in> X"
  by (simp add: fails_with_def)

lemma fails_with_Inr [fails_intros]: "fails_with X (Inr x)"
  and fails_with_Inl [fails_intros]: "e \<in> X \<Longrightarrow> fails_with X (Inl e)"
  and fails_with_bindE [fails_intros]:
    "fails_with X m \<Longrightarrow> (\<And>x. m = Inr x \<Longrightarrow> fails_with X (f x)) \<Longrightarrow> fails_with X (bindE m f)"
  and fails_with_if [fails_intros]:
    "(b \<Longrightarrow> fails_with X m) \<Longrightarrow> (\<not> b \<Longrightarrow> fails_with X m') \<Longrightarrow> fails_with X (if b then m else m')"
  and fails_with_prod [fails_intros]:
    "(\<And>x y. p = (x, y) \<Longrightarrow> fails_with X (g x y)) \<Longrightarrow> fails_with X (case p of (x, y) \<Rightarrow> g x y)"
  and fails_with_option [fails_intros]:
    "(a = None \<Longrightarrow> fails_with X m) \<Longrightarrow> (\<And>x. a = Some x \<Longrightarrow> fails_with X (h x)) \<Longrightarrow>
       fails_with X (case a of None \<Rightarrow> m | Some x \<Rightarrow> h x)"
  by (simp_all add: fails_with_def split: prod.split option.split) (cases m; simp)

lemma fails_with_mono: "fails_with X m \<Longrightarrow> X \<subseteq> Y \<Longrightarrow> fails_with Y m"
  by (auto simp: fails_with_def)

section \<open>Sizes\<close>

text \<open>Small numbers are told apart by their words.\<close>

lemma word_of_nat_eq_small:
  "a < 2 ^ LENGTH('w) \<Longrightarrow> b < 2 ^ LENGTH('w) \<Longrightarrow>
     (word_of_nat a :: 'w::len word) = word_of_nat b \<longleftrightarrow> a = b"
  by (simp add: word_of_nat_eq_iff take_bit_nat_eq_self)

lemma sint_of_nat_small:
  assumes "n < 2 ^ 31"
  shows "sint (word_of_nat n :: u32) = int n"
proof -
  have "int n < 2 ^ 31" using assms of_nat_less_iff [of n "2 ^ 31", where ?'a = int] by simp
  then show ?thesis by (simp add: signed_of_nat signed_take_bit_int_eq_self)
qed

text \<open>
  A \<open>size_t\<close> is a \<open>nat\<close>; only its subtraction can leave the range in this code, and it wraps.
\<close>

definition size_sub :: "nat \<Rightarrow> nat \<Rightarrow> nat" where
  "size_sub a b = (if b \<le> a then a - b else a + 2 ^ 64 - b)"

lemma size_sub_le [simp]: "b \<le> a \<Longrightarrow> size_sub a b = a - b"
  by (simp add: size_sub_def)

section \<open>Little-endian numbers\<close>

fun nat_le :: "nat \<Rightarrow> nat \<Rightarrow> bytes" where
  "nat_le 0 n = []"
| "nat_le (Suc k) n = word_of_nat n # nat_le k (n div 256)"

fun le_nat :: "bytes \<Rightarrow> nat" where
  "le_nat [] = 0"
| "le_nat (b # bs) = unat b + 256 * le_nat bs"

lemma length_nat_le [simp]: "length (nat_le k n) = k"
  by (induction k arbitrary: n) auto

lemma le_nat_nat_le: "le_nat (nat_le k n) = n mod 256 ^ k"
proof (induction k arbitrary: n)
  case 0
  then show ?case by simp
next
  case (Suc k)
  have "unat (word_of_nat n :: byte) = n mod 256"
    by (simp add: unat_of_nat take_bit_eq_mod)
  with Suc show ?case
    by (simp add: mod_mult2_eq)
qed

lemma le_nat_nat_le_small [simp]: "n < 256 ^ k \<Longrightarrow> le_nat (nat_le k n) = n"
  by (simp add: le_nat_nat_le)

section \<open>Lists\<close>

lemma concat_map_length_const:
  assumes "\<And>x. x \<in> set xs \<Longrightarrow> length (f x) = k"
  shows "length (concat (map f xs)) = k * length xs"
  using assms by (induction xs) auto

text \<open>Splitting a concatenation of equally long chunks at a chunk gives the chunk back.\<close>

lemma take_drop_concat_chunk:
  assumes "\<And>x. x \<in> set xs \<Longrightarrow> length x = k" and "i < length xs"
  shows "take k (drop (i * k) (concat xs)) = xs ! i"
  using assms
proof (induction xs arbitrary: i)
  case Nil
  then show ?case by simp
next
  case (Cons x xs)
  show ?case
  proof (cases i)
    case 0
    with Cons.prems show ?thesis by simp
  next
    case (Suc j)
    have len: "length x = k" using Cons.prems(1) by simp
    have "take k (drop (j * k) (concat xs)) = xs ! j"
      using Cons.prems Suc by (intro Cons.IH) auto
    with Suc len show ?thesis by simp
  qed
qed

end
