(* ===== verification/DataStream.thy ===== *)
theory DataStream
  imports Prelude
begin

text \<open>
  The interface of salticidae's \<open>DataStream\<close>, which is not part of the repository: writing a
  value appends bytes at the end, reading consumes bytes from the front. The encoders and
  decoders of the basic types are a parameter (\<open>stream_ops\<close>); the code relies on reading
  back what was written (\<open>stream_ok\<close>). On top of it stands the contract of every
  serializable class of the code, the locale \<open>codec\<close>, with the lemmas that compose codecs.
\<close>

record stream_ops =
  put_u8 :: "byte \<Rightarrow> bytes"
  get_u8 :: "bytes \<Rightarrow> (byte \<times> bytes) res"
  put_u16 :: "u16 \<Rightarrow> bytes"
  get_u16 :: "bytes \<Rightarrow> (u16 \<times> bytes) res"
  put_u32 :: "u32 \<Rightarrow> bytes"
  get_u32 :: "bytes \<Rightarrow> (u32 \<times> bytes) res"
  put_u256 :: "uint256 \<Rightarrow> bytes"
  get_u256 :: "bytes \<Rightarrow> (uint256 \<times> bytes) res"
  put_bits :: "bool list \<Rightarrow> bytes"
  get_bits :: "bytes \<Rightarrow> (bool list \<times> bytes) res"
  put_data :: "bytes \<Rightarrow> bytes"
  get_data :: "nat \<Rightarrow> bytes \<Rightarrow> (bytes \<times> bytes) res"
  htole :: "u32 \<Rightarrow> u32"
  letoh :: "u32 \<Rightarrow> u32"

definition stream_ok :: "stream_ops \<Rightarrow> bool" where
  "stream_ok S \<longleftrightarrow>
     (\<forall>x r. get_u8 S (put_u8 S x @ r) = Inr (x, r)) \<and>
     (\<forall>x r. get_u16 S (put_u16 S x @ r) = Inr (x, r)) \<and>
     (\<forall>x r. get_u32 S (put_u32 S x @ r) = Inr (x, r)) \<and>
     (\<forall>x r. get_u256 S (put_u256 S x @ r) = Inr (x, r)) \<and>
     (\<forall>x r. length x < 2 ^ 32 \<longrightarrow> get_bits S (put_bits S x @ r) = Inr (x, r)) \<and>
     (\<forall>x r. get_data S (length x) (put_data S x @ r) = Inr (x, r)) \<and>
     put_data S [] = [] \<and>
     (\<forall>x. letoh S (htole S x) = x)"

section \<open>Writing\<close>

text \<open>
  Serializing can fail (a null certificate is dereferenced, a signature is missing), so a
  writer returns the bytes it appends as a result. \<open>cat\<close> is \<open>s << x << y\<close>.
\<close>

definition cat :: "bytes res \<Rightarrow> bytes res \<Rightarrow> bytes res" where
  "cat a b = bindE a (\<lambda>x. bindE b (\<lambda>y. Inr (x @ y)))"

lemma cat_simps [simp, res_simps]:
  "cat (Inl e) b = Inl e"
  "cat (Inr x) (Inl e) = Inl e"
  "cat (Inr x) (Inr y) = Inr (x @ y)"
  by (simp_all add: cat_def)

lemma cat_Inr_iff: "cat a b = Inr z \<longleftrightarrow> (\<exists>x y. a = Inr x \<and> b = Inr y \<and> z = x @ y)"
  by (auto simp: cat_def bindE_Inr_iff)

text \<open>\<open>for (auto x: xs) s << x\<close>, and \<open>xs.resize(n); for (auto &x: xs) s >> x\<close>.\<close>

fun put_all :: "('a \<Rightarrow> bytes res) \<Rightarrow> 'a list \<Rightarrow> bytes res" where
  "put_all f [] = Inr []"
| "put_all f (x # xs) = cat (f x) (put_all f xs)"

fun get_n :: "(bytes \<Rightarrow> ('a \<times> bytes) res) \<Rightarrow> nat \<Rightarrow> bytes \<Rightarrow> ('a list \<times> bytes) res" where
  "get_n f 0 s = Inr ([], s)"
| "get_n f (Suc n) s =
     bindE (f s) (\<lambda>(x, s1). bindE (get_n f n s1) (\<lambda>(xs, s2). Inr (x # xs, s2)))"

text \<open>
  A size prefix and the elements: \<open>s << htole((uint32_t)xs.size()); for (x: xs) s << x\<close>.
\<close>

definition put_vec :: "stream_ops \<Rightarrow> ('a \<Rightarrow> bytes res) \<Rightarrow> 'a list \<Rightarrow> bytes res" where
  "put_vec S f xs = cat (Inr (put_u32 S (htole S (word_of_nat (length xs))))) (put_all f xs)"

definition get_vec ::
  "stream_ops \<Rightarrow> (bytes \<Rightarrow> ('a \<times> bytes) res) \<Rightarrow> bytes \<Rightarrow> ('a list \<times> bytes) res" where
  "get_vec S f s = bindE (get_u32 S s) (\<lambda>(n, s1). get_n f (unat (letoh S n)) s1)"

text \<open>
  A size prefix and raw bytes, the reader's \<open>get_data_inplace\<close> guarded by \<open>n == 0\<close>.
\<close>

definition put_blob :: "stream_ops \<Rightarrow> bytes \<Rightarrow> bytes" where
  "put_blob S b = put_u32 S (htole S (word_of_nat (length b))) @ put_data S b"

definition get_blob :: "stream_ops \<Rightarrow> bytes \<Rightarrow> (bytes \<times> bytes) res" where
  "get_blob S s = bindE (get_u32 S s) (\<lambda>(n, s1).
     let n = letoh S n in
     if n = 0 then Inr ([], s1) else get_data S (unat n) s1)"

section \<open>The contract of a serializable class\<close>

locale codec =
  fixes enc :: "'a \<Rightarrow> bytes res"
    and dec :: "bytes \<Rightarrow> ('a \<times> bytes) res"
    and ok :: "'a \<Rightarrow> bool"
  assumes enc_total: "ok x \<Longrightarrow> \<exists>b. enc x = Inr b"
    and dec_enc: "ok x \<Longrightarrow> enc x = Inr b \<Longrightarrow> dec (b @ r) = Inr (x, r)"
begin

lemma enc_prefix_free:
  assumes x: "ok x" "enc x = Inr a" and y: "ok y" "enc y = Inr b" and eq: "a @ r = b @ r'"
  shows "x = y \<and> r = r'"
proof -
  have "Inr (x, r) = dec (a @ r)" by (simp only: dec_enc [OF x])
  also have "\<dots> = dec (b @ r')" by (simp only: eq)
  also have "\<dots> = Inr (y, r')" by (simp only: dec_enc [OF y])
  finally show ?thesis by simp
qed

lemma enc_injective:
  assumes "ok x" "ok y" "enc x = enc y"
  shows "x = y"
  using enc_total [OF assms(1)] enc_prefix_free [OF assms(1) _ assms(2)] assms(3) by metis

lemma put_all_total:
  assumes "\<forall>x\<in>set xs. ok x"
  shows "\<exists>b. put_all enc xs = Inr b"
  using assms
proof (induction xs)
  case (Cons x xs)
  then show ?case using enc_total [of x] by (auto simp: cat_def)
qed simp

lemma get_n_put_all:
  assumes "\<forall>x\<in>set xs. ok x" and "put_all enc xs = Inr b"
  shows "get_n dec (length xs) (b @ r) = Inr (xs, r)"
  using assms
proof (induction xs arbitrary: b)
  case (Cons x xs)
  then show ?case by (auto simp: cat_Inr_iff dec_enc)
qed simp

end

section \<open>A stream that reads back what it wrote\<close>

locale stream =
  fixes S :: stream_ops
  assumes laws: "stream_ok S"
begin

lemma u8 [simp]: "get_u8 S (put_u8 S x @ r) = Inr (x, r)"
  and u16 [simp]: "get_u16 S (put_u16 S y @ r) = Inr (y, r)"
  and u32 [simp]: "get_u32 S (put_u32 S z @ r) = Inr (z, r)"
  and u256 [simp]: "get_u256 S (put_u256 S h @ r) = Inr (h, r)"
  and data [simp]: "get_data S (length b) (put_data S b @ r) = Inr (b, r)"
  and endian [simp]: "letoh S (htole S w) = w"
  using laws by (simp_all add: stream_ok_def)

lemma bits: "length v < 2 ^ 32 \<Longrightarrow> get_bits S (put_bits S v @ r) = Inr (v, r)"
  using laws by (simp add: stream_ok_def)

lemma size_prefix: "n < 2 ^ 32 \<Longrightarrow> unat (letoh S (htole S (word_of_nat n))) = n"
  by (simp add: unat_of_nat take_bit_eq_mod)

lemma blob [simp]:
  assumes "length b < 2 ^ 32"
  shows "get_blob S (put_blob S b @ r) = Inr (b, r)"
proof -
  let ?n = "letoh S (htole S (word_of_nat (length b)))"
  have n: "unat ?n = length b" using assms by (rule size_prefix)
  show ?thesis
  proof (cases "b = []")
    case True
    with n show ?thesis using laws by (simp add: get_blob_def put_blob_def Let_def stream_ok_def)
  next
    case False
    with n have "?n \<noteq> 0" by force
    with n show ?thesis by (simp add: get_blob_def put_blob_def Let_def)
  qed
qed

lemma vec_codec:
  assumes "codec enc dec ok"
  shows "codec (put_vec S enc) (get_vec S dec) (\<lambda>xs. (\<forall>x\<in>set xs. ok x) \<and> length xs < 2 ^ 32)"
proof
  fix xs :: "'a list"
  assume *: "(\<forall>x\<in>set xs. ok x) \<and> length xs < 2 ^ 32"
  then obtain c where c: "put_all enc xs = Inr c"
    using codec.put_all_total [OF assms] by blast
  then show "\<exists>b. put_vec S enc xs = Inr b" by (simp add: put_vec_def)
  fix b r
  assume b: "put_vec S enc xs = Inr b"
  from * c show "get_vec S dec (b @ r) = Inr (xs, r)"
    using codec.get_n_put_all [OF assms _ c] size_prefix [of "length xs"] b
    by (auto simp: put_vec_def get_vec_def)
qed

end

sublocale stream \<subseteq> hash: codec "\<lambda>h. Inr (put_u256 S h)" "get_u256 S" "\<lambda>_. True"
  by unfold_locales auto

sublocale stream \<subseteq> hashes: codec
  "put_vec S (\<lambda>h. Inr (put_u256 S h))" "get_vec S (get_u256 S)" "\<lambda>xs. length xs < 2 ^ 32"
  using vec_codec [OF hash.codec_axioms] by simp

context stream
begin

lemma hashes_total:
  "length hs < 2 ^ 32 \<Longrightarrow> \<exists>b. put_vec S (\<lambda>h. Inr (put_u256 S h)) hs = Inr b"
  by (rule hashes.enc_total)

lemma hashes_read:
  "length hs < 2 ^ 32 \<Longrightarrow> put_vec S (\<lambda>h. Inr (put_u256 S h)) hs = Inr b \<Longrightarrow>
     get_vec S (get_u256 S) (b @ r) = Inr (hs, r)"
  by (rule hashes.dec_enc)

end

section \<open>A concrete stream\<close>

text \<open>
  The raw little-endian layout that \<open>DataStream\<close> has on the x86 machines the build targets
  (\<open>-msse4.1\<close>). The laws hold of it, and the examples evaluate on it.
\<close>

definition get_le :: "nat \<Rightarrow> bytes \<Rightarrow> ('w::len word \<times> bytes) res" where
  "get_le k s =
     (if length s < k then Inl IosFailure
      else Inr (word_of_nat (le_nat (take k s)), drop k s))"

definition get_raw :: "nat \<Rightarrow> bytes \<Rightarrow> (bytes \<times> bytes) res" where
  "get_raw n s = (if length s < n then Inl IosFailure else Inr (take n s, drop n s))"

definition le_stream :: stream_ops where
  "le_stream =
    \<lparr>put_u8 = (\<lambda>x. nat_le 1 (unat x)), get_u8 = get_le 1,
     put_u16 = (\<lambda>x. nat_le 2 (unat x)), get_u16 = get_le 2,
     put_u32 = (\<lambda>x. nat_le 4 (unat x)), get_u32 = get_le 4,
     put_u256 = (\<lambda>x. nat_le 32 (unat x)), get_u256 = get_le 32,
     put_bits = (\<lambda>v. nat_le 4 (length v) @ map (\<lambda>b. if b then 1 else 0) v),
     get_bits = (\<lambda>s. bindE (get_le 4 s) (\<lambda>(n::u32, s1).
       bindE (get_raw (unat n) s1) (\<lambda>(v, s2). Inr (map (\<lambda>b. b \<noteq> 0) v, s2)))),
     put_data = (\<lambda>b. b), get_data = get_raw,
     htole = (\<lambda>x. x), letoh = (\<lambda>x. x)\<rparr>"

lemma get_le_nat_le:
  fixes x :: "'w::len word"
  assumes "256 ^ k = (2::nat) ^ LENGTH('w)"
  shows "get_le k (nat_le k (unat x) @ r) = Inr (x, r)"
proof -
  have "unat x < 256 ^ k" using unsigned_less [of x] assms by simp
  then show ?thesis by (simp add: get_le_def)
qed

lemma get_le_byte: "get_le (Suc 0) (x # r) = Inr (x :: byte, r)"
  by (simp add: get_le_def)

lemma get_raw_append [simp]: "get_raw (length b) (b @ r) = Inr (b, r)"
  by (simp add: get_raw_def)

lemma get_le_length:
  "n < 2 ^ 32 \<Longrightarrow> get_le 4 (nat_le 4 n @ r) = Inr (word_of_nat n :: u32, r)"
  by (simp add: get_le_def)

interpretation le: stream le_stream
proof
  have bits: "get_bits le_stream (put_bits le_stream v @ r) = Inr (v, r)"
    if len: "length v < 2 ^ 32" for v r
  proof -
    let ?b = "map (\<lambda>b. if b then 1 else 0 :: byte) v"
    have "unat (word_of_nat (length v) :: u32) = length ?b"
      using len by (simp add: unat_of_nat take_bit_eq_mod)
    then have "get_raw (unat (word_of_nat (length v) :: u32)) (?b @ r) = Inr (?b, r)"
      by (simp only: get_raw_append)
    moreover have "map (\<lambda>b. b \<noteq> 0) ?b = v" by (simp add: comp_def)
    ultimately show ?thesis using len by (simp add: le_stream_def get_le_length)
  qed
  show "stream_ok le_stream"
    unfolding stream_ok_def using bits
    by (simp add: le_stream_def get_le_nat_le get_le_byte)
qed

end
