(* ===== verification/Crypto.thy ===== *)
theory Crypto
  imports DataStream
begin

text \<open>
  Keys, signatures and vote certificates (include/hotstuff/crypto.h): the classes
  \<open>PubKey\<close>, \<open>PrivKey\<close>, \<open>SigSecp256k1\<close> and \<open>PartCert\<close> with both their implementations,
  the dummy one and the one over secp256k1. The secp256k1 library and the conversion of a
  \<open>uint256_t\<close> to bytes are not part of the repository: they are the parameter
  \<open>crypto_ops\<close>, with what the code relies on stated as \<open>crypto_ok\<close>. A library object is
  the bytes of its opaque struct; the library's contexts only hold precomputed tables and
  are left out.
\<close>

record crypto_ops =
  ec_pubkey_create :: "bytes \<Rightarrow> bytes option"
  ec_pubkey_serialize :: "bytes \<Rightarrow> bytes"
  ec_pubkey_parse :: "bytes \<Rightarrow> bytes option"
  ecdsa_sign :: "bytes \<Rightarrow> bytes \<Rightarrow> bytes option"
  ecdsa_verify :: "bytes \<Rightarrow> bytes \<Rightarrow> bytes \<Rightarrow> bool"
  ecdsa_serialize_compact :: "bytes \<Rightarrow> bytes"
  ecdsa_parse_compact :: "bytes \<Rightarrow> bytes option"
  uint256_bytes :: "uint256 \<Rightarrow> bytes"

text \<open>
  The documented behaviour of the library: a 256-bit value has 32 bytes; compact
  signatures have 64 bytes and parse back; a signature made with a private key verifies
  under the public key created from it. A signature object is one that the library made.
\<close>

definition ecdsa_valid :: "crypto_ops \<Rightarrow> bytes \<Rightarrow> bool" where
  "ecdsa_valid C sg \<longleftrightarrow>
     length (ecdsa_serialize_compact C sg) = 64 \<and>
     ecdsa_parse_compact C (ecdsa_serialize_compact C sg) = Some sg"

definition crypto_ok :: "crypto_ops \<Rightarrow> bool" where
  "crypto_ok C \<longleftrightarrow>
     (\<forall>h. length (uint256_bytes C h) = 32) \<and>
     (\<forall>m k sg. ecdsa_sign C m k = Some sg \<longrightarrow> ecdsa_valid C sg) \<and>
     (\<forall>b sg. ecdsa_parse_compact C b = Some sg \<longrightarrow> ecdsa_valid C sg) \<and>
     (\<forall>m k sg pk. ecdsa_sign C m k = Some sg \<longrightarrow> ec_pubkey_create C k = Some pk \<longrightarrow>
        ecdsa_verify C sg m pk)"

section \<open>Keys\<close>

datatype pub_key = PubKeyDummy | PubKeySecp256k1 bytes

datatype priv_key = PrivKeyDummy | PrivKeySecp256k1 bytes

text \<open>
  Which classes the template \<open>HotStuff<PrivKey, PubKey, PartCert, QuorumCert>\<close> is
  instantiated with: \<open>HotStuffNoSig\<close> or \<open>HotStuffSecp256k1\<close>.
\<close>

datatype crypto_kind = NoSig | Secp256k1

fun get_pubkey_of :: "crypto_ops \<Rightarrow> priv_key \<Rightarrow> pub_key res" where
  "get_pubkey_of C PrivKeyDummy = Inr PubKeyDummy"
| "get_pubkey_of C (PrivKeySecp256k1 d) =
     (case ec_pubkey_create C d of
        None \<Rightarrow> Inl (InvalidArgument ''invalid secp256k1 private key'')
      | Some pk \<Rightarrow> Inr (PubKeySecp256k1 pk))"

fun put_pub_key :: "stream_ops \<Rightarrow> crypto_ops \<Rightarrow> pub_key \<Rightarrow> bytes res" where
  "put_pub_key S C PubKeyDummy = Inr []"
| "put_pub_key S C (PubKeySecp256k1 d) = Inr (put_data S (ec_pubkey_serialize C d))"

text \<open>A short read is turned into the same exception as an ill-formed key.\<close>

fun get_pub_key :: "stream_ops \<Rightarrow> crypto_ops \<Rightarrow> crypto_kind \<Rightarrow> bytes \<Rightarrow> (pub_key \<times> bytes) res" where
  "get_pub_key S C NoSig s = Inr (PubKeyDummy, s)"
| "get_pub_key S C Secp256k1 s =
     (case get_data S 33 s of
        Inl e \<Rightarrow> Inl (InvalidArgument ''ill-formed public key'')
      | Inr (d, s1) \<Rightarrow>
          (case ec_pubkey_parse C d of
             None \<Rightarrow> Inl (InvalidArgument ''ill-formed public key'')
           | Some pk \<Rightarrow> Inr (PubKeySecp256k1 pk, s1)))"

fun put_priv_key :: "stream_ops \<Rightarrow> priv_key \<Rightarrow> bytes res" where
  "put_priv_key S PrivKeyDummy = Inr []"
| "put_priv_key S (PrivKeySecp256k1 d) = Inr (put_data S d)"

fun get_priv_key :: "stream_ops \<Rightarrow> crypto_kind \<Rightarrow> bytes \<Rightarrow> (priv_key \<times> bytes) res" where
  "get_priv_key S NoSig s = Inr (PrivKeyDummy, s)"
| "get_priv_key S Secp256k1 s =
     (case get_data S 32 s of
        Inl e \<Rightarrow> Inl (InvalidArgument ''ill-formed private key'')
      | Inr (d, s1) \<Rightarrow> Inr (PrivKeySecp256k1 d, s1))"

text \<open>\<open>from_rand\<close>: the random bytes are OpenSSL's, \<open>None\<close> when it has none to give.\<close>

fun from_rand :: "bytes option \<Rightarrow> priv_key \<Rightarrow> priv_key res" where
  "from_rand r PrivKeyDummy = Inr PrivKeyDummy"
| "from_rand r (PrivKeySecp256k1 d) =
     (case r of
        None \<Rightarrow> Inl (RuntimeError ''cannot get rand bytes from openssl'')
      | Some d' \<Rightarrow> Inr (PrivKeySecp256k1 d'))"

section \<open>Signatures\<close>

definition check_msg_length :: "bytes \<Rightarrow> unit res" where
  "check_msg_length msg =
     (if length msg \<noteq> 32 then Inl (InvalidArgument ''the message should be 32-bytes'')
      else Inr ())"

definition sig_sign :: "crypto_ops \<Rightarrow> bytes \<Rightarrow> bytes \<Rightarrow> bytes res" where
  "sig_sign C msg sk = bindE (check_msg_length msg) (\<lambda>_.
     case ecdsa_sign C msg sk of
       None \<Rightarrow> Inl (InvalidArgument ''failed to create secp256k1 signature'')
     | Some sg \<Rightarrow> Inr sg)"

definition sig_verify :: "crypto_ops \<Rightarrow> bytes \<Rightarrow> bytes \<Rightarrow> bytes \<Rightarrow> bool res" where
  "sig_verify C sg msg pk =
     bindE (check_msg_length msg) (\<lambda>_. Inr (ecdsa_verify C sg msg pk))"

definition put_sig :: "stream_ops \<Rightarrow> crypto_ops \<Rightarrow> bytes \<Rightarrow> bytes res" where
  "put_sig S C sg = Inr (put_data S (ecdsa_serialize_compact C sg))"

definition get_sig :: "stream_ops \<Rightarrow> crypto_ops \<Rightarrow> bytes \<Rightarrow> (bytes \<times> bytes) res" where
  "get_sig S C s =
     (case get_data S 64 s of
        Inl e \<Rightarrow> Inl (InvalidArgument ''ill-formed signature'')
      | Inr (d, s1) \<Rightarrow>
          (case ecdsa_parse_compact C d of
             None \<Rightarrow> Inl (InvalidArgument ''ill-formed signature'')
           | Some sg \<Rightarrow> Inr (sg, s1)))"

section \<open>Certificates of single votes\<close>

datatype part_cert = PartCertDummy uint256 | PartCertSecp256k1 bytes uint256

fun part_cert_obj_hash :: "part_cert \<Rightarrow> uint256" where
  "part_cert_obj_hash (PartCertDummy h) = h"
| "part_cert_obj_hash (PartCertSecp256k1 sg h) = h"

text \<open>
  \<open>HotStuff::create_part_cert\<close>: the constructor of the chosen certificate class, which
  casts the private key to its own class and signs the block hash.
\<close>

fun create_part_cert ::
  "crypto_ops \<Rightarrow> crypto_kind \<Rightarrow> priv_key \<Rightarrow> uint256 \<Rightarrow> part_cert res" where
  "create_part_cert C NoSig k h = Inr (PartCertDummy h)"
| "create_part_cert C Secp256k1 (PrivKeySecp256k1 d) h =
     bindE (sig_sign C (uint256_bytes C h) d) (\<lambda>sg. Inr (PartCertSecp256k1 sg h))"
| "create_part_cert C Secp256k1 PrivKeyDummy h = Inl BadCast"

fun part_cert_verify :: "crypto_ops \<Rightarrow> part_cert \<Rightarrow> pub_key \<Rightarrow> bool res" where
  "part_cert_verify C (PartCertDummy h) pk = Inr True"
| "part_cert_verify C (PartCertSecp256k1 sg h) (PubKeySecp256k1 d) =
     sig_verify C sg (uint256_bytes C h) d"
| "part_cert_verify C (PartCertSecp256k1 sg h) PubKeyDummy = Inl BadCast"

fun put_part_cert :: "stream_ops \<Rightarrow> crypto_ops \<Rightarrow> part_cert \<Rightarrow> bytes res" where
  "put_part_cert S C (PartCertDummy h) = Inr (put_u32 S 0 @ put_u256 S h)"
| "put_part_cert S C (PartCertSecp256k1 sg h) = cat (Inr (put_u256 S h)) (put_sig S C sg)"

text \<open>\<open>HotStuff::parse_part_cert\<close>: a fresh certificate of the chosen class, read from \<open>s\<close>.\<close>

fun parse_part_cert ::
  "stream_ops \<Rightarrow> crypto_ops \<Rightarrow> crypto_kind \<Rightarrow> bytes \<Rightarrow> (part_cert \<times> bytes) res" where
  "parse_part_cert S C NoSig s =
     bindE (get_u32 S s) (\<lambda>(tmp, s1). bindE (get_u256 S s1) (\<lambda>(h, s2). Inr (PartCertDummy h, s2)))"
| "parse_part_cert S C Secp256k1 s =
     bindE (get_u256 S s) (\<lambda>(h, s1). bindE (get_sig S C s1) (\<lambda>(sg, s2).
       Inr (PartCertSecp256k1 sg h, s2)))"

text \<open>The certificates a replica of the given kind holds: its class, with a library signature.\<close>

fun part_cert_ok :: "crypto_ops \<Rightarrow> crypto_kind \<Rightarrow> part_cert \<Rightarrow> bool" where
  "part_cert_ok C NoSig (PartCertDummy h) = True"
| "part_cert_ok C Secp256k1 (PartCertSecp256k1 sg h) = ecdsa_valid C sg"
| "part_cert_ok C k pc = False"

lemma part_cert_okE:
  assumes "part_cert_ok C k pc"
  obtains h where "k = NoSig" "pc = PartCertDummy h"
    | sg h where "k = Secp256k1" "pc = PartCertSecp256k1 sg h" "ecdsa_valid C sg"
  using assms by (cases "(C, k, pc)" rule: part_cert_ok.cases) auto

section \<open>Properties\<close>

lemma crypto_ok_length [simp]: "crypto_ok C \<Longrightarrow> length (uint256_bytes C h) = 32"
  by (simp add: crypto_ok_def)

context stream
begin

lemma get_sig_put_sig:
  assumes "ecdsa_valid C sg" and "put_sig S C sg = Inr b"
  shows "get_sig S C (b @ r) = Inr (sg, r)"
  using assms data [of "ecdsa_serialize_compact C sg" r]
  by (auto simp: get_sig_def put_sig_def ecdsa_valid_def)

lemma part_cert_codec: "codec (put_part_cert S C) (parse_part_cert S C k) (part_cert_ok C k)"
proof
  fix pc b r
  assume ok: "part_cert_ok C k pc"
  then show "\<exists>b. put_part_cert S C pc = Inr b"
    by (cases pc) (auto simp: put_sig_def)
  assume "put_part_cert S C pc = Inr b"
  with ok show "parse_part_cert S C k (b @ r) = Inr (pc, r)"
    by (elim part_cert_okE) (auto simp: cat_Inr_iff get_sig_put_sig)
qed

end

text \<open>A vote certificate made with a private key is accepted under its public key.\<close>

lemma create_part_cert_verifies:
  assumes "crypto_ok C" and "create_part_cert C k sk h = Inr pc" and "get_pubkey_of C sk = Inr pk"
  shows "part_cert_verify C pc pk = Inr True \<and> part_cert_obj_hash pc = h \<and> part_cert_ok C k pc"
  using assms
  by (cases k; cases sk)
     (auto simp: sig_sign_def sig_verify_def check_msg_length_def crypto_ok_def bindE_Inr_iff
       split: option.splits if_splits)

section \<open>A concrete instance of the library\<close>

text \<open>A stand-in with the laws of the library, for concrete instances of the properties.\<close>

definition toy_crypto :: crypto_ops where
  "toy_crypto =
    \<lparr>ec_pubkey_create = (\<lambda>k. Some k), ec_pubkey_serialize = (\<lambda>k. k),
     ec_pubkey_parse = (\<lambda>k. Some k),
     ecdsa_sign = (\<lambda>m k. if length m = 32 then Some (take 32 (k @ replicate 32 0) @ m) else None),
     ecdsa_verify = (\<lambda>sg m pk. sg = take 32 (pk @ replicate 32 0) @ m),
     ecdsa_serialize_compact = (\<lambda>sg. take 64 (sg @ replicate 64 0)),
     ecdsa_parse_compact = (\<lambda>b. if length b = 64 then Some b else None),
     uint256_bytes = (\<lambda>h. nat_le 32 (unat h))\<rparr>"

lemma toy_crypto_ok: "crypto_ok toy_crypto"
  by (auto simp: crypto_ok_def ecdsa_valid_def toy_crypto_def split: if_splits)

end
