(* ===== verification/ReplicaConfig.thy ===== *)
theory ReplicaConfig
  imports Crypto
begin

text \<open>
  The replica configuration (\<open>ReplicaInfo\<close> and \<open>ReplicaConfig\<close> of include/hotstuff/entity.h):
  which replica has which network identity and public key, and how many votes make a quorum.
\<close>

text \<open>A \<open>salticidae::PeerId\<close> is the 256-bit digest of a network address or certificate.\<close>

type_synonym peer_id = "256 word"

record replica_info =
  ri_id :: replica_id
  ri_peer_id :: peer_id
  ri_pubkey :: pub_key

record replica_config =
  replica_map :: "replica_id \<rightharpoonup> replica_info"
  peerid_map :: "peer_id \<rightharpoonup> replica_id"
  nreplicas :: nat
  nmajority :: nat

definition empty_config :: replica_config where
  "empty_config =
     \<lparr>replica_map = Map.empty, peerid_map = Map.empty, nreplicas = 0, nmajority = 0\<rparr>"

text \<open>\<open>unordered_map::insert\<close> keeps an entry that is there already; the count goes up anyway.\<close>

definition map_insert :: "('k \<rightharpoonup> 'v) \<Rightarrow> 'k \<Rightarrow> 'v \<Rightarrow> ('k \<rightharpoonup> 'v)" where
  "map_insert m k v = (case m k of None \<Rightarrow> m(k \<mapsto> v) | Some _ \<Rightarrow> m)"

lemma map_insert_apply:
  "map_insert m k v j = (if j = k then Some (case m k of None \<Rightarrow> v | Some w \<Rightarrow> w) else m j)"
  by (simp add: map_insert_def split: option.split)

lemma dom_map_insert [simp]: "dom (map_insert m k v) = insert k (dom m)"
  by (auto simp: map_insert_def split: option.splits)

definition cfg_add_replica :: "replica_id \<Rightarrow> replica_info \<Rightarrow> replica_config \<Rightarrow> replica_config" where
  "cfg_add_replica rid info c =
     c\<lparr>replica_map := map_insert (replica_map c) rid info,
       peerid_map := map_insert (peerid_map c) (ri_peer_id info) rid,
       nreplicas := nreplicas c + 1\<rparr>"

definition get_info :: "replica_config \<Rightarrow> replica_id \<Rightarrow> replica_info res" where
  "get_info c rid =
     (case replica_map c rid of
        None \<Rightarrow> Inl (HotStuffError ''rid not found'')
      | Some i \<Rightarrow> Inr i)"

definition get_pubkey :: "replica_config \<Rightarrow> replica_id \<Rightarrow> pub_key res" where
  "get_pubkey c rid = bindE (get_info c rid) (\<lambda>i. Inr (ri_pubkey i))"

definition get_peer_id :: "replica_config \<Rightarrow> replica_id \<Rightarrow> peer_id res" where
  "get_peer_id c rid = bindE (get_info c rid) (\<lambda>i. Inr (ri_peer_id i))"

definition get_rid :: "replica_config \<Rightarrow> peer_id \<Rightarrow> replica_id res" where
  "get_rid c p =
     (case peerid_map c p of
        None \<Rightarrow> Inl (HotStuffError ''peer id not found'')
      | Some r \<Rightarrow> Inr r)"

text \<open>
  \<open>HotStuffBase::start\<close> adds the replicas in the order of the configuration file with their
  index as identity; \<open>on_init\<close> then sets the quorum size.
\<close>

fun add_replicas :: "nat \<Rightarrow> (peer_id \<times> pub_key) list \<Rightarrow> replica_config \<Rightarrow> replica_config" where
  "add_replicas i [] c = c"
| "add_replicas i ((p, k) # rs) c =
     add_replicas (Suc i) rs
       (cfg_add_replica (word_of_nat i)
          \<lparr>ri_id = word_of_nat i, ri_peer_id = p, ri_pubkey = k\<rparr> c)"

definition set_majority :: "nat \<Rightarrow> replica_config \<Rightarrow> replica_config" where
  "set_majority nfaulty c = c\<lparr>nmajority := size_sub (nreplicas c) nfaulty\<rparr>"

section \<open>Properties\<close>

lemma nreplicas_add_replicas [simp]:
  "nreplicas (add_replicas i rs c) = nreplicas c + length rs"
  by (induction i rs c rule: add_replicas.induct) (auto simp: cfg_add_replica_def)

lemma add_replicas_other:
  assumes "\<And>j. i \<le> j \<Longrightarrow> j < i + length rs \<Longrightarrow> rid \<noteq> word_of_nat j"
  shows "replica_map (add_replicas i rs c) rid = replica_map c rid"
  using assms
proof (induction i rs c rule: add_replicas.induct)
  case (2 i p k rs c)
  have "rid \<noteq> word_of_nat i" using "2.prems" [of i] by simp
  moreover have "replica_map (add_replicas (Suc i) rs
      (cfg_add_replica (word_of_nat i) \<lparr>ri_id = word_of_nat i, ri_peer_id = p, ri_pubkey = k\<rparr> c)) rid
    = replica_map (cfg_add_replica (word_of_nat i)
        \<lparr>ri_id = word_of_nat i, ri_peer_id = p, ri_pubkey = k\<rparr> c) rid"
    by (rule "2.IH", rule "2.prems") auto
  ultimately show ?case by (simp add: cfg_add_replica_def map_insert_apply)
qed simp

text \<open>Every replica of the list is found under its index.\<close>

lemma add_replicas_lookup:
  assumes "j < length rs" and "i + length rs \<le> 2 ^ 16"
    and "\<And>j. i \<le> j \<Longrightarrow> j < i + length rs \<Longrightarrow> replica_map c (word_of_nat j) = None"
  shows "replica_map (add_replicas i rs c) (word_of_nat (i + j)) =
           Some \<lparr>ri_id = word_of_nat (i + j), ri_peer_id = fst (rs ! j), ri_pubkey = snd (rs ! j)\<rparr>"
  using assms
proof (induction i rs c arbitrary: j rule: add_replicas.induct)
  case (2 i p k rs c)
  let ?c = "cfg_add_replica (word_of_nat i) \<lparr>ri_id = word_of_nat i, ri_peer_id = p, ri_pubkey = k\<rparr> c"
  have inj: "(word_of_nat a :: replica_id) = word_of_nat b \<longleftrightarrow> a = b"
    if "a < 2 ^ 16" "b < 2 ^ 16" for a b
    using that by (intro word_of_nat_eq_small) simp_all
  show ?case
  proof (cases j)
    case 0
    have "replica_map (add_replicas (Suc i) rs ?c) (word_of_nat i) = replica_map ?c (word_of_nat i)"
      by (rule add_replicas_other) (use "2.prems"(2) in \<open>simp add: inj\<close>)
    then show ?thesis using 0 "2.prems"(3) [of i]
      by (simp add: cfg_add_replica_def map_insert_apply)
  next
    case (Suc j')
    have "replica_map ?c (word_of_nat l) = None" if "Suc i \<le> l" "l < Suc i + length rs" for l
      using that "2.prems"(2) "2.prems"(3) [of l]
      by (simp add: cfg_add_replica_def map_insert_apply inj)
    then show ?thesis using "2.IH" [of j'] "2.prems" Suc by simp
  qed
qed simp

text \<open>
  The size arithmetic of \<open>start\<close>: of \<open>n\<close> replicas, \<open>peers.size() / 3\<close> with \<open>n - 1\<close> peers
  may be faulty. Two quorums then share more replicas than may be faulty.
\<close>

lemma quorum_arith:
  fixes n f :: nat
  assumes "0 < n" "f = (n - 1) div 3"
  shows "n + f < 2 * (n - f)"
  using assms by linarith

end
