(* ===== verification/QuorumCert.thy ===== *)
theory QuorumCert
  imports ReplicaConfig
begin

text \<open>
  Quorum certificates: the interface \<open>QuorumCert\<close> of include/hotstuff/crypto.h as a locale,
  and its two implementations \<open>QuorumCertDummy\<close> and \<open>QuorumCertSecp256k1\<close>
  (include/hotstuff/crypto.h, src/crypto.cpp) as the constructors of one datatype. The bit
  set \<open>salticidae::Bits\<close> is a list of booleans.
\<close>

datatype quorum_cert =
    QuorumCertDummy uint256
  | QuorumCertSecp256k1 uint256 "bool list" "replica_id \<rightharpoonup> bytes"

text \<open>The class that \<open>HotStuff::create_quorum_cert\<close> instantiates.\<close>

fun create_quorum_cert :: "crypto_kind \<Rightarrow> replica_config \<Rightarrow> uint256 \<Rightarrow> quorum_cert" where
  "create_quorum_cert NoSig cfg h = QuorumCertDummy h"
| "create_quorum_cert Secp256k1 cfg h =
     QuorumCertSecp256k1 h (replicate (nreplicas cfg) False) Map.empty"

fun qc_obj_hash :: "quorum_cert \<Rightarrow> uint256" where
  "qc_obj_hash (QuorumCertDummy h) = h"
| "qc_obj_hash (QuorumCertSecp256k1 h rids sigs) = h"

fun qc_add_part :: "quorum_cert \<Rightarrow> replica_id \<Rightarrow> part_cert \<Rightarrow> quorum_cert res" where
  "qc_add_part (QuorumCertDummy h) rid pc = Inr (QuorumCertDummy h)"
| "qc_add_part (QuorumCertSecp256k1 h rids sigs) rid pc =
     (if part_cert_obj_hash pc \<noteq> h
      then Inl (InvalidArgument ''PartCert does match the block hash'')
      else case pc of
          PartCertDummy _ \<Rightarrow> Inl BadCast
        | PartCertSecp256k1 sg _ \<Rightarrow>
            if unat rid < length rids
            then Inr (QuorumCertSecp256k1 h (rids[unat rid := True]) (map_insert sigs rid sg))
            else Inl OutOfBounds)"

definition qc_compute :: "quorum_cert \<Rightarrow> quorum_cert" where
  "qc_compute q = q"

text \<open>The positions of the set bits, in the order of \<open>for (i = 0; i < rids.size(); i++)\<close>.\<close>

definition set_bits :: "bool list \<Rightarrow> nat list" where
  "set_bits rids = filter (\<lambda>i. rids ! i) [0..<length rids]"

text \<open>Checking one signature: the map's \<open>operator[]\<close> makes up an uninitialised missing one.\<close>

definition check_cert ::
  "crypto_ops \<Rightarrow> replica_config \<Rightarrow> uint256 \<Rightarrow> (replica_id \<rightharpoonup> bytes) \<Rightarrow> nat \<Rightarrow> bool res" where
  "check_cert C cfg h sigs i =
     bindE (get_pubkey cfg (word_of_nat i)) (\<lambda>pk.
       case (sigs (word_of_nat i), pk) of
         (Some sg, PubKeySecp256k1 d) \<Rightarrow> sig_verify C sg (uint256_bytes C h) d
       | (None, PubKeySecp256k1 d) \<Rightarrow> Inl Uninitialised
       | (_, PubKeyDummy) \<Rightarrow> Inl BadCast)"

fun check_certs ::
  "crypto_ops \<Rightarrow> replica_config \<Rightarrow> uint256 \<Rightarrow> (replica_id \<rightharpoonup> bytes) \<Rightarrow> nat list \<Rightarrow> bool res" where
  "check_certs C cfg h sigs [] = Inr True"
| "check_certs C cfg h sigs (i # is) =
     bindE (check_cert C cfg h sigs i) (\<lambda>b.
       if \<not> b then Inr False else check_certs C cfg h sigs is)"

fun qc_verify :: "crypto_ops \<Rightarrow> replica_config \<Rightarrow> quorum_cert \<Rightarrow> bool res" where
  "qc_verify C cfg (QuorumCertDummy h) = Inr True"
| "qc_verify C cfg (QuorumCertSecp256k1 h rids sigs) =
     (if card (dom sigs) < nmajority cfg then Inr False
      else check_certs C cfg h sigs (set_bits rids))"

text \<open>
  \<open>verify(config, vpool)\<close>: every set bit becomes a task of the verification pool, and the
  returned promise is resolved with the conjunction of the tasks' results (the value here).
  \<open>promise::all\<close> of no promises throws.
\<close>

fun check_tasks ::
  "crypto_ops \<Rightarrow> replica_config \<Rightarrow> uint256 \<Rightarrow> (replica_id \<rightharpoonup> bytes) \<Rightarrow> nat list \<Rightarrow> bool list res" where
  "check_tasks C cfg h sigs [] = Inr []"
| "check_tasks C cfg h sigs (i # is) =
     bindE (check_cert C cfg h sigs i) (\<lambda>b.
       bindE (check_tasks C cfg h sigs is) (\<lambda>bs. Inr (b # bs)))"

fun qc_verify_pool :: "crypto_ops \<Rightarrow> replica_config \<Rightarrow> quorum_cert \<Rightarrow> bool res" where
  "qc_verify_pool C cfg (QuorumCertDummy h) = Inr True"
| "qc_verify_pool C cfg (QuorumCertSecp256k1 h rids sigs) =
     (if card (dom sigs) < nmajority cfg then Inr False
      else bindE (check_tasks C cfg h sigs (set_bits rids)) (\<lambda>vs.
        if vs = [] then Inl (RuntimeError ''mismatching promise value types'')
        else Inr (list_all id vs)))"

section \<open>Serialization\<close>

fun put_qc :: "stream_ops \<Rightarrow> crypto_ops \<Rightarrow> quorum_cert \<Rightarrow> bytes res" where
  "put_qc S C (QuorumCertDummy h) = Inr (put_u32 S 1 @ put_u256 S h)"
| "put_qc S C (QuorumCertSecp256k1 h rids sigs) =
     cat (Inr (put_u256 S h @ put_bits S rids))
       (put_all (\<lambda>i. case sigs (word_of_nat i) of None \<Rightarrow> Inl OutOfRange | Some sg \<Rightarrow> put_sig S C sg)
          (set_bits rids))"

fun get_sigs ::
  "stream_ops \<Rightarrow> crypto_ops \<Rightarrow> nat list \<Rightarrow> (replica_id \<rightharpoonup> bytes) \<Rightarrow> bytes \<Rightarrow>
   ((replica_id \<rightharpoonup> bytes) \<times> bytes) res" where
  "get_sigs S C [] sigs s = Inr (sigs, s)"
| "get_sigs S C (i # is) sigs s =
     bindE (get_sig S C s) (\<lambda>(sg, s1). get_sigs S C is (sigs(word_of_nat i \<mapsto> sg)) s1)"

fun parse_quorum_cert ::
  "stream_ops \<Rightarrow> crypto_ops \<Rightarrow> crypto_kind \<Rightarrow> bytes \<Rightarrow> (quorum_cert \<times> bytes) res" where
  "parse_quorum_cert S C NoSig s =
     bindE (get_u32 S s) (\<lambda>(tmp, s1). bindE (get_u256 S s1) (\<lambda>(h, s2).
       Inr (QuorumCertDummy h, s2)))"
| "parse_quorum_cert S C Secp256k1 s =
     bindE (get_u256 S s) (\<lambda>(h, s1). bindE (get_bits S s1) (\<lambda>(rids, s2).
       bindE (get_sigs S C (set_bits rids) Map.empty s2) (\<lambda>(sigs, s3).
         Inr (QuorumCertSecp256k1 h rids sigs, s3))))"

text \<open>
  What holds of every certificate a replica of the given kind builds or parses: there is a
  signature for each set bit and for no other replica, and each was made by the library.
\<close>

fun qc_ok :: "crypto_ops \<Rightarrow> crypto_kind \<Rightarrow> quorum_cert \<Rightarrow> bool" where
  "qc_ok C NoSig (QuorumCertDummy h) = True"
| "qc_ok C Secp256k1 (QuorumCertSecp256k1 h rids sigs) =
     (length rids \<le> 2 ^ 16 \<and> dom sigs = word_of_nat ` set (set_bits rids) \<and>
      (\<forall>sg\<in>ran sigs. ecdsa_valid C sg))"
| "qc_ok C k q = False"

lemma qc_okE:
  assumes "qc_ok C k q"
  obtains h where "k = NoSig" "q = QuorumCertDummy h"
    | h rids sigs where "k = Secp256k1" "q = QuorumCertSecp256k1 h rids sigs"
        "length rids \<le> 2 ^ 16" "dom sigs = word_of_nat ` set (set_bits rids)"
        "\<forall>sg\<in>ran sigs. ecdsa_valid C sg"
  using assms by (cases "(C, k, q)" rule: qc_ok.cases) auto

section \<open>The interface\<close>

text \<open>
  What the core relies on of any \<open>QuorumCert\<close>: it certifies one object for good, whatever
  is added to it.
\<close>

locale quorum_cert_class =
  fixes obj_hash :: "'q \<Rightarrow> uint256"
    and create :: "replica_config \<Rightarrow> uint256 \<Rightarrow> 'q"
    and add_part :: "'q \<Rightarrow> replica_id \<Rightarrow> part_cert \<Rightarrow> 'q res"
    and compute :: "'q \<Rightarrow> 'q"
    and good :: "'q \<Rightarrow> bool"
  assumes obj_hash_create: "obj_hash (create cfg h) = h"
    and obj_hash_add_part: "add_part q rid pc = Inr q' \<Longrightarrow> obj_hash q' = obj_hash q"
    and obj_hash_compute: "obj_hash (compute q) = obj_hash q"
    and good_create: "nreplicas cfg \<le> 2 ^ 16 \<Longrightarrow> good (create cfg h)"
    and good_compute: "good q \<Longrightarrow> good (compute q)"
begin

lemma obj_hash_add_parts:
  "foldE (\<lambda>q v. add_part q (fst v) (snd v)) q vs = Inr q' \<Longrightarrow> obj_hash q' = obj_hash q"
  by (erule foldE_invariant [where P = "\<lambda>q'. obj_hash q' = obj_hash q"])
     (auto dest: obj_hash_add_part)

lemma collected_obj_hash:
  "foldE (\<lambda>q v. add_part q (fst v) (snd v)) (create cfg h) vs = Inr q \<Longrightarrow>
     obj_hash (compute q) = h"
  by (simp add: obj_hash_compute obj_hash_add_parts obj_hash_create)

end

lemma set_bits_replicate [simp]: "set_bits (replicate n False) = []"
  by (simp add: set_bits_def)

lemma set_set_bits: "set (set_bits rids) = {i. i < length rids \<and> rids ! i}"
  by (auto simp: set_bits_def)

lemma set_bits_update:
  "i < length rids \<Longrightarrow> set (set_bits (rids[i := True])) = insert i (set (set_bits rids))"
  by (auto simp: set_set_bits nth_list_update)

lemma qc_obj_hash_create [simp]: "qc_obj_hash (create_quorum_cert k cfg h) = h"
  by (cases k) simp_all

lemma qc_obj_hash_add_part: "qc_add_part q rid pc = Inr q' \<Longrightarrow> qc_obj_hash q' = qc_obj_hash q"
  by (cases q; cases pc) (auto split: if_splits)

lemma qc_obj_hash_compute [simp]: "qc_obj_hash (qc_compute q) = qc_obj_hash q"
  by (simp add: qc_compute_def)

lemma qc_ok_create: "nreplicas cfg \<le> 2 ^ 16 \<Longrightarrow> qc_ok C k (create_quorum_cert k cfg h)"
  by (cases k) simp_all

interpretation qc: quorum_cert_class qc_obj_hash "create_quorum_cert k" qc_add_part qc_compute "qc_ok C k"
  for C k
  by unfold_locales (auto simp: qc_obj_hash_add_part qc_ok_create qc_compute_def)

section \<open>Serialization reads back\<close>

lemma get_sigs_put_sigs:
  assumes "stream S" and "\<forall>sg\<in>ran sigs. ecdsa_valid C sg"
    and "put_all (\<lambda>i. case sigs (word_of_nat i) of None \<Rightarrow> Inl OutOfRange
           | Some sg \<Rightarrow> put_sig S C sg) is = Inr b"
  shows "get_sigs S C is m (b @ r) = Inr (m ++ (sigs |` (word_of_nat ` set is)), r)"
  using assms(3)
proof (induction "is" arbitrary: m b)
  case Nil
  then show ?case by simp
next
  case (Cons i js)
  then obtain sg b1 b2 where sg: "sigs (word_of_nat i) = Some sg" "put_sig S C sg = Inr b1"
    and b2: "put_all (\<lambda>i. case sigs (word_of_nat i) of None \<Rightarrow> Inl OutOfRange
           | Some sg \<Rightarrow> put_sig S C sg) js = Inr b2" and b: "b = b1 @ b2"
    by (auto simp: cat_Inr_iff split: option.splits)
  have "ecdsa_valid C sg" using assms(2) sg(1) by (auto intro: ranI)
  then have "get_sig S C (b1 @ b2 @ r) = Inr (sg, b2 @ r)"
    using stream.get_sig_put_sig [OF assms(1)] sg(2) by blast
  moreover have "m(word_of_nat i \<mapsto> sg) ++ (sigs |` (word_of_nat ` set js)) =
      m ++ (sigs |` (word_of_nat ` set (i # js)))"
    using sg(1) by (auto simp: fun_eq_iff map_add_def restrict_map_def split: option.splits)
  moreover have "get_sigs S C js (m(word_of_nat i \<mapsto> sg)) (b2 @ r) =
      Inr (m(word_of_nat i \<mapsto> sg) ++ (sigs |` (word_of_nat ` set js)), r)"
    by (rule Cons.IH [OF b2])
  ultimately show ?case
    by (simp only: get_sigs.simps b append_assoc bindE_simps prod.case)
qed

lemma put_sigs_total:
  assumes "\<forall>i\<in>set is. word_of_nat i \<in> dom sigs"
  shows "\<exists>b. put_all (\<lambda>i. case sigs (word_of_nat i) of None \<Rightarrow> Inl OutOfRange
           | Some sg \<Rightarrow> put_sig S C sg) is = Inr b"
  using assms
  by (induction "is") (auto simp: put_sig_def cat_def)

lemma qc_codec:
  assumes "stream S"
  shows "codec (put_qc S C) (parse_quorum_cert S C k) (qc_ok C k)"
proof -
  have total: "\<exists>b. put_qc S C q = Inr b" if "qc_ok C k q" for q
    using that
  proof (cases rule: qc_okE)
    case (2 h rids sigs)
    have "\<forall>i\<in>set (set_bits rids). word_of_nat i \<in> dom sigs" using 2(4) by blast
    from put_sigs_total [OF this, of S C] 2 show ?thesis by auto
  qed auto
  have reads: "parse_quorum_cert S C k (b @ r) = Inr (q, r)"
    if ok: "qc_ok C k q" and put: "put_qc S C q = Inr b" for q b r
    using ok
  proof (cases rule: qc_okE)
    case (2 h rids sigs)
    have len: "length rids < 2 ^ 32" using 2(3) by simp
    have full: "sigs |` (word_of_nat ` set (set_bits rids)) = sigs"
      by (simp add: 2(4) [symmetric] restrict_map_def fun_eq_iff dom_def)
    obtain c where c: "put_all (\<lambda>i. case sigs (word_of_nat i) of None \<Rightarrow> Inl OutOfRange
        | Some sg \<Rightarrow> put_sig S C sg) (set_bits rids) = Inr c"
      and b: "b = put_u256 S h @ put_bits S rids @ c"
      using put 2 by (auto simp: cat_Inr_iff)
    show ?thesis
      using get_sigs_put_sigs [OF assms 2(5) c, of Map.empty r] full b 2
        stream.bits [OF assms len] stream.u256 [OF assms]
      by simp
  qed (use put in \<open>auto simp: stream.u32 [OF assms] stream.u256 [OF assms]\<close>)
  show ?thesis using total reads by unfold_locales blast+
qed

section \<open>Verification\<close>

lemma check_certs_True:
  "check_certs C cfg h sigs is = Inr True \<longleftrightarrow> (\<forall>i\<in>set is. check_cert C cfg h sigs i = Inr True)"
  by (induction "is") (auto simp: bindE_Inr_iff split: if_splits)

lemma check_tasks_Inr:
  "check_tasks C cfg h sigs is = Inr vs \<Longrightarrow>
     length vs = length is \<and> (\<forall>j<length is. check_cert C cfg h sigs (is ! j) = Inr (vs ! j))"
  by (induction "is" arbitrary: vs) (auto simp: bindE_Inr_iff nth_Cons split: nat.splits)

lemma check_cert_True:
  assumes "check_cert C cfg h sigs i = Inr True"
  obtains sg pk where "sigs (word_of_nat i) = Some sg"
    "get_pubkey cfg (word_of_nat i) = Inr (PubKeySecp256k1 pk)"
    "ecdsa_verify C sg (uint256_bytes C h) pk"
  using assms
  by (auto simp: check_cert_def bindE_Inr_iff sig_verify_def
      split: option.splits pub_key.splits)

text \<open>The two verifications agree: the pool only evaluates what the loop may stop short of.\<close>

lemma qc_verify_pool_True:
  assumes "qc_verify_pool C cfg q = Inr True"
  shows "qc_verify C cfg q = Inr True"
proof (cases q)
  case (QuorumCertSecp256k1 h rids sigs)
  with assms obtain vs where vs: "check_tasks C cfg h sigs (set_bits rids) = Inr vs"
    and all: "list_all id vs" and maj: "\<not> card (dom sigs) < nmajority cfg"
    by (auto simp: bindE_Inr_iff split: if_splits)
  from check_tasks_Inr [OF vs] all
  have "\<forall>i\<in>set (set_bits rids). check_cert C cfg h sigs i = Inr True"
    by (auto simp: list_all_length in_set_conv_nth)
  with maj QuorumCertSecp256k1 show ?thesis by (simp add: check_certs_True)
qed simp

text \<open>The signers of a certificate.\<close>

fun qc_signers :: "quorum_cert \<Rightarrow> replica_id set" where
  "qc_signers (QuorumCertDummy h) = {}"
| "qc_signers (QuorumCertSecp256k1 h rids sigs) = dom sigs"

lemma qc_verify_signers:
  assumes "qc_ok C Secp256k1 q" and "qc_verify C cfg q = Inr True"
  shows "nmajority cfg \<le> card (qc_signers q)"
    and "\<forall>v\<in>qc_signers q. \<exists>sg pk. get_pubkey cfg v = Inr (PubKeySecp256k1 pk) \<and>
           ecdsa_verify C sg (uint256_bytes C (qc_obj_hash q)) pk"
proof -
  from assms(1) obtain h rids sigs where q: "q = QuorumCertSecp256k1 h rids sigs"
    and dom: "dom sigs = word_of_nat ` set (set_bits rids)"
    by (auto elim: qc_okE)
  from assms(2) q show "nmajority cfg \<le> card (qc_signers q)"
    by (auto split: if_splits)
  from assms(2) q have "\<forall>i\<in>set (set_bits rids). check_cert C cfg h sigs i = Inr True"
    by (simp add: check_certs_True split: if_splits)
  then show "\<forall>v\<in>qc_signers q. \<exists>sg pk. get_pubkey cfg v = Inr (PubKeySecp256k1 pk) \<and>
           ecdsa_verify C sg (uint256_bytes C (qc_obj_hash q)) pk"
    using q dom by (force elim: check_cert_True)
qed

section \<open>Collecting votes\<close>

text \<open>A vote that may enter a certificate for \<open>h\<close>: from a known replica, signed by it.\<close>

definition good_vote ::
  "crypto_ops \<Rightarrow> crypto_kind \<Rightarrow> replica_config \<Rightarrow> uint256 \<Rightarrow> replica_id \<times> part_cert \<Rightarrow> bool" where
  "good_vote C k cfg h v \<longleftrightarrow>
     unat (fst v) < nreplicas cfg \<and> part_cert_obj_hash (snd v) = h \<and> part_cert_ok C k (snd v) \<and>
     (\<exists>pk. get_pubkey cfg (fst v) = Inr pk \<and> part_cert_verify C (snd v) pk = Inr True)"

text \<open>The state of a certificate after the votes of the replicas \<open>V\<close>.\<close>

definition collected ::
  "crypto_ops \<Rightarrow> replica_config \<Rightarrow> uint256 \<Rightarrow> replica_id set \<Rightarrow> bool list \<Rightarrow> (replica_id \<rightharpoonup> bytes) \<Rightarrow> bool"
  where
  "collected C cfg h V rids sigs \<longleftrightarrow>
     length rids = nreplicas cfg \<and> dom sigs = V \<and> V = word_of_nat ` set (set_bits rids) \<and>
     (\<forall>v\<in>V. \<exists>sg pk. sigs v = Some sg \<and> ecdsa_valid C sg \<and>
        get_pubkey cfg v = Inr (PubKeySecp256k1 pk) \<and> sig_verify C sg (uint256_bytes C h) pk = Inr True)"

lemma collected_step:
  assumes V: "collected C cfg h V rids sigs" and v: "good_vote C Secp256k1 cfg h v" "fst v \<notin> V"
  shows "\<exists>rids' sigs'. qc_add_part (QuorumCertSecp256k1 h rids sigs) (fst v) (snd v) =
             Inr (QuorumCertSecp256k1 h rids' sigs') \<and>
           collected C cfg h (insert (fst v) V) rids' sigs'"
proof -
  from v(1) obtain sg pk where pc: "snd v = PartCertSecp256k1 sg h" and sg: "ecdsa_valid C sg"
    and pk: "get_pubkey cfg (fst v) = Inr (PubKeySecp256k1 pk)"
      "sig_verify C sg (uint256_bytes C h) pk = Inr True"
    by (auto simp: good_vote_def elim!: part_cert_okE)
       (metis part_cert_verify.simps(2,3) pub_key.exhaust sum.distinct(1))
  have lt: "unat (fst v) < length rids" using V v(1) by (simp add: collected_def good_vote_def)
  have none: "sigs (fst v) = None" using V v(2) by (auto simp: collected_def)
  have "word_of_nat ` set (set_bits (rids[unat (fst v) := True])) =
      insert (fst v) (word_of_nat ` set (set_bits rids))"
    using lt by (simp add: set_bits_update)
  then have "collected C cfg h (insert (fst v) V) (rids[unat (fst v) := True]) (sigs(fst v \<mapsto> sg))"
    using V sg pk by (auto simp: collected_def)
  then show ?thesis using pc lt none by (simp add: map_insert_def)
qed

lemma collected_fold:
  assumes "collected C cfg h V rids sigs" and "\<forall>v\<in>set vs. good_vote C Secp256k1 cfg h v"
    and "distinct (map fst vs)" and "fst ` set vs \<inter> V = {}"
  shows "\<exists>rids' sigs'. foldE (\<lambda>q v. qc_add_part q (fst v) (snd v)) (QuorumCertSecp256k1 h rids sigs) vs
             = Inr (QuorumCertSecp256k1 h rids' sigs') \<and>
           collected C cfg h (V \<union> fst ` set vs) rids' sigs'"
  using assms
proof (induction vs arbitrary: V rids sigs)
  case (Cons v vs)
  have "good_vote C Secp256k1 cfg h v" "fst v \<notin> V" using Cons.prems by auto
  from collected_step [OF Cons.prems(1) this] obtain r1 s1
    where add: "qc_add_part (QuorumCertSecp256k1 h rids sigs) (fst v) (snd v) =
        Inr (QuorumCertSecp256k1 h r1 s1)"
      and "collected C cfg h (insert (fst v) V) r1 s1" by blast
  moreover have "fst ` set vs \<inter> insert (fst v) V = {}" using Cons.prems(3,4) by auto
  ultimately show ?case
    using Cons.IH [of "insert (fst v) V" r1 s1] Cons.prems(2,3) by simp
qed auto

lemma collected_verifies:
  assumes "crypto_ok C" and "collected C cfg h V rids sigs" and "nmajority cfg \<le> card V"
    and "nreplicas cfg \<le> 2 ^ 16"
  shows "qc_verify C cfg (QuorumCertSecp256k1 h rids sigs) = Inr True"
    and "qc_ok C Secp256k1 (QuorumCertSecp256k1 h rids sigs)"
proof -
  have "check_cert C cfg h sigs i = Inr True" if "i \<in> set (set_bits rids)" for i
  proof -
    from that assms(2) have "word_of_nat i \<in> V" by (simp add: collected_def)
    with assms(2) show ?thesis by (fastforce simp: collected_def check_cert_def)
  qed
  then show "qc_verify C cfg (QuorumCertSecp256k1 h rids sigs) = Inr True"
    using assms(2,3) by (simp add: check_certs_True collected_def)
  have "ecdsa_valid C sg" if sg: "sg \<in> ran sigs" for sg
  proof -
    from sg obtain v where v: "sigs v = Some sg" by (auto simp: ran_def)
    then have "v \<in> V" using assms(2) by (auto simp: collected_def)
    with assms(2) obtain sg' where "sigs v = Some sg'" "ecdsa_valid C sg'"
      unfolding collected_def by blast
    with v show ?thesis by simp
  qed
  then show "qc_ok C Secp256k1 (QuorumCertSecp256k1 h rids sigs)"
    using assms(2,4) by (simp add: collected_def)
qed

lemma collect_verifies:
  assumes "crypto_ok C" and "nreplicas cfg \<le> 2 ^ 16"
    and "distinct (map fst vs)" and "nmajority cfg \<le> length vs"
    and "\<forall>v\<in>set vs. good_vote C k cfg h v"
  shows "\<exists>q. foldE (\<lambda>q v. qc_add_part q (fst v) (snd v)) (create_quorum_cert k cfg h) vs = Inr q \<and>
           qc_verify C cfg (qc_compute q) = Inr True \<and> qc_ok C k (qc_compute q)"
proof (cases k)
  case NoSig
  have "foldE (\<lambda>q v. qc_add_part q (fst v) (snd v)) (QuorumCertDummy h) vs = Inr (QuorumCertDummy h)"
    by (induction vs) auto
  with NoSig show ?thesis by (simp add: qc_compute_def)
next
  case Secp256k1
  have "collected C cfg h {} (replicate (nreplicas cfg) False) Map.empty"
    by (simp add: collected_def)
  from collected_fold [OF this, of vs] assms(3,5) Secp256k1 obtain rids sigs
    where q: "foldE (\<lambda>q v. qc_add_part q (fst v) (snd v)) (create_quorum_cert k cfg h) vs =
        Inr (QuorumCertSecp256k1 h rids sigs)"
      and coll: "collected C cfg h (fst ` set vs) rids sigs" by auto
  have "card (fst ` set vs) = length vs" using assms(3) by (metis distinct_card length_map set_map)
  with collected_verifies [OF assms(1) coll _ assms(2)] assms(4) q Secp256k1 show ?thesis
    by (simp add: qc_compute_def)
qed

section \<open>What certificates promise\<close>

lemma good_vote_created:
  assumes "crypto_ok C" and "create_part_cert C k sk h = Inr pc" and "get_pubkey_of C sk = Inr pk"
    and "get_pubkey cfg rid = Inr pk" and "unat rid < nreplicas cfg"
  shows "good_vote C k cfg h (rid, pc)"
  using create_part_cert_verifies [OF assms(1-3)] assms(4,5) by (auto simp: good_vote_def)

text \<open>
  C19: The votes for a block of \<open>nmajority\<close> distinct replicas, each signed with the private key
  that belongs to its configured public key, can all be added to a certificate for the block,
  and the certificate verifies.
\<close>

theorem quorum_cert_complete:
  assumes "crypto_ok C" and "nreplicas cfg \<le> 2 ^ 16"
    and "distinct (map fst vs)" and "nmajority cfg \<le> length vs"
    and "\<forall>(rid, pc)\<in>set vs. unat rid < nreplicas cfg \<and>
      (\<exists>sk pk. create_part_cert C k sk h = Inr pc \<and> get_pubkey_of C sk = Inr pk \<and>
         get_pubkey cfg rid = Inr pk)"
  shows "\<exists>q. foldE (\<lambda>q v. qc_add_part q (fst v) (snd v)) (create_quorum_cert k cfg h) vs = Inr q \<and>
           qc_verify C cfg (qc_compute q) = Inr True \<and> qc_obj_hash (qc_compute q) = h"
proof -
  have "\<forall>v\<in>set vs. good_vote C k cfg h v"
  proof
    fix v assume v: "v \<in> set vs"
    obtain rid pc where p: "v = (rid, pc)" by force
    with v assms(5) show "good_vote C k cfg h v" by (auto intro: good_vote_created [OF assms(1)])
  qed
  with collect_verifies [OF assms(1-4)] obtain q where
    q: "foldE (\<lambda>q v. qc_add_part q (fst v) (snd v)) (create_quorum_cert k cfg h) vs = Inr q"
      "qc_verify C cfg (qc_compute q) = Inr True" by blast
  from qc.collected_obj_hash [OF q(1)] have "qc_obj_hash (qc_compute q) = h" .
  with q show ?thesis by blast
qed

lemma get_sigs_dom:
  "get_sigs S C is m s = Inr (sigs, r) \<Longrightarrow> dom sigs = dom m \<union> word_of_nat ` set is"
proof (induction "is" arbitrary: m s)
  case (Cons i js)
  then obtain sg s1 where "get_sigs S C js (m(word_of_nat i \<mapsto> sg)) s1 = Inr (sigs, r)"
    by (auto simp: bindE_Inr_iff)
  from Cons.IH [OF this] show ?case by auto
qed simp

lemma qc_True_signers:
  assumes "qc_verify C cfg (QuorumCertSecp256k1 h rids sigs) = Inr True"
    and "dom sigs = word_of_nat ` set (set_bits rids)"
  shows "nmajority cfg \<le> card (dom sigs) \<and>
    (\<forall>v\<in>dom sigs. \<exists>sg pk. sigs v = Some sg \<and> get_pubkey cfg v = Inr (PubKeySecp256k1 pk) \<and>
       ecdsa_verify C sg (uint256_bytes C h) pk)"
proof -
  have all: "\<forall>i\<in>set (set_bits rids). check_cert C cfg h sigs i = Inr True"
    using assms(1) by (simp add: check_certs_True split: if_splits)
  have "\<exists>sg pk. sigs v = Some sg \<and> get_pubkey cfg v = Inr (PubKeySecp256k1 pk) \<and>
      ecdsa_verify C sg (uint256_bytes C h) pk" if "v \<in> dom sigs" for v
  proof -
    from that obtain i where i: "i \<in> set (set_bits rids)" "v = word_of_nat i"
      unfolding assms(2) by blast
    with all have "check_cert C cfg h sigs i = Inr True" by blast
    with i(2) show ?thesis by (elim check_cert_True) blast
  qed
  moreover have "nmajority cfg \<le> card (dom sigs)" using assms(1) by (simp split: if_splits)
  ultimately show ?thesis by blast
qed

text \<open>
  C15: A secp256k1 certificate that came from the network, whatever its bytes were, and that
  verifies, holds at least \<open>nmajority\<close> signatures of distinct replicas, each of them valid for
  the certified hash under the key configured for its replica.
\<close>

theorem quorum_cert_sound:
  assumes "parse_quorum_cert S C Secp256k1 s = Inr (q, r)" and "qc_verify C cfg q = Inr True"
  shows "\<exists>h rids sigs. q = QuorumCertSecp256k1 h rids sigs \<and> nmajority cfg \<le> card (dom sigs) \<and>
    (\<forall>v\<in>dom sigs. \<exists>sg pk. sigs v = Some sg \<and> get_pubkey cfg v = Inr (PubKeySecp256k1 pk) \<and>
       ecdsa_verify C sg (uint256_bytes C h) pk)"
proof -
  from assms(1) obtain h rids sigs s2 s3 where q: "q = QuorumCertSecp256k1 h rids sigs"
    and sigs: "get_sigs S C (set_bits rids) Map.empty s2 = Inr (sigs, s3)"
    by (auto simp: bindE_Inr_iff)
  from get_sigs_dom [OF sigs] qc_True_signers [of C cfg h rids sigs] assms(2) q show ?thesis by auto
qed

text \<open>
  C31: A certificate that a replica built or parsed is read back exactly from its serialized
  form, whatever follows it in the stream.
\<close>

theorem quorum_cert_roundtrip:
  assumes "stream_ok S" and "qc_ok C k q"
  shows "\<exists>s. put_qc S C q = Inr s \<and> (\<forall>r. parse_quorum_cert S C k (s @ r) = Inr (q, r))"
proof -
  have S: "stream S" using assms(1) by unfold_locales
  show ?thesis
    using codec.enc_total [OF qc_codec [OF S] assms(2)] codec.dec_enc [OF qc_codec [OF S] assms(2)]
    by blast
qed

lemma check_tasks_True:
  "\<forall>i\<in>set is. check_cert C cfg h sigs i = Inr True \<Longrightarrow>
     check_tasks C cfg h sigs is = Inr (map (\<lambda>_. True) is)"
  by (induction "is") simp_all

text \<open>
  C23: Verifying a certificate on the worker pool accepts exactly what the sequential
  verification accepts, as soon as a quorum is not empty.
\<close>

theorem qc_verify_pool_equiv:
  assumes "qc_ok C k q" and "0 < nmajority cfg"
  shows "qc_verify_pool C cfg q = Inr True \<longleftrightarrow> qc_verify C cfg q = Inr True"
proof
  assume v: "qc_verify C cfg q = Inr True"
  from assms(1) show "qc_verify_pool C cfg q = Inr True"
  proof (cases rule: qc_okE)
    case (2 h rids sigs)
    with v have all: "\<forall>i\<in>set (set_bits rids). check_cert C cfg h sigs i = Inr True"
      and maj: "\<not> card (dom sigs) < nmajority cfg"
      by (auto simp: check_certs_True split: if_splits)
    from maj assms(2) 2 have "set_bits rids \<noteq> []" by auto
    with 2 maj check_tasks_True [OF all] show ?thesis by (simp add: list_all_iff)
  qed simp
qed (rule qc_verify_pool_True)

section \<open>Concrete instances\<close>

text \<open>Four replicas, one of which may be faulty.\<close>

definition sample_config :: replica_config where
  "sample_config = set_majority 1
     (add_replicas 0 [(10, PubKeySecp256k1 [0]), (11, PubKeySecp256k1 [1]),
        (12, PubKeySecp256k1 [2]), (13, PubKeySecp256k1 [3])] empty_config)"

definition sample_vote :: "replica_id \<Rightarrow> replica_id \<times> part_cert" where
  "sample_vote i = (i, PartCertSecp256k1
     (take 32 ([ucast i] @ replicate 32 0) @ uint256_bytes toy_crypto 7) 7)"

lemma sample_config_simps [simp]:
  "nreplicas sample_config = 4" "nmajority sample_config = 3"
  "get_pubkey sample_config 0 = Inr (PubKeySecp256k1 [0])"
  "get_pubkey sample_config 1 = Inr (PubKeySecp256k1 [1])"
  "get_pubkey sample_config 2 = Inr (PubKeySecp256k1 [2])"
  by (simp_all add: sample_config_def set_majority_def empty_config_def cfg_add_replica_def
      get_pubkey_def get_info_def map_insert_apply)

lemma fst_sample_vote [simp]: "fst (sample_vote i) = i"
  by (simp add: sample_vote_def)

lemma sample_vote_signed:
  "create_part_cert toy_crypto Secp256k1 (PrivKeySecp256k1 [ucast i]) 7 = Inr (snd (sample_vote i))"
  by (simp add: sample_vote_def sig_sign_def check_msg_length_def toy_crypto_def)

lemma sample_key:
  "get_pubkey_of toy_crypto (PrivKeySecp256k1 d) = Inr (PubKeySecp256k1 d)"
  by (simp add: toy_crypto_def)

lemma sample_qc_votes:
  "\<forall>(rid, pc)\<in>set [sample_vote 0, sample_vote 2, sample_vote 1].
      unat rid < nreplicas sample_config \<and>
      (\<exists>sk pk. create_part_cert toy_crypto Secp256k1 sk 7 = Inr pc \<and>
         get_pubkey_of toy_crypto sk = Inr pk \<and> get_pubkey sample_config rid = Inr pk)"
proof -
  define P where "P rid pc \<longleftrightarrow> unat rid < nreplicas sample_config \<and>
      (\<exists>sk pk. create_part_cert toy_crypto Secp256k1 sk 7 = Inr pc \<and>
         get_pubkey_of toy_crypto sk = Inr pk \<and> get_pubkey sample_config rid = Inr pk)" for rid pc
  have key: "get_pubkey sample_config i = Inr (PubKeySecp256k1 [ucast i])" "unat i < 4"
    if "i \<in> {0, 1, 2}" for i
    using that by auto
  have "P i (snd (sample_vote i))" if "i \<in> {0, 1, 2}" for i
    unfolding P_def using key [OF that] sample_vote_signed [of i] sample_key
    by (metis sample_config_simps(1))
  then show ?thesis unfolding P_def [symmetric] by (simp add: case_prod_beta)
qed

lemma quorum_cert_complete_witness:
  "\<exists>q. foldE (\<lambda>q v. qc_add_part q (fst v) (snd v)) (create_quorum_cert Secp256k1 sample_config 7)
          [sample_vote 0, sample_vote 2, sample_vote 1] = Inr q \<and>
        qc_verify toy_crypto sample_config (qc_compute q) = Inr True \<and>
        qc_obj_hash (qc_compute q) = 7"
  by (rule quorum_cert_complete [OF toy_crypto_ok _ _ _ sample_qc_votes]) simp_all

lemma sample_qc_parse:
  "\<exists>s q. parse_quorum_cert le_stream toy_crypto Secp256k1 s = Inr (q, []) \<and>
     qc_verify toy_crypto sample_config q = Inr True \<and> qc_ok toy_crypto Secp256k1 q"
proof -
  have votes: "\<forall>v\<in>set [sample_vote 0, sample_vote 2, sample_vote 1].
      good_vote toy_crypto Secp256k1 sample_config 7 v"
  proof
    fix v assume v: "v \<in> set [sample_vote 0, sample_vote 2, sample_vote 1]"
    obtain rid pc where p: "v = (rid, pc)" by force
    with v sample_qc_votes show "good_vote toy_crypto Secp256k1 sample_config 7 v"
      by (auto intro: good_vote_created [OF toy_crypto_ok])
  qed
  have "\<exists>q. foldE (\<lambda>q v. qc_add_part q (fst v) (snd v))
      (create_quorum_cert Secp256k1 sample_config 7) [sample_vote 0, sample_vote 2, sample_vote 1] = Inr q \<and>
      qc_verify toy_crypto sample_config (qc_compute q) = Inr True \<and>
      qc_ok toy_crypto Secp256k1 (qc_compute q)"
    by (rule collect_verifies [OF toy_crypto_ok _ _ _ votes]) simp_all
  then obtain q where
    q: "qc_verify toy_crypto sample_config q = Inr True" "qc_ok toy_crypto Secp256k1 q" by blast
  obtain s where "put_qc le_stream toy_crypto q = Inr s"
    using codec.enc_total [OF qc_codec [OF le.stream_axioms] q(2)] by blast
  from codec.dec_enc [OF qc_codec [OF le.stream_axioms] q(2) this, of "[]"] q show ?thesis by auto
qed

lemma quorum_cert_sound_witness:
  "\<exists>h rids sigs s r. parse_quorum_cert le_stream toy_crypto Secp256k1 s =
       Inr (QuorumCertSecp256k1 h rids sigs, r) \<and> nmajority sample_config \<le> card (dom sigs)"
  using sample_qc_parse quorum_cert_sound [of le_stream toy_crypto _ _ _ sample_config] by metis

lemma quorum_cert_roundtrip_witness:
  "\<exists>q s. qc_ok toy_crypto Secp256k1 q \<and> put_qc le_stream toy_crypto q = Inr s \<and>
     (\<forall>r. parse_quorum_cert le_stream toy_crypto Secp256k1 (s @ r) = Inr (q, r))"
  using sample_qc_parse quorum_cert_roundtrip [OF le.laws] by blast

lemma qc_verify_pool_equiv_witness:
  "\<exists>q. qc_ok toy_crypto Secp256k1 q \<and> qc_verify_pool toy_crypto sample_config q = Inr True"
  using sample_qc_parse qc_verify_pool_equiv [of toy_crypto Secp256k1 _ sample_config] by auto

end
