(* ===== verification/RSE.thy ===== *)
theory RSE
  imports Prelude
begin

text \<open>
  The Reed-Solomon erasure code of rse-merkle/RSE.cpp: a proposal's commands are cut into
  \<open>m_original_count\<close> slices, \<open>m_recovery_count\<close> more are computed, and the commands can be
  rebuilt from any \<open>m_original_count\<close> of them. The code itself is the Leopard library, which
  is not part of the repository: it is the parameter \<open>leo_ops\<close>. Buffers are byte lists; an
  access outside a buffer is the error \<open>OutOfBounds\<close>.
\<close>

unbundle bit_operations_syntax

record leo_ops =
  leo_init :: int
  leo_encode_work_count :: "u32 \<Rightarrow> u32 \<Rightarrow> u32"
  leo_encode :: "nat \<Rightarrow> u32 \<Rightarrow> u32 \<Rightarrow> u32 \<Rightarrow> bytes list \<Rightarrow> int \<times> bytes list"
  leo_decode_work_count :: "u32 \<Rightarrow> u32 \<Rightarrow> u32"
  leo_decode :: "nat \<Rightarrow> u32 \<Rightarrow> u32 \<Rightarrow> u32 \<Rightarrow> bytes option list \<Rightarrow> bytes option list \<Rightarrow>
     int \<times> bytes list"

record rse =
  m_original_count :: u32
  m_recovery_count :: u32

definition rse_default :: rse where
  "rse_default = \<lparr>m_original_count = 0, m_recovery_count = 0\<rparr>"

text \<open>\<open>RSE(unsigned node_num)\<close> and \<open>set_params\<close> compute the same, in \<open>unsigned\<close> arithmetic.\<close>

definition rse_set_params :: "u32 \<Rightarrow> rse" where
  "rse_set_params node_num =
     (let rc = (node_num - 1) div 3
      in \<lparr>m_original_count = node_num - rc, m_recovery_count = rc\<rparr>)"

section \<open>Encoding\<close>

definition slice_bytes :: "nat \<Rightarrow> nat \<Rightarrow> nat" where
  "slice_bytes k data_bytes = ((data_bytes + 16 + k - 1) div k) mod 2 ^ 32"

definition buffer_bytes :: "nat \<Rightarrow> nat" where
  "buffer_bytes sb = (sb + 64 - 1) div 64 * 64"

text \<open>The header, the data and the padding: \<open>input_bytes\<close> bytes.\<close>

definition input_data :: "nat \<Rightarrow> nat \<Rightarrow> bytes \<Rightarrow> bytes" where
  "input_data k sb input =
     nat_le 8 (length input) @ nat_le 8 sb @ input @
     replicate (sb * k - (16 + length input)) 0"

text \<open>Slice \<open>i\<close>, padded to the size of Leopard's buffers.\<close>

definition original_data :: "nat \<Rightarrow> nat \<Rightarrow> bytes \<Rightarrow> bytes list" where
  "original_data k sb dat =
     map (\<lambda>i. take sb (drop (i * sb) dat) @ replicate (buffer_bytes sb - sb) 0) [0..<k]"

definition rse_encode :: "leo_ops \<Rightarrow> rse \<Rightarrow> bytes \<Rightarrow> bytes list \<Rightarrow> (int \<times> bytes list) res" where
  "rse_encode L r input output =
     (let k = unat (m_original_count r);
          sb = slice_bytes k (length input);
          wc = leo_encode_work_count L (m_original_count r) (m_recovery_count r) in
      if k = 0 then Inl DivByZero
      else if sb * k < 16 + length input then Inl OutOfBounds
      else if wc = 0 then Inr (-9, output)
      else let originals = original_data k sb (input_data k sb input);
               (e_rst, work) = leo_encode L (buffer_bytes sb) (m_original_count r)
                 (m_recovery_count r) wc originals in
        if e_rst \<noteq> 0 then Inr (e_rst, output)
        else if length work < unat (m_recovery_count r) then Inl OutOfBounds
        else Inr (0, output @ originals @ take (unat (m_recovery_count r)) work))"

section \<open>Decoding\<close>

text \<open>The size of the last slice that is there.\<close>

definition present_size :: "bytes list \<Rightarrow> nat" where
  "present_size input = foldl (\<lambda>n s. if length s \<noteq> 0 then length s else n) 0 input"

text \<open>The header at the start of a buffer.\<close>

definition read_header :: "bytes \<Rightarrow> (nat \<times> nat) res" where
  "read_header buf =
     (if length buf < 16 then Inl OutOfBounds
      else Inr (le_nat (take 8 buf), le_nat (take 8 (drop 8 buf))))"

text \<open>
  \<open>output.insert(output.end(), src.begin(), src.begin()+slice_bytes)\<close>.
\<close>

definition append_slice :: "nat \<Rightarrow> bytes \<Rightarrow> bytes \<Rightarrow> bytes res" where
  "append_slice sb src output =
     (if length src < sb then Inl OutOfBounds else Inr (output @ take sb src))"

text \<open>
  The first loop over the original slices, from \<open>i\<close> for \<open>n\<close> more: it copies until one is
  missing, and returns the index it stopped at (\<open>lost_index\<close>).
\<close>

fun copy_prefix :: "nat \<Rightarrow> bytes list \<Rightarrow> nat \<Rightarrow> nat \<Rightarrow> bytes \<Rightarrow> (nat \<times> bytes) res" where
  "copy_prefix sb input i 0 output = Inr (i, output)"
| "copy_prefix sb input i (Suc n) output =
     (if length input \<le> i then Inl OutOfBounds
      else if length (input ! i) = 0 then Inr (i, output)
      else bindE (append_slice sb (input ! i) output)
             (\<lambda>output. copy_prefix sb input (Suc i) n output))"

text \<open>The second loop: a missing slice comes from Leopard's work buffers.\<close>

fun copy_rest ::
  "nat \<Rightarrow> bytes list \<Rightarrow> bytes list \<Rightarrow> nat \<Rightarrow> nat \<Rightarrow> bytes \<Rightarrow> bytes res" where
  "copy_rest sb input work i 0 output = Inr output"
| "copy_rest sb input work i (Suc n) output =
     (if length input \<le> i \<or> length (input ! i) = 0 \<and> length work \<le> i then Inl OutOfBounds
      else bindE (append_slice sb (if length (input ! i) = 0 then work ! i else input ! i) output)
             (\<lambda>output. copy_rest sb input work (Suc i) n output))"

text \<open>
  \<open>output.erase(begin, begin+16); output.erase(begin+data_bytes, end)\<close>.
\<close>

definition strip :: "nat \<Rightarrow> bytes \<Rightarrow> bytes res" where
  "strip data_bytes output =
     (if length output < 16 + data_bytes then Inl OutOfBounds
      else Inr (take data_bytes (drop 16 output)))"

text \<open>The buffers handed to Leopard: null for a missing slice.\<close>

fun load_buffers :: "nat \<Rightarrow> bytes list \<Rightarrow> nat \<Rightarrow> nat \<Rightarrow> bytes option list res" where
  "load_buffers buf input i 0 = Inr []"
| "load_buffers buf input i (Suc n) =
     (if length input \<le> i then Inl OutOfBounds
      else if length (input ! i) \<noteq> 0 \<and> length (input ! i) < buf then Inl OutOfBounds
      else bindE (load_buffers buf input (Suc i) n) (\<lambda>bs.
        Inr ((if length (input ! i) = 0 then None else Some (take buf (input ! i))) # bs)))"

text \<open>The decoder from Leopard on: \<open>head\<close> is the header when slice 0 was there.\<close>

definition decode_lost ::
  "leo_ops \<Rightarrow> rse \<Rightarrow> nat \<Rightarrow> bytes list \<Rightarrow> nat \<Rightarrow> (nat \<times> nat) option \<Rightarrow> bytes \<Rightarrow> (int \<times> bytes) res"
  where
  "decode_lost L r buf input lost_index head output =
     (let k = unat (m_original_count r); m = unat (m_recovery_count r);
          wc = leo_decode_work_count L (m_original_count r) (m_recovery_count r) in
      if wc = 0 then Inr (-9, output)
      else bindE (load_buffers buf input 0 k) (\<lambda>originals.
        bindE (load_buffers buf input k m) (\<lambda>recovery.
          let (d_rst, work) = leo_decode L buf (m_original_count r) (m_recovery_count r) wc
                originals recovery in
          if d_rst \<noteq> 0 then Inr (d_rst, output)
          else bindE (case head of Some h \<Rightarrow> Inr h
                      | None \<Rightarrow> if work = [] then Inl OutOfBounds else read_header (work ! 0))
            (\<lambda>(data_bytes, sb).
              bindE (copy_rest sb input work lost_index (k - lost_index) output) (\<lambda>output.
                bindE (strip data_bytes output) (\<lambda>output. Inr (0, output)))))))"

definition rse_decode :: "leo_ops \<Rightarrow> rse \<Rightarrow> bytes list \<Rightarrow> bytes \<Rightarrow> (int \<times> bytes) res" where
  "rse_decode L r input output =
     (let buf = present_size input; k = unat (m_original_count r) in
      if buf = 0 \<or> buf mod 64 \<noteq> 0 then Inr (-1, output)
      else if length (input ! 0) \<noteq> 0
      then bindE (read_header (input ! 0)) (\<lambda>(data_bytes, sb).
        bindE (copy_prefix sb input 0 k output) (\<lambda>(lost_index, output).
          if lost_index = k
          then bindE (strip data_bytes output) (\<lambda>output. Inr (0, output))
          else decode_lost L r buf input lost_index (Some (data_bytes, sb)) output))
      else decode_lost L r buf input 0 None output)"

section \<open>What Leopard promises\<close>

text \<open>
  For \<open>k\<close> original and \<open>m\<close> recovery buffers of a positive multiple of 64 bytes, encoding
  succeeds; and decoding succeeds on any \<open>k\<close> of the \<open>k + m\<close> buffers, and leaves each lost
  original in the work buffer of its index.
\<close>

definition leo_recovers :: "leo_ops \<Rightarrow> u32 \<Rightarrow> u32 \<Rightarrow> nat \<Rightarrow> bytes list \<Rightarrow> bytes list \<Rightarrow> bool" where
  "leo_recovers L k m buf ds work \<longleftrightarrow>
     (\<forall>originals recovery.
        length originals = unat k \<longrightarrow> length recovery = unat m \<longrightarrow>
        (\<forall>i<unat k. originals ! i \<in> {None, Some (ds ! i)}) \<longrightarrow>
        (\<forall>i<unat m. recovery ! i \<in> {None, Some (work ! i)}) \<longrightarrow>
        unat k \<le> length (filter (\<lambda>x. x \<noteq> None) (originals @ recovery)) \<longrightarrow>
        None \<in> set originals \<longrightarrow>
        (\<exists>dw. leo_decode L buf k m (leo_decode_work_count L k m) originals recovery = (0, dw) \<and>
              unat k \<le> length dw \<and>
              (\<forall>i<unat k. originals ! i = None \<longrightarrow> dw ! i = ds ! i)))"

definition leo_ok :: "leo_ops \<Rightarrow> u32 \<Rightarrow> u32 \<Rightarrow> bool" where
  "leo_ok L k m \<longleftrightarrow>
     leo_encode_work_count L k m \<noteq> 0 \<and> leo_decode_work_count L k m \<noteq> 0 \<and>
     (\<forall>buf ds. 0 < buf \<longrightarrow> buf mod 64 = 0 \<longrightarrow> length ds = unat k \<longrightarrow>
        (\<forall>d\<in>set ds. length d = buf) \<longrightarrow>
        (\<exists>work. leo_encode L buf k m (leo_encode_work_count L k m) ds = (0, work) \<and>
           unat m \<le> length work \<and> (\<forall>i<unat m. length (work ! i) = buf) \<and>
           leo_recovers L k m buf ds work))"

section \<open>Slices of the data\<close>

lemma buffer_bytes_ge: "sb \<le> buffer_bytes sb"
  unfolding buffer_bytes_def by linarith

lemma buffer_bytes_mod [simp]: "buffer_bytes sb mod 64 = 0"
  by (simp add: buffer_bytes_def)

definition data_slice :: "nat \<Rightarrow> bytes \<Rightarrow> nat \<Rightarrow> bytes" where
  "data_slice sb dat i = take sb (drop (i * sb) dat)"

lemma concat_data_slices: "concat (map (data_slice sb dat) [0..<k]) = take (k * sb) dat"
  by (induction k) (simp_all add: data_slice_def take_add [symmetric] add.commute)

lemma concat_data_slices_all:
  assumes "i \<le> k" and "length dat = sb * k"
  shows "concat (map (data_slice sb dat) [0..<i]) @ concat (map (data_slice sb dat) [i..<k]) = dat"
proof -
  have "[0..<k] = [0..<i] @ [i..<k]"
    using assms(1) by (metis le_add_diff_inverse upt_add_eq_append zero_le)
  then have "concat (map (data_slice sb dat) [0..<i]) @ concat (map (data_slice sb dat) [i..<k]) =
      concat (map (data_slice sb dat) [0..<k])" by simp
  with assms(2) show ?thesis by (simp add: concat_data_slices mult.commute)
qed

lemma length_data_slice:
  assumes "i < k" and "length dat = sb * k"
  shows "length (data_slice sb dat i) = sb"
proof -
  have "sb + i * sb \<le> k * sb" using mult_le_mono1 [of "Suc i" k sb] assms(1) by simp
  then show ?thesis using assms(2) by (simp add: data_slice_def mult.commute)
qed

lemma copy_prefix_slices:
  assumes "\<And>j. i \<le> j \<Longrightarrow> j < i + n \<Longrightarrow>
      j < length input \<and> (input ! j \<noteq> [] \<longrightarrow> sb \<le> length (input ! j) \<and> take sb (input ! j) = sl j)"
  shows "\<exists>j. copy_prefix sb input i n out = Inr (j, out @ concat (map sl [i..<j])) \<and>
           i \<le> j \<and> j \<le> i + n \<and> (\<forall>l. i \<le> l \<longrightarrow> l < j \<longrightarrow> input ! l \<noteq> []) \<and>
           (j < i + n \<longrightarrow> input ! j = [])"
  using assms
proof (induction n arbitrary: i out)
  case 0
  then show ?case by auto
next
  case (Suc n)
  from Suc.prems [of i] have i: "i < length input"
    "input ! i \<noteq> [] \<Longrightarrow> sb \<le> length (input ! i) \<and> take sb (input ! i) = sl i" by auto
  show ?case
  proof (cases "input ! i = []")
    case True
    with i show ?thesis by (intro exI [of _ i]) auto
  next
    case False
    with i have step: "copy_prefix sb input i (Suc n) out = copy_prefix sb input (Suc i) n (out @ sl i)"
      by (simp add: append_slice_def)
    from Suc.IH [of "Suc i" "out @ sl i"] Suc.prems obtain j where
      j: "copy_prefix sb input (Suc i) n (out @ sl i) = Inr (j, (out @ sl i) @ concat (map sl [Suc i..<j]))"
        "Suc i \<le> j" "j \<le> Suc i + n" "\<forall>l. Suc i \<le> l \<longrightarrow> l < j \<longrightarrow> input ! l \<noteq> []"
        "j < Suc i + n \<longrightarrow> input ! j = []" by auto
    have "[i..<j] = i # [Suc i..<j]" using j(2) by (simp add: upt_conv_Cons)
    moreover have "\<forall>l. i \<le> l \<longrightarrow> l < j \<longrightarrow> input ! l \<noteq> []"
      using j(4) False by (metis le_antisym not_less_eq_eq)
    ultimately show ?thesis using step j by (intro exI [of _ j]) simp
  qed
qed

lemma copy_rest_slices:
  assumes "\<And>j. i \<le> j \<Longrightarrow> j < i + n \<Longrightarrow> j < length input \<and>
      (input ! j \<noteq> [] \<longrightarrow> sb \<le> length (input ! j) \<and> take sb (input ! j) = sl j) \<and>
      (input ! j = [] \<longrightarrow> j < length work \<and> sb \<le> length (work ! j) \<and> take sb (work ! j) = sl j)"
  shows "copy_rest sb input work i n out = Inr (out @ concat (map sl [i..<i + n]))"
  using assms
proof (induction n arbitrary: i out)
  case (Suc n)
  have "[i..<i + Suc n] = i # [Suc i..<Suc i + n]" by (simp add: upt_conv_Cons)
  moreover have "copy_rest sb input work (Suc i) n (out @ sl i) =
      Inr ((out @ sl i) @ concat (map sl [Suc i..<Suc i + n]))"
    by (rule Suc.IH, rule Suc.prems) auto
  ultimately show ?case using Suc.prems [of i] by (auto simp: append_slice_def)
qed simp

section \<open>Rebuilding the data from the slices that arrived\<close>

text \<open>The slices a receiver holds when those of \<open>lost\<close> never came.\<close>

definition arrived :: "nat set \<Rightarrow> bytes list \<Rightarrow> bytes list" where
  "arrived lost xs = map (\<lambda>i. if i \<in> lost then [] else xs ! i) [0..<length xs]"

lemma length_arrived [simp]: "length (arrived lost xs) = length xs"
  by (simp add: arrived_def)

lemma arrived_nth [simp]: "i < length xs \<Longrightarrow> arrived lost xs ! i = (if i \<in> lost then [] else xs ! i)"
  by (simp add: arrived_def)

lemma present_size_equal:
  assumes "\<forall>x\<in>set xs. x = [] \<or> length x = n" and "\<exists>x\<in>set xs. x \<noteq> []"
  shows "present_size xs = n"
proof -
  have "foldl (\<lambda>n s. if length s \<noteq> 0 then length s else n) a xs = (if \<exists>x\<in>set xs. x \<noteq> [] then n else a)"
    if "\<forall>x\<in>set xs. x = [] \<or> length x = n" for a
    using that by (induction xs arbitrary: a) auto
  with assms show ?thesis by (simp add: present_size_def)
qed

lemma load_buffers_erased:
  assumes "\<And>j. i \<le> j \<Longrightarrow> j < i + n \<Longrightarrow> j < length input \<and> (input ! j = [] \<or> length (input ! j) = buf)"
  shows "load_buffers buf input i n =
           Inr (map (\<lambda>j. if input ! j = [] then None else Some (input ! j)) [i..<i + n])"
  using assms
proof (induction n arbitrary: i)
  case (Suc n)
  have "[i..<i + Suc n] = i # [Suc i..<Suc i + n]" by (simp add: upt_conv_Cons)
  moreover have "load_buffers buf input (Suc i) n =
      Inr (map (\<lambda>j. if input ! j = [] then None else Some (input ! j)) [Suc i..<Suc i + n])"
    by (rule Suc.IH, rule Suc.prems) auto
  ultimately show ?case using Suc.prems [of i] by auto
qed simp

lemma length_input_data:
  assumes "16 + length x \<le> sb * k"
  shows "length (input_data k sb x) = sb * k"
  using assms by (simp add: input_data_def)

lemma original_data_nth:
  "i < k \<Longrightarrow> original_data k sb dat ! i = data_slice sb dat i @ replicate (buffer_bytes sb - sb) 0"
  by (simp add: original_data_def data_slice_def)

lemma length_original_data [simp]: "length (original_data k sb dat) = k"
  by (simp add: original_data_def)

lemma original_data_buffer:
  assumes "length dat = sb * k" and "i < k"
  shows "length (original_data k sb dat ! i) = buffer_bytes sb"
    and "take sb (original_data k sb dat ! i) = data_slice sb dat i"
proof -
  have "length (data_slice sb dat i) = sb" using assms by (intro length_data_slice)
  then show "length (original_data k sb dat ! i) = buffer_bytes sb"
    and "take sb (original_data k sb dat ! i) = data_slice sb dat i"
    using assms(2) buffer_bytes_ge [of sb] by (simp_all add: original_data_nth)
qed

text \<open>
  The header is read back from slice 0 although it is 16 bytes long, as soon as the slice
  has nine: the bytes cut off are zero, and so is the padding of the buffer.
\<close>

lemma nat_le_8_small:
  assumes "n < 256"
  shows "nat_le 8 n = word_of_nat n # replicate 7 0"
proof -
  have zero: "nat_le j 0 = replicate j 0" for j by (induction j) simp_all
  have "nat_le (Suc 7) n = word_of_nat n # replicate 7 0"
    using assms by (simp only: nat_le.simps div_less zero)
  moreover have "Suc 7 = (8::nat)" by simp
  ultimately show ?thesis by (simp only:)
qed

lemma buffer_bytes_ge_64:
  assumes "0 < sb"
  shows "64 \<le> buffer_bytes sb"
proof -
  have "1 \<le> (sb + 63) div 64" using assms div_le_mono [of 64 "sb + 63" 64] by simp
  then show ?thesis by (simp add: buffer_bytes_def)
qed

lemma original_data_0:
  assumes "0 < k"
  shows "original_data k sb (input_data k sb x) ! 0 =
    take sb (input_data k sb x) @ replicate (buffer_bytes sb - sb) 0"
  using assms by (simp add: original_data_nth data_slice_def)

lemma read_header_original:
  assumes "0 < k" "9 \<le> sb" "16 + length x \<le> sb * k" "length x < 2 ^ 64" "sb < 2 ^ 64"
  shows "read_header (original_data k sb (input_data k sb x) ! 0) = Inr (length x, sb)"
proof -
  let ?b = "original_data k sb (input_data k sb x) ! 0"
  let ?rest = "take (sb - 16) (x @ replicate (sb * k - (16 + length x)) 0) @
    replicate (buffer_bytes sb - sb) 0"
  have b: "?b = nat_le 8 (length x) @ take (sb - 8) (nat_le 8 sb) @ ?rest"
    unfolding original_data_0 [OF assms(1)] using assms(2) by (simp add: input_data_def)
  have "length ?b = buffer_bytes sb"
    using assms length_input_data by (intro original_data_buffer(1)) auto
  moreover have "64 \<le> buffer_bytes sb" using buffer_bytes_ge_64 [of sb] assms(2) by simp
  ultimately have buf: "16 \<le> length ?b" by linarith
  have snd: "take 8 (drop 8 ?b) = nat_le 8 sb"
  proof (cases "16 \<le> sb")
    case False
    let ?z = "replicate (sb - 9 + (buffer_bytes sb - sb)) (0 :: byte)"
    have full: "nat_le 8 sb = word_of_nat sb # replicate 7 0"
      using False by (intro nat_le_8_small) simp
    define c where "c = sb - 9"
    have c: "sb - 8 = Suc c" "c = sb - 9" "c \<le> 7"
      using assms(2) False unfolding c_def by linarith+
    have t: "take (sb - 8) (nat_le 8 sb) = word_of_nat sb # replicate c 0"
      unfolding full c(1) using c(3) by (simp add: min_def)
    have r: "?rest = replicate (buffer_bytes sb - sb) 0" using False by simp
    have d: "drop 8 ?b = word_of_nat sb # ?z"
      unfolding b t r c(2) by (simp add: replicate_add)
    have "7 \<le> sb - 9 + (buffer_bytes sb - sb)"
      using \<open>64 \<le> buffer_bytes sb\<close> assms(2) False by linarith
    then have "take 7 ?z = replicate 7 0" by (simp only: take_replicate min_absorb1)
    then have "take (Suc 7) (drop 8 ?b) = nat_le 8 sb" unfolding full d by (simp only: take_Suc_Cons)
    moreover have "Suc 7 = (8::nat)" by simp
    ultimately show ?thesis by (simp only:)
  qed (simp add: b)
  have fst: "take 8 ?b = nat_le 8 (length x)" unfolding b by simp
  have "le_nat (nat_le 8 (length x)) = length x" "le_nat (nat_le 8 sb) = sb"
    using assms(4,5) by simp_all
  then show ?thesis
    using buf by (simp only: read_header_def fst snd not_less [symmetric] if_False)
qed

lemma strip_input_data:
  "strip (length x) (input_data k sb x) = Inr x"
  by (simp add: strip_def input_data_def)

text \<open>
  The situation of a receiver: \<open>shards\<close> are the slices of the data \<open>x\<close> that the encoder
  made, of which at most \<open>m_recovery_count\<close> never came.
\<close>

definition encoded :: "leo_ops \<Rightarrow> rse \<Rightarrow> bytes \<Rightarrow> bytes list \<Rightarrow> bool" where
  "encoded L r x shards \<longleftrightarrow>
     (let k = unat (m_original_count r); m = unat (m_recovery_count r);
          sb = slice_bytes k (length x); buf = buffer_bytes sb;
          os = original_data k sb (input_data k sb x)
      in 0 < k \<and> 9 \<le> sb \<and> 16 + length x \<le> sb * k \<and> sb < 2 ^ 32 \<and>
         leo_decode_work_count L (m_original_count r) (m_recovery_count r) \<noteq> 0 \<and>
         (\<exists>work. m \<le> length work \<and> (\<forall>i<m. length (work ! i) = buf) \<and>
            leo_recovers L (m_original_count r) (m_recovery_count r) buf os work \<and>
            shards = os @ take m work))"

lemma slice_bytes_enough:
  assumes "0 < k" "n + 16 < 2 ^ 32"
  shows "n + 16 \<le> slice_bytes k n * k" and "slice_bytes k n < 2 ^ 32"
proof -
  let ?q = "(n + 16 + k - 1) div k"
  have "?q \<le> n + 16"
  proof -
    have "(n + 17) * k = (n + 17) * (k - 1) + (n + 17)" using assms(1) by (cases k) auto
    moreover have "k - 1 \<le> (n + 17) * (k - 1)" by simp
    ultimately have "n + 16 + k - 1 < (n + 17) * k" using assms(1) by linarith
    then have "?q < n + 17" by (rule less_mult_imp_div_less)
    then show ?thesis by simp
  qed
  then have q: "slice_bytes k n = ?q" using assms(2) by (simp add: slice_bytes_def)
  have "n + 16 + k - 1 < ?q * k + k" using assms(1)
    by (metis div_mult_mod_eq mod_less_divisor nat_add_left_cancel_less)
  then show "n + 16 \<le> slice_bytes k n * k" using q by simp
  show "slice_bytes k n < 2 ^ 32" by (simp add: slice_bytes_def)
qed

lemma rse_encode_shape:
  assumes leo: "leo_ok L (m_original_count r) (m_recovery_count r)"
    and k: "0 < unat (m_original_count r)" and size: "length x + 16 < 2 ^ 32"
  defines "k \<equiv> unat (m_original_count r)" and "m \<equiv> unat (m_recovery_count r)"
  defines "sb \<equiv> slice_bytes k (length x)"
  defines "os \<equiv> original_data k sb (input_data k sb x)"
  obtains work where "rse_encode L r x [] = Inr (0, os @ take m work)" "m \<le> length work"
    "\<forall>i<m. length (work ! i) = buffer_bytes sb"
    "leo_recovers L (m_original_count r) (m_recovery_count r) (buffer_bytes sb) os work"
proof -
  have sbk: "16 + length x \<le> sb * k" "sb < 2 ^ 32"
    using slice_bytes_enough [OF k size] by (simp_all add: sb_def k_def)
  then have len: "length (input_data k sb x) = sb * k" by (intro length_input_data)
  have "\<forall>d\<in>set os. length d = buffer_bytes sb"
    using original_data_buffer(1) [OF len] by (auto simp: in_set_conv_nth os_def)
  moreover have "0 < buffer_bytes sb"
    using buffer_bytes_ge [of sb] sbk(1) by (cases sb) auto
  ultimately obtain work where work:
    "leo_encode L (buffer_bytes sb) (m_original_count r) (m_recovery_count r)
       (leo_encode_work_count L (m_original_count r) (m_recovery_count r)) os = (0, work)"
    "m \<le> length work" "\<forall>i<m. length (work ! i) = buffer_bytes sb"
    "leo_recovers L (m_original_count r) (m_recovery_count r) (buffer_bytes sb) os work"
    using leo unfolding leo_ok_def m_def k_def [symmetric]
    by (metis buffer_bytes_mod length_original_data os_def)
  have "leo_encode_work_count L (m_original_count r) (m_recovery_count r) \<noteq> 0"
    using leo by (simp add: leo_ok_def)
  then have "rse_encode L r x [] = Inr (0, os @ take m work)"
    using work sbk k by (auto simp: rse_encode_def Let_def os_def sb_def k_def m_def)
  then show ?thesis using work that by blast
qed

lemma rse_encode_encoded:
  assumes leo: "leo_ok L (m_original_count r) (m_recovery_count r)"
    and k: "0 < unat (m_original_count r)"
    and fits: "9 \<le> slice_bytes (unat (m_original_count r)) (length x)"
    and size: "length x + 16 < 2 ^ 32"
  shows "\<exists>shards. rse_encode L r x [] = Inr (0, shards) \<and> encoded L r x shards"
proof -
  have "leo_decode_work_count L (m_original_count r) (m_recovery_count r) \<noteq> 0"
    using leo by (simp add: leo_ok_def)
  then show ?thesis
    using fits k slice_bytes_enough [OF k size]
    by (auto simp: encoded_def Let_def intro: rse_encode_shape [OF leo k size])
qed

lemma encoded_shards:
  assumes enc: "encoded L r x shards"
  defines "k \<equiv> unat (m_original_count r)" and "m \<equiv> unat (m_recovery_count r)"
  defines "sb \<equiv> slice_bytes k (length x)"
  shows "length shards = k + m" and "0 < k" and "0 < buffer_bytes sb" and "sb \<le> buffer_bytes sb"
    and "i < k + m \<Longrightarrow> length (shards ! i) = buffer_bytes sb"
    and "i < k \<Longrightarrow> take sb (shards ! i) = data_slice sb (input_data k sb x) i"
    and "length (input_data k sb x) = sb * k"
    and "length x < 2 ^ 64 \<Longrightarrow> read_header (shards ! 0) = Inr (length x, sb)"
proof -
  let ?os = "original_data k sb (input_data k sb x)"
  from enc obtain work where work: "m \<le> length work" "\<forall>i<m. length (work ! i) = buffer_bytes sb"
    "shards = ?os @ take m work" and k: "0 < k" "9 \<le> sb" "16 + length x \<le> sb * k" "sb < 2 ^ 32"
    by (auto simp: encoded_def Let_def k_def m_def sb_def)
  show "0 < k" "sb \<le> buffer_bytes sb" "0 < buffer_bytes sb"
    using k(1,2) buffer_bytes_ge [of sb] by auto
  show "length shards = k + m" using work by simp
  show len: "length (input_data k sb x) = sb * k" using k(3) by (rule length_input_data)
  show "i < k + m \<Longrightarrow> length (shards ! i) = buffer_bytes sb"
    using work original_data_buffer(1) [OF len] by (auto simp: nth_append)
  show "i < k \<Longrightarrow> take sb (shards ! i) = data_slice sb (input_data k sb x) i"
    using work(3) original_data_buffer(2) [OF len] by (simp add: nth_append)
  show "length x < 2 ^ 64 \<Longrightarrow> read_header (shards ! 0) = Inr (length x, sb)"
    using read_header_original [OF k(1-3)] k(1,4) work(3) by (simp add: nth_append)
qed

text \<open>Enough slices arrive for Leopard.\<close>

lemma enough_present:
  fixes xs :: "bytes list"
  assumes "finite lost" "card lost \<le> m" "length xs = k + m" "\<forall>i<k + m. xs ! i \<noteq> []"
  shows "k \<le> length (filter (\<lambda>b. b \<noteq> None)
     (map (\<lambda>j. if arrived lost xs ! j = [] then None else Some (arrived lost xs ! j)) [0..<k + m]))"
proof -
  have "filter ((\<lambda>b. b \<noteq> None) \<circ>
      (\<lambda>j. if arrived lost xs ! j = [] then None else Some (arrived lost xs ! j))) [0..<k + m] =
      filter (\<lambda>j. j \<notin> lost) [0..<k + m]"
    using assms(3,4) by (intro filter_cong) auto
  moreover have "length (filter (\<lambda>j. j \<notin> lost) [0..<k + m]) = card ({0..<k + m} - lost)"
    by (simp add: distinct_length_filter set_diff_eq Int_def conj_commute)
  moreover have "k + m - card lost \<le> card ({0..<k + m} - lost)"
    using diff_card_le_card_Diff [OF assms(1), of "{0..<k + m}"] by simp
  ultimately show ?thesis using assms(2) by (simp add: filter_map)
qed

lemma decode_lost_correct:
  assumes enc: "encoded L r x shards" and lost: "finite lost" "card lost \<le> unat (m_recovery_count r)"
  defines "k \<equiv> unat (m_original_count r)"
  defines "sb \<equiv> slice_bytes k (length x)"
  assumes j: "j \<le> k" "\<exists>i<k. i \<in> lost" and size: "length x < 2 ^ 64"
    and head: "head = Some (length x, sb) \<or> head = None \<and> 0 \<in> lost"
  shows "decode_lost L r (buffer_bytes sb) (arrived lost shards) j head
           (concat (map (data_slice sb (input_data k sb x)) [0..<j])) = Inr (0, x)"
proof -
  let ?m = "unat (m_recovery_count r)" and ?buf = "buffer_bytes sb" and ?in = "arrived lost shards"
  let ?dat = "input_data k sb x" and ?opt = "\<lambda>j. if arrived lost shards ! j = [] then None
    else Some (arrived lost shards ! j)"
  let ?os = "original_data k sb ?dat"
  note S = encoded_shards [OF enc, folded k_def, folded sb_def]
  from enc obtain work where work: "?m \<le> length work" "shards = ?os @ take ?m work"
    and rec: "leo_recovers L (m_original_count r) (m_recovery_count r) ?buf ?os work"
    and wc: "leo_decode_work_count L (m_original_count r) (m_recovery_count r) \<noteq> 0"
    by (auto simp: encoded_def Let_def k_def sb_def)
  have sh: "i < k + ?m \<Longrightarrow> shards ! i \<noteq> []" for i using S(3) S(5) [of i] by auto
  have load: "load_buffers ?buf ?in i n = Inr (map ?opt [i..<i + n])" if "i + n \<le> k + ?m" for i n
    using that S(1,5) by (intro load_buffers_erased) auto
  have os: "i < k \<Longrightarrow> shards ! i = ?os ! i" for i using work(2) by (simp add: nth_append)
  have ws: "i < ?m \<Longrightarrow> shards ! (k + i) = work ! i" for i using work by (simp add: nth_append)
  have present: "k \<le> length (filter (\<lambda>b. b \<noteq> None) (map ?opt [0..<k] @ map ?opt [k..<k + ?m]))"
  proof -
    have eq: "map ?opt [0..<k] @ map ?opt [k..<k + ?m] = map ?opt [0..<k + ?m]"
      by (simp only: upt_add_eq_append [of 0 k] map_append)
    have all: "\<forall>i<k + ?m. shards ! i \<noteq> []" using sh by blast
    show ?thesis unfolding eq by (rule enough_present [OF lost S(1) all])
  qed
  define og where "og = map ?opt [0..<k]"
  define rv where "rv = map ?opt [k..<k + ?m]"
  have "length og = k" "length rv = ?m" by (simp_all add: og_def rv_def)
  moreover have "\<forall>i<k. og ! i \<in> {None, Some (?os ! i)}" using S(1) os by (simp add: og_def)
  moreover have "\<forall>i<?m. rv ! i \<in> {None, Some (work ! i)}" using S(1) ws by (simp add: rv_def)
  moreover have "None \<in> set og" using j(2) S(1) by (force simp: og_def)
  moreover have "k \<le> length (filter (\<lambda>b. b \<noteq> None) (og @ rv))"
    using present by (simp only: og_def rv_def)
  ultimately obtain dw where
    dw: "leo_decode L ?buf (m_original_count r) (m_recovery_count r)
        (leo_decode_work_count L (m_original_count r) (m_recovery_count r)) og rv = (0, dw)"
      "k \<le> length dw" "\<forall>i<k. og ! i = None \<longrightarrow> dw ! i = ?os ! i"
    using rec unfolding leo_recovers_def k_def [symmetric] by blast
  have lost_dw: "dw ! i = shards ! i" if "i < k" "i \<in> lost" for i
    using dw(3) that S(1) os by (simp add: og_def)
  have header: "(case head of Some h \<Rightarrow> Inr h
      | None \<Rightarrow> if dw = [] then Inl OutOfBounds else read_header (dw ! 0)) = Inr (length x, sb)"
    using head lost_dw [of 0] S(2) S(8) [OF size] dw(2) by auto
  have "copy_rest sb ?in dw j (k - j) (concat (map (data_slice sb ?dat) [0..<j])) =
      Inr (concat (map (data_slice sb ?dat) [0..<j]) @ concat (map (data_slice sb ?dat) [j..<j + (k - j)]))"
    using j(1) S(1,4,5,6) sh dw(2) lost_dw by (intro copy_rest_slices) auto
  also have "\<dots> = Inr ?dat"
    using concat_data_slices_all [OF j(1) S(7)] j(1) by simp
  finally show ?thesis
    using wc load [of 0 k, folded og_def] load [of k ?m, folded rv_def] dw(1) header
    by (simp add: decode_lost_def Let_def k_def [symmetric] strip_input_data og_def rv_def)
qed

lemma rse_decode_encoded:
  assumes enc: "encoded L r x shards" and size: "length x + 16 < 2 ^ 32"
    and lost: "finite lost" "card lost \<le> unat (m_recovery_count r)"
  shows "rse_decode L r (arrived lost shards) [] = Inr (0, x)"
proof -
  define k where "k = unat (m_original_count r)"
  define m where "m = unat (m_recovery_count r)"
  define sb where "sb = slice_bytes k (length x)"
  let ?in = "arrived lost shards" and ?dat = "input_data k sb x"
  note S = encoded_shards [OF enc, folded k_def m_def, folded sb_def]
  have len64: "length x < 2 ^ 64" using size by simp
  have ne: "i < k + m \<Longrightarrow> shards ! i \<noteq> []" for i using S(3) S(5) [of i] by auto
  have "\<exists>i<k + m. i \<notin> lost"
  proof (rule ccontr)
    assume "\<not> (\<exists>i<k + m. i \<notin> lost)"
    then have "{..<k + m} \<subseteq> lost" by auto
    then have "k + m \<le> card lost" using card_mono [OF lost(1), of "{..<k + m}"] by simp
    then show False using lost(2) S(2) by (simp add: m_def)
  qed
  then obtain i where i: "i < k + m" "i \<notin> lost" by blast
  then have "?in ! i \<in> set ?in" "?in ! i \<noteq> []" using S(1) ne by (simp_all only: nth_mem length_arrived) simp
  then have "\<exists>b\<in>set ?in. b \<noteq> []" by blast
  moreover have "\<forall>b\<in>set ?in. b = [] \<or> length b = buffer_bytes sb"
    using S(1,5) by (auto simp: arrived_def)
  ultimately have buf: "present_size ?in = buffer_bytes sb"
    by (intro present_size_equal)
  note D = decode_lost_correct [OF enc lost, folded k_def, folded sb_def, OF _ _ len64]
  show ?thesis
  proof (cases "0 \<in> lost")
    case True
    have "decode_lost L r (buffer_bytes sb) ?in 0 None [] = Inr (0, x)"
      using D [of 0 None] True S(2) by auto
    then show ?thesis using True S(1-3) buf by (simp add: rse_decode_def Let_def)
  next
    case False
    have "\<And>j. 0 \<le> j \<Longrightarrow> j < 0 + k \<Longrightarrow> j < length ?in \<and>
        (?in ! j \<noteq> [] \<longrightarrow> sb \<le> length (?in ! j) \<and> take sb (?in ! j) = data_slice sb ?dat j)"
      using S(1,4,5,6) by auto
    from copy_prefix_slices [of 0 k ?in sb "data_slice sb ?dat" "[]", OF this]
    obtain j where j: "copy_prefix sb ?in 0 k [] = Inr (j, concat (map (data_slice sb ?dat) [0..<j]))"
      "j \<le> k" "j < k \<longrightarrow> ?in ! j = []" by auto
    have head: "read_header (?in ! 0) = Inr (length x, sb)" "?in ! 0 \<noteq> []"
      using False S(1,2) S(8) [OF len64] ne [of 0] by simp_all
    have all: "concat (map (data_slice sb ?dat) [0..<k]) = ?dat"
      using concat_data_slices_all [of k k ?dat sb] S(7) by simp
    show ?thesis
    proof (cases "j = k")
      case True
      with j head buf all S(3) show ?thesis
        by (simp add: rse_decode_def Let_def k_def [symmetric] strip_input_data)
    next
      case False
      with j(2,3) S(1) ne have "j < k" "j \<in> lost" by (auto split: if_splits)
      then have "decode_lost L r (buffer_bytes sb) ?in j (Some (length x, sb))
          (concat (map (data_slice sb ?dat) [0..<j])) = Inr (0, x)"
        by (intro D) auto
      with j head buf False S(3) show ?thesis
        by (simp add: rse_decode_def Let_def k_def [symmetric])
    qed
  qed
qed

text \<open>
  C18: From any \<open>m_original_count\<close> of the slices that \<open>encode\<close> makes of a byte string,
  whichever \<open>m_recovery_count\<close> of them are lost, \<open>decode\<close> returns exactly that byte string,
  provided a slice has at least nine bytes of the data (the decoder reads the lengths from
  the first slice alone).
\<close>

theorem rse_roundtrip:
  assumes "leo_ok L (m_original_count r) (m_recovery_count r)"
    and "0 < unat (m_original_count r)"
    and "9 \<le> slice_bytes (unat (m_original_count r)) (length x)"
    and "length x + 16 < 2 ^ 32"
    and "finite lost" and "card lost \<le> unat (m_recovery_count r)"
  shows "\<exists>shards. rse_encode L r x [] = Inr (0, shards) \<and>
           length shards = unat (m_original_count r) + unat (m_recovery_count r) \<and>
           rse_decode L r (arrived lost shards) [] = Inr (0, x)"
proof -
  from rse_encode_encoded [OF assms(1-4)] obtain shards
    where "rse_encode L r x [] = Inr (0, shards)" and enc: "encoded L r x shards" by blast
  with encoded_shards(1) [OF enc] rse_decode_encoded [OF enc assms(4-6)] show ?thesis by blast
qed

lemma le_nat_replicate_0 [simp]: "le_nat (replicate n 0) = 0"
  by (induction n) simp_all

text \<open>
  C37: When a slice has at most eight bytes of the data (many replicas and few commands, or a
  proposal without commands), the decoder reads a slice size of zero from the first slice and
  then erases a header that is not there, although no slice was lost.
\<close>

theorem rse_short_slices:
  assumes "leo_ok L (m_original_count r) (m_recovery_count r)"
    and "0 < unat (m_original_count r)"
    and "slice_bytes (unat (m_original_count r)) (length x) \<le> 8"
    and "length x + 16 < 2 ^ 32"
  shows "\<exists>shards. rse_encode L r x [] = Inr (0, shards) \<and>
           rse_decode L r shards [] = Inl OutOfBounds"
proof -
  define k where "k = unat (m_original_count r)"
  define sb where "sb = slice_bytes k (length x)"
  define os where "os = original_data k sb (input_data k sb x)"
  obtain work where enc: "rse_encode L r x [] = Inr (0, os @ take (unat (m_recovery_count r)) work)"
    and work: "unat (m_recovery_count r) \<le> length work"
      "\<forall>i<unat (m_recovery_count r). length (work ! i) = buffer_bytes sb"
    using rse_encode_shape [OF assms(1,2,4)] unfolding k_def sb_def os_def by metis
  let ?in = "os @ take (unat (m_recovery_count r)) work"
  have k: "0 < k" and sb: "0 < sb" "sb \<le> 8" and sbk: "16 + length x \<le> sb * k"
    using assms(2,3) slice_bytes_enough [OF assms(2,4)] by (auto simp: k_def sb_def intro: gr0I)
  have len: "length (input_data k sb x) = sb * k" using sbk by (rule length_input_data)
  have buf: "64 \<le> buffer_bytes sb" using sb(1) by (rule buffer_bytes_ge_64)
  have all: "\<forall>b\<in>set ?in. length b = buffer_bytes sb"
    using original_data_buffer(1) [OF len] work
    by (auto simp: os_def in_set_conv_nth)
  have os_len: "length os = k" by (simp add: os_def)
  then have os_ne: "os \<noteq> []" using k by (cases os) simp_all
  have os: "length os = k" "os \<noteq> []" "?in ! 0 = os ! 0"
    using os_len os_ne k by (simp_all add: nth_append)
  have present: "present_size ?in = buffer_bytes sb"
  proof (intro present_size_equal)
    have "os ! 0 \<in> set ?in" using os_ne by (cases os) simp_all
    with all buf show "\<exists>b\<in>set ?in. b \<noteq> []"
      by (metis list.size(3) not_numeral_le_zero)
  qed (use all in blast)
  have ne: "i < k \<Longrightarrow> ?in ! i \<noteq> []" for i
    using all buf os(1) by (metis length_append list.size(3) not_numeral_le_zero nth_mem trans_less_add1)
  have hd: "?in ! 0 = take sb (input_data k sb x) @ replicate (buffer_bytes sb - sb) 0"
    using k os(3) by (simp add: os_def original_data_0)
  have "os ! 0 \<in> set ?in" using os_ne by (cases os) simp_all
  then have "length (?in ! 0) = buffer_bytes sb" using all os(3) by simp
  moreover have "drop 8 (?in ! 0) = replicate (buffer_bytes sb - 8) 0"
    unfolding hd using sb len k by simp
  ultimately have header: "\<exists>d. read_header (?in ! 0) = Inr (d, 0)"
    using buf by (simp add: read_header_def)
  have copy: "copy_prefix 0 ?in 0 k [] = Inr (k, [])"
  proof -
    from copy_prefix_slices [of 0 k ?in 0 "\<lambda>_. []" "[]"] os(1) obtain j
      where j: "copy_prefix 0 ?in 0 k [] = Inr (j, concat (map (\<lambda>_. []) [0..<j]))" "j \<le> k"
        "j < k \<longrightarrow> ?in ! j = []" by auto
    then have "j = k" using ne by (meson le_neq_implies_less)
    with j show ?thesis by simp
  qed
  have "rse_decode L r ?in [] = Inl OutOfBounds"
    using header copy present buf ne [OF k]
    by (auto simp: rse_decode_def Let_def k_def [symmetric] strip_def)
  with enc show ?thesis by blast
qed

section \<open>An erasure code\<close>

text \<open>
  The smallest code that keeps Leopard's promise for more than one original: three originals
  and their parity. The laws are satisfiable, and the properties above are instantiated on it.
\<close>

definition xor_bytes :: "bytes \<Rightarrow> bytes \<Rightarrow> bytes" where
  "xor_bytes a b = map2 (\<lambda>x y. x XOR y) a b"

fun parity :: "bytes list \<Rightarrow> bytes" where
  "parity [] = []"
| "parity [d] = d"
| "parity (d # ds) = xor_bytes d (parity ds)"

definition parity_leo :: leo_ops where
  "parity_leo =
    \<lparr>leo_init = 0, leo_encode_work_count = (\<lambda>k m. 1),
     leo_encode = (\<lambda>buf k m wc ds. (0, [parity ds])),
     leo_decode_work_count = (\<lambda>k m. k),
     leo_decode = (\<lambda>buf k m wc originals recovery. (0,
       map (\<lambda>x. case x of Some d \<Rightarrow> d
                 | None \<Rightarrow> parity (map the (filter (\<lambda>y. y \<noteq> None) (originals @ recovery))))
         originals))\<rparr>"

lemma length_xor_bytes [simp]: "length a = n \<Longrightarrow> length b = n \<Longrightarrow> length (xor_bytes a b) = n"
  by (simp add: xor_bytes_def)

lemma xor_bytes_nth:
  "i < length a \<Longrightarrow> i < length b \<Longrightarrow> xor_bytes a b ! i = (a ! i) XOR (b ! i)"
  by (simp add: xor_bytes_def)

lemma xor_cancel:
  fixes a b c :: byte
  shows "b XOR (c XOR (a XOR (b XOR c))) = a" "a XOR (c XOR (a XOR (b XOR c))) = b"
    "a XOR (b XOR (a XOR (b XOR c))) = c"
  by (rule bit_eqI, auto simp: bit_xor_iff)+

lemma parity_recovers:
  assumes "length a = n" "length b = n" "length c = n"
  shows "parity [b, c, parity [a, b, c]] = a" "parity [a, c, parity [a, b, c]] = b"
    "parity [a, b, parity [a, b, c]] = c"
  using assms by (auto intro!: nth_equalityI simp: xor_bytes_nth xor_cancel)

lemma parity_leo_simps [simp]:
  "leo_encode_work_count parity_leo k m = 1" "leo_decode_work_count parity_leo k m = k"
  "leo_encode parity_leo buf k m wc ds = (0, [parity ds])"
  by (simp_all add: parity_leo_def)

lemma parity_leo_ok: "leo_ok parity_leo 3 1"
proof -
  have "leo_recovers parity_leo 3 1 buf ds [parity ds]"
    if len: "length ds = 3" "\<forall>d\<in>set ds. length d = buf" for buf ds
  proof -
    from len(1) obtain a b c where ds: "ds = [a, b, c]"
      by (auto simp: numeral_3_eq_3 length_Suc_conv)
    with len(2) have abc: "length a = buf" "length b = buf" "length c = buf" by auto
    show ?thesis
      unfolding leo_recovers_def
    proof (intro allI impI)
      fix originals recovery :: "bytes option list"
      have three: "unat (3 :: u32) = Suc (Suc (Suc 0))" by simp
      assume "length originals = unat (3 :: u32)" "length recovery = unat (1 :: u32)"
      then have "length originals = Suc (Suc (Suc 0))" "length recovery = Suc 0" by simp_all
      then obtain x y z p where o: "originals = [x, y, z]" "recovery = [p]"
        by (auto simp: length_Suc_conv)
      assume "\<forall>i<unat (3 :: u32). originals ! i \<in> {None, Some (ds ! i)}"
      then have xyz: "x \<in> {None, Some a}" "y \<in> {None, Some b}" "z \<in> {None, Some c}"
        unfolding three o ds by (auto simp: All_less_Suc)
      assume "\<forall>i<unat (1 :: u32). recovery ! i \<in> {None, Some ([parity ds] ! i)}"
      then have p: "p \<in> {None, Some (parity [a, b, c])}" using o ds by simp
      assume enough: "unat (3 :: u32) \<le> length (filter (\<lambda>x. x \<noteq> None) (originals @ recovery))"
        and lost: "None \<in> set originals"
      show "\<exists>dw. leo_decode parity_leo buf 3 1 (leo_decode_work_count parity_leo 3 1)
          originals recovery = (0, dw) \<and> unat (3 :: u32) \<le> length dw \<and>
          (\<forall>i<unat (3 :: u32). originals ! i = None \<longrightarrow> dw ! i = ds ! i)"
        using xyz p enough lost parity_recovers [OF abc]
        unfolding three o ds parity_leo_def
        by (auto simp: All_less_Suc simp del: parity.simps)
    qed
  qed
  moreover have "length (parity ds) = buf" if "length ds = 3" "\<forall>d\<in>set ds. length d = buf" for ds buf
    using that by (auto simp: numeral_3_eq_3 length_Suc_conv)
  ultimately show ?thesis
    unfolding leo_ok_def by auto
qed

lemma rse_roundtrip_witness:
  "\<exists>shards. rse_encode parity_leo (rse_set_params 4) (replicate 32 7) [] = Inr (0, shards) \<and>
     length shards = 4 \<and>
     rse_decode parity_leo (rse_set_params 4) (arrived {0} shards) [] = Inr (0, replicate 32 7)"
  using rse_roundtrip [of parity_leo "rse_set_params 4" "replicate 32 7" "{0}"] parity_leo_ok
  by (simp add: rse_set_params_def slice_bytes_def)

lemma rse_short_slices_witness:
  "\<exists>shards. rse_encode parity_leo (rse_set_params 4) [] [] = Inr (0, shards) \<and>
     rse_decode parity_leo (rse_set_params 4) shards [] = Inl OutOfBounds"
  using rse_short_slices [of parity_leo "rse_set_params 4" "[]"] parity_leo_ok
  by (simp add: rse_set_params_def slice_bytes_def)

end
