(* ===== verification/Entity.thy ===== *)
theory Entity
  imports QuorumCert RSE
begin

text \<open>
  Blocks and their storage (include/hotstuff/entity.h and src/entity.cpp). Blocks are shared
  and mutated through reference-counted pointers (\<open>block_t\<close>), so they live in a heap: a
  \<open>block_t\<close> is a reference into it, or null where the code allows that. Code that is not part
  of the repository is gathered in \<open>env\<close>, a parameter of the model.
\<close>

section \<open>The environment\<close>

text \<open>
  \<open>e_get_hash\<close> is \<open>salticidae::get_hash\<close> on the serialized form of an object, \<open>e_get_hex\<close> is
  \<open>get_hex\<close> of a hash, \<open>e_sha_hex\<close> is \<open>picosha2::hash256_hex_string\<close>, and
  \<open>e_uint256_default\<close> the value \<open>uint256_t()\<close>; \<open>e_to_bytes\<close> and \<open>e_from_bytes\<close> are the
  conversions \<open>to_bytes\<close> and \<open>from_bytes\<close> of \<open>uint256_t\<close>. Of the conversions the code relies on
  \<open>bytes_ok\<close>.
\<close>

record env =
  e_stream :: stream_ops
  e_crypto :: crypto_ops
  e_kind :: crypto_kind
  e_get_hash :: "bytes \<Rightarrow> uint256"
  e_get_hex :: "uint256 \<Rightarrow> bytes"
  e_sha_hex :: "bytes \<Rightarrow> bytes"
  e_uint256_default :: uint256
  e_leo :: leo_ops
  e_to_bytes :: "uint256 \<Rightarrow> bytes"
  e_from_bytes :: "bytes \<Rightarrow> uint256"

definition bytes_ok :: "env \<Rightarrow> bool" where
  "bytes_ok E \<longleftrightarrow>
     (\<forall>h. length (e_to_bytes E h) = 32) \<and> (\<forall>h. e_from_bytes E (e_to_bytes E h) = h)"

section \<open>Blocks\<close>

type_synonym block_ref = nat

record block =
  blk_parent_hashes :: "uint256 list"
  blk_cmds :: "uint256 list"
  blk_qc :: "quorum_cert option"
  blk_extra :: bytes
  blk_hash :: uint256
  blk_parents :: "block_ref list"
  blk_qc_ref :: "block_ref option"
  blk_self_qc :: "quorum_cert option"
  blk_height :: u32
  blk_delivered :: bool
  blk_decision :: byte
  blk_voted :: "replica_id set"

definition put_block :: "env \<Rightarrow> block \<Rightarrow> bytes res" where
  "put_block E b =
     (let S = e_stream E; put_hash = (\<lambda>h. Inr (put_u256 S h)) in
      cat (put_vec S put_hash (blk_parent_hashes b))
        (cat (put_vec S put_hash (blk_cmds b))
          (cat (case blk_qc b of None \<Rightarrow> Inl NullDeref | Some q \<Rightarrow> put_qc S (e_crypto E) q)
            (Inr (put_blob S (blk_extra b))))))"

text \<open>\<open>salticidae::get_hash(*this)\<close>.\<close>

definition block_get_hash :: "env \<Rightarrow> block \<Rightarrow> uint256 res" where
  "block_get_hash E b = bindE (put_block E b) (\<lambda>s. Inr (e_get_hash E s))"

text \<open>The three constructors: \<open>Block()\<close>, \<open>Block(delivered, decision)\<close> and the full one.\<close>

definition block_default :: "env \<Rightarrow> block" where
  "block_default E =
     \<lparr>blk_parent_hashes = [], blk_cmds = [], blk_qc = None, blk_extra = [],
      blk_hash = e_uint256_default E, blk_parents = [], blk_qc_ref = None, blk_self_qc = None,
      blk_height = 0, blk_delivered = False, blk_decision = 0, blk_voted = {}\<rparr>"

definition block_genesis :: "env \<Rightarrow> bool \<Rightarrow> byte \<Rightarrow> block res" where
  "block_genesis E delivered decision =
     (let b = (block_default E)\<lparr>blk_qc := Some (QuorumCertDummy (e_uint256_default E)),
                blk_delivered := delivered, blk_decision := decision\<rparr>
      in bindE (block_get_hash E b) (\<lambda>h. Inr (b\<lparr>blk_hash := h\<rparr>)))"

definition new_Block ::
  "env \<Rightarrow> (block_ref \<Rightarrow> block) \<Rightarrow> block_ref list \<Rightarrow> uint256 list \<Rightarrow> quorum_cert option \<Rightarrow> bytes \<Rightarrow>
   u32 \<Rightarrow> block_ref option \<Rightarrow> quorum_cert option \<Rightarrow> byte \<Rightarrow> block res" where
  "new_Block E hp parents cmds qc extra height qc_ref self_qc decision =
     (let b = (block_default E)\<lparr>blk_parent_hashes := map (\<lambda>p. blk_hash (hp p)) parents,
                blk_cmds := cmds, blk_qc := qc, blk_extra := extra\<rparr>
      in bindE (block_get_hash E b) (\<lambda>h.
        Inr (b\<lparr>blk_hash := h, blk_parents := parents, blk_qc_ref := qc_ref,
               blk_self_qc := self_qc, blk_height := height, blk_decision := decision\<rparr>)))"

text \<open>\<open>unserialize\<close> of a fresh \<open>Block\<close>.\<close>

definition get_block_data :: "env \<Rightarrow> bytes \<Rightarrow> (block \<times> bytes) res" where
  "get_block_data E s0 =
     (let S = e_stream E in
      bindE (get_vec S (get_u256 S) s0) (\<lambda>(parent_hashes, s1).
      bindE (get_vec S (get_u256 S) s1) (\<lambda>(cmds, s2).
      bindE (parse_quorum_cert S (e_crypto E) (e_kind E) s2) (\<lambda>(qc, s3).
      bindE (get_blob S s3) (\<lambda>(extra, s4).
        let b = (block_default E)\<lparr>blk_parent_hashes := parent_hashes, blk_cmds := cmds,
                  blk_qc := Some qc, blk_extra := extra\<rparr>
        in bindE (block_get_hash E b) (\<lambda>h. Inr (b\<lparr>blk_hash := h\<rparr>, s4)))))))"

text \<open>\<open>Block::verify\<close>, alone and on the verification pool.\<close>

definition block_verify :: "env \<Rightarrow> uint256 \<Rightarrow> replica_config \<Rightarrow> block \<Rightarrow> bool res" where
  "block_verify E genesis_hash cfg b =
     (case blk_qc b of
        None \<Rightarrow> Inl NullDeref
      | Some q \<Rightarrow> if qc_obj_hash q = genesis_hash then Inr True else qc_verify (e_crypto E) cfg q)"

definition block_verify_pool :: "env \<Rightarrow> uint256 \<Rightarrow> replica_config \<Rightarrow> block \<Rightarrow> bool res" where
  "block_verify_pool E genesis_hash cfg b =
     (case blk_qc b of
        None \<Rightarrow> Inl NullDeref
      | Some q \<Rightarrow> if qc_obj_hash q = genesis_hash then Inr True
                  else qc_verify_pool (e_crypto E) cfg q)"

definition block_height_cmp :: "block \<Rightarrow> block \<Rightarrow> bool" where
  "block_height_cmp a b \<longleftrightarrow> blk_height a < blk_height b"

section \<open>Storage\<close>

text \<open>A command is an object of the application: a reference to it and its hash.\<close>

record command =
  cmd_ref :: nat
  cmd_hash :: uint256

text \<open>The storage, with the heap its blocks live in; references from \<open>next_ref\<close> on are free.\<close>

record entity_storage =
  heap :: "block_ref \<Rightarrow> block"
  next_ref :: block_ref
  blk_cache :: "uint256 \<rightharpoonup> block_ref"
  cmd_cache :: "uint256 \<rightharpoonup> command"

definition upd_blk :: "block_ref \<Rightarrow> (block \<Rightarrow> block) \<Rightarrow> entity_storage \<Rightarrow> entity_storage" where
  "upd_blk r f st = st\<lparr>heap := (heap st)(r := f (heap st r))\<rparr>"

definition find_blk :: "entity_storage \<Rightarrow> uint256 \<Rightarrow> block_ref option" where
  "find_blk st h = blk_cache st h"

definition is_blk_delivered :: "entity_storage \<Rightarrow> uint256 \<Rightarrow> bool" where
  "is_blk_delivered st h =
     (case blk_cache st h of None \<Rightarrow> False | Some r \<Rightarrow> blk_delivered (heap st r))"

definition is_blk_fetched :: "entity_storage \<Rightarrow> uint256 \<Rightarrow> bool" where
  "is_blk_fetched st h \<longleftrightarrow> blk_cache st h \<noteq> None"

text \<open>\<open>add_blk(const block_t &)\<close>: an entry that is there already is kept and returned.\<close>

definition add_blk_ref :: "block_ref \<Rightarrow> entity_storage \<Rightarrow> block_ref \<times> entity_storage" where
  "add_blk_ref r st =
     (let h = blk_hash (heap st r) in
      case blk_cache st h of
        None \<Rightarrow> (r, st\<lparr>blk_cache := (blk_cache st)(h \<mapsto> r)\<rparr>)
      | Some r' \<Rightarrow> (r', st))"

text \<open>
  \<open>new Block(...)\<close>, and \<open>add_blk(Block &&, config)\<close> or \<open>add_blk(new Block(...))\<close>: when the
  storage has a block of that hash already, the only reference to the new one is dropped and
  it is freed at once, so it never enters the heap.
\<close>

definition alloc_blk :: "block \<Rightarrow> entity_storage \<Rightarrow> block_ref \<times> entity_storage" where
  "alloc_blk b st =
     (next_ref st, st\<lparr>heap := (heap st)(next_ref st := b), next_ref := Suc (next_ref st)\<rparr>)"

definition add_blk :: "block \<Rightarrow> entity_storage \<Rightarrow> block_ref \<times> entity_storage" where
  "add_blk b st =
     (case blk_cache st (blk_hash b) of
        Some r \<Rightarrow> (r, st)
      | None \<Rightarrow> let (r, st) = alloc_blk b st in add_blk_ref r st)"

text \<open>\<open>try_release_blk\<close>: \<open>cnt\<close> is the reference count that \<open>ArcObj::get_cnt\<close> reports.\<close>

definition try_release_blk :: "nat \<Rightarrow> block_ref \<Rightarrow> entity_storage \<Rightarrow> bool \<times> entity_storage" where
  "try_release_blk cnt r st =
     (if cnt = 2
      then (True, st\<lparr>blk_cache := (blk_cache st)(blk_hash (heap st r) := None)\<rparr>)
      else (False, st))"

definition is_cmd_fetched :: "entity_storage \<Rightarrow> uint256 \<Rightarrow> bool" where
  "is_cmd_fetched st h \<longleftrightarrow> cmd_cache st h \<noteq> None"

definition add_cmd :: "command \<Rightarrow> entity_storage \<Rightarrow> command \<times> entity_storage" where
  "add_cmd c st =
     (case cmd_cache st (cmd_hash c) of
        None \<Rightarrow> (c, st\<lparr>cmd_cache := (cmd_cache st)(cmd_hash c \<mapsto> c)\<rparr>)
      | Some c' \<Rightarrow> (c', st))"

definition find_cmd :: "entity_storage \<Rightarrow> uint256 \<Rightarrow> command option" where
  "find_cmd st h = cmd_cache st h"

definition try_release_cmd :: "nat \<Rightarrow> command \<Rightarrow> entity_storage \<Rightarrow> bool \<times> entity_storage" where
  "try_release_cmd cnt c st =
     (if cnt = 2 then (True, st\<lparr>cmd_cache := (cmd_cache st)(cmd_hash c := None)\<rparr>)
      else (False, st))"

definition get_blk_cache_size :: "entity_storage \<Rightarrow> nat" where
  "get_blk_cache_size st = card (dom (blk_cache st))"

definition get_cmd_cache_size :: "entity_storage \<Rightarrow> nat" where
  "get_cmd_cache_size st = card (dom (cmd_cache st))"

definition empty_storage :: "env \<Rightarrow> entity_storage" where
  "empty_storage E =
     \<lparr>heap = (\<lambda>_. block_default E), next_ref = 0, blk_cache = Map.empty, cmd_cache = Map.empty\<rparr>"

section \<open>The interface of a cache\<close>

text \<open>
  The contract of the two caches: what is found under a key stays there, and adding an entity
  returns what will be found under its key from then on.
\<close>

locale entity_cache =
  fixes find :: "'s \<Rightarrow> uint256 \<Rightarrow> 'e option"
    and add :: "'e \<Rightarrow> 's \<Rightarrow> 'e \<times> 's"
    and key :: "'s \<Rightarrow> 'e \<Rightarrow> uint256"
  assumes find_add_new: "find s (key s x) = None \<Longrightarrow> add x s = (x, s') \<Longrightarrow>
      find s' = (find s)(key s x \<mapsto> x)"
    and add_fresh: "find s (key s x) = None \<Longrightarrow> fst (add x s) = x"
    and add_known: "find s (key s x) = Some y \<Longrightarrow> add x s = (y, s)"
begin

lemma find_add:
  assumes "add x s = (y, s')"
  shows "find s' (key s x) = Some y"
proof (cases "find s (key s x)")
  case None
  with add_fresh [OF None] assms find_add_new [OF None, of s'] show ?thesis by simp
next
  case (Some z)
  with add_known [OF Some] assms show ?thesis by simp
qed

lemma find_stable:
  assumes "add x s = (y, s')" and "find s h = Some z"
  shows "find s' h = Some z"
proof (cases "find s (key s x)")
  case None
  then have "h \<noteq> key s x" using assms(2) by auto
  with add_fresh [OF None] assms find_add_new [OF None, of s'] show ?thesis by simp
next
  case (Some w)
  with add_known [OF Some] assms show ?thesis by simp
qed

lemma add_idempotent:
  assumes "add x s = (y, s')" and "key s' x = key s x"
  shows "add x s' = (y, s')"
  using find_add [OF assms(1)] assms(2) add_known [of s' x y] by simp

end

interpretation blks: entity_cache find_blk add_blk_ref "\<lambda>st r. blk_hash (heap st r)"
  by unfold_locales (auto simp: find_blk_def add_blk_ref_def Let_def)

interpretation cmds: entity_cache find_cmd add_cmd "\<lambda>st c. cmd_hash c"
  by unfold_locales (auto simp: find_cmd_def add_cmd_def)

lemma add_blk_new:
  "find_blk st (blk_hash b) = None \<Longrightarrow> add_blk b st =
     (next_ref st, st\<lparr>heap := (heap st)(next_ref st := b), next_ref := Suc (next_ref st),
        blk_cache := (blk_cache st)(blk_hash b \<mapsto> next_ref st)\<rparr>)"
  by (simp add: add_blk_def alloc_blk_def add_blk_ref_def find_blk_def Let_def)

lemma add_blk_known: "find_blk st (blk_hash b) = Some r \<Longrightarrow> add_blk b st = (r, st)"
  by (simp add: add_blk_def find_blk_def)

text \<open>Storing a block that arrived: the entry that is there stays, or a fresh block is added.\<close>

lemma add_blk_spec:
  assumes "add_blk b st = (r, st')"
  shows "find_blk st' (blk_hash b) = Some r"
    and "find_blk st (blk_hash b) = None \<longrightarrow> r = next_ref st \<and> heap st' r = b"
    and "\<forall>q. find_blk st (blk_hash b) = Some q \<longrightarrow> r = q"
    and "\<forall>q<next_ref st. heap st' q = heap st q"
  using assms
  by (auto simp: add_blk_def alloc_blk_def add_blk_ref_def find_blk_def Let_def
      split: option.splits)

section \<open>Serialized blocks\<close>

text \<open>A block that fits the stream: the lists' sizes are sent as 32-bit numbers.\<close>

definition block_ok :: "env \<Rightarrow> block \<Rightarrow> bool" where
  "block_ok E b \<longleftrightarrow>
     length (blk_parent_hashes b) < 2 ^ 32 \<and> length (blk_cmds b) < 2 ^ 32 \<and>
     length (blk_extra b) < 2 ^ 32 \<and>
     (\<exists>q. blk_qc b = Some q \<and> qc_ok (e_crypto E) (e_kind E) q)"

text \<open>The part of a block that is sent.\<close>

definition block_content :: "env \<Rightarrow> block \<Rightarrow> block" where
  "block_content E b =
     (block_default E)\<lparr>blk_parent_hashes := blk_parent_hashes b, blk_cmds := blk_cmds b,
        blk_qc := blk_qc b, blk_extra := blk_extra b\<rparr>"

lemma put_block_cong:
  "blk_parent_hashes b = blk_parent_hashes b' \<Longrightarrow> blk_cmds b = blk_cmds b' \<Longrightarrow>
     blk_qc b = blk_qc b' \<Longrightarrow> blk_extra b = blk_extra b' \<Longrightarrow> put_block E b = put_block E b'"
  by (simp add: put_block_def)

lemma put_block_content [simp]: "put_block E (block_content E b) = put_block E b"
  by (rule put_block_cong) (simp_all add: block_content_def)

lemma block_get_hash_content [simp]: "block_get_hash E (block_content E b) = block_get_hash E b"
  by (simp add: block_get_hash_def)

lemma block_codec_total:
  assumes S: "stream_ok (e_stream E)" and ok: "block_ok E b"
    and hash: "block_get_hash E b = Inr (blk_hash b)"
  shows "\<exists>s. put_block E b = Inr s \<and>
    (\<forall>r. get_block_data E (s @ r) = Inr ((block_content E b)\<lparr>blk_hash := blk_hash b\<rparr>, r))"
proof -
  let ?S = "e_stream E"
  let ?put = "put_vec ?S (\<lambda>h. Inr (put_u256 ?S h))" and ?get = "get_vec ?S (get_u256 ?S)"
  have S: "stream ?S" using S by unfold_locales
  have len: "length (blk_parent_hashes b) < 2 ^ 32" "length (blk_cmds b) < 2 ^ 32"
    "length (blk_extra b) < 2 ^ 32" using ok by (simp_all add: block_ok_def)
  from ok obtain q where q: "blk_qc b = Some q" and qok: "qc_ok (e_crypto E) (e_kind E) q"
    by (auto simp: block_ok_def)
  obtain ps cs where ps: "?put (blk_parent_hashes b) = Inr ps" and cs: "?put (blk_cmds b) = Inr cs"
    using stream.hashes_total [OF S] len by blast
  obtain qs where qs: "put_qc ?S (e_crypto E) q = Inr qs"
    using codec.enc_total [OF qc_codec [OF S] qok] by blast
  have put: "put_block E b = Inr (ps @ cs @ qs @ put_blob ?S (blk_extra b))"
    using q ps cs qs by (simp add: put_block_def Let_def)
  have "get_block_data E ((ps @ cs @ qs @ put_blob ?S (blk_extra b)) @ r) =
      Inr ((block_content E b)\<lparr>blk_hash := blk_hash b\<rparr>, r)" for r
    using stream.hashes_read [OF S len(1) ps] stream.hashes_read [OF S len(2) cs]
      codec.dec_enc [OF qc_codec [OF S] qok qs] stream.blob [OF S len(3)] q hash
      block_get_hash_content [of E b]
    by (simp add: get_block_data_def Let_def block_content_def)
  with put show ?thesis by blast
qed

text \<open>
  C29: A block that is sent is received as the same block: the receiver reads the sender's
  parent hashes, commands, certificate and extra bytes, and computes the sender's hash.
\<close>

theorem block_roundtrip:
  assumes "stream_ok (e_stream E)" and "block_ok E b"
    and "block_get_hash E b = Inr (blk_hash b)"
  shows "\<exists>s. put_block E b = Inr s \<and>
    (\<forall>r. get_block_data E (s @ r) = Inr ((block_content E b)\<lparr>blk_hash := blk_hash b\<rparr>, r))"
  by (rule block_codec_total [OF assms])

section \<open>A concrete environment\<close>

text \<open>Stand-ins with the laws of the libraries, for concrete instances of the properties.\<close>

text \<open>A digest that reads the input as one number.\<close>

definition toy_hash :: "bytes \<Rightarrow> uint256" where
  "toy_hash b = word_of_nat (le_nat b + length b)"

definition toy_env :: "crypto_kind \<Rightarrow> env" where
  "toy_env k =
    \<lparr>e_stream = le_stream, e_crypto = toy_crypto, e_kind = k, e_get_hash = toy_hash,
     e_get_hex = (\<lambda>h. nat_le 32 (unat h)),
     e_sha_hex = (\<lambda>b. replicate 62 48 @ nat_le 2 (le_nat b + length b)),
     e_uint256_default = 0, e_leo = parity_leo,
     e_to_bytes = (\<lambda>h. nat_le 32 (unat h)), e_from_bytes = (\<lambda>b. word_of_nat (le_nat b))\<rparr>"

lemma toy_env_simps [simp]:
  "e_stream (toy_env k) = le_stream" "e_crypto (toy_env k) = toy_crypto" "e_kind (toy_env k) = k"
  "e_leo (toy_env k) = parity_leo" "e_uint256_default (toy_env k) = 0"
  "e_get_hash (toy_env k) = toy_hash"
  by (simp_all add: toy_env_def)

lemma toy_bytes_ok: "bytes_ok (toy_env k)"
proof -
  have "unat h < 256 ^ 32" for h :: uint256
    using unsigned_less [of h, where ?'a = nat] by simp
  then show ?thesis by (simp add: bytes_ok_def toy_env_def le_nat_nat_le_small)
qed

text \<open>A block as a proposer would send it.\<close>

definition sample_content :: "env \<Rightarrow> block" where
  "sample_content E = (block_default E)\<lparr>blk_parent_hashes := [7],
    blk_qc := Some (QuorumCertDummy 7), blk_extra := [1, 2]\<rparr>"

definition sample_block :: block where
  "sample_block = (let E = toy_env NoSig; b = sample_content E in
     case block_get_hash E b of Inl _ \<Rightarrow> b | Inr h \<Rightarrow> b\<lparr>blk_hash := h\<rparr>)"

lemma sample_block_ok:
  "block_ok (toy_env NoSig) sample_block"
  "block_get_hash (toy_env NoSig) sample_block = Inr (blk_hash sample_block)"
  "blk_extra sample_block = [1, 2]"
proof -
  let ?E = "toy_env NoSig"
  obtain h where h: "block_get_hash ?E (sample_content ?E) = Inr h"
    by (simp add: block_get_hash_def put_block_def put_vec_def sample_content_def block_default_def)
  then have b: "sample_block = (sample_content ?E)\<lparr>blk_hash := h\<rparr>"
    by (simp add: sample_block_def)
  have "block_get_hash ?E sample_block = block_get_hash ?E (sample_content ?E)"
    unfolding b by (simp add: block_get_hash_def put_block_def)
  moreover have "blk_hash sample_block = h" unfolding b by simp
  ultimately show "block_get_hash ?E sample_block = Inr (blk_hash sample_block)" using h by simp
  show "block_ok ?E sample_block" "blk_extra sample_block = [1, 2]"
    unfolding b by (simp_all add: sample_content_def block_default_def block_ok_def)
qed

lemma block_roundtrip_witness:
  "\<exists>s. put_block (toy_env NoSig) sample_block = Inr s \<and>
     (\<forall>r. get_block_data (toy_env NoSig) (s @ r) =
       Inr ((block_content (toy_env NoSig) sample_block)\<lparr>blk_hash := blk_hash sample_block\<rparr>, r))"
  using block_roundtrip [OF _ sample_block_ok(1,2)] le.laws by simp

end
