(* ===== verification/MerkleTree.thy ===== *)
theory MerkleTree
  imports Prelude "HOL-Library.Signed_Division"
begin

text \<open>
  The Merkle tree over the slices of a proposal (rse-merkle/MerkleTree.h and MerkleTree.cpp).
  The hash \<open>picosha2::hash256_hex_string\<close> is not part of the repository: it is the parameter
  \<open>H\<close>, from bytes to the 64 characters of its hexadecimal digest. A C++ \<open>string\<close> is the list
  of its bytes. A tree over no slice is never finished by the code: that is \<open>Diverges\<close>.
\<close>

definition EMPTY_HASH :: bytes where
  "EMPTY_HASH = replicate 64 48"

definition hash_2_leaf :: "(bytes \<Rightarrow> bytes) \<Rightarrow> bytes \<Rightarrow> bytes \<Rightarrow> bytes" where
  "hash_2_leaf H left right = H (left @ right)"

text \<open>A \<open>MerkleProof\<close>; \<open>m_index\<close> holds the bits of a C++ \<open>int\<close>, which \<open>sint\<close> reads.\<close>

record merkle_proof =
  m_data :: bytes
  m_index :: u32
  m_root_hash :: bytes
  m_branch :: "bytes list"

definition merkle_proof_default :: merkle_proof where
  "merkle_proof_default =
     \<lparr>m_data = [], m_index = 0, m_root_hash = EMPTY_HASH, m_branch = []\<rparr>"

record merkle_tree =
  t_data :: "bytes list"
  t_root_hash :: bytes
  t_levels :: "bytes list list"
  t_nshards :: nat

section \<open>The tree\<close>

definition pad_level :: "bytes list \<Rightarrow> bytes list" where
  "pad_level level = (if length level mod 2 = 1 then level @ [EMPTY_HASH] else level)"

text \<open>\<open>while (j+1 < size)\<close>: the hashes of neighbours.\<close>

fun next_level :: "(bytes \<Rightarrow> bytes) \<Rightarrow> bytes list \<Rightarrow> bytes list" where
  "next_level H (a # b # level) = hash_2_leaf H a b # next_level H level"
| "next_level H level = []"

text \<open>The outer loop, from the level \<open>level\<close> on; \<open>None\<close> when it goes on for ever.\<close>

partial_function (option) levels :: "(bytes \<Rightarrow> bytes) \<Rightarrow> bytes list \<Rightarrow> bytes list list option" where
  "levels H level =
     (if length level = 1 then Some [level]
      else Option.bind (levels H (next_level H (pad_level level)))
             (\<lambda>upper. Some (pad_level level # upper)))"

definition new_merkle_tree :: "(bytes \<Rightarrow> bytes) \<Rightarrow> bytes list \<Rightarrow> merkle_tree res" where
  "new_merkle_tree H shards =
     (case levels H (map H shards) of
        None \<Rightarrow> Inl Diverges
      | Some ls \<Rightarrow> Inr \<lparr>t_data = shards, t_root_hash = last ls ! 0, t_levels = ls,
                        t_nshards = length shards\<rparr>)"

section \<open>Proofs\<close>

definition at_index :: "'a list \<Rightarrow> int \<Rightarrow> 'a res" where
  "at_index xs i = (if 0 \<le> i \<and> i < int (length xs) then Inr (xs ! nat i) else Inl OutOfBounds)"

text \<open>The siblings on the way up; \<open>%\<close> and \<open>/\<close> on \<open>int\<close> truncate towards zero.\<close>

fun siblings :: "bytes list list \<Rightarrow> int \<Rightarrow> bytes list res" where
  "siblings (l # l' # ls) this_index =
     bindE (at_index l (if this_index smod 2 = 0 then this_index + 1 else this_index - 1)) (\<lambda>h.
       bindE (siblings (l' # ls) (this_index sdiv 2)) (\<lambda>branch. Inr (h # branch)))"
| "siblings ls this_index = Inr []"

definition proof_i :: "merkle_tree \<Rightarrow> int \<Rightarrow> merkle_proof res" where
  "proof_i t index =
     bindE (siblings (t_levels t) index) (\<lambda>branch.
       bindE (at_index (t_data t) index) (\<lambda>d.
         Inr \<lparr>m_data = d, m_index = word_of_int index, m_root_hash = t_root_hash t,
              m_branch = branch\<rparr>))"

definition proofs :: "merkle_tree \<Rightarrow> merkle_proof list res" where
  "proofs t = foldE (\<lambda>ps i. bindE (proof_i t (int i)) (\<lambda>p. Inr (ps @ [p]))) [] [0..<t_nshards t]"

text \<open>The loop of \<open>validate\<close>.\<close>

fun climb :: "(bytes \<Rightarrow> bytes) \<Rightarrow> bytes \<Rightarrow> int \<Rightarrow> bytes list \<Rightarrow> bytes" where
  "climb H cur_hash cur_index [] = cur_hash"
| "climb H cur_hash cur_index (b # branch) =
     climb H (if cur_index smod 2 = 0 then hash_2_leaf H cur_hash b else hash_2_leaf H b cur_hash)
       (cur_index sdiv 2) branch"

definition validate :: "(bytes \<Rightarrow> bytes) \<Rightarrow> ('a) merkle_proof_scheme \<Rightarrow> bool" where
  "validate H p \<longleftrightarrow> climb H (H (m_data p)) (sint (m_index p)) (m_branch p) = m_root_hash p"

section \<open>Every proof of a tree is valid\<close>

lemma sdiv_2 [simp]: "int i sdiv 2 = int (i div 2)"
  and smod_2 [simp]: "int i smod 2 = int (i mod 2)"
  by (cases "i = 0"; simp add: signed_divide_int_def signed_modulo_int_def zdiv_int zmod_int)+

lemma next_level_nth:
  "length l = 2 * n \<Longrightarrow> j < n \<Longrightarrow>
     length (next_level H l) = n \<and>
     next_level H l ! j = hash_2_leaf H (l ! (2 * j)) (l ! (2 * j + 1))"
proof (induction H l arbitrary: n j rule: next_level.induct)
  case (1 H a b level)
  then obtain m where m: "n = Suc m" "length level = 2 * m" by (cases n) auto
  show ?case
  proof (cases j)
    case 0
    have "length (next_level H level) = m"
      using "1.IH" [OF m(2), of 0] m by (cases m) auto
    with 0 m show ?thesis by simp
  next
    case (Suc j')
    with "1.IH" [OF m(2), of j'] "1.prems" m show ?thesis by simp
  qed
qed auto

lemma length_next_level:
  assumes "length l = 2 * n"
  shows "length (next_level H l) = n"
  using next_level_nth [OF assms, of 0] assms by (cases n) auto

lemma pad_level_length: "\<exists>n. length (pad_level l) = 2 * n \<and> length l \<le> 2 * n \<and> 2 * n \<le> length l + 1"
  unfolding pad_level_def by (cases "length l mod 2 = 1") (auto, presburger+)

lemma pad_level_nth: "i < length l \<Longrightarrow> pad_level l ! i = l ! i"
  by (simp add: pad_level_def nth_append)

lemma levels_one: "length l = 1 \<Longrightarrow> levels H l = Some [l]"
  by (simp add: levels.simps)

lemma at_index_nth: "i < length xs \<Longrightarrow> at_index xs (int i) = Inr (xs ! i)"
  by (simp add: at_index_def)

text \<open>One level of the climb.\<close>

lemma climb_step:
  assumes n: "length l = 2 * n" and i: "i < 2 * n"
  shows "\<exists>h. at_index l (if int i smod 2 = 0 then int i + 1 else int i - 1) = Inr h \<and>
    (if int i smod 2 = 0 then hash_2_leaf H (l ! i) h else hash_2_leaf H h (l ! i)) =
      next_level H l ! (i div 2)"
proof (cases "even i")
  case True
  then obtain j where j: "i = 2 * j" by (elim evenE)
  with i have "j < n" "Suc i < length l" using n by auto
  moreover from this have "at_index l (int (Suc i)) = Inr (l ! Suc i)" by (intro at_index_nth) simp
  moreover have "int i smod 2 = 0" using j by (simp only: smod_2) simp
  ultimately show ?thesis using next_level_nth [OF n, of j H] j
    by (simp add: add.commute del: of_nat_mult)
next
  case False
  then obtain j where j: "i = 2 * j + 1" by (elim oddE)
  with i have "j < n" "2 * j < length l" using n by auto
  moreover from this have "at_index l (int (2 * j)) = Inr (l ! (2 * j))" by (intro at_index_nth) simp
  moreover have "int i smod 2 \<noteq> 0" using j by (simp only: smod_2) simp
  ultimately show ?thesis using next_level_nth [OF n, of j H] j by (simp del: of_nat_mult)
qed

lemma levels_correct:
  assumes "l \<noteq> []"
  shows "\<exists>ls. levels H l = Some ls \<and> ls \<noteq> [] \<and>
    (\<forall>i<length l. \<exists>b. siblings ls (int i) = Inr b \<and> length b = length ls - 1 \<and>
        climb H (l ! i) (int i) b = last ls ! 0)"
  using assms
proof (induction l rule: measure_induct_rule [where f = length])
  case (less l)
  show ?case
  proof (cases "length l = 1")
    case True
    then show ?thesis by (simp add: levels_one)
  next
    case False
    obtain n where n: "length (pad_level l) = 2 * n" "length l \<le> 2 * n" "2 * n \<le> length l + 1"
      using pad_level_length by blast
    let ?up = "next_level H (pad_level l)"
    have up: "length ?up = n" using n(1) by (rule length_next_level)
    have "0 < length l" using less.prems by simp
    with False n have "n < length l" "0 < n" by linarith+
    with up have "?up \<noteq> []" "length ?up < length l" by auto
    then obtain ls where ls: "levels H ?up = Some ls" "ls \<noteq> []"
      and ih: "\<And>i. i < n \<Longrightarrow> \<exists>b. siblings ls (int i) = Inr b \<and> length b = length ls - 1 \<and>
          climb H (?up ! i) (int i) b = last ls ! 0"
      using less.IH [of ?up] up by auto
    have step: "levels H l = Some (pad_level l # ls)"
      using False ls(1) by (subst levels.simps) simp
    have "\<exists>b. siblings (pad_level l # ls) (int i) = Inr b \<and> length b = length ls \<and>
        climb H (l ! i) (int i) b = last ls ! 0" if i: "i < length l" for i
    proof -
      from i n have "i < 2 * n" "i div 2 < n" by linarith+
      from climb_step [OF n(1) this(1), of H] obtain h where
        h: "at_index (pad_level l) (if int i smod 2 = 0 then int i + 1 else int i - 1) = Inr h"
          "(if int i smod 2 = 0 then hash_2_leaf H (l ! i) h else hash_2_leaf H h (l ! i)) =
             ?up ! (i div 2)" unfolding pad_level_nth [OF i] by (elim exE conjE)
      from ih [OF \<open>i div 2 < n\<close>] obtain b where b: "siblings ls (int (i div 2)) = Inr b"
        "length b = length ls - 1" "climb H (?up ! (i div 2)) (int (i div 2)) b = last ls ! 0" by blast
      obtain l' ls' where ls': "ls = l' # ls'" using ls(2) by (cases ls) auto
      have "siblings (pad_level l # ls) (int i) = Inr (h # b)"
        using h(1) b(1) unfolding ls' siblings.simps(1) sdiv_2 by (simp only: bindE_simps)
      moreover have "climb H (l ! i) (int i) (h # b) = last ls ! 0"
        using h(2) b(3) by (simp only: climb.simps sdiv_2)
      ultimately show ?thesis using b(2) ls' by auto
    qed
    with step ls(2) show ?thesis by auto
  qed
qed

lemma proofs_fold:
  assumes "\<And>i. i \<in> set is \<Longrightarrow> f i = Inr (g i)"
  shows "foldE (\<lambda>ps i. bindE (f i) (\<lambda>p. Inr (ps @ [p]))) ps is = Inr (ps @ map g is)"
  using assms by (induction "is" arbitrary: ps) auto

lemma merkle_proofs:
  assumes "shards \<noteq> []" and "length shards \<le> 2 ^ 31"
  shows "\<exists>t ps. new_merkle_tree H shards = Inr t \<and> proofs t = Inr ps \<and>
    length ps = length shards \<and>
    (\<forall>i<length shards. m_data (ps ! i) = shards ! i \<and> sint (m_index (ps ! i)) = int i \<and>
       m_root_hash (ps ! i) = t_root_hash t \<and>
       length (m_branch (ps ! i)) = length (t_levels t) - 1 \<and> validate H (ps ! i))"
proof -
  from assms(1) levels_correct [of "map H shards" H] obtain ls where
    ls: "levels H (map H shards) = Some ls" and
    climbs: "\<And>i. i < length shards \<Longrightarrow> \<exists>b. siblings ls (int i) = Inr b \<and>
      length b = length ls - 1 \<and> climb H (H (shards ! i)) (int i) b = last ls ! 0"
    by fastforce
  define b where "b i = (case siblings ls (int i) of Inl _ \<Rightarrow> [] | Inr b \<Rightarrow> b)" for i
  define t where "t = \<lparr>t_data = shards, t_root_hash = last ls ! 0, t_levels = ls,
    t_nshards = length shards\<rparr>"
  define g where "g i = \<lparr>m_data = shards ! i, m_index = word_of_int (int i),
    m_root_hash = t_root_hash t, m_branch = b i\<rparr>" for i
  have b: "siblings ls (int i) = Inr (b i)" "length (b i) = length ls - 1"
    "climb H (H (shards ! i)) (int i) (b i) = last ls ! 0" if "i < length shards" for i
    using climbs [OF that] by (auto simp: b_def)
  have "proof_i t (int i) = Inr (g i)" if "i < length shards" for i
    using b [OF that] that by (simp add: proof_i_def t_def g_def at_index_nth)
  then have ps: "proofs t = Inr (map g [0..<length shards])"
    using proofs_fold [of "[0..<length shards]" "\<lambda>i. proof_i t (int i)" g "[]"]
    by (simp add: proofs_def t_def)
  have idx: "sint (m_index (g i)) = int i" if "i < length shards" for i
  proof -
    from that assms(2) have "i < 2 ^ 31" by linarith
    from sint_of_nat_small [OF this] show ?thesis by (simp add: g_def)
  qed
  have "validate H (g i)" if "i < length shards" for i
    using b [OF that] idx [OF that] by (simp add: validate_def g_def t_def)
  then have "length (map g [0..<length shards]) = length shards \<and>
    (\<forall>i<length shards. m_data (map g [0..<length shards] ! i) = shards ! i \<and>
       sint (m_index (map g [0..<length shards] ! i)) = int i \<and>
       m_root_hash (map g [0..<length shards] ! i) = t_root_hash t \<and>
       length (m_branch (map g [0..<length shards] ! i)) = length (t_levels t) - 1 \<and>
       validate H (map g [0..<length shards] ! i))"
    using b(2) idx by (auto simp: g_def t_def)
  moreover have "new_merkle_tree H shards = Inr t" by (simp add: new_merkle_tree_def ls t_def)
  ultimately show ?thesis using ps by blast
qed

text \<open>
  C20: The tree over a non-empty list of slices is built, it makes one proof per slice in
  order, with the slice, its index and the root, and every one of them is valid.
\<close>

theorem merkle_complete:
  assumes "shards \<noteq> []" and "length shards \<le> 2 ^ 31"
  shows "\<exists>t ps. new_merkle_tree H shards = Inr t \<and> proofs t = Inr ps \<and>
    length ps = length shards \<and>
    (\<forall>i<length shards. m_data (ps ! i) = shards ! i \<and> sint (m_index (ps ! i)) = int i \<and>
       m_root_hash (ps ! i) = t_root_hash t \<and>
       length (m_branch (ps ! i)) = length (t_levels t) - 1 \<and> validate H (ps ! i))"
  by (rule merkle_proofs [OF assms])

text \<open>A stand-in for the digest, with its length, for the concrete instances.\<close>

definition toy_digest :: "bytes \<Rightarrow> bytes" where
  "toy_digest x = replicate 63 48 @ [word_of_nat (length x + sum_list (map unat x))]"

lemma merkle_complete_witness:
  "\<exists>t ps. new_merkle_tree toy_digest [[1], [2], [3]] = Inr t \<and> proofs t = Inr ps \<and>
     length ps = 3 \<and> (\<forall>i<3. validate toy_digest (ps ! i))"
  using merkle_complete [of "[[1], [2], [3]]" toy_digest] by fastforce

section \<open>A valid proof is bound to the root\<close>

text \<open>The strings that \<open>validate\<close> hashes, in its order.\<close>

fun climbed :: "(bytes \<Rightarrow> bytes) \<Rightarrow> bytes \<Rightarrow> int \<Rightarrow> bytes list \<Rightarrow> bytes list" where
  "climbed H h i [] = []"
| "climbed H h i (b # branch) =
     (let s = (if i smod 2 = 0 then h @ b else b @ h) in s # climbed H (H s) (i sdiv 2) branch)"

definition hashed :: "(bytes \<Rightarrow> bytes) \<Rightarrow> merkle_proof \<Rightarrow> bytes list" where
  "hashed H p = m_data p # climbed H (H (m_data p)) (sint (m_index p)) (m_branch p)"

definition collides :: "(bytes \<Rightarrow> bytes) \<Rightarrow> bytes list \<Rightarrow> bytes list \<Rightarrow> bool" where
  "collides H xs ys \<longleftrightarrow> (\<exists>x\<in>set xs. \<exists>y\<in>set ys. x \<noteq> y \<and> H x = H y)"

lemma collidesI: "x \<in> set xs \<Longrightarrow> y \<in> set ys \<Longrightarrow> x \<noteq> y \<Longrightarrow> H x = H y \<Longrightarrow> collides H xs ys"
  by (auto simp: collides_def)

lemma collides_Cons: "collides H xs ys \<Longrightarrow> collides H (x # xs) (y # ys)"
  by (auto simp: collides_def)

definition leaf_digests :: "bytes list \<Rightarrow> bool" where
  "leaf_digests bs \<longleftrightarrow> (\<forall>b\<in>set bs. length b = 64)"

lemma climb_binding:
  assumes H: "\<forall>x. length (H x) = 64"
    and "length bs = length bs'" "leaf_digests bs" "leaf_digests bs'"
    and "length h = 64" "length h' = 64"
    and "climb H h i bs = climb H h' i bs'"
  shows "h = h' \<or> collides H (climbed H h i bs) (climbed H h' i bs')"
  using assms(2-)
proof (induction bs bs' arbitrary: h h' i rule: list_induct2)
  case (Cons b bs b' bs')
  define s where "s = (if i smod 2 = 0 then h @ b else b @ h)"
  define s' where "s' = (if i smod 2 = 0 then h' @ b' else b' @ h')"
  have climb: "climb H (H s) (i sdiv 2) bs = climb H (H s') (i sdiv 2) bs'"
    using Cons.prems(5) by (cases "i smod 2 = 0") (simp_all add: s_def s'_def hash_2_leaf_def)
  have "H s = H s' \<or> collides H (climbed H (H s) (i sdiv 2) bs) (climbed H (H s') (i sdiv 2) bs')"
    using Cons.prems(1,2) H by (intro Cons.IH) (auto simp: climb leaf_digests_def)
  moreover have list: "climbed H h i (b # bs) = s # climbed H (H s) (i sdiv 2) bs"
      "climbed H h' i (b' # bs') = s' # climbed H (H s') (i sdiv 2) bs'"
    by (simp_all add: s_def s'_def Let_def)
  moreover have "h = h'" if "s = s'"
    using that Cons.prems(1-4) by (auto simp: s_def s'_def leaf_digests_def split: if_splits)
  ultimately show ?case
    unfolding list by (metis collidesI collides_Cons list.set_intros(1))
qed simp

text \<open>
  C21: Two valid proofs with the same root, the same index and branches of the same length
  carry the same slice, or two of the strings hashed while they are validated are a collision
  of the hash function.
\<close>

theorem merkle_binding:
  assumes "\<forall>x. length (H x) = 64"
    and "validate H p" and "validate H q"
    and "m_root_hash p = m_root_hash q" and "m_index p = m_index q"
    and "length (m_branch p) = length (m_branch q)"
    and "leaf_digests (m_branch p)" and "leaf_digests (m_branch q)"
  shows "m_data p = m_data q \<or> collides H (hashed H p) (hashed H q)"
proof -
  have "H (m_data p) = H (m_data q) \<or>
      collides H (climbed H (H (m_data p)) (sint (m_index p)) (m_branch p))
        (climbed H (H (m_data q)) (sint (m_index p)) (m_branch q))"
    using assms by (intro climb_binding) (auto simp: validate_def)
  then show ?thesis
    unfolding hashed_def assms(5) [symmetric]
    by (metis collidesI collides_Cons list.set_intros(1))
qed

lemma merkle_binding_witness:
  "\<exists>p q. validate toy_digest p \<and> validate toy_digest q \<and> m_data p \<noteq> m_data q \<and>
     collides toy_digest (hashed toy_digest p) (hashed toy_digest q)"
proof -
  let ?p = "\<lparr>m_data = [1, 3], m_index = 1, m_root_hash = toy_digest (EMPTY_HASH @ toy_digest [2, 2]),
    m_branch = [EMPTY_HASH]\<rparr>"
  let ?q = "?p\<lparr>m_data := [2, 2]\<rparr>"
  have eq: "toy_digest [1, 3] = toy_digest [2, 2]" by (simp add: toy_digest_def)
  then have v: "validate toy_digest ?p" "validate toy_digest ?q"
    by (simp_all add: validate_def hash_2_leaf_def signed_modulo_int_def)
  have "m_data ?p = m_data ?q \<or> collides toy_digest (hashed toy_digest ?p) (hashed toy_digest ?q)"
    by (rule merkle_binding [OF _ v])
       (simp_all add: toy_digest_def leaf_digests_def EMPTY_HASH_def)
  with v show ?thesis by (intro exI [of _ ?p] exI [of _ ?q]) simp
qed

section \<open>The index beyond the tree\<close>

lemma climb_alias:
  "climb H h (int (i + k * 2 ^ length bs)) bs = climb H h (int i) bs"
proof (induction bs arbitrary: h i)
  case (Cons b bs)
  have "i + k * 2 ^ length (b # bs) = i + 2 * (k * 2 ^ length bs)" by simp
  then have "(i + k * 2 ^ length (b # bs)) mod 2 = i mod 2"
    "(i + k * 2 ^ length (b # bs)) div 2 = i div 2 + k * 2 ^ length bs"
    by (simp_all only: mod_mult_self2 div_mult_self2 zero_neq_numeral not_False_eq_True)
  then show ?case using Cons.IH by (simp only: climb.simps sdiv_2 smod_2)
qed simp

text \<open>
  C38: \<open>validate\<close> does not bound the index: a proof of a branch of length \<open>d\<close> stays valid when
  \<open>2 ^ d\<close> is added to its index, so an index beyond the last slice reaches the container of
  slices.
\<close>

theorem merkle_index_alias:
  assumes "validate H p" and "sint (m_index p) = int i"
    and "i + k * 2 ^ length (m_branch p) < 2 ^ 31"
  shows "validate H (p\<lparr>m_index := word_of_nat (i + k * 2 ^ length (m_branch p))\<rparr>)"
proof -
  let ?j = "i + k * 2 ^ length (m_branch p)"
  have "sint (word_of_nat ?j :: u32) = int ?j" using assms(3) by (rule sint_of_nat_small)
  moreover have "climb H (H (m_data p)) (int ?j) (m_branch p) = m_root_hash p"
    using assms(1,2) unfolding climb_alias by (simp add: validate_def)
  ultimately show ?thesis by (simp add: validate_def del: of_nat_add)
qed

lemma merkle_index_alias_witness:
  "\<exists>p :: merkle_proof. validate toy_digest (p\<lparr>m_index := 5\<rparr>) \<and> length (m_branch p) = 1"
proof -
  let ?p = "\<lparr>m_data = [2, 2], m_index = 1, m_root_hash = toy_digest (EMPTY_HASH @ toy_digest [2, 2]),
    m_branch = [EMPTY_HASH]\<rparr>"
  have "validate toy_digest ?p"
    by (simp add: validate_def hash_2_leaf_def signed_modulo_int_def)
  then have "validate toy_digest
      (?p\<lparr>m_index := word_of_nat (1 + 2 * 2 ^ length (m_branch ?p))\<rparr>)"
    by (rule merkle_index_alias) simp_all
  then have "validate toy_digest (?p\<lparr>m_index := 5\<rparr>) \<and> length (m_branch ?p) = 1" by simp
  then show ?thesis by (rule exI)
qed

end
