(* ===== verification/Messages.thy ===== *)
theory Messages
  imports Entity MerkleTree
begin

text \<open>
  What replicas send each other: slices, proposals, votes, decisions and commands
  (include/hotstuff/consensus.h, src/consensus.cpp), and the network messages that carry them
  (include/hotstuff/hotstuff.h, src/hotstuff.cpp). The handle \<open>hsc\<close> of a message is modelled
  by whether it is set.
\<close>

section \<open>Slices\<close>

record slice = merkle_proof +
  m_blk_hash :: uint256

text \<open>\<open>Slice(MerkleProof, uint256_t)\<close>, and \<open>Slice()\<close>.\<close>

definition new_slice :: "merkle_proof \<Rightarrow> uint256 \<Rightarrow> slice" where
  "new_slice proof bh =
     \<lparr>m_data = m_data proof, m_index = m_index proof, m_root_hash = m_root_hash proof,
      m_branch = m_branch proof, m_blk_hash = bh\<rparr>"

definition put_slice :: "stream_ops \<Rightarrow> slice \<Rightarrow> bytes res" where
  "put_slice S x =
     (let branch = concat (m_branch x);
          total_size = 64 * word_of_nat (length (m_branch x)) :: u32 in
      if \<not> list_all (\<lambda>b. length b = 64) (m_branch x) \<or> unat total_size \<noteq> length branch
      then Inl AssertFail
      else Inr (put_blob S (m_data x) @ put_u32 S (m_index x) @ put_u256 S (m_blk_hash x) @
                put_blob S (m_root_hash x) @
                put_u32 S (htole S total_size) @ put_data S branch))"

definition get_slice :: "stream_ops \<Rightarrow> bytes \<Rightarrow> (slice \<times> bytes) res" where
  "get_slice S s0 =
     bindE (get_blob S s0) (\<lambda>(dat, s1).
     bindE (get_u32 S s1) (\<lambda>(index, s2).
     bindE (get_u256 S s2) (\<lambda>(bh, s3).
     bindE (get_blob S s3) (\<lambda>(root_hash, s4).
     bindE (get_u32 S s4) (\<lambda>(n, s5).
       let n = unat (letoh S n) in
       bindE (if n = 0 then Inr ([], s5)
              else bindE (get_data S n s5) (\<lambda>(b, s6).
                if n mod 64 \<noteq> 0 then Inl AssertFail
                else Inr (map (\<lambda>i. take 64 (drop (i * 64) b)) [0..<n div 64], s6)))
         (\<lambda>(branch, s6).
           Inr (\<lparr>m_data = dat, m_index = index, m_root_hash = root_hash, m_branch = branch,
                 m_blk_hash = bh\<rparr>, s6)))))))"

definition slice_get_hash :: "env \<Rightarrow> slice \<Rightarrow> uint256 res" where
  "slice_get_hash E x = bindE (put_slice (e_stream E) x) (\<lambda>s. Inr (e_get_hash E s))"

section \<open>Proposals\<close>

record proposal =
  p_proposer :: replica_id
  p_s_hash :: uint256
  p_slice :: slice
  p_blk :: "block_ref option"
  p_hsc :: bool

definition new_proposal ::
  "env \<Rightarrow> replica_id \<Rightarrow> slice \<Rightarrow> block_ref option \<Rightarrow> bool \<Rightarrow> proposal res" where
  "new_proposal E proposer x blk hsc =
     bindE (slice_get_hash E x) (\<lambda>h.
       Inr \<lparr>p_proposer = proposer, p_s_hash = h, p_slice = x, p_blk = blk, p_hsc = hsc\<rparr>)"

definition put_proposal :: "env \<Rightarrow> (block_ref \<Rightarrow> block) \<Rightarrow> proposal \<Rightarrow> bytes res" where
  "put_proposal E hp p =
     (let S = e_stream E in
      cat (Inr (put_u16 S (p_proposer p) @ put_u256 S (p_s_hash p)))
        (cat (put_slice S (p_slice p))
          (case p_blk p of None \<Rightarrow> Inl NullDeref | Some r \<Rightarrow> put_block E (hp r))))"

text \<open>Reading a proposal adds its block to the storage of \<open>hsc\<close>.\<close>

definition get_proposal ::
  "env \<Rightarrow> bool \<Rightarrow> bytes \<Rightarrow> entity_storage \<Rightarrow> (proposal \<times> bytes) res \<times> entity_storage" where
  "get_proposal E hsc s0 st =
     (let S = e_stream E in
      if \<not> hsc then (Inl AssertFail, st)
      else case bindE (get_u16 S s0) (\<lambda>(proposer, s1).
                bindE (get_u256 S s1) (\<lambda>(s_hash, s2).
                bindE (get_slice S s2) (\<lambda>(x, s3).
                bindE (get_block_data E s3) (\<lambda>(b, s4).
                  Inr (proposer, s_hash, x, b, s4))))) of
          Inl e \<Rightarrow> (Inl e, st)
        | Inr (proposer, s_hash, x, b, s4) \<Rightarrow>
            let (r, st') = add_blk b st
            in (Inr (\<lparr>p_proposer = proposer, p_s_hash = s_hash, p_slice = x, p_blk = Some r,
                      p_hsc = hsc\<rparr>, s4), st'))"

section \<open>Votes\<close>

record vote =
  v_voter :: replica_id
  v_blk_hash :: uint256
  v_cert :: "part_cert option"
  v_hsc :: bool

definition put_vote :: "env \<Rightarrow> vote \<Rightarrow> bytes res" where
  "put_vote E v =
     cat (Inr (put_u16 (e_stream E) (v_voter v) @ put_u256 (e_stream E) (v_blk_hash v)))
       (case v_cert v of None \<Rightarrow> Inl NullDeref
        | Some c \<Rightarrow> put_part_cert (e_stream E) (e_crypto E) c)"

definition get_vote :: "env \<Rightarrow> bool \<Rightarrow> bytes \<Rightarrow> (vote \<times> bytes) res" where
  "get_vote E hsc s0 =
     (if \<not> hsc then Inl AssertFail
      else bindE (get_u16 (e_stream E) s0) (\<lambda>(voter, s1).
        bindE (get_u256 (e_stream E) s1) (\<lambda>(bh, s2).
        bindE (parse_part_cert (e_stream E) (e_crypto E) (e_kind E) s2) (\<lambda>(cert, s3).
          Inr (\<lparr>v_voter = voter, v_blk_hash = bh, v_cert = Some cert, v_hsc = hsc\<rparr>, s3)))))"

text \<open>
  \<open>verify()\<close>; the promise of \<open>verify(vpool)\<close> is resolved with the same value.
\<close>

definition vote_verify :: "env \<Rightarrow> replica_config \<Rightarrow> vote \<Rightarrow> bool res" where
  "vote_verify E cfg v =
     (if \<not> v_hsc v then Inl AssertFail
      else case v_cert v of
          None \<Rightarrow> Inl NullDeref
        | Some c \<Rightarrow>
            bindE (get_pubkey cfg (v_voter v)) (\<lambda>pk.
            bindE (part_cert_verify (e_crypto E) c pk) (\<lambda>ok.
              Inr (ok \<and> part_cert_obj_hash c = v_blk_hash v))))"

section \<open>Decisions\<close>

record finality =
  f_rid :: replica_id
  f_decision :: byte
  f_cmd_idx :: u32
  f_cmd_height :: u32
  f_cmd_hash :: uint256
  f_blk_hash :: uint256

definition put_finality :: "stream_ops \<Rightarrow> finality \<Rightarrow> bytes res" where
  "put_finality S f =
     Inr (put_u16 S (f_rid f) @ put_u8 S (f_decision f) @ put_u32 S (f_cmd_idx f) @
          put_u32 S (f_cmd_height f) @ put_u256 S (f_cmd_hash f) @
          (if f_decision f = 1 then put_u256 S (f_blk_hash f) else []))"

text \<open>\<open>unserialize\<close> of an object whose block hash was \<open>old\<close>: it is read for a decision only.\<close>

definition get_finality :: "stream_ops \<Rightarrow> uint256 \<Rightarrow> bytes \<Rightarrow> (finality \<times> bytes) res" where
  "get_finality S old s0 =
     bindE (get_u16 S s0) (\<lambda>(rid, s1). bindE (get_u8 S s1) (\<lambda>(decision, s2).
     bindE (get_u32 S s2) (\<lambda>(cmd_idx, s3). bindE (get_u32 S s3) (\<lambda>(cmd_height, s4).
     bindE (get_u256 S s4) (\<lambda>(cmd_h, s5).
     bindE (if decision = 1 then get_u256 S s5 else Inr (old, s5)) (\<lambda>(blk_h, s6).
       Inr (\<lparr>f_rid = rid, f_decision = decision, f_cmd_idx = cmd_idx, f_cmd_height = cmd_height,
             f_cmd_hash = cmd_h, f_blk_hash = blk_h\<rparr>, s6)))))))"

section \<open>Commands\<close>

text \<open>The list of command hashes whose digest a block carries.\<close>

definition put_commands :: "stream_ops \<Rightarrow> uint256 list \<Rightarrow> bytes res" where
  "put_commands S cmds = put_vec S (\<lambda>h. Inr (put_u256 S h)) cmds"

definition get_commands :: "stream_ops \<Rightarrow> bytes \<Rightarrow> (uint256 list \<times> bytes) res" where
  "get_commands S s = get_vec S (get_u256 S) s"

section \<open>Network messages\<close>

text \<open>Each message is its serialized payload, parsed when it is handled.\<close>

definition msg_propose :: "env \<Rightarrow> (block_ref \<Rightarrow> block) \<Rightarrow> proposal \<Rightarrow> bytes res" where
  "msg_propose E hp p = put_proposal E hp p"

definition msg_propose_parse ::
  "env \<Rightarrow> bytes \<Rightarrow> entity_storage \<Rightarrow> proposal res \<times> entity_storage" where
  "msg_propose_parse E s st =
     bindS (get_proposal E True s st) (\<lambda>(p, _) st. (Inr p, st))"

definition msg_vote :: "env \<Rightarrow> vote \<Rightarrow> bytes res" where
  "msg_vote E v = put_vote E v"

definition msg_vote_parse :: "env \<Rightarrow> bytes \<Rightarrow> vote res" where
  "msg_vote_parse E s = bindE (get_vote E True s) (\<lambda>(v, _). Inr v)"

definition msg_req_block :: "stream_ops \<Rightarrow> uint256 list \<Rightarrow> bytes res" where
  "msg_req_block S hs = put_vec S (\<lambda>h. Inr (put_u256 S h)) hs"

definition msg_req_block_parse :: "stream_ops \<Rightarrow> bytes \<Rightarrow> uint256 list res" where
  "msg_req_block_parse S s = bindE (get_vec S (get_u256 S) s) (\<lambda>(hs, _). Inr hs)"

definition msg_resp_block :: "env \<Rightarrow> block list \<Rightarrow> bytes res" where
  "msg_resp_block E blks = put_vec (e_stream E) (put_block E) blks"

fun add_parsed ::
  "env \<Rightarrow> nat \<Rightarrow> bytes \<Rightarrow> entity_storage \<Rightarrow> block_ref list res \<times> entity_storage" where
  "add_parsed E 0 s st = (Inr [], st)"
| "add_parsed E (Suc n) s st =
     (case get_block_data E s of
        Inl e \<Rightarrow> (Inl e, st)
      | Inr (b, s') \<Rightarrow>
          let (r, st') = add_blk b st in
          bindS (add_parsed E n s' st') (\<lambda>rs st''. (Inr (r # rs), st'')))"

definition msg_resp_block_parse ::
  "env \<Rightarrow> bytes \<Rightarrow> entity_storage \<Rightarrow> block_ref list res \<times> entity_storage" where
  "msg_resp_block_parse E s st =
     (case get_u32 (e_stream E) s of
        Inl e \<Rightarrow> (Inl e, st)
      | Inr (n, s') \<Rightarrow> add_parsed E (unat (letoh (e_stream E) n)) s' st)"

definition msg_slice :: "env \<Rightarrow> slice \<Rightarrow> bytes res" where
  "msg_slice E x =
     bindE (slice_get_hash E x) (\<lambda>h.
       cat (Inr (put_u256 (e_stream E) h)) (put_slice (e_stream E) x))"

definition msg_slice_parse :: "env \<Rightarrow> bytes \<Rightarrow> (uint256 \<times> slice) res" where
  "msg_slice_parse E s =
     bindE (get_u256 (e_stream E) s) (\<lambda>(h, s1).
     bindE (get_slice (e_stream E) s1) (\<lambda>(x, _). Inr (h, x)))"

section \<open>Everything sent is read back\<close>

definition slice_ok :: "slice \<Rightarrow> bool" where
  "slice_ok x \<longleftrightarrow>
     length (m_data x) < 2 ^ 32 \<and> length (m_root_hash x) < 2 ^ 32 \<and>
     leaf_digests (m_branch x) \<and> 64 * length (m_branch x) < 2 ^ 32"

lemma length_concat_digests: "leaf_digests bs \<Longrightarrow> length (concat bs) = 64 * length bs"
  by (induction bs) (auto simp: leaf_digests_def)

lemma chunks_concat:
  assumes "leaf_digests bs"
  shows "map (\<lambda>i. take 64 (drop (i * 64) (concat bs))) [0..<length bs] = bs"
  using assms take_drop_concat_chunk [of bs 64]
  by (intro nth_equalityI) (auto simp: leaf_digests_def)

lemma branch_size:
  assumes "64 * n < 2 ^ 32"
  shows "unat (64 * word_of_nat n :: u32) = 64 * n"
proof -
  have "(64 * word_of_nat n :: u32) = word_of_nat (64 * n)" by simp
  also have "unat \<dots> = 64 * n" using assms by (simp only: unsigned_of_nat) (simp add: take_bit_eq_mod)
  finally show ?thesis .
qed

lemma put_slice_ok:
  assumes "slice_ok x"
  shows "put_slice S x = Inr (put_blob S (m_data x) @ put_u32 S (m_index x) @
    put_u256 S (m_blk_hash x) @ put_blob S (m_root_hash x) @
    put_u32 S (htole S (64 * word_of_nat (length (m_branch x)))) @ put_data S (concat (m_branch x)))"
  using assms branch_size [of "length (m_branch x)"] length_concat_digests [of "m_branch x"]
  by (simp add: put_slice_def slice_ok_def leaf_digests_def list_all_iff Let_def)

context stream
begin

lemma slice_codec: "codec (put_slice S) (get_slice S) slice_ok"
proof
  fix x b r
  assume ok: "slice_ok x"
  then show "\<exists>b. put_slice S x = Inr b" by (simp add: put_slice_ok)
  assume b: "put_slice S x = Inr b"
  have size: "unat (64 * word_of_nat (length (m_branch x)) :: u32) = 64 * length (m_branch x)"
    using ok by (intro branch_size) (simp add: slice_ok_def)
  have len: "length (concat (m_branch x)) = 64 * length (m_branch x)"
    using ok by (intro length_concat_digests) (simp add: slice_ok_def)
  show "get_slice S (b @ r) = Inr (x, r)"
  proof (cases "m_branch x = []")
    case True
    with ok b size show ?thesis
      using laws by (auto simp: put_slice_ok get_slice_def slice_ok_def Let_def stream_ok_def)
  next
    case False
    then have pos: "64 * length (m_branch x) \<noteq> 0" by simp
    have chunks: "map (\<lambda>i. take 64 (drop (i * 64) (concat (m_branch x)))) [0..<length (m_branch x)] =
        m_branch x" using ok by (intro chunks_concat) (simp add: slice_ok_def)
    have "get_data S (64 * length (m_branch x)) (put_data S (concat (m_branch x)) @ r) =
        Inr (concat (m_branch x), r)" using data [of "concat (m_branch x)" r] len by simp
    with ok b size pos chunks show ?thesis
      by (auto simp: put_slice_ok get_slice_def slice_ok_def Let_def)
  qed
qed

lemma finality_codec:
  "codec (put_finality S) (get_finality S old) (\<lambda>f. f_decision f = 1 \<or> f_blk_hash f = old)"
  by unfold_locales (auto simp: put_finality_def get_finality_def)

end

interpretation le_slices: codec "put_slice le_stream" "get_slice le_stream" slice_ok
  by (rule le.slice_codec)

text \<open>
  C32: A slice whose branch consists of digests is read back exactly, whatever follows it in
  the stream, and so is the network message that carries it together with its hash.
\<close>

theorem slice_roundtrip:
  assumes "stream_ok (e_stream E)" and "slice_ok x"
  shows "\<exists>s h m. put_slice (e_stream E) x = Inr s \<and> slice_get_hash E x = Inr h \<and>
    (\<forall>r. get_slice (e_stream E) (s @ r) = Inr (x, r)) \<and>
    msg_slice E x = Inr m \<and> msg_slice_parse E m = Inr (h, x)"
proof -
  have S: "stream (e_stream E)" using assms(1) by unfold_locales
  note codec = stream.slice_codec [OF S]
  obtain s where s: "put_slice (e_stream E) x = Inr s"
    using codec.enc_total [OF codec assms(2)] by blast
  then have "get_slice (e_stream E) (s @ r) = Inr (x, r)" for r
    by (rule codec.dec_enc [OF codec assms(2)])
  with s this [of "[]"] show ?thesis
    by (simp add: slice_get_hash_def msg_slice_def msg_slice_parse_def stream.u256 [OF S])
qed

text \<open>
  C33: A vote with a certificate of the replicas' kind, and a decision, are read back exactly;
  the block hash of a decision is only sent when the command was decided.
\<close>

theorem vote_finality_roundtrip:
  assumes "stream_ok (e_stream E)" and "v_cert v = Some c"
    and "part_cert_ok (e_crypto E) (e_kind E) c" and "v_hsc v"
    and "f_decision f = 1 \<or> f_blk_hash f = e_uint256_default E"
  shows "\<exists>s m. put_vote E v = Inr s \<and> (\<forall>r. get_vote E True (s @ r) = Inr (v, r)) \<and>
    put_finality (e_stream E) f = Inr m \<and>
    (\<forall>r. get_finality (e_stream E) (e_uint256_default E) (m @ r) = Inr (f, r))"
proof -
  have S: "stream (e_stream E)" using assms(1) by unfold_locales
  note codec = stream.part_cert_codec [OF S, of "e_crypto E" "e_kind E"]
  obtain cs where cs: "put_part_cert (e_stream E) (e_crypto E) c = Inr cs"
    using codec.enc_total [OF codec assms(3)] by blast
  have "get_vote E True ((put_u16 (e_stream E) (v_voter v) @
      put_u256 (e_stream E) (v_blk_hash v) @ cs) @ r) = Inr (v, r)" for r
    using codec.dec_enc [OF codec assms(3) cs, of r] assms(2,4)
    by (simp add: get_vote_def stream.u16 [OF S] stream.u256 [OF S])
  moreover have "put_vote E v = Inr (put_u16 (e_stream E) (v_voter v) @
      put_u256 (e_stream E) (v_blk_hash v) @ cs)"
    using assms(2) cs by (simp add: put_vote_def)
  moreover obtain m where m: "put_finality (e_stream E) f = Inr m"
    by (simp add: put_finality_def)
  moreover have "get_finality (e_stream E) (e_uint256_default E) (m @ r) = Inr (f, r)" for r
    by (rule codec.dec_enc [OF stream.finality_codec [OF S] assms(5) m])
  ultimately show ?thesis by blast
qed

text \<open>
  C30: Reading a serialized proposal gives the proposer, the slice and its hash, and a block
  that is in the storage under the sender's block hash: a fresh one with the sender's content,
  or the one that was already there, which is left as it is.
\<close>

theorem proposal_roundtrip:
  assumes "stream_ok (e_stream E)" and "p_blk p = Some r" and "slice_ok (p_slice p)"
    and "block_ok E (hp r)" and "block_get_hash E (hp r) = Inr (blk_hash (hp r))"
  shows "\<exists>s. put_proposal E hp p = Inr s \<and>
    (\<exists>r' st'. get_proposal E True s st =
        (Inr (p\<lparr>p_blk := Some r', p_hsc := True\<rparr>, []), st') \<and>
       find_blk st' (blk_hash (hp r)) = Some r' \<and>
       (find_blk st (blk_hash (hp r)) = None \<longrightarrow> r' = next_ref st \<and>
          heap st' r' = (block_content E (hp r))\<lparr>blk_hash := blk_hash (hp r)\<rparr>) \<and>
       (\<forall>q. find_blk st (blk_hash (hp r)) = Some q \<longrightarrow> r' = q) \<and>
       (\<forall>q<next_ref st. heap st' q = heap st q))"
proof -
  have S: "stream (e_stream E)" using assms(1) by unfold_locales
  note codec = stream.slice_codec [OF S]
  obtain xs where xs: "put_slice (e_stream E) (p_slice p) = Inr xs"
    using codec.enc_total [OF codec assms(3)] by blast
  obtain bs where bs: "put_block E (hp r) = Inr bs"
    and read: "\<And>t. get_block_data E (bs @ t) =
      Inr ((block_content E (hp r))\<lparr>blk_hash := blk_hash (hp r)\<rparr>, t)"
    using block_codec_total [OF assms(1,4,5)] by blast
  let ?b = "(block_content E (hp r))\<lparr>blk_hash := blk_hash (hp r)\<rparr>"
  let ?s = "put_u16 (e_stream E) (p_proposer p) @ put_u256 (e_stream E) (p_s_hash p) @ xs @ bs"
  have put: "put_proposal E hp p = Inr ?s" using assms(2) xs bs by (simp add: put_proposal_def Let_def)
  obtain r' st' where add: "add_blk ?b st = (r', st')" by force
  have get: "get_proposal E True ?s st = (Inr (p\<lparr>p_blk := Some r', p_hsc := True\<rparr>, []), st')"
    using codec.dec_enc [OF codec assms(3) xs, of bs] read [of "[]"] add
    by (simp add: get_proposal_def Let_def stream.u16 [OF S] stream.u256 [OF S])
  have hash: "blk_hash ?b = blk_hash (hp r)" by simp
  show ?thesis
    using put get add_blk_spec [OF add, unfolded hash] by (intro exI conjI)
qed

section \<open>Concrete instances\<close>

definition sample_slice :: slice where
  "sample_slice = \<lparr>m_data = [1, 2, 3], m_index = 1, m_root_hash = EMPTY_HASH,
     m_branch = [EMPTY_HASH, EMPTY_HASH], m_blk_hash = 5\<rparr>"

lemma sample_slice_ok: "slice_ok sample_slice"
  by (simp add: slice_ok_def sample_slice_def leaf_digests_def EMPTY_HASH_def)

lemma slice_roundtrip_witness:
  "\<exists>s h m. put_slice le_stream sample_slice = Inr s \<and>
     slice_get_hash (toy_env NoSig) sample_slice = Inr h \<and>
     (\<forall>r. get_slice le_stream (s @ r) = Inr (sample_slice, r)) \<and>
     msg_slice (toy_env NoSig) sample_slice = Inr m \<and>
     msg_slice_parse (toy_env NoSig) m = Inr (h, sample_slice)"
  using slice_roundtrip [of "toy_env NoSig" sample_slice] sample_slice_ok le.laws by simp

lemma vote_finality_roundtrip_witness:
  "\<exists>s m. put_vote (toy_env NoSig)
       \<lparr>v_voter = 2, v_blk_hash = 9, v_cert = Some (PartCertDummy 9), v_hsc = True\<rparr> = Inr s \<and>
     (\<forall>r. get_vote (toy_env NoSig) True (s @ r) =
       Inr (\<lparr>v_voter = 2, v_blk_hash = 9, v_cert = Some (PartCertDummy 9), v_hsc = True\<rparr>, r)) \<and>
     put_finality le_stream \<lparr>f_rid = 1, f_decision = 1, f_cmd_idx = 0, f_cmd_height = 3,
       f_cmd_hash = 4, f_blk_hash = 5\<rparr> = Inr m"
  using vote_finality_roundtrip [of "toy_env NoSig"
      "\<lparr>v_voter = 2, v_blk_hash = 9, v_cert = Some (PartCertDummy 9), v_hsc = True\<rparr>"
      "PartCertDummy 9" "\<lparr>f_rid = 1, f_decision = 1, f_cmd_idx = 0, f_cmd_height = 3,
       f_cmd_hash = 4, f_blk_hash = 5\<rparr>"] le.laws
  by auto

lemma proposal_roundtrip_witness:
  "\<exists>s r' st'. put_proposal (toy_env NoSig) (\<lambda>_. sample_block)
       \<lparr>p_proposer = 0, p_s_hash = 3, p_slice = sample_slice, p_blk = Some 6, p_hsc = False\<rparr> = Inr s \<and>
     get_proposal (toy_env NoSig) True s (empty_storage (toy_env NoSig)) =
       (Inr (\<lparr>p_proposer = 0, p_s_hash = 3, p_slice = sample_slice, p_blk = Some r', p_hsc = True\<rparr>, []),
        st') \<and>
     find_blk st' (blk_hash sample_block) = Some 0"
  using proposal_roundtrip [of "toy_env NoSig"
      "\<lparr>p_proposer = 0, p_s_hash = 3, p_slice = sample_slice, p_blk = Some 6, p_hsc = False\<rparr>" 6
      "\<lambda>_. sample_block" "empty_storage (toy_env NoSig)"]
    sample_slice_ok sample_block_ok le.laws
  by (auto simp: find_blk_def empty_storage_def)

end
