(* ===== verification/ShardsContainer.thy ===== *)
theory ShardsContainer
  imports Prelude
begin

text \<open>
  The container of received slices (rse-merkle/ShardsContainer.h and ShardsContainer.cpp):
  for each block, the slices by index and a count of the accepted ones. The counters are
  C++ \<open>unsigned\<close>, and an index beyond the slots is an access out of bounds. The maps are
  keyed by the hexadecimal block hash.
\<close>

type_synonym vv_char = "bytes list"

record shards_container =
  m_shards :: "bytes \<rightharpoonup> vv_char \<times> u32"
  m_threshold :: u32
  m_nodenum :: u32

definition sc_default :: shards_container where
  "sc_default = \<lparr>m_shards = Map.empty, m_threshold = 0, m_nodenum = 0\<rparr>"

definition set_pramas :: "u32 \<Rightarrow> shards_container \<Rightarrow> shards_container" where
  "set_pramas node_num sc =
     sc\<lparr>m_nodenum := node_num, m_threshold := node_num - (node_num - 1) div 3\<rparr>"

text \<open>\<open>map::insert\<close> leaves a block that is known alone.\<close>

definition new_block :: "bytes \<Rightarrow> shards_container \<Rightarrow> shards_container" where
  "new_block hash sc =
     (let shards = (replicate (unat (m_nodenum sc)) [], 0) in
      case m_shards sc hash of
        None \<Rightarrow> sc\<lparr>m_shards := (m_shards sc)(hash \<mapsto> shards)\<rparr>
      | Some _ \<Rightarrow> sc)"

text \<open>\<open>m_shards[hash]\<close> makes up an empty entry when there is none.\<close>

definition sc_entry :: "shards_container \<Rightarrow> bytes \<Rightarrow> vv_char \<times> u32" where
  "sc_entry sc hash = (case m_shards sc hash of None \<Rightarrow> ([], 0) | Some e \<Rightarrow> e)"

definition insert_shard ::
  "bytes \<Rightarrow> u32 \<Rightarrow> bytes \<Rightarrow> shards_container \<Rightarrow> int res \<times> shards_container" where
  "insert_shard hash idx dat sc =
     (let sc = (if m_shards sc hash = None then new_block hash sc else sc);
          (shards, n) = sc_entry sc hash in
      if length shards \<le> unat idx then (Inl OutOfBounds, sc)
      else if length (shards ! unat idx) \<noteq> 0 then (Inr (-1), sc)
      else (Inr 0, sc\<lparr>m_shards := (m_shards sc)(hash \<mapsto> (shards[unat idx := dat], n + 1))\<rparr>))"

text \<open>The result and the caller's \<open>shards\<close> argument.\<close>

definition get_block :: "bytes \<Rightarrow> vv_char \<Rightarrow> shards_container \<Rightarrow> int \<times> vv_char" where
  "get_block hash shards sc =
     (if m_shards sc hash = None then (-1, shards)
      else if snd (sc_entry sc hash) < m_threshold sc then (-2, shards)
      else (0, fst (sc_entry sc hash)))"

definition sc_remove :: "bytes \<Rightarrow> shards_container \<Rightarrow> int \<times> shards_container" where
  "sc_remove hash sc =
     (if m_shards sc hash = None then (-1, sc)
      else (0, sc\<lparr>m_shards := (m_shards sc)(hash := None)\<rparr>))"

definition sc_enough :: "bytes \<Rightarrow> shards_container \<Rightarrow> bool" where
  "sc_enough hash sc \<longleftrightarrow>
     m_shards sc hash \<noteq> None \<and> \<not> snd (sc_entry sc hash) < m_threshold sc"

section \<open>The interface\<close>

text \<open>
  What the core relies on: the container is a family of partial maps from indices to slices,
  an insertion of a non-empty slice at a free index adds it there, and a block is handed out
  as soon as the threshold of slices is reached.
\<close>

locale slice_store =
  fixes ins :: "bytes \<Rightarrow> u32 \<Rightarrow> bytes \<Rightarrow> 's \<Rightarrow> int res \<times> 's"
    and get :: "bytes \<Rightarrow> vv_char \<Rightarrow> 's \<Rightarrow> int \<times> vv_char"
    and slots :: "'s \<Rightarrow> nat"
    and threshold :: "'s \<Rightarrow> nat"
    and held :: "'s \<Rightarrow> bytes \<Rightarrow> nat \<Rightarrow> bytes"
    and inv :: "'s \<Rightarrow> bool"
  assumes ins_free: "inv s \<Longrightarrow> unat i < slots s \<Longrightarrow> held s h (unat i) = [] \<Longrightarrow> d \<noteq> [] \<Longrightarrow>
      \<exists>s'. ins h i d s = (Inr 0, s') \<and> inv s' \<and> slots s' = slots s \<and> threshold s' = threshold s \<and>
        held s' = (held s)(h := (held s h)(unat i := d))"
    and get_enough: "inv s \<Longrightarrow> 0 < threshold s \<Longrightarrow>
      threshold s \<le> card {j. j < slots s \<and> held s h j \<noteq> []} \<Longrightarrow>
      get h out s = (0, map (held s h) [0..<slots s])"
    and get_short: "inv s \<Longrightarrow>
      card {j. j < slots s \<and> held s h j \<noteq> []} < threshold s \<Longrightarrow>
      fst (get h out s) < 0 \<and> snd (get h out s) = out"
begin

text \<open>Any slices with distinct indices are all accepted.\<close>

lemma ins_all:
  assumes "inv s" and "distinct (map (unat \<circ> fst) ss)"
    and "\<forall>(i, d)\<in>set ss. unat i < slots s \<and> held s h (unat i) = [] \<and> d \<noteq> []"
  shows "\<exists>s'. foldl (\<lambda>s (i, d). snd (ins h i d s)) s ss = s' \<and> inv s' \<and>
    slots s' = slots s \<and> threshold s' = threshold s \<and>
    (\<forall>h'. h' \<noteq> h \<longrightarrow> held s' h' = held s h') \<and>
    (\<forall>j. held s' h j = (case map_of (map (\<lambda>(i, d). (unat i, d)) ss) j of
       None \<Rightarrow> held s h j | Some d \<Rightarrow> d))"
  using assms
proof (induction ss arbitrary: s)
  case (Cons x ss)
  obtain i d where x: "x = (i, d)" by force
  from Cons.prems x ins_free [of s i h d] obtain s1 where
    s1: "ins h i d s = (Inr 0, s1)" "inv s1" "slots s1 = slots s" "threshold s1 = threshold s"
      "held s1 = (held s)(h := (held s h)(unat i := d))" by auto
  have free: "unat i' \<noteq> unat i" if "(i', d') \<in> set ss" for i' d'
    using Cons.prems(2) x that by (force simp: image_iff)
  have "\<forall>(i', d')\<in>set ss. unat i' < slots s1 \<and> held s1 h (unat i') = [] \<and> d' \<noteq> []"
    using Cons.prems(3) free s1(3,5) by auto
  then obtain s2 where s2: "foldl (\<lambda>s (i, d). snd (ins h i d s)) s1 ss = s2" "inv s2"
    "slots s2 = slots s1" "threshold s2 = threshold s1"
    "\<forall>h'. h' \<noteq> h \<longrightarrow> held s2 h' = held s1 h'"
    "\<forall>j. held s2 h j = (case map_of (map (\<lambda>(i, d). (unat i, d)) ss) j of
       None \<Rightarrow> held s1 h j | Some d \<Rightarrow> d)"
    using Cons.IH [OF s1(2)] Cons.prems(2) by auto
  have "map_of (map (\<lambda>(i, d). (unat i, d)) ss) (unat i) = None"
    using free by (force simp: map_of_eq_None_iff)
  then show ?case
    using s1 s2 x by (intro exI [of _ s2]) (auto split: option.splits)
qed auto

end

section \<open>The container keeps the contract\<close>

definition sc_count :: "vv_char \<Rightarrow> nat" where
  "sc_count shards = length (filter (\<lambda>d. d \<noteq> []) shards)"

text \<open>The invariant: one slot per replica, and the count is that of the slices that are there.\<close>

definition sc_inv :: "shards_container \<Rightarrow> bool" where
  "sc_inv sc \<longleftrightarrow>
     (\<forall>h shards n. m_shards sc h = Some (shards, n) \<longrightarrow>
        length shards = unat (m_nodenum sc) \<and> unat n = sc_count shards)"

definition sc_held :: "shards_container \<Rightarrow> bytes \<Rightarrow> nat \<Rightarrow> bytes" where
  "sc_held sc h j =
     (let shards = fst (sc_entry sc h) in if j < length shards then shards ! j else [])"

lemma sc_held_fresh: "m_shards sc h = None \<Longrightarrow> sc_held sc h j = []"
  by (simp add: sc_held_def sc_entry_def)

lemma sc_count_card: "sc_count shards = card {j. j < length shards \<and> shards ! j \<noteq> []}"
  by (simp add: sc_count_def length_filter_conv_card)

lemma sc_count_update:
  assumes "j < length shards" "shards ! j = []" "d \<noteq> []"
  shows "sc_count (shards[j := d]) = Suc (sc_count shards)"
proof -
  have "{i. i < length shards \<and> shards[j := d] ! i \<noteq> []} =
      insert j {i. i < length shards \<and> shards ! i \<noteq> []}"
    using assms by (auto simp: nth_list_update)
  then show ?thesis using assms by (simp add: sc_count_card)
qed

lemma sc_count_le: "sc_count shards \<le> length shards"
  by (simp add: sc_count_def)

lemma sc_count_replicate [simp]: "sc_count (replicate n []) = 0"
  by (simp add: sc_count_def)

lemma sc_inv_default: "sc_inv sc_default"
  by (simp add: sc_inv_def sc_default_def)

lemma sc_inv_set_pramas: "m_shards sc = Map.empty \<Longrightarrow> sc_inv (set_pramas n sc)"
  by (simp add: sc_inv_def set_pramas_def)

lemma sc_inv_new_block: "sc_inv sc \<Longrightarrow> sc_inv (new_block h sc)"
  by (auto simp: sc_inv_def new_block_def Let_def split: option.splits)

lemma sc_inv_remove: "sc_inv sc \<Longrightarrow> sc_inv (snd (sc_remove h sc))"
  by (auto simp: sc_inv_def sc_remove_def)

text \<open>The entry an insertion works on.\<close>

lemma sc_entry_new_block:
  "m_shards sc h = None \<Longrightarrow> sc_entry (new_block h sc) h = (replicate (unat (m_nodenum sc)) [], 0)"
  by (simp add: sc_entry_def new_block_def Let_def)

lemma m_nodenum_new_block [simp]: "m_nodenum (new_block h sc) = m_nodenum sc"
  and m_threshold_new_block [simp]: "m_threshold (new_block h sc) = m_threshold sc"
  by (simp_all add: new_block_def Let_def split: option.splits)

lemma sc_held_new_block [simp]: "sc_held (new_block h sc) = sc_held sc"
  by (auto simp: sc_held_def new_block_def sc_entry_def Let_def fun_eq_iff split: option.splits)

lemma sc_inv_entry:
  assumes "sc_inv sc" and "m_shards sc h \<noteq> None"
  shows "length (fst (sc_entry sc h)) = unat (m_nodenum sc)"
    and "unat (snd (sc_entry sc h)) = sc_count (fst (sc_entry sc h))"
  using assms by (auto simp: sc_inv_def sc_entry_def)

lemma insert_shard_known:
  assumes inv: "sc_inv sc" and known: "m_shards sc h \<noteq> None"
    and i: "unat i < unat (m_nodenum sc)" "sc_held sc h (unat i) = []" and d: "d \<noteq> []"
  shows "\<exists>sc'. insert_shard h i d sc = (Inr 0, sc') \<and> sc_inv sc' \<and>
     m_nodenum sc' = m_nodenum sc \<and> m_threshold sc' = m_threshold sc \<and>
     sc_held sc' = (sc_held sc)(h := (sc_held sc h)(unat i := d))"
proof -
  obtain shards n where e: "m_shards sc h = Some (shards, n)" using known by auto
  then have len: "length shards = unat (m_nodenum sc)" "unat n = sc_count shards"
    using inv by (simp_all add: sc_inv_def)
  have free: "shards ! unat i = []" using i len e by (simp add: sc_held_def sc_entry_def)
  let ?new = "(shards[unat i := d], n + 1)"
  have ins: "insert_shard h i d sc = (Inr 0, sc\<lparr>m_shards := (m_shards sc)(h \<mapsto> ?new)\<rparr>)"
    using e len i(1) free by (simp add: insert_shard_def sc_entry_def Let_def)
  have count: "sc_count (shards[unat i := d]) = Suc (sc_count shards)"
    using len i free d by (intro sc_count_update) auto
  with sc_count_le [of "shards[unat i := d]"] len have "unat n < unat (m_nodenum sc)" by simp
  then have "Suc (unat n) < 2 ^ 32" using unsigned_less [of "m_nodenum sc", where ?'a = nat] by simp
  then have "unat (n + 1) = Suc (unat n)" by (simp add: unat_word_ariths)
  with count len(2) have "unat (n + 1) = sc_count (shards[unat i := d])" by simp
  with inv len(1) have "sc_inv (sc\<lparr>m_shards := (m_shards sc)(h \<mapsto> ?new)\<rparr>)"
    by (auto simp: sc_inv_def)
  moreover have "sc_held (sc\<lparr>m_shards := (m_shards sc)(h \<mapsto> ?new)\<rparr>) =
      (sc_held sc)(h := (sc_held sc h)(unat i := d))"
    using e len i(1) by (auto simp: sc_held_def sc_entry_def fun_eq_iff nth_list_update)
  ultimately show ?thesis using ins by simp
qed

lemma insert_shard_new:
  assumes "m_shards sc h = None"
  shows "insert_shard h i d sc = insert_shard h i d (new_block h sc)"
  using assms by (simp add: insert_shard_def new_block_def Let_def)

lemma insert_shard_free:
  assumes inv: "sc_inv sc" and i: "unat i < unat (m_nodenum sc)" "sc_held sc h (unat i) = []"
    and d: "d \<noteq> []"
  shows "\<exists>sc'. insert_shard h i d sc = (Inr 0, sc') \<and> sc_inv sc' \<and>
     m_nodenum sc' = m_nodenum sc \<and> m_threshold sc' = m_threshold sc \<and>
     sc_held sc' = (sc_held sc)(h := (sc_held sc h)(unat i := d))"
proof (cases "m_shards sc h = None")
  case True
  have "m_shards (new_block h sc) h \<noteq> None" using True by (simp add: new_block_def Let_def)
  from insert_shard_known [OF sc_inv_new_block [OF inv] this, of i d] True i d show ?thesis
    by (simp add: insert_shard_new)
qed (use insert_shard_known assms in blast)

lemma sc_held_outside:
  assumes "sc_inv sc" and "m_shards sc h \<noteq> None"
  shows "map (sc_held sc h) [0..<unat (m_nodenum sc)] = fst (sc_entry sc h)"
  using sc_inv_entry(1) [OF assms] by (intro nth_equalityI) (auto simp: sc_held_def)

lemma sc_inv_card:
  assumes "sc_inv sc" and "m_shards sc h \<noteq> None"
  shows "card {j. j < unat (m_nodenum sc) \<and> sc_held sc h j \<noteq> []} = unat (snd (sc_entry sc h))"
  using sc_inv_entry [OF assms] by (simp add: sc_count_card sc_held_def Let_def conj_commute cong: conj_cong)

lemma sc_unknown_card:
  "m_shards sc h = None \<Longrightarrow> card {j. j < unat (m_nodenum sc) \<and> sc_held sc h j \<noteq> []} = 0"
  by (simp add: sc_held_def sc_entry_def)

interpretation shards: slice_store insert_shard get_block "\<lambda>sc. unat (m_nodenum sc)"
  "\<lambda>sc. unat (m_threshold sc)" sc_held sc_inv
proof
  show "\<exists>s'. insert_shard h i d s = (Inr 0, s') \<and> sc_inv s' \<and>
      unat (m_nodenum s') = unat (m_nodenum s) \<and> unat (m_threshold s') = unat (m_threshold s) \<and>
      sc_held s' = (sc_held s)(h := (sc_held s h)(unat i := d))"
    if "sc_inv s" "unat i < unat (m_nodenum s)" "sc_held s h (unat i) = []" "d \<noteq> []" for s i h d
    using insert_shard_free [OF that] by auto
  show "get_block h out s = (0, map (sc_held s h) [0..<unat (m_nodenum s)])"
    if "sc_inv s" "0 < unat (m_threshold s)"
      "unat (m_threshold s) \<le> card {j. j < unat (m_nodenum s) \<and> sc_held s h j \<noteq> []}" for s h out
  proof -
    have known: "m_shards s h \<noteq> None"
    proof
      assume "m_shards s h = None"
      then show False using that(2,3) by (simp only: sc_unknown_card)
    qed
    with that sc_held_outside [OF that(1) known] sc_inv_card [OF that(1) known] show ?thesis
      by (simp add: get_block_def word_less_nat_alt)
  qed
  show "fst (get_block h out s) < 0 \<and> snd (get_block h out s) = out"
    if "sc_inv s" "card {j. j < unat (m_nodenum s) \<and> sc_held s h j \<noteq> []} < unat (m_threshold s)"
    for s h out
    using that sc_inv_card [OF that(1), of h] by (auto simp: get_block_def word_less_nat_alt)
qed

section \<open>Properties\<close>

lemma insert_shard_taken:
  assumes inv: "sc_inv sc" and i: "unat i < unat (m_nodenum sc)" "sc_held sc h (unat i) \<noteq> []"
  shows "insert_shard h i d sc = (Inr (-1), sc)"
proof -
  have known: "m_shards sc h \<noteq> None" using i(2) sc_held_fresh [of sc h "unat i"] by blast
  with sc_inv_entry(1) [OF inv known] i show ?thesis
    by (auto simp: insert_shard_def Let_def sc_held_def split: prod.splits if_splits)
qed

lemma insert_shard_outside:
  assumes "sc_inv sc" and "unat (m_nodenum sc) \<le> unat i"
  shows "\<exists>sc'. insert_shard h i d sc = (Inl OutOfBounds, sc') \<and> sc_inv sc' \<and> sc_held sc' = sc_held sc"
proof (cases "m_shards sc h = None")
  case True
  then show ?thesis using assms sc_inv_new_block [OF assms(1), of h]
    by (simp add: insert_shard_def sc_entry_new_block)
next
  case False
  with sc_inv_entry(1) [OF assms(1) this] assms show ?thesis
    by (auto simp: insert_shard_def Let_def split: prod.splits)
qed

text \<open>
  C22: Inserting a non-empty slice keeps the container's invariant (a slot per replica, the
  count is the number of slices held) and does what the protocol counts on: it is stored at a
  free index and accepted, a second slice for an index is refused with -1 and changes nothing,
  and an index beyond the replicas is an access out of bounds.
\<close>

theorem insert_shard_correct:
  assumes "sc_inv sc" and "d \<noteq> []"
  shows "\<exists>r sc'. insert_shard h i d sc = (r, sc') \<and> sc_inv sc' \<and>
    (if unat (m_nodenum sc) \<le> unat i then r = Inl OutOfBounds \<and> sc_held sc' = sc_held sc
     else if sc_held sc h (unat i) \<noteq> [] then r = Inr (-1) \<and> sc' = sc
     else r = Inr 0 \<and> sc_held sc' = (sc_held sc)(h := (sc_held sc h)(unat i := d)))"
  using assms insert_shard_free [OF assms(1) _ _ assms(2), of i h] insert_shard_taken [of sc i h d]
    insert_shard_outside [of sc i h d]
  by (metis not_le)

lemma insert_shard_correct_witness:
  "\<exists>r sc'. insert_shard [65] 2 [9] (set_pramas 4 sc_default) = (r, sc') \<and> sc_inv sc' \<and>
     r = Inr 0 \<and> sc_held sc' [65] 2 = [9]"
  using insert_shard_correct [of "set_pramas 4 sc_default" "[9]" "[65]" 2]
    sc_inv_set_pramas [of sc_default 4] sc_held_fresh [of "set_pramas 4 sc_default" "[65]" 2]
  by (force simp: sc_default_def set_pramas_def sc_entry_def)

text \<open>
  C39: An empty slice does not occupy its slot: it is accepted and counted again and again, so
  the count can reach the threshold without any slice being there.
\<close>

theorem empty_shard_recounted:
  assumes "sc_inv sc" and "unat i < unat (m_nodenum sc)" and "sc_held sc h (unat i) = []"
  shows "\<exists>sc1 sc2. insert_shard h i [] sc = (Inr 0, sc1) \<and> insert_shard h i [] sc1 = (Inr 0, sc2) \<and>
    snd (sc_entry sc2 h) = snd (sc_entry sc h) + 2 \<and> sc_held sc2 = sc_held sc"
proof -
  have once: "\<exists>sc1. insert_shard h i [] sc = (Inr 0, sc1) \<and> m_nodenum sc1 = m_nodenum sc \<and>
      sc_entry sc1 h = (shards, snd (sc_entry sc h) + 1) \<and> sc_held sc1 = sc_held sc"
    if "length shards = unat (m_nodenum sc)" "shards ! unat i = []"
      "unat i < unat (m_nodenum sc)"
      "m_shards sc h = None \<and> shards = replicate (unat (m_nodenum sc)) [] \<or>
       (\<exists>n. m_shards sc h = Some (shards, n))" for sc shards
    using that(4)
  proof (elim disjE exE conjE)
    assume none: "m_shards sc h = None" and sh: "shards = replicate (unat (m_nodenum sc)) []"
    with that(1-3) show ?thesis
      by (auto simp: insert_shard_def sc_entry_new_block new_block_def Let_def sc_entry_def
          sc_held_def fun_eq_iff list_update_same_conv nth_list_update)
  next
    fix n assume "m_shards sc h = Some (shards, n)"
    with that(1-3) show ?thesis
      by (auto simp: insert_shard_def sc_entry_def sc_held_def Let_def fun_eq_iff
          list_update_same_conv nth_list_update)
  qed
  obtain shards where sh: "length shards = unat (m_nodenum sc)" "shards ! unat i = []"
      "m_shards sc h = None \<and> shards = replicate (unat (m_nodenum sc)) [] \<or>
       (\<exists>n. m_shards sc h = Some (shards, n))"
  proof (cases "m_shards sc h")
    case None
    then show ?thesis
      using assms(2) that [of "replicate (unat (m_nodenum sc)) []"] by simp
  next
    case (Some e)
    then show ?thesis
      using assms that [of "fst e"] by (cases e) (auto simp: sc_inv_def sc_held_def sc_entry_def)
  qed
  from once [OF sh(1,2) assms(2) sh(3)] obtain sc1 where
    sc1: "insert_shard h i [] sc = (Inr 0, sc1)" "m_nodenum sc1 = m_nodenum sc"
      "sc_entry sc1 h = (shards, snd (sc_entry sc h) + 1)" "sc_held sc1 = sc_held sc" by blast
  have "\<exists>n. m_shards sc1 h = Some (shards, n)"
    using sc1(1,3) sh by (auto simp: insert_shard_def sc_entry_def Let_def split: if_splits prod.splits option.splits)
  with once [of shards sc1] sh(1,2) assms(2) sc1(2) obtain sc2 where
    "insert_shard h i [] sc1 = (Inr 0, sc2)" "sc_entry sc2 h = (shards, snd (sc_entry sc1 h) + 1)"
    "sc_held sc2 = sc_held sc1" by auto
  with sc1 show ?thesis by auto
qed

lemma empty_shard_recounted_witness:
  "\<exists>sc1 sc2. insert_shard [65] 2 [] (set_pramas 4 sc_default) = (Inr 0, sc1) \<and>
     insert_shard [65] 2 [] sc1 = (Inr 0, sc2) \<and> snd (sc_entry sc2 [65]) = 2"
  using empty_shard_recounted [of "set_pramas 4 sc_default" 2 "[65]"]
    sc_inv_set_pramas [of sc_default 4] sc_held_fresh [of "set_pramas 4 sc_default" "[65]" 2]
  by (force simp: sc_default_def set_pramas_def sc_entry_def)

end
