(* ===== verification/Core.thy ===== *)
theory Core
  imports Messages ShardsContainer
begin

text \<open>
  The protocol state machine \<open>HotStuffCore\<close> (include/hotstuff/consensus.h and
  src/consensus.cpp), in its default three-step form. A method takes the state and returns
  its result and the new state, also when it throws. The calls of the virtual \<open>do_\<close> methods
  and the resolutions of promises are outputs, appended to \<open>c_outs\<close> in the order in which they
  happen; what a callback does is a call of its own, after the method that triggered it.
\<close>

section \<open>The state\<close>

datatype promise_value = VUnit | VBlock block_ref | VProposal proposal

datatype core_output =
    DoDecide finality
  | DoConsensus block_ref
  | DoBroadcastSlice slice
  | DoBroadcastProposals "proposal list"
  | DoVote replica_id vote
  | Resolve nat promise_value

record core =
  c_b0 :: block_ref
  c_hqc :: "(block_ref \<times> quorum_cert) option"
  c_b_lock :: block_ref
  c_b_exec :: block_ref
  c_vheight :: u32
  c_priv_key :: priv_key
  c_tails :: "block_ref set"
  c_config :: replica_config
  c_qc_waiting :: "block_ref \<rightharpoonup> nat"
  c_propose_waiting :: nat
  c_receive_proposal_waiting :: nat
  c_hqc_update_waiting :: nat
  c_next_promise :: nat
  c_vote_disabled :: bool
  c_id :: replica_id
  c_storage :: entity_storage
  c_rse :: rse
  c_sc :: shards_container
  c_futures :: "bytes \<rightharpoonup> uint256 list res"
  c_outs :: "core_output list"

abbreviation blk :: "core \<Rightarrow> block_ref \<Rightarrow> block" where
  "blk c r \<equiv> heap (c_storage c) r"

definition set_blk :: "block_ref \<Rightarrow> (block \<Rightarrow> block) \<Rightarrow> core \<Rightarrow> core" where
  "set_blk r f c = c\<lparr>c_storage := upd_blk r f (c_storage c)\<rparr>"

definition emit :: "core_output \<Rightarrow> core \<Rightarrow> core" where
  "emit out c = c\<lparr>c_outs := c_outs c @ [out]\<rparr>"

text \<open>A parent walk \<open>for (b = b; b->height > h; b = b->parents[0])\<close>: the blocks passed and the
  block reached; \<open>None\<close> when it never ends.\<close>

partial_function (option) walk_up ::
  "(block_ref \<Rightarrow> block) \<Rightarrow> u32 \<Rightarrow> block_ref \<Rightarrow> (block_ref list \<times> block_ref) res option" where
  "walk_up hp h b =
     (if \<not> blk_height (hp b) > h then Some (Inr ([], b))
      else if blk_parents (hp b) = [] then Some (Inl OutOfBounds)
      else Option.bind (walk_up hp h (blk_parents (hp b) ! 0)) (\<lambda>r.
             Some (bindE r (\<lambda>(q, b'). Inr (b # q, b')))))"

definition walk :: "(block_ref \<Rightarrow> block) \<Rightarrow> u32 \<Rightarrow> block_ref \<Rightarrow> (block_ref list \<times> block_ref) res" where
  "walk hp h b = (case walk_up hp h b of None \<Rightarrow> Inl Diverges | Some r \<Rightarrow> r)"

section \<open>Starting up\<close>

definition hotstuff_core :: "env \<Rightarrow> replica_id \<Rightarrow> priv_key \<Rightarrow> core res" where
  "hotstuff_core E rid priv_key =
     bindE (block_genesis E True 1) (\<lambda>b.
       if leo_init (e_leo E) \<noteq> 0 then Inl (RuntimeError ''leo_init failed.'')
       else let (b0, st) = alloc_blk b (empty_storage E); (_, st) = add_blk_ref b0 st in
         Inr \<lparr>c_b0 = b0, c_hqc = None, c_b_lock = b0, c_b_exec = b0, c_vheight = 0,
              c_priv_key = priv_key, c_tails = {b0}, c_config = empty_config,
              c_qc_waiting = Map.empty, c_propose_waiting = 0, c_receive_proposal_waiting = 1,
              c_hqc_update_waiting = 2, c_next_promise = 3, c_vote_disabled = False, c_id = rid,
              c_storage = st, c_rse = rse_default, c_sc = sc_default, c_futures = Map.empty,
              c_outs = []\<rparr>)"

definition add_replica :: "replica_id \<Rightarrow> peer_id \<Rightarrow> pub_key \<Rightarrow> core \<Rightarrow> core" where
  "add_replica rid peer_id pub_key c =
     set_blk (c_b0 c) (\<lambda>b. b\<lparr>blk_voted := insert rid (blk_voted b)\<rparr>)
       (c\<lparr>c_config := cfg_add_replica rid
            \<lparr>ri_id = rid, ri_peer_id = peer_id, ri_pubkey = pub_key\<rparr> (c_config c)\<rparr>)"

definition on_init :: "env \<Rightarrow> u32 \<Rightarrow> core \<Rightarrow> core" where
  "on_init E nfaulty c =
     (let c = c\<lparr>c_config := set_majority (unat nfaulty) (c_config c)\<rparr>;
          qc = qc_compute (create_quorum_cert (e_kind E) (c_config c) (blk_hash (blk c (c_b0 c)))) in
      (set_blk (c_b0 c) (\<lambda>b. b\<lparr>blk_qc := Some qc, blk_self_qc := Some qc,
          blk_qc_ref := Some (c_b0 c)\<rparr>) c)\<lparr>c_hqc := Some (c_b0 c, qc)\<rparr>)"

section \<open>Promises\<close>

text \<open>The methods that resolve a waiting promise, and those that hand one out.\<close>

definition on_propose_fin :: "proposal \<Rightarrow> core \<Rightarrow> core" where
  "on_propose_fin prop c =
     emit (Resolve (c_propose_waiting c) (VProposal prop))
       (c\<lparr>c_propose_waiting := c_next_promise c, c_next_promise := Suc (c_next_promise c)\<rparr>)"

definition on_receive_proposal_fin :: "proposal \<Rightarrow> core \<Rightarrow> core" where
  "on_receive_proposal_fin prop c =
     emit (Resolve (c_receive_proposal_waiting c) (VProposal prop))
       (c\<lparr>c_receive_proposal_waiting := c_next_promise c, c_next_promise := Suc (c_next_promise c)\<rparr>)"

definition on_hqc_update :: "core \<Rightarrow> core" where
  "on_hqc_update c =
     emit (Resolve (c_hqc_update_waiting c)
         (case c_hqc c of None \<Rightarrow> VUnit | Some (r, _) \<Rightarrow> VBlock r))
       (c\<lparr>c_hqc_update_waiting := c_next_promise c, c_next_promise := Suc (c_next_promise c)\<rparr>)"

definition on_qc_finish :: "block_ref \<Rightarrow> core \<Rightarrow> core" where
  "on_qc_finish b c =
     (case c_qc_waiting c b of
        None \<Rightarrow> c
      | Some pm \<Rightarrow> emit (Resolve pm VUnit) (c\<lparr>c_qc_waiting := (c_qc_waiting c)(b := None)\<rparr>))"

text \<open>\<open>async_qc_finish\<close>: \<open>None\<close> is a promise that is resolved already.\<close>

definition async_qc_finish :: "block_ref \<Rightarrow> core \<Rightarrow> nat option \<times> core" where
  "async_qc_finish b c =
     (if nmajority (c_config c) \<le> card (blk_voted (blk c b)) then (None, c)
      else case c_qc_waiting c b of
          Some pm \<Rightarrow> (Some pm, c)
        | None \<Rightarrow> (Some (c_next_promise c),
            c\<lparr>c_qc_waiting := (c_qc_waiting c)(b \<mapsto> c_next_promise c),
              c_next_promise := Suc (c_next_promise c)\<rparr>))"

definition async_wait_proposal :: "core \<Rightarrow> nat" where
  "async_wait_proposal c = c_propose_waiting c"

definition async_wait_receive_proposal :: "core \<Rightarrow> nat" where
  "async_wait_receive_proposal c = c_receive_proposal_waiting c"

definition async_hqc_update :: "core \<Rightarrow> nat" where
  "async_hqc_update c = c_hqc_update_waiting c"

section \<open>Delivering blocks\<close>

definition sanity_check_delivered :: "block_ref \<Rightarrow> core \<Rightarrow> unit res" where
  "sanity_check_delivered b c =
     (if \<not> blk_delivered (blk c b) then Inl (RuntimeError ''block not delivered'') else Inr ())"

definition get_delivered_blk :: "uint256 \<Rightarrow> core \<Rightarrow> block_ref res" where
  "get_delivered_blk h c =
     (case find_blk (c_storage c) h of
        None \<Rightarrow> Inl (RuntimeError ''block not delivered'')
      | Some b \<Rightarrow> if \<not> blk_delivered (blk c b) then Inl (RuntimeError ''block not delivered'')
                  else Inr b)"

fun push_parents :: "block_ref \<Rightarrow> uint256 list \<Rightarrow> core \<Rightarrow> unit res \<times> core" where
  "push_parents b [] c = (Inr (), c)"
| "push_parents b (h # hs) c =
     (case get_delivered_blk h c of
        Inl e \<Rightarrow> (Inl e, c)
      | Inr p \<Rightarrow> push_parents b hs (set_blk b (\<lambda>x. x\<lparr>blk_parents := blk_parents x @ [p]\<rparr>) c))"

definition on_deliver_blk :: "block_ref \<Rightarrow> core \<Rightarrow> bool res \<times> core" where
  "on_deliver_blk b c =
     (if blk_delivered (blk c b) then (Inr False, c)
      else bindS (push_parents b (blk_parent_hashes (blk c b))
                   (set_blk b (\<lambda>x. x\<lparr>blk_parents := []\<rparr>) c)) (\<lambda>_ c.
        if blk_parents (blk c b) = [] then (Inl OutOfBounds, c)
        else let c = set_blk b (\<lambda>x. x\<lparr>blk_height :=
                       blk_height (blk c (blk_parents (blk c b) ! 0)) + 1\<rparr>) c in
          bindS (case blk_qc (blk c b) of
                   None \<Rightarrow> (Inr (), c)
                 | Some q \<Rightarrow>
                     (case find_blk (c_storage c) (qc_obj_hash q) of
                        None \<Rightarrow> (Inl (RuntimeError ''block referred by qc not fetched''), c)
                      | Some r \<Rightarrow> (Inr (), set_blk b (\<lambda>x. x\<lparr>blk_qc_ref := Some r\<rparr>) c)))
            (\<lambda>_ c. (Inr True, set_blk b (\<lambda>x. x\<lparr>blk_delivered := True\<rparr>)
               (c\<lparr>c_tails := insert b (c_tails c - set (blk_parents (blk c b)))\<rparr>)))))"

section \<open>Updating the chain\<close>

definition update_hqc :: "block_ref \<Rightarrow> quorum_cert option \<Rightarrow> core \<Rightarrow> unit res \<times> core" where
  "update_hqc b qc c =
     (case c_hqc c of
        None \<Rightarrow> (Inl NullDeref, c)
      | Some (hb, _) \<Rightarrow>
          if blk_height (blk c b) > blk_height (blk c hb)
          then case qc of
              None \<Rightarrow> (Inl NullDeref, c)
            | Some q \<Rightarrow> (Inr (), on_hqc_update (c\<lparr>c_hqc := Some (b, q)\<rparr>))
          else (Inr (), c))"

text \<open>
  \<open>async_decode\<close>, whose result is what the future holds: an exception in it is thrown by
  \<open>get\<close>.
\<close>

definition async_decode :: "env \<Rightarrow> rse \<Rightarrow> bytes list \<Rightarrow> uint256 list res" where
  "async_decode E r decode_input =
     bindE (rse_decode (e_leo E) r decode_input []) (\<lambda>(rst, decode_output).
       if rst \<noteq> 0 then Inr []
       else if length decode_output mod 32 \<noteq> 0 then Inl AssertFail
       else Inr (map (\<lambda>i. e_from_bytes E (take 32 (drop (i * 32) decode_output)))
              [0..<length decode_output div 32]))"

text \<open>The body of the commit loop for one block, and the loop.\<close>

definition commit_blk :: "env \<Rightarrow> block_ref \<Rightarrow> core \<Rightarrow> unit res \<times> core" where
  "commit_blk E b c =
     (let key = e_get_hex E (blk_hash (blk c b));
          c = emit (DoConsensus b) (set_blk b (\<lambda>x. x\<lparr>blk_decision := 1\<rparr>) c) in
      case c_futures c key of
        None \<Rightarrow> (Inr (), c)
      | Some (Inl e) \<Rightarrow> (Inl e, c)
      | Some (Inr cmds) \<Rightarrow>
          (Inr (), foldl (\<lambda>c i. emit (DoDecide
                \<lparr>f_rid = c_id c, f_decision = 1, f_cmd_idx = word_of_nat i,
                 f_cmd_height = blk_height (blk c b), f_cmd_hash = cmds ! i,
                 f_blk_hash = blk_hash (blk c b)\<rparr>) c)
             (c\<lparr>c_futures := (c_futures c)(key := None), c_sc := snd (sc_remove key (c_sc c))\<rparr>)
             [0..<length cmds]))"

fun commit_all :: "env \<Rightarrow> block_ref list \<Rightarrow> core \<Rightarrow> unit res \<times> core" where
  "commit_all E [] c = (Inr (), c)"
| "commit_all E (b # bs) c = bindS (commit_blk E b c) (\<lambda>_ c. commit_all E bs c)"

text \<open>Building the message of the exception reads the first parent hash of both blocks.\<close>

definition safety_breached :: "block_ref \<Rightarrow> block_ref \<Rightarrow> core \<Rightarrow> cxx_error" where
  "safety_breached b b' c =
     (if blk_parent_hashes (blk c b) = [] \<or> blk_parent_hashes (blk c b') = [] then OutOfBounds
      else RuntimeError ''safety breached :('')"

definition commit :: "env \<Rightarrow> block_ref \<Rightarrow> core \<Rightarrow> unit res \<times> core" where
  "commit E b c =
     (case walk (heap (c_storage c)) (blk_height (blk c (c_b_exec c))) b of
        Inl e \<Rightarrow> (Inl e, c)
      | Inr (commit_queue, reached) \<Rightarrow>
          if reached \<noteq> c_b_exec c then (Inl (safety_breached b (c_b_exec c) c), c)
          else bindS (commit_all E (rev commit_queue) c) (\<lambda>_ c. (Inr (), c\<lparr>c_b_exec := b\<rparr>)))"

text \<open>The start of decoding for the block \<open>blk1\<close>, and its locking.\<close>

definition start_decode :: "env \<Rightarrow> block_ref \<Rightarrow> core \<Rightarrow> core" where
  "start_decode E blk1 c =
     (let key = e_get_hex E (blk_hash (blk c blk1)); (rst, decode_input) = get_block key [] (c_sc c) in
      if rst = 0
      then c\<lparr>c_futures := map_insert (c_futures c) key (async_decode E (c_rse c) decode_input)\<rparr>
      else c)"

definition lock_blk :: "block_ref \<Rightarrow> core \<Rightarrow> core" where
  "lock_blk b c = (if blk_height (blk c b) > blk_height (blk c (c_b_lock c)) then c\<lparr>c_b_lock := b\<rparr> else c)"

text \<open>\<open>blk2->parents[0] != blk1 || blk1->parents[0] != blk\<close>.\<close>

definition direct_parents :: "block_ref \<Rightarrow> block_ref \<Rightarrow> block_ref \<Rightarrow> core \<Rightarrow> bool res" where
  "direct_parents blk2 blk1 b c =
     (if blk_parents (blk c blk2) = [] then Inl OutOfBounds
      else if blk_parents (blk c blk2) ! 0 \<noteq> blk1 then Inr False
      else if blk_parents (blk c blk1) = [] then Inl OutOfBounds
      else Inr (blk_parents (blk c blk1) ! 0 = b))"

definition update :: "env \<Rightarrow> block_ref \<Rightarrow> core \<Rightarrow> unit res \<times> core" where
  "update E nblk c =
     (case blk_qc_ref (blk c nblk) of
        None \<Rightarrow> (Inr (), c)
      | Some blk2 \<Rightarrow>
          if blk_decision (blk c blk2) \<noteq> 0 then (Inr (), c)
          else bindS (update_hqc blk2 (blk_qc (blk c nblk)) c) (\<lambda>_ c.
            case blk_qc_ref (blk c blk2) of
              None \<Rightarrow> (Inr (), c)
            | Some blk1 \<Rightarrow>
                if blk_decision (blk c blk1) \<noteq> 0 then (Inr (), c)
                else let c = lock_blk blk1 (start_decode E blk1 c) in
                  case blk_qc_ref (blk c blk1) of
                    None \<Rightarrow> (Inr (), c)
                  | Some b \<Rightarrow>
                      if blk_decision (blk c b) \<noteq> 0 then (Inr (), c)
                      else case direct_parents blk2 blk1 b c of
                          Inl e \<Rightarrow> (Inl e, c)
                        | Inr False \<Rightarrow> (Inr (), c)
                        | Inr True \<Rightarrow> commit E b c))"

text \<open>The form of \<open>update\<close> that the option \<open>HOTSTUFF_TWO_STEP\<close> compiles instead.\<close>

definition update_two_step :: "env \<Rightarrow> block_ref \<Rightarrow> core \<Rightarrow> unit res \<times> core" where
  "update_two_step E nblk c =
     (case blk_qc_ref (blk c nblk) of
        None \<Rightarrow> (Inr (), c)
      | Some blk1 \<Rightarrow>
          if blk_decision (blk c blk1) \<noteq> 0 then (Inr (), c)
          else bindS (update_hqc blk1 (blk_qc (blk c nblk)) c) (\<lambda>_ c.
            let c = lock_blk blk1 c in
            case blk_qc_ref (blk c blk1) of
              None \<Rightarrow> (Inr (), c)
            | Some b \<Rightarrow>
                if blk_decision (blk c b) \<noteq> 0 then (Inr (), c)
                else if blk_parents (blk c blk1) = [] then (Inl OutOfBounds, c)
                else if blk_parents (blk c blk1) ! 0 \<noteq> b then (Inr (), c)
                else commit E b c))"

section \<open>Slices, proposals and votes\<close>

definition on_receive_slice :: "env \<Rightarrow> slice \<Rightarrow> core \<Rightarrow> unit res \<times> core" where
  "on_receive_slice E x c =
     (if \<not> validate (e_sha_hex E) x then (Inr (), c)
      else let (r, sc) = insert_shard (e_get_hex E (m_blk_hash x)) (m_index x) (m_data x) (c_sc c) in
        (case r of Inl e \<Rightarrow> Inl e | Inr _ \<Rightarrow> Inr (), c\<lparr>c_sc := sc\<rparr>))"

text \<open>The opinion on a proposed block: the liveness and the safety condition.\<close>

definition opinion_on :: "block_ref \<Rightarrow> core \<Rightarrow> bool res" where
  "opinion_on bnew c =
     (let lock_height = blk_height (blk c (c_b_lock c)) in
      if \<not> blk_height (blk c bnew) > c_vheight c then Inr False
      else if (case blk_qc_ref (blk c bnew) of None \<Rightarrow> False
               | Some r \<Rightarrow> blk_height (blk c r) > lock_height) then Inr True
      else bindE (walk (heap (c_storage c)) lock_height bnew) (\<lambda>(_, b). Inr (b = c_b_lock c)))"

text \<open>The end of \<open>on_receive_proposal\<close>, from the opinion on the block on.\<close>

definition finish_proposal :: "env \<Rightarrow> proposal \<Rightarrow> block_ref \<Rightarrow> core \<Rightarrow> unit res \<times> core" where
  "finish_proposal E prop bnew c =
     (case opinion_on bnew c of
        Inl e \<Rightarrow> (Inl e, c)
      | Inr opinion \<Rightarrow>
          let c = (if opinion then c\<lparr>c_vheight := blk_height (blk c bnew)\<rparr> else c);
              c = (case blk_qc_ref (blk c bnew) of
                     None \<Rightarrow> c
                   | Some r \<Rightarrow> if p_proposer prop = c_id c then c else on_qc_finish r c);
              c = on_receive_proposal_fin prop c in
          if opinion \<and> \<not> c_vote_disabled c
          then case create_part_cert (e_crypto E) (e_kind E) (c_priv_key c) (blk_hash (blk c bnew)) of
              Inl e \<Rightarrow> (Inl e, c)
            | Inr cert \<Rightarrow> (Inr (), emit (DoVote (p_proposer prop)
                \<lparr>v_voter = c_id c, v_blk_hash = blk_hash (blk c bnew),
                 v_cert = Some cert, v_hsc = True\<rparr>) c)
          else (Inr (), c))"

definition on_receive_proposal :: "env \<Rightarrow> proposal \<Rightarrow> core \<Rightarrow> unit res \<times> core" where
  "on_receive_proposal E prop c =
     (case slice_get_hash E (p_slice prop) of
        Inl e \<Rightarrow> (Inl e, c)
      | Inr h \<Rightarrow>
          if p_s_hash prop \<noteq> h then (Inl AssertFail, c)
          else if \<not> validate (e_sha_hex E) (p_slice prop) then (Inl AssertFail, c)
          else bindS (on_receive_slice E (p_slice prop) c) (\<lambda>_ c.
            let c = emit (DoBroadcastSlice (p_slice prop)) c in
            case p_blk prop of
              None \<Rightarrow> (Inl NullDeref, c)
            | Some bnew \<Rightarrow>
                bindS (if p_proposer prop = c_id c then (Inr (), c)
                       else case sanity_check_delivered bnew c of
                           Inl e \<Rightarrow> (Inl e, c)
                         | Inr _ \<Rightarrow> update E bnew c)
                  (\<lambda>_ c. finish_proposal E prop bnew c)))"

text \<open>The end of \<open>on_receive_vote\<close>, after the voter was recorded as the \<open>qsize + 1\<close>-th.\<close>

definition collect_vote ::
  "env \<Rightarrow> block_ref \<Rightarrow> replica_id \<Rightarrow> part_cert \<Rightarrow> nat \<Rightarrow> core \<Rightarrow> unit res \<times> core" where
  "collect_vote E b voter cert qsize c =
     (let qc = (case blk_self_qc (blk c b) of
                  None \<Rightarrow> create_quorum_cert (e_kind E) (c_config c) (blk_hash (blk c b))
                | Some q \<Rightarrow> q) in
      case qc_add_part qc voter cert of
        Inl e \<Rightarrow> (Inl e, set_blk b (\<lambda>x. x\<lparr>blk_self_qc := Some qc\<rparr>) c)
      | Inr qc1 \<Rightarrow>
          if qsize + 1 = nmajority (c_config c)
          then let qc2 = qc_compute qc1 in
            bindS (update_hqc b (Some qc2) (set_blk b (\<lambda>x. x\<lparr>blk_self_qc := Some qc2\<rparr>) c))
              (\<lambda>_ c. (Inr (), on_qc_finish b c))
          else (Inr (), set_blk b (\<lambda>x. x\<lparr>blk_self_qc := Some qc1\<rparr>) c))"

definition on_receive_vote :: "env \<Rightarrow> vote \<Rightarrow> core \<Rightarrow> unit res \<times> core" where
  "on_receive_vote E v c =
     (case get_delivered_blk (v_blk_hash v) c of
        Inl e \<Rightarrow> (Inl e, c)
      | Inr b \<Rightarrow>
          case v_cert v of
            None \<Rightarrow> (Inl AssertFail, c)
          | Some cert \<Rightarrow>
              let qsize = card (blk_voted (blk c b)) in
              if nmajority (c_config c) \<le> qsize then (Inr (), c)
              else if v_voter v \<in> blk_voted (blk c b) then (Inr (), c)
              else collect_vote E b (v_voter v) cert qsize
                (set_blk b (\<lambda>x. x\<lparr>blk_voted := insert (v_voter v) (blk_voted x)\<rparr>) c))"

section \<open>Proposing\<close>

text \<open>The proposals that carry the slices, one per proof.\<close>

fun slice_proposals ::
  "env \<Rightarrow> replica_id \<Rightarrow> block_ref \<Rightarrow> uint256 \<Rightarrow> merkle_proof list \<Rightarrow> proposal list res" where
  "slice_proposals E rid bnew h [] = Inr []"
| "slice_proposals E rid bnew h (p # ps) =
     bindE (new_proposal E rid (new_slice p h) (Some bnew) False) (\<lambda>prop.
       bindE (slice_proposals E rid bnew h ps) (\<lambda>props. Inr (prop # props)))"

text \<open>Encoding the commands of a block into the proposals for the replicas.\<close>

definition encode_proposals ::
  "env \<Rightarrow> rse \<Rightarrow> replica_id \<Rightarrow> block_ref \<Rightarrow> uint256 \<Rightarrow> uint256 list \<Rightarrow> proposal list res" where
  "encode_proposals E r rid bnew h cmds =
     bindE (rse_encode (e_leo E) r (concat (map (e_to_bytes E) cmds)) []) (\<lambda>(rst, encode_output).
       if rst \<noteq> 0 then Inl (RuntimeError ''encode error'')
       else bindE (new_merkle_tree (e_sha_hex E) encode_output) (\<lambda>mt.
         bindE (proofs mt) (\<lambda>ps. slice_proposals E rid bnew h ps)))"

text \<open>The block that is proposed: it carries the hash of the commands and the highest certificate.\<close>

definition proposed_blk ::
  "env \<Rightarrow> uint256 list \<Rightarrow> block_ref list \<Rightarrow> bytes \<Rightarrow> core \<Rightarrow> block res" where
  "proposed_blk E cmds parents extra c =
     bindE (put_commands (e_stream E) cmds) (\<lambda>s.
       case c_hqc c of
         None \<Rightarrow> Inl NullDeref
       | Some (hb, hq) \<Rightarrow>
           new_Block E (heap (c_storage c)) parents [e_get_hash E s] (Some hq) extra
             (blk_height (blk c (parents ! 0)) + 1) (Some hb) None 0)"

definition on_propose ::
  "env \<Rightarrow> uint256 list \<Rightarrow> block_ref list \<Rightarrow> bytes \<Rightarrow> core \<Rightarrow> block_ref res \<times> core" where
  "on_propose E cmds parents extra c =
     (if parents = [] then (Inl (RuntimeError ''empty parents''), c)
      else let c = c\<lparr>c_tails := c_tails c - set parents\<rparr> in
      case proposed_blk E cmds parents extra c of
        Inl e \<Rightarrow> (Inl e, c)
      | Inr b \<Rightarrow>
        let (bnew, st) = add_blk b (c_storage c);
            c = c\<lparr>c_storage := st\<rparr>;
            bnew_hash = blk_hash (blk c bnew);
            c = set_blk bnew (\<lambda>x. x\<lparr>blk_self_qc :=
                  Some (create_quorum_cert (e_kind E) (c_config c) bnew_hash)\<rparr>) c in
        bindS (on_deliver_blk bnew c) (\<lambda>_ c. bindS (update E bnew c) (\<lambda>_ c.
          case encode_proposals E (c_rse c) (c_id c) bnew bnew_hash cmds of
            Inl e \<Rightarrow> (Inl e, c)
          | Inr props \<Rightarrow>
              if blk_height (blk c bnew) \<le> c_vheight c
              then (Inl (RuntimeError ''new block should be higher than vheight''), c)
              else if length props \<le> unat (c_id c) then (Inl OutOfBounds, c)
              else let prop = props ! unat (c_id c) in
                bindS (on_receive_proposal E prop c) (\<lambda>_ c.
                  (Inr bnew, emit (DoBroadcastProposals props) (on_propose_fin prop c))))))"

section \<open>Pruning\<close>

text \<open>The block \<open>staleness\<close> parents below \<open>b\<close>; \<open>None\<close> when the chain is shorter.\<close>

fun prune_start :: "(block_ref \<Rightarrow> block) \<Rightarrow> nat \<Rightarrow> block_ref \<Rightarrow> block_ref option" where
  "prune_start hp 0 b = Some b"
| "prune_start hp (Suc n) b =
     (if blk_parents (hp b) = [] then None else prune_start hp n (blk_parents (hp b) ! 0))"

text \<open>
  The loop over the stack, top first. \<open>cnt\<close> gives the reference count of a block, which depends
  on everything that holds a reference to it.
\<close>

partial_function (option) prune_loop ::
  "(entity_storage \<Rightarrow> block_ref list \<Rightarrow> nat) \<Rightarrow> block_ref list \<Rightarrow> entity_storage \<Rightarrow> entity_storage option"
  where
  "prune_loop cnt s st =
     (case s of
        [] \<Rightarrow> Some st
      | b # s' \<Rightarrow>
          if blk_parents (heap st b) = []
          then prune_loop cnt s' (snd (try_release_blk (cnt st s) b st))
          else prune_loop cnt (last (blk_parents (heap st b)) # s)
                 (upd_blk b (\<lambda>x. x\<lparr>blk_qc_ref := None, blk_parents := butlast (blk_parents x)\<rparr>) st))"

definition prune ::
  "(entity_storage \<Rightarrow> block_ref list \<Rightarrow> nat) \<Rightarrow> u32 \<Rightarrow> core \<Rightarrow> unit res \<times> core" where
  "prune cnt staleness c =
     (case prune_start (heap (c_storage c)) (unat staleness) (c_b_exec c) of
        None \<Rightarrow> (Inr (), c)
      | Some b \<Rightarrow>
          (case prune_loop cnt [b] (upd_blk b (\<lambda>x. x\<lparr>blk_qc_ref := None\<rparr>) (c_storage c)) of
             None \<Rightarrow> (Inl Diverges, c)
           | Some st \<Rightarrow> (Inr (), c\<lparr>c_storage := st\<rparr>)))"

section \<open>Access to the state\<close>

definition get_genesis :: "core \<Rightarrow> block_ref" where
  "get_genesis c = c_b0 c"

definition get_hqc :: "core \<Rightarrow> block_ref option" where
  "get_hqc c = map_option fst (c_hqc c)"

definition get_config :: "core \<Rightarrow> replica_config" where
  "get_config c = c_config c"

definition get_id :: "core \<Rightarrow> replica_id" where
  "get_id c = c_id c"

definition get_tails :: "core \<Rightarrow> block_ref set" where
  "get_tails c = c_tails c"

definition set_vote_disabled :: "bool \<Rightarrow> core \<Rightarrow> core" where
  "set_vote_disabled f c = c\<lparr>c_vote_disabled := f\<rparr>"

end
