(* ===== verification/CoreInvariant.thy ===== *)
theory CoreInvariant
  imports Core
begin

text \<open>
  The well-formedness of the protocol state, and that every method keeps it when the caller
  respects the documented preconditions: delivered blocks form a tree of parents over the
  genesis block with consecutive heights, the blocks handed to \<open>do_consensus\<close> are a path of
  it from the genesis block to \<open>b_exec\<close>, and the votes are for ever higher blocks.
\<close>

section \<open>Results that end the program\<close>

text \<open>
  A method may throw an exception of its own and be called again; a failed assertion, an
  undefined access or an endless loop has no state after it.
\<close>

definition fatal :: "cxx_error \<Rightarrow> bool" where
  "fatal e \<longleftrightarrow>
     e \<in> {AssertFail, OutOfBounds, NullDeref, BadCast, Uninitialised, DivByZero, Diverges}"

definition survives :: "'a res \<Rightarrow> bool" where
  "survives r \<longleftrightarrow> (\<forall>e. r = Inl e \<longrightarrow> \<not> fatal e)"

lemma survives_simps [simp]: "survives (Inr x)" "survives (Inl e) = (\<not> fatal e)"
  by (simp_all add: survives_def)

lemma bindS_survives:
  assumes "bindS m f = (r, t)" and "survives r"
    and "\<And>x s. m = (x, s) \<Longrightarrow> survives x \<Longrightarrow> Q s"
    and "\<And>x s. m = (Inr x, s) \<Longrightarrow> Q s \<Longrightarrow> f x s = (r, t) \<Longrightarrow> Q t"
  shows "Q t"
  using assms(1)
proof (cases rule: bindS_snd_cases)
  case (err e)
  with assms(2) show ?thesis by (intro assms(3) [of "Inl e"]) (simp_all add: survives_def)
next
  case (ok x s)
  then show ?thesis using assms(3) [of "Inr x" s] assms(4) [of x s] by simp
qed

section \<open>The tree of delivered blocks\<close>

definition delivered :: "entity_storage \<Rightarrow> block_ref \<Rightarrow> bool" where
  "delivered st r \<longleftrightarrow> r < next_ref st \<and> blk_delivered (heap st r)"

definition delivered_set :: "entity_storage \<Rightarrow> block_ref set" where
  "delivered_set st = {r. delivered st r}"

definition height_of :: "entity_storage \<Rightarrow> block_ref \<Rightarrow> nat" where
  "height_of st r = unat (blk_height (heap st r))"

text \<open>\<open>b->parents[0]\<close> is \<open>p\<close>.\<close>

definition parent_link :: "entity_storage \<Rightarrow> block_ref \<Rightarrow> block_ref \<Rightarrow> bool" where
  "parent_link st p b \<longleftrightarrow> blk_parents (heap st b) \<noteq> [] \<and> blk_parents (heap st b) ! 0 = p"

definition cache_wf :: "entity_storage \<Rightarrow> bool" where
  "cache_wf st \<longleftrightarrow>
     (\<forall>h r. blk_cache st h = Some r \<longrightarrow> r < next_ref st \<and> blk_hash (heap st r) = h) \<and>
     (\<forall>r<next_ref st. blk_cache st (blk_hash (heap st r)) = Some r)"

definition genesis_wf :: "block_ref \<Rightarrow> entity_storage \<Rightarrow> bool" where
  "genesis_wf b0 st \<longleftrightarrow>
     delivered st b0 \<and> height_of st b0 = 0 \<and> blk_parents (heap st b0) = [] \<and>
     blk_parent_hashes (heap st b0) = [] \<and> blk_qc_ref (heap st b0) = Some b0"

definition delivered_wf :: "entity_storage \<Rightarrow> block_ref \<Rightarrow> bool" where
  "delivered_wf st r \<longleftrightarrow>
     blk_parents (heap st r) \<noteq> [] \<and> (\<forall>p\<in>set (blk_parents (heap st r)). delivered st p) \<and>
     blk_parent_hashes (heap st r) = map (\<lambda>p. blk_hash (heap st p)) (blk_parents (heap st r)) \<and>
     height_of st r = Suc (height_of st (blk_parents (heap st r) ! 0)) \<and>
     (\<exists>x q. blk_qc_ref (heap st r) = Some x \<and> x < next_ref st \<and> blk_qc (heap st r) = Some q \<and>
        blk_hash (heap st x) = qc_obj_hash q)"

definition fetched_wf :: "entity_storage \<Rightarrow> block_ref \<Rightarrow> bool" where
  "fetched_wf st r \<longleftrightarrow> height_of st r = 0 \<and> blk_qc_ref (heap st r) = None"

definition store_wf :: "block_ref \<Rightarrow> entity_storage \<Rightarrow> bool" where
  "store_wf b0 st \<longleftrightarrow>
     cache_wf st \<and> genesis_wf b0 st \<and>
     (\<forall>r. delivered st r \<longrightarrow> r \<noteq> b0 \<longrightarrow> delivered_wf st r) \<and>
     (\<forall>r<next_ref st. \<not> delivered st r \<longrightarrow> fetched_wf st r) \<and>
     (\<forall>r<next_ref st. blk_qc (heap st r) \<noteq> None) \<and>
     (\<forall>r. delivered st r \<longrightarrow> height_of st r < card (delivered_set st))"

lemma store_wfD:
  assumes "store_wf b0 st"
  shows "cache_wf st" and "genesis_wf b0 st"
    and "delivered st r \<Longrightarrow> r \<noteq> b0 \<Longrightarrow> delivered_wf st r"
    and "r < next_ref st \<Longrightarrow> \<not> delivered st r \<Longrightarrow> fetched_wf st r"
    and "r < next_ref st \<Longrightarrow> \<exists>q. blk_qc (heap st r) = Some q"
    and "delivered st r \<Longrightarrow> height_of st r < card (delivered_set st)"
  using assms unfolding store_wf_def by blast+

lemma store_wfI:
  assumes "cache_wf st" and "genesis_wf b0 st"
    and "\<And>r. delivered st r \<Longrightarrow> r \<noteq> b0 \<Longrightarrow> delivered_wf st r"
    and "\<And>r. r < next_ref st \<Longrightarrow> \<not> delivered st r \<Longrightarrow> fetched_wf st r"
    and "\<And>r. r < next_ref st \<Longrightarrow> blk_qc (heap st r) \<noteq> None"
    and "\<And>r. delivered st r \<Longrightarrow> height_of st r < card (delivered_set st)"
  shows "store_wf b0 st"
  unfolding store_wf_def using assms by blast

lemma finite_delivered_set [simp]: "finite (delivered_set st)"
  by (rule finite_subset [of _ "{..<next_ref st}"]) (auto simp: delivered_set_def delivered_def)

lemma delivered_next: "delivered st r \<Longrightarrow> r < next_ref st"
  by (simp add: delivered_def)

text \<open>What is in the storage is found, and by one reference only.\<close>

lemma find_stored: "store_wf b0 st \<Longrightarrow> r < next_ref st \<Longrightarrow> find_blk st (blk_hash (heap st r)) = Some r"
  unfolding store_wf_def cache_wf_def find_blk_def by blast

lemma find_blkD:
  assumes "store_wf b0 st" and "find_blk st h = Some r"
  shows "r < next_ref st" and "blk_hash (heap st r) = h"
  using assms unfolding store_wf_def cache_wf_def find_blk_def by blast+

lemma hash_inj:
  assumes "store_wf b0 st" "r < next_ref st" "s < next_ref st"
    and "blk_hash (heap st r) = blk_hash (heap st s)"
  shows "r = s"
  using find_stored [OF assms(1,2)] find_stored [OF assms(1,3)] unfolding assms(4) by simp

text \<open>A block of positive height is delivered, and its first parent is one lower.\<close>

lemma higher_delivered:
  assumes "store_wf b0 st" "r < next_ref st" "0 < height_of st r"
  shows "delivered st r" and "r \<noteq> b0"
proof -
  show "delivered st r" using store_wfD(4) [OF assms(1,2)] assms(3) by (auto simp: fetched_wf_def)
  show "r \<noteq> b0" using store_wfD(2) [OF assms(1)] assms(3) by (auto simp: genesis_wf_def)
qed

lemma first_parent:
  assumes "store_wf b0 st" "delivered st r" "r \<noteq> b0"
  obtains p where "parent_link st p r" "delivered st p" "height_of st r = Suc (height_of st p)"
proof -
  have wf: "delivered_wf st r" using assms by (rule store_wfD(3))
  then have "blk_parents (heap st r) ! 0 \<in> set (blk_parents (heap st r))"
    by (simp add: delivered_wf_def)
  with wf that [of "blk_parents (heap st r) ! 0"] show ?thesis
    by (auto simp: delivered_wf_def parent_link_def)
qed

lemma walk_simps:
  "\<not> blk_height (hp b) > h \<Longrightarrow> walk hp h b = Inr ([], b)"
  "blk_height (hp b) > h \<Longrightarrow> blk_parents (hp b) = [] \<Longrightarrow> walk hp h b = Inl OutOfBounds"
  "blk_height (hp b) > h \<Longrightarrow> blk_parents (hp b) \<noteq> [] \<Longrightarrow>
     walk hp h b = bindE (walk hp h (blk_parents (hp b) ! 0)) (\<lambda>(q, b'). Inr (b # q, b'))"
  unfolding walk_def by (subst walk_up.simps, simp split: option.split)+

text \<open>
  Walking up from a delivered block ends, at a delivered block, after passing the blocks above
  the bound one by one.
\<close>

lemma walk_delivered:
  assumes wf: "store_wf b0 st" and b: "delivered st b"
  shows "\<exists>q d. walk (heap st) h b = Inr (q, d) \<and> delivered st d \<and> height_of st d \<le> unat h \<and>
    (\<forall>x\<in>set q. delivered st x \<and> unat h < height_of st x \<and> x \<noteq> b0) \<and>
    successively (parent_link st) (d # rev q) \<and> last (d # rev q) = b"
  using b
proof (induction "height_of st b" arbitrary: b rule: less_induct)
  case less
  show ?case
  proof (cases "blk_height (heap st b) > h")
    case False
    with less.prems show ?thesis
      by (simp add: walk_simps(1) height_of_def word_less_nat_alt)
  next
    case True
    then have pos: "unat h < height_of st b" by (simp add: height_of_def word_less_nat_alt)
    then have "b \<noteq> b0"
      using higher_delivered(2) [OF wf delivered_next [OF less.prems]] by simp
    then obtain p where p: "parent_link st p b" "delivered st p" "height_of st b = Suc (height_of st p)"
      using first_parent [OF wf less.prems] by blast
    then obtain q d where ih: "walk (heap st) h p = Inr (q, d)" "delivered st d"
      "height_of st d \<le> unat h" "\<forall>x\<in>set q. delivered st x \<and> unat h < height_of st x \<and> x \<noteq> b0"
      "successively (parent_link st) (d # rev q)" "last (d # rev q) = p"
      using less.hyps [OF _ p(2)] by force
    have "walk (heap st) h b = Inr (b # q, d)"
      using True p(1) ih(1) by (simp add: walk_simps(3) parent_link_def)
    moreover have "successively (parent_link st) ((d # rev q) @ [b])"
      using ih(5,6) p(1) by (simp only: successively_append_iff) simp
    ultimately show ?thesis
      using ih(2-4) less.prems pos \<open>b \<noteq> b0\<close> by auto
  qed
qed

text \<open>Along a path from the genesis block the heights are the positions.\<close>

lemma path_heights:
  assumes wf: "store_wf b0 st" and "successively (parent_link st) (d # bs)"
    and "\<forall>b\<in>set bs. delivered st b \<and> b \<noteq> b0" and "i \<le> length bs"
  shows "height_of st ((d # bs) ! i) = height_of st d + i"
  using assms(2-)
proof (induction i)
  case (Suc i)
  then have "parent_link st ((d # bs) ! i) (bs ! i)"
    by (simp add: successively_conv_nth)
  moreover obtain p where "parent_link st p (bs ! i)" "height_of st (bs ! i) = Suc (height_of st p)"
    using first_parent [OF wf, of "bs ! i"] Suc.prems by auto
  ultimately show ?case using Suc by (simp add: parent_link_def)
qed simp

section \<open>The well-formed state\<close>

definition consensus_of :: "core_output list \<Rightarrow> block_ref list" where
  "consensus_of outs = concat (map (\<lambda>x. case x of DoConsensus b \<Rightarrow> [b] | _ \<Rightarrow> []) outs)"

definition votes_of :: "core_output list \<Rightarrow> vote list" where
  "votes_of outs = concat (map (\<lambda>x. case x of DoVote p v \<Rightarrow> [v] | _ \<Rightarrow> []) outs)"

lemma consensus_of_append [simp]: "consensus_of (xs @ ys) = consensus_of xs @ consensus_of ys"
  and consensus_of_Nil [simp]: "consensus_of [] = []"
  by (simp_all add: consensus_of_def)

lemma votes_of_append [simp]: "votes_of (xs @ ys) = votes_of xs @ votes_of ys"
  and votes_of_Nil [simp]: "votes_of [] = []"
  by (simp_all add: votes_of_def)

lemma consensus_of_single [simp]:
  "consensus_of [DoConsensus b] = [b]" "consensus_of [DoDecide f] = []"
  "consensus_of [DoBroadcastSlice x] = []" "consensus_of [DoBroadcastProposals ps] = []"
  "consensus_of [DoVote p v] = []" "consensus_of [Resolve n pv] = []"
  by (simp_all add: consensus_of_def)

lemma votes_of_single [simp]:
  "votes_of [DoConsensus b] = []" "votes_of [DoDecide f] = []"
  "votes_of [DoBroadcastSlice x] = []" "votes_of [DoBroadcastProposals ps] = []"
  "votes_of [DoVote p v] = [v]" "votes_of [Resolve n pv] = []"
  by (simp_all add: votes_of_def)

text \<open>The roots: locked and executed block, and the highest certificate.\<close>

definition roots_wf :: "core \<Rightarrow> bool" where
  "roots_wf c \<longleftrightarrow>
     delivered (c_storage c) (c_b_lock c) \<and> delivered (c_storage c) (c_b_exec c) \<and>
     height_of (c_storage c) (c_b_exec c) \<le> height_of (c_storage c) (c_b_lock c) \<and>
     (\<exists>hb q. c_hqc c = Some (hb, q) \<and> delivered (c_storage c) hb \<and>
        blk_hash (blk c hb) = qc_obj_hash q)"

text \<open>The executed blocks are a path, and exactly they are decided.\<close>

definition exec_wf :: "core \<Rightarrow> bool" where
  "exec_wf c \<longleftrightarrow>
     (let bs = consensus_of (c_outs c) in
      successively (parent_link (c_storage c)) (c_b0 c # bs) \<and> last (c_b0 c # bs) = c_b_exec c \<and>
      (\<forall>b\<in>set bs. delivered (c_storage c) b \<and> b \<noteq> c_b0 c) \<and>
      (\<forall>r<next_ref (c_storage c). blk_decision (blk c r) \<noteq> 0 \<longleftrightarrow> r \<in> set (c_b0 c # bs)))"

text \<open>The votes are for delivered blocks of strictly increasing height.\<close>

definition votes_wf :: "core \<Rightarrow> bool" where
  "votes_wf c \<longleftrightarrow>
     (\<exists>bs. map (\<lambda>b. blk_hash (blk c b)) bs = map v_blk_hash (votes_of (c_outs c)) \<and>
        sorted_wrt (<) (map (height_of (c_storage c)) bs) \<and>
        (\<forall>b\<in>set bs. delivered (c_storage c) b \<and> height_of (c_storage c) b \<le> unat (c_vheight c)))"

definition futures_wf :: "core \<Rightarrow> bool" where
  "futures_wf c \<longleftrightarrow> (\<forall>k e. c_futures c k = Some (Inl e) \<longrightarrow> fatal e)"

definition self_qc_wf :: "entity_storage \<Rightarrow> bool" where
  "self_qc_wf st \<longleftrightarrow>
     (\<forall>r<next_ref st. \<forall>q. blk_self_qc (heap st r) = Some q \<longrightarrow> qc_obj_hash q = blk_hash (heap st r))"

definition core_wf :: "core \<Rightarrow> bool" where
  "core_wf c \<longleftrightarrow>
     store_wf (c_b0 c) (c_storage c) \<and> roots_wf c \<and> exec_wf c \<and> votes_wf c \<and> futures_wf c \<and>
     self_qc_wf (c_storage c)"

lemma core_wfD:
  assumes "core_wf c"
  shows "store_wf (c_b0 c) (c_storage c)" and "roots_wf c" and "exec_wf c" and "votes_wf c"
    and "futures_wf c" and "self_qc_wf (c_storage c)"
  using assms by (simp_all add: core_wf_def)

section \<open>Changes that keep the tree\<close>

text \<open>Everything of a block but its decision and the votes collected for it.\<close>

definition shape :: "block \<Rightarrow> block" where
  "shape b = b\<lparr>blk_decision := 0, blk_voted := {}, blk_self_qc := None\<rparr>"

definition same_shape :: "entity_storage \<Rightarrow> entity_storage \<Rightarrow> bool" where
  "same_shape st st' \<longleftrightarrow>
     next_ref st' = next_ref st \<and> blk_cache st' = blk_cache st \<and>
     (\<forall>r. shape (heap st' r) = shape (heap st r))"

lemma shape_fields:
  assumes "shape b = shape b'"
  shows "blk_parent_hashes b = blk_parent_hashes b'" "blk_hash b = blk_hash b'"
    "blk_qc b = blk_qc b'" "blk_parents b = blk_parents b'" "blk_qc_ref b = blk_qc_ref b'"
    "blk_height b = blk_height b'" "blk_delivered b = blk_delivered b'"
  using assms by (cases b; cases b'; simp add: shape_def)+

lemma same_shape_fields:
  assumes "same_shape st st'"
  shows "next_ref st' = next_ref st" "blk_cache st' = blk_cache st"
    "blk_parent_hashes (heap st' r) = blk_parent_hashes (heap st r)"
    "blk_hash (heap st' r) = blk_hash (heap st r)" "blk_qc (heap st' r) = blk_qc (heap st r)"
    "blk_parents (heap st' r) = blk_parents (heap st r)"
    "blk_qc_ref (heap st' r) = blk_qc_ref (heap st r)"
    "blk_height (heap st' r) = blk_height (heap st r)"
    "blk_delivered (heap st' r) = blk_delivered (heap st r)"
  using assms shape_fields [of "heap st' r" "heap st r"] by (simp_all add: same_shape_def)

lemma same_shape_upd_blk:
  "(\<And>b. shape (f b) = shape b) \<Longrightarrow> same_shape st (upd_blk r f st)"
  by (simp add: same_shape_def upd_blk_def)

lemma same_shape_refl [simp]: "same_shape st st"
  by (simp add: same_shape_def)

lemma same_shape_trans: "same_shape a b \<Longrightarrow> same_shape b c \<Longrightarrow> same_shape a c"
  by (simp add: same_shape_def)

lemma same_shape_views:
  assumes "same_shape st st'"
  shows "delivered st' = delivered st" "height_of st' = height_of st"
    "parent_link st' = parent_link st" "delivered_set st' = delivered_set st"
    "find_blk st' = find_blk st"
proof -
  show d: "delivered st' = delivered st"
    by (rule ext) (simp add: delivered_def same_shape_fields [OF assms])
  show "height_of st' = height_of st"
    by (rule ext) (simp add: height_of_def same_shape_fields [OF assms])
  show "parent_link st' = parent_link st"
    by (rule ext)+ (simp add: parent_link_def same_shape_fields [OF assms])
  show "delivered_set st' = delivered_set st" by (simp add: delivered_set_def d)
  show "find_blk st' = find_blk st"
    by (rule ext) (simp add: find_blk_def same_shape_fields [OF assms])
qed

lemma same_shape_store_wf:
  assumes "same_shape st st'"
  shows "store_wf b0 st' = store_wf b0 st"
  by (simp only: store_wf_def cache_wf_def genesis_wf_def delivered_wf_def fetched_wf_def
      same_shape_fields [OF assms] same_shape_views [OF assms])

section \<open>Progress of the state\<close>

definition hqc_height :: "core \<Rightarrow> nat" where
  "hqc_height c = (case c_hqc c of None \<Rightarrow> 0 | Some (hb, _) \<Rightarrow> height_of (c_storage c) hb)"

text \<open>
  What every method does to the state: blocks stay, delivered blocks keep their place in the
  tree, and the heights of the last vote, the lock, the executed block and the highest
  certificate never go down; outputs are only added.
\<close>

definition extends :: "core \<Rightarrow> core \<Rightarrow> bool" where
  "extends c c' \<longleftrightarrow>
     c_b0 c' = c_b0 c \<and> c_id c' = c_id c \<and> c_config c' = c_config c \<and>
     next_ref (c_storage c) \<le> next_ref (c_storage c') \<and>
     (\<forall>r<next_ref (c_storage c). blk_hash (blk c' r) = blk_hash (blk c r)) \<and>
     (\<forall>r. delivered (c_storage c) r \<longrightarrow> delivered (c_storage c') r \<and>
        height_of (c_storage c') r = height_of (c_storage c) r \<and>
        blk_parents (blk c' r) = blk_parents (blk c r)) \<and>
     unat (c_vheight c) \<le> unat (c_vheight c') \<and>
     height_of (c_storage c) (c_b_lock c) \<le> height_of (c_storage c') (c_b_lock c') \<and>
     height_of (c_storage c) (c_b_exec c) \<le> height_of (c_storage c') (c_b_exec c') \<and>
     hqc_height c \<le> hqc_height c' \<and>
     (\<exists>new. c_outs c' = c_outs c @ new)"

lemma extends_refl [simp]: "extends c c"
  by (simp add: extends_def)

lemma extends_trans:
  assumes "extends a b" and "extends b c"
  shows "extends a c"
proof -
  have "\<forall>r<next_ref (c_storage a). blk_hash (blk c r) = blk_hash (blk a r)"
    using assms unfolding extends_def by (metis less_le_trans)
  moreover have "\<exists>new. c_outs c = c_outs a @ new"
    using assms unfolding extends_def by (metis append.assoc)
  ultimately show ?thesis
    using assms unfolding extends_def by (auto intro: order_trans)
qed

text \<open>Changes outside the tree, the roots and the outputs the invariant speaks of.\<close>

definition same_roots :: "core \<Rightarrow> core \<Rightarrow> bool" where
  "same_roots c c' \<longleftrightarrow>
     c_b0 c' = c_b0 c \<and> c_id c' = c_id c \<and> c_config c' = c_config c \<and>
     c_hqc c' = c_hqc c \<and> c_b_lock c' = c_b_lock c \<and> c_b_exec c' = c_b_exec c \<and>
     c_vheight c' = c_vheight c \<and> c_storage c' = c_storage c \<and>
     consensus_of (c_outs c') = consensus_of (c_outs c) \<and>
     votes_of (c_outs c') = votes_of (c_outs c) \<and> (\<exists>new. c_outs c' = c_outs c @ new)"

lemma same_roots_wf:
  assumes "same_roots c c'" and "core_wf c" and "futures_wf c'"
  shows "core_wf c' \<and> extends c c'"
  using assms
  by (simp add: same_roots_def core_wf_def roots_wf_def exec_wf_def votes_wf_def extends_def
      hqc_height_def split: option.split)

lemma same_roots_refl [simp]: "same_roots c c"
  by (simp add: same_roots_def)

lemma same_roots_trans: "same_roots a b \<Longrightarrow> same_roots b c \<Longrightarrow> same_roots a c"
  by (auto simp: same_roots_def)

lemma futures_wf_cong: "c_futures c' = c_futures c \<Longrightarrow> futures_wf c' = futures_wf c"
  by (simp add: futures_wf_def)

text \<open>The resolution of promises and the broadcasts.\<close>

lemma emit_same_roots:
  "consensus_of [out] = [] \<Longrightarrow> votes_of [out] = [] \<Longrightarrow> same_roots c (emit out c)"
  by (simp add: same_roots_def emit_def)

lemma promises_same_roots [simp]:
  "same_roots c (on_propose_fin p c)" "same_roots c (on_receive_proposal_fin p c)"
  "same_roots c (on_qc_finish b c)" "same_roots c (snd (async_qc_finish b c))"
  by (simp_all add: on_propose_fin_def on_receive_proposal_fin_def on_qc_finish_def emit_def
      same_roots_def async_qc_finish_def split: option.split)

lemma promises_futures [simp]:
  "c_futures (on_propose_fin p c) = c_futures c"
  "c_futures (on_receive_proposal_fin p c) = c_futures c"
  "c_futures (on_qc_finish b c) = c_futures c"
  "c_futures (snd (async_qc_finish b c)) = c_futures c" "c_futures (emit out c) = c_futures c"
  by (simp_all add: on_propose_fin_def on_receive_proposal_fin_def on_qc_finish_def emit_def
      async_qc_finish_def split: option.split)

section \<open>Updating the chain\<close>

text \<open>The only failure of the decoder is an access out of bounds.\<close>

lemma append_slice_fails [fails_intros]: "fails_with {OutOfBounds} (append_slice sb src out)"
  unfolding append_slice_def by (intro fails_intros; simp)

lemma read_header_fails [fails_intros]: "fails_with {OutOfBounds} (read_header buf)"
  unfolding read_header_def by (intro fails_intros; simp)

lemma strip_fails [fails_intros]: "fails_with {OutOfBounds} (strip n out)"
  unfolding strip_def by (intro fails_intros; simp)

lemma copy_prefix_fails [fails_intros]: "fails_with {OutOfBounds} (copy_prefix sb input i n out)"
  by (induction sb input i n out rule: copy_prefix.induct)
     (simp_all only: copy_prefix.simps, (intro fails_intros; simp)+)

lemma copy_rest_fails [fails_intros]: "fails_with {OutOfBounds} (copy_rest sb input work i n out)"
  by (induction sb input work i n out rule: copy_rest.induct)
     (simp_all only: copy_rest.simps, (intro fails_intros; simp)+)

lemma load_buffers_fails [fails_intros]: "fails_with {OutOfBounds} (load_buffers buf input i n)"
  by (induction buf input i n rule: load_buffers.induct)
     (simp_all only: load_buffers.simps, (intro fails_intros; simp)+)

lemma decode_lost_fails [fails_intros]:
  "fails_with {OutOfBounds} (decode_lost L r buf input lost head out)"
  unfolding decode_lost_def Let_def by (intro fails_intros; simp)

lemma rse_decode_fails [fails_intros]: "fails_with {OutOfBounds} (rse_decode L r input out)"
  unfolding rse_decode_def Let_def by (intro fails_intros; simp)

lemma async_decode_error:
  assumes "async_decode E r input = Inl e"
  shows "fatal e"
proof -
  have "fails_with {OutOfBounds, AssertFail} (async_decode E r input)"
    unfolding async_decode_def
    by (intro fails_intros fails_with_mono [OF rse_decode_fails]) auto
  from fails_withD [OF this assms] show ?thesis by (auto simp: fatal_def)
qed

lemma start_decode_wf:
  assumes "core_wf c"
  shows "core_wf (start_decode E b c) \<and> extends c (start_decode E b c)"
    and "c_storage (start_decode E b c) = c_storage c"
proof -
  have "futures_wf (start_decode E b c)"
    using core_wfD(5) [OF assms]
    by (auto simp: start_decode_def futures_wf_def Let_def map_insert_apply async_decode_error
        split: prod.splits option.splits if_splits)
  moreover have "same_roots c (start_decode E b c)"
    by (simp add: start_decode_def same_roots_def Let_def split: prod.splits)
  ultimately show "core_wf (start_decode E b c) \<and> extends c (start_decode E b c)"
    using assms by (intro same_roots_wf)
  show "c_storage (start_decode E b c) = c_storage c"
    by (simp add: start_decode_def Let_def split: prod.splits)
qed

lemma lock_blk_wf:
  assumes wf: "core_wf c" and b: "b < next_ref (c_storage c)"
  shows "core_wf (lock_blk b c) \<and> extends c (lock_blk b c)"
    and "c_storage (lock_blk b c) = c_storage c"
    and "height_of (c_storage c) b \<le> height_of (c_storage c) (c_b_lock (lock_blk b c))"
proof -
  show st: "c_storage (lock_blk b c) = c_storage c" by (simp add: lock_blk_def)
  show "height_of (c_storage c) b \<le> height_of (c_storage c) (c_b_lock (lock_blk b c))"
    by (simp add: lock_blk_def height_of_def word_less_nat_alt)
  show "core_wf (lock_blk b c) \<and> extends c (lock_blk b c)"
  proof (cases "blk_height (blk c b) > blk_height (blk c (c_b_lock c))")
    case True
    then have h: "height_of (c_storage c) (c_b_lock c) < height_of (c_storage c) b"
      by (simp add: height_of_def word_less_nat_alt)
    then have "delivered (c_storage c) b"
      using higher_delivered(1) [OF core_wfD(1) [OF wf] b] by simp
    with wf h have "core_wf (c\<lparr>c_b_lock := b\<rparr>) \<and> extends c (c\<lparr>c_b_lock := b\<rparr>)"
      by (auto simp: core_wf_def roots_wf_def exec_wf_def votes_wf_def futures_wf_def extends_def
          hqc_height_def Let_def)
    then show ?thesis using True by (simp add: lock_blk_def)
  qed (use wf in \<open>simp add: lock_blk_def\<close>)
qed

lemma update_hqc_wf:
  assumes wf: "core_wf c" and b: "b < next_ref (c_storage c)"
    and q: "\<And>q. qc = Some q \<Longrightarrow> blk_hash (blk c b) = qc_obj_hash q"
    and up: "update_hqc b qc c = (r, c')" and "survives r"
  shows "core_wf c' \<and> extends c c' \<and> c_storage c' = c_storage c"
proof -
  obtain hb q0 where hqc: "c_hqc c = Some (hb, q0)"
    using core_wfD(2) [OF wf] by (auto simp: roots_wf_def)
  show ?thesis
  proof (cases "blk_height (blk c b) > blk_height (blk c hb)")
    case True
    then have h: "height_of (c_storage c) hb < height_of (c_storage c) b"
      by (simp add: height_of_def word_less_nat_alt)
    then have del: "delivered (c_storage c) b"
      using higher_delivered(1) [OF core_wfD(1) [OF wf] b] by simp
    from up True hqc assms(5) obtain q1 where q1: "qc = Some q1"
      and c': "c' = on_hqc_update (c\<lparr>c_hqc := Some (b, q1)\<rparr>)"
      by (cases qc) (auto simp: update_hqc_def fatal_def)
    have "core_wf (c\<lparr>c_hqc := Some (b, q1)\<rparr>) \<and> extends c (c\<lparr>c_hqc := Some (b, q1)\<rparr>)"
      using wf del h hqc q [OF q1]
      by (auto simp: core_wf_def roots_wf_def exec_wf_def votes_wf_def futures_wf_def extends_def
          hqc_height_def Let_def)
    moreover have "same_roots (c\<lparr>c_hqc := Some (b, q1)\<rparr>) c'"
      by (simp add: c' same_roots_def on_hqc_update_def emit_def)
    moreover have "futures_wf c' = futures_wf (c\<lparr>c_hqc := Some (b, q1)\<rparr>)"
      by (rule futures_wf_cong) (simp add: c' on_hqc_update_def emit_def)
    moreover have "c_storage c' = c_storage c"
      by (simp add: c' on_hqc_update_def emit_def)
    ultimately show ?thesis
      using same_roots_wf extends_trans core_wfD(5) by metis
  qed (use up hqc wf in \<open>simp add: update_hqc_def\<close>)
qed

section \<open>Committing\<close>

text \<open>What the commit loop does with the blocks \<open>bs\<close>.\<close>

definition commits :: "block_ref list \<Rightarrow> core \<Rightarrow> core \<Rightarrow> bool" where
  "commits bs c c' \<longleftrightarrow>
     same_shape (c_storage c) (c_storage c') \<and>
     (\<forall>x. blk_decision (blk c' x) = (if x \<in> set bs then 1 else blk_decision (blk c x)) \<and>
        blk_self_qc (blk c' x) = blk_self_qc (blk c x)) \<and>
     c_b0 c' = c_b0 c \<and> c_id c' = c_id c \<and> c_config c' = c_config c \<and> c_hqc c' = c_hqc c \<and>
     c_b_lock c' = c_b_lock c \<and> c_b_exec c' = c_b_exec c \<and> c_vheight c' = c_vheight c \<and>
     (\<exists>new. c_outs c' = c_outs c @ new \<and> consensus_of new = bs \<and> votes_of new = [])"

lemma commits_refl: "commits [] c c"
  by (simp add: commits_def)

lemma commits_trans:
  assumes "commits bs a b" and "commits bs' b c"
  shows "commits (bs @ bs') a c"
proof -
  obtain n1 n2 where "c_outs b = c_outs a @ n1" "consensus_of n1 = bs" "votes_of n1 = []"
    "c_outs c = c_outs b @ n2" "consensus_of n2 = bs'" "votes_of n2 = []"
    using assms unfolding commits_def by blast
  then have "c_outs c = c_outs a @ (n1 @ n2)" "consensus_of (n1 @ n2) = bs @ bs'"
    "votes_of (n1 @ n2) = []" by simp_all
  then have "\<exists>new. c_outs c = c_outs a @ new \<and> consensus_of new = bs @ bs' \<and> votes_of new = []"
    by blast
  moreover have "same_shape (c_storage a) (c_storage c)"
    using assms unfolding commits_def by (blast intro: same_shape_trans)
  ultimately show ?thesis using assms unfolding commits_def by simp
qed

lemma decide_fold:
  "\<exists>new. foldl (\<lambda>c i. emit (DoDecide (g c i)) c) c is = c\<lparr>c_outs := c_outs c @ new\<rparr> \<and>
     consensus_of new = [] \<and> votes_of new = []"
proof (induction "is" arbitrary: c)
  case Nil
  then show ?case by (intro exI [of _ "[]"]) simp
next
  case (Cons i js)
  obtain new where new: "foldl (\<lambda>c i. emit (DoDecide (g c i)) c) (emit (DoDecide (g c i)) c) js =
      (emit (DoDecide (g c i)) c)\<lparr>c_outs := c_outs (emit (DoDecide (g c i)) c) @ new\<rparr>"
    "consensus_of new = []" "votes_of new = []" using Cons.IH [of "emit (DoDecide (g c i)) c"] by blast
  then have "consensus_of (DoDecide (g c i) # new) = []" "votes_of (DoDecide (g c i) # new) = []"
    by (simp_all add: consensus_of_def votes_of_def)
  with new(1) show ?case
    by (intro exI [of _ "DoDecide (g c i) # new"]) (simp add: emit_def)
qed

lemma commit_blk_commits:
  assumes wf: "futures_wf c" and run: "commit_blk E b c = (r, c')" and "survives r"
  shows "r = Inr () \<and> commits [b] c c' \<and> futures_wf c'"
proof -
  let ?key = "e_get_hex E (blk_hash (blk c b))"
  define c1 where "c1 = emit (DoConsensus b) (set_blk b (\<lambda>x. x\<lparr>blk_decision := 1\<rparr>) c)"
  have c1: "commits [b] c c1"
    by (auto simp: commits_def c1_def emit_def set_blk_def upd_blk_def same_shape_def shape_def)
  have f1: "c_futures c1 = c_futures c" by (simp add: c1_def emit_def set_blk_def)
  show ?thesis
  proof (cases "c_futures c ?key")
    case None
    with run have "r = Inr ()" "c' = c1" by (simp_all add: commit_blk_def Let_def c1_def [symmetric] f1)
    with c1 wf f1 show ?thesis by (simp add: futures_wf_def)
  next
    case (Some fu)
    show ?thesis
    proof (cases fu)
      case (Inl e)
      with Some wf have "fatal e" by (auto simp: futures_wf_def)
      moreover have "r = Inl e"
        using run Some Inl by (simp add: commit_blk_def Let_def c1_def [symmetric] f1)
      ultimately show ?thesis using assms(3) by simp
    next
      case (Inr cmds)
      define c2 where "c2 = c1\<lparr>c_futures := (c_futures c1)(?key := None),
        c_sc := snd (sc_remove ?key (c_sc c1))\<rparr>"
      have "commits [] c1 c2" by (simp add: commits_def c2_def)
      moreover have "futures_wf c2" using wf f1 by (auto simp: futures_wf_def c2_def)
      moreover obtain new where "r = Inr ()" "c' = c2\<lparr>c_outs := c_outs c2 @ new\<rparr>"
        "consensus_of new = []" "votes_of new = []"
        using run Some Inr decide_fold [of "\<lambda>c i. \<lparr>f_rid = c_id c, f_decision = 1,
            f_cmd_idx = word_of_nat i, f_cmd_height = blk_height (blk c b), f_cmd_hash = cmds ! i,
            f_blk_hash = blk_hash (blk c b)\<rparr>" c2 "[0..<length cmds]"]
        by (auto simp: commit_blk_def Let_def c1_def [symmetric] f1 c2_def)
      moreover from this have "commits [] c2 c'" "futures_wf c' = futures_wf c2"
        by (simp_all add: commits_def futures_wf_def)
      ultimately show ?thesis using commits_trans [OF c1, of "[]" c2] commits_trans [of "[b]" c c2 "[]" c']
        by simp
    qed
  qed
qed

lemma commit_all_commits:
  assumes "futures_wf c" and "commit_all E bs c = (r, c')" and "survives r"
  shows "r = Inr () \<and> commits bs c c' \<and> futures_wf c'"
  using assms
proof (induction bs arbitrary: c)
  case Nil
  then show ?case by (auto simp: commits_refl)
next
  case (Cons b bs)
  from Cons.prems(2) have "bindS (commit_blk E b c) (\<lambda>_ c. commit_all E bs c) = (r, c')" by simp
  then show ?case
  proof (cases rule: bindS_snd_cases)
    case (err e)
    with commit_blk_commits [OF Cons.prems(1) err(1)] Cons.prems(3) show ?thesis by simp
  next
    case (ok x c1)
    from commit_blk_commits [OF Cons.prems(1) ok(1)] have c1: "commits [b] c c1" "futures_wf c1" by simp_all
    from Cons.IH [OF c1(2) ok(2) Cons.prems(3)] commits_trans [OF c1(1), of bs c'] show ?thesis by simp
  qed
qed

lemma commit_wf:
  assumes wf: "core_wf c" and b: "delivered (c_storage c) b"
    and low: "height_of (c_storage c) b \<le> height_of (c_storage c) (c_b_lock c)"
    and run: "commit E b c = (r, c')" and surv: "survives r"
  shows "core_wf c' \<and> extends c c'"
proof -
  let ?st = "c_storage c"
  obtain q d where walk: "walk (heap ?st) (blk_height (blk c (c_b_exec c))) b = Inr (q, d)"
    and q: "\<forall>x\<in>set q. delivered ?st x \<and> height_of ?st (c_b_exec c) < height_of ?st x \<and> x \<noteq> c_b0 c"
    and path: "successively (parent_link ?st) (d # rev q)" "last (d # rev q) = b"
    using walk_delivered [OF core_wfD(1) [OF wf] b, of "blk_height (blk c (c_b_exec c))"]
    unfolding height_of_def by blast
  show ?thesis
  proof (cases "d = c_b_exec c")
    case False
    with run walk have "c' = c" by (simp add: commit_def)
    with wf show ?thesis by simp
  next
    case True
    with run walk have bind: "bindS (commit_all E (rev q) c) (\<lambda>_ c. (Inr (), c\<lparr>c_b_exec := b\<rparr>)) = (r, c')"
      by (simp add: commit_def)
    then obtain c1 where all: "commit_all E (rev q) c = (Inr (), c1)" and c': "c' = c1\<lparr>c_b_exec := b\<rparr>"
    proof (cases rule: bindS_snd_cases)
      case (err e)
      with commit_all_commits [OF core_wfD(5) [OF wf] err(1)] surv show ?thesis by simp
    qed auto
    from commit_all_commits [OF core_wfD(5) [OF wf] all] have c1: "commits (rev q) c c1"
      and fut: "futures_wf c1" by simp_all
    then have sh: "same_shape ?st (c_storage c1)" by (simp add: commits_def)
    note views = same_shape_views [OF sh]
    obtain new where new: "c_outs c1 = c_outs c @ new" "consensus_of new = rev q" "votes_of new = []"
      using c1 unfolding commits_def by blast
    note fields = c1 [unfolded commits_def]
    have store: "store_wf (c_b0 c') (c_storage c')"
      using core_wfD(1) [OF wf] same_shape_store_wf [OF sh] fields by (simp add: c')
    have exec: "height_of ?st (c_b_exec c) \<le> height_of ?st b"
    proof (cases q)
      case Nil
      with path(2) True show ?thesis by simp
    next
      case (Cons x xs)
      then have "b \<in> set q" using path(2) by auto
      with q show ?thesis by (simp add: less_imp_le)
    qed
    have roots: "roots_wf c'"
      using core_wfD(2) [OF wf] fields b low
      by (simp add: roots_wf_def c' views same_shape_fields [OF sh])
    let ?bs = "consensus_of (c_outs c)"
    have ex: "successively (parent_link ?st) (c_b0 c # ?bs)" "last (c_b0 c # ?bs) = c_b_exec c"
      "\<forall>b\<in>set ?bs. delivered ?st b \<and> b \<noteq> c_b0 c"
      "\<forall>r<next_ref ?st. blk_decision (blk c r) \<noteq> 0 \<longleftrightarrow> r \<in> set (c_b0 c # ?bs)"
      using core_wfD(3) [OF wf] unfolding exec_wf_def Let_def by blast+
    have "successively (parent_link ?st) ((c_b0 c # ?bs) @ rev q)"
      using ex(1,2) path(1) True unfolding successively_append_iff by (cases "rev q") auto
    moreover have "last ((c_b0 c # ?bs) @ rev q) = b"
      using ex(2) path(2) True by (auto simp: last_append split: if_splits)
    ultimately have "exec_wf c'"
      using ex(3,4) q new fields by (auto simp: exec_wf_def c' views Let_def same_shape_fields [OF sh])
    moreover have "votes_wf c'"
      using core_wfD(4) [OF wf] new fields
      by (simp add: votes_wf_def c' views same_shape_fields [OF sh])
    moreover have "futures_wf c'" using fut by (simp add: futures_wf_def c')
    moreover have "self_qc_wf (c_storage c')"
      using core_wfD(6) [OF wf] fields by (simp add: self_qc_wf_def c' same_shape_fields [OF sh])
    moreover have "extends c c'"
      using fields new exec
      by (auto simp: extends_def c' views same_shape_fields [OF sh] hqc_height_def split: option.split)
    ultimately show ?thesis using store roots by (simp add: core_wf_def)
  qed
qed

text \<open>What a certificate in a block refers to.\<close>

lemma qc_refD:
  assumes wf: "store_wf b0 st" and b: "b < next_ref st" "blk_qc_ref (heap st b) = Some x"
  shows "x < next_ref st" and "b = b0 \<Longrightarrow> x = b0" and "delivered st b"
    and "b \<noteq> b0 \<Longrightarrow> \<exists>q. blk_qc (heap st b) = Some q \<and> blk_hash (heap st x) = qc_obj_hash q"
proof -
  have gen: "blk_qc_ref (heap st b0) = Some b0" "delivered st b0"
    using store_wfD(2) [OF wf] by (simp_all add: genesis_wf_def)
  show del: "delivered st b"
    using store_wfD(4) [OF wf b(1)] b(2) by (auto simp: fetched_wf_def)
  show "b = b0 \<Longrightarrow> x = b0" using gen b(2) by simp
  have other: "b \<noteq> b0 \<Longrightarrow> delivered_wf st b" using del by (rule store_wfD(3) [OF wf])
  then show "b \<noteq> b0 \<Longrightarrow> \<exists>q. blk_qc (heap st b) = Some q \<and> blk_hash (heap st x) = qc_obj_hash q"
    using b(2) by (auto simp: delivered_wf_def)
  show "x < next_ref st"
    using other b(2) gen delivered_next [OF gen(2)] by (cases "b = b0") (auto simp: delivered_wf_def)
qed

lemma undecided_not_genesis:
  assumes "core_wf c" and "blk_decision (blk c b) = 0"
  shows "b \<noteq> c_b0 c"
proof -
  have "c_b0 c < next_ref (c_storage c)"
    using store_wfD(2) [OF core_wfD(1) [OF assms(1)]] by (auto simp: genesis_wf_def delivered_def)
  then show ?thesis using core_wfD(3) [OF assms(1)] assms(2) by (auto simp: exec_wf_def Let_def)
qed

text \<open>The two-chain step of \<open>update\<close>, from the block \<open>blk1\<close> that gets locked on.\<close>

lemma update_lock_wf:
  assumes wf: "core_wf c" and blk1: "blk1 < next_ref (c_storage c)" "blk_decision (blk c blk1) = 0"
    and run: "(let c = lock_blk blk1 (start_decode E blk1 c) in
        case blk_qc_ref (blk c blk1) of
          None \<Rightarrow> (Inr (), c)
        | Some b \<Rightarrow>
            if blk_decision (blk c b) \<noteq> 0 then (Inr (), c)
            else case direct_parents blk2 blk1 b c of
                Inl e \<Rightarrow> (Inl e, c)
              | Inr False \<Rightarrow> (Inr (), c)
              | Inr True \<Rightarrow> commit E b c) = (r, c')"
    and surv: "survives r"
  shows "core_wf c' \<and> extends c c'"
proof -
  define c2 where "c2 = lock_blk blk1 (start_decode E blk1 c)"
  have sd: "core_wf (start_decode E blk1 c)" "extends c (start_decode E blk1 c)"
    "c_storage (start_decode E blk1 c) = c_storage c"
    using start_decode_wf [OF wf] by simp_all
  have lk: "core_wf c2" "extends (start_decode E blk1 c) c2" "c_storage c2 = c_storage c"
    "height_of (c_storage c2) blk1 \<le> height_of (c_storage c2) (c_b_lock c2)"
    using lock_blk_wf [OF sd(1), of blk1] blk1(1) sd(3) by (simp_all add: c2_def)
  have ext: "extends c c2" using sd(2) lk(2) by (rule extends_trans)
  have same: "c_b0 c2 = c_b0 c" using ext by (simp add: extends_def)
  show ?thesis
  proof (cases "\<exists>b. blk_qc_ref (blk c2 blk1) = Some b \<and> blk_decision (blk c2 b) = 0 \<and>
      direct_parents blk2 blk1 b c2 = Inr True")
    case False
    with run have "c' = c2"
      by (auto simp: c2_def [symmetric] Let_def split: option.splits if_splits sum.splits bool.splits)
    with lk(1) ext show ?thesis by simp
  next
    case True
    then obtain b where b: "blk_qc_ref (blk c2 blk1) = Some b" "blk_decision (blk c2 b) = 0"
      "direct_parents blk2 blk1 b c2 = Inr True" by blast
    with run have run': "commit E b c2 = (r, c')" by (simp add: c2_def [symmetric] Let_def)
    note W = core_wfD(1) [OF lk(1)]
    have "blk1 \<noteq> c_b0 c2" using undecided_not_genesis [OF lk(1)] blk1(2) lk(3) by simp
    moreover have "delivered (c_storage c2) blk1"
      using qc_refD(3) [OF W _ b(1)] blk1(1) lk(3) by simp
    ultimately obtain p where p: "parent_link (c_storage c2) p blk1" "delivered (c_storage c2) p"
      "height_of (c_storage c2) blk1 = Suc (height_of (c_storage c2) p)"
      using first_parent [OF W] by blast
    have "p = b" using b(3) p(1) by (simp add: direct_parents_def parent_link_def split: if_splits)
    with p lk(4) commit_wf [OF lk(1) _ _ run' surv] have "core_wf c' \<and> extends c2 c'" by simp
    with ext extends_trans show ?thesis by blast
  qed
qed

lemma update_wf:
  assumes wf: "core_wf c" and b: "nblk < next_ref (c_storage c)"
    and run: "update E nblk c = (r, c')" and surv: "survives r"
  shows "core_wf c' \<and> extends c c'"
proof (cases "\<exists>blk2. blk_qc_ref (blk c nblk) = Some blk2 \<and> blk_decision (blk c blk2) = 0")
  case False
  with run have "c' = c" by (auto simp: update_def split: option.splits)
  with wf show ?thesis by simp
next
  case True
  then obtain blk2 where blk2: "blk_qc_ref (blk c nblk) = Some blk2" "blk_decision (blk c blk2) = 0"
    by blast
  note W = core_wfD(1) [OF wf]
  have "blk2 \<noteq> c_b0 c" using wf blk2(2) by (rule undecided_not_genesis)
  then have q: "\<And>q. blk_qc (blk c nblk) = Some q \<Longrightarrow> blk_hash (blk c blk2) = qc_obj_hash q"
    and n2: "blk2 < next_ref (c_storage c)"
    using qc_refD(1,2,4) [OF W b blk2(1)] by auto
  from run blk2 have "bindS (update_hqc blk2 (blk_qc (blk c nblk)) c) (\<lambda>_ c.
      case blk_qc_ref (blk c blk2) of
        None \<Rightarrow> (Inr (), c)
      | Some blk1 \<Rightarrow>
          if blk_decision (blk c blk1) \<noteq> 0 then (Inr (), c)
          else let c = lock_blk blk1 (start_decode E blk1 c) in
            case blk_qc_ref (blk c blk1) of
              None \<Rightarrow> (Inr (), c)
            | Some b \<Rightarrow>
                if blk_decision (blk c b) \<noteq> 0 then (Inr (), c)
                else case direct_parents blk2 blk1 b c of
                    Inl e \<Rightarrow> (Inl e, c)
                  | Inr False \<Rightarrow> (Inr (), c)
                  | Inr True \<Rightarrow> commit E b c) = (r, c')" by (simp add: update_def)
  then show ?thesis
  proof (cases rule: bindS_snd_cases)
    case (err e)
    with update_hqc_wf [OF wf n2 q err(1)] surv show ?thesis by simp
  next
    case (ok x s)
    from update_hqc_wf [OF wf n2 q ok(1)] have s: "core_wf s" "extends c s" "c_storage s = c_storage c"
      by simp_all
    show ?thesis
    proof (cases "\<exists>blk1. blk_qc_ref (blk s blk2) = Some blk1 \<and> blk_decision (blk s blk1) = 0")
      case False
      with ok(2) have "c' = s" by (auto split: option.splits)
      with s show ?thesis by simp
    next
      case True
      then obtain blk1 where blk1: "blk_qc_ref (blk s blk2) = Some blk1" "blk_decision (blk s blk1) = 0"
        by blast
      have "blk1 < next_ref (c_storage s)" using qc_refD(1) [OF core_wfD(1) [OF s(1)] _ blk1(1)] n2 s(3) by simp
      from update_lock_wf [OF s(1) this blk1(2) _ surv, of E blk2 c'] ok(2) blk1 s(2) show ?thesis
        by (auto intro: extends_trans)
    qed
  qed
qed

section \<open>Receiving slices, proposals and votes\<close>

lemma on_receive_slice_wf:
  assumes "core_wf c" and "on_receive_slice E x c = (r, c')"
  shows "core_wf c' \<and> extends c c' \<and> c_storage c' = c_storage c \<and> c_b0 c' = c_b0 c"
proof -
  have "same_roots c c'" "c_futures c' = c_futures c" "c_storage c' = c_storage c"
    using assms(2) by (auto simp: on_receive_slice_def same_roots_def Let_def split: if_splits prod.splits)
  with assms(1) same_roots_wf [of c c'] core_wfD(5) [OF assms(1)] futures_wf_cong [of c' c] show ?thesis
    by (simp add: same_roots_def)
qed

section \<open>Branches of the tree\<close>

text \<open>\<open>b\<close> is \<open>a\<close> or a descendant of \<open>a\<close>, along first parents.\<close>

definition on_branch :: "entity_storage \<Rightarrow> block_ref \<Rightarrow> block_ref \<Rightarrow> bool" where
  "on_branch st a b \<longleftrightarrow> (parent_link st)\<^sup>*\<^sup>* a b"

lemma on_branch_refl [simp]: "on_branch st a a"
  by (simp add: on_branch_def)

lemma on_branch_trans: "on_branch st a b \<Longrightarrow> on_branch st b c \<Longrightarrow> on_branch st a c"
  unfolding on_branch_def by (rule rtranclp_trans)

lemma on_branch_path:
  "successively (parent_link st) (d # qs) \<Longrightarrow> on_branch st d (last (d # qs))"
proof (induction qs arbitrary: d)
  case (Cons q qs)
  then have "parent_link st d q" "on_branch st q (last (q # qs))" by simp_all
  then show ?case
    unfolding on_branch_def by (simp add: converse_rtranclp_into_rtranclp)
qed simp

lemma parent_link_delivered:
  assumes wf: "store_wf b0 st" and "parent_link st p b" "delivered st b"
  shows "delivered st p" and "height_of st b = Suc (height_of st p)"
proof -
  have "b \<noteq> b0"
    using assms(2) store_wfD(2) [OF wf] by (auto simp: parent_link_def genesis_wf_def)
  then obtain p' where "parent_link st p' b" "delivered st p'" "height_of st b = Suc (height_of st p')"
    using first_parent [OF wf assms(3)] by blast
  with assms(2) show "delivered st p" "height_of st b = Suc (height_of st p)"
    by (simp_all add: parent_link_def)
qed

lemma on_branch_height:
  assumes wf: "store_wf b0 st" and "on_branch st a b" and "delivered st b"
  shows "delivered st a \<and> height_of st a \<le> height_of st b"
  using assms(2,3) unfolding on_branch_def
proof (induction rule: rtranclp_induct)
  case (step p b)
  from parent_link_delivered [OF wf step.hyps(2) step.prems] step.IH show ?case by simp
qed simp

text \<open>On a branch the height tells the block.\<close>

lemma on_branch_unique:
  assumes wf: "store_wf b0 st" and "on_branch st a b" and "on_branch st d b" and "delivered st b"
    and "height_of st d = height_of st a"
  shows "d = a"
  using assms(2-4) unfolding on_branch_def
proof (induction rule: rtranclp_induct)
  case base
  from base.prems(1) show ?case
  proof (cases rule: rtranclp.cases)
    case (rtrancl_into_rtrancl p)
    note link = parent_link_delivered [OF wf rtrancl_into_rtrancl(2) base.prems(2)]
    have "on_branch st d p" using rtrancl_into_rtrancl(1) by (simp add: on_branch_def)
    from on_branch_height [OF wf this link(1)] link(2) assms(5) show ?thesis by simp
  qed simp
next
  case (step p b)
  note link = parent_link_delivered [OF wf step.hyps(2) step.prems(2)]
  have "on_branch st a p" using step.hyps(1) by (simp add: on_branch_def)
  from on_branch_height [OF wf this link(1)] have le: "height_of st a \<le> height_of st p" by simp
  from step.prems(1) show ?case
  proof (cases rule: rtranclp.cases)
    case rtrancl_refl
    with le link(2) assms(5) show ?thesis by simp
  next
    case (rtrancl_into_rtrancl p')
    then have "p' = p" using step.hyps(2) by (simp add: parent_link_def)
    with rtrancl_into_rtrancl(1) step.IH link(1) show ?thesis by simp
  qed
qed

text \<open>The walk down to the height of \<open>a\<close> ends at \<open>a\<close> exactly if \<open>a\<close> is on the branch.\<close>

lemma walk_reaches:
  assumes wf: "store_wf b0 st" and b: "delivered st b" and a: "height_of st a = unat h"
    and low: "unat h \<le> height_of st b"
  shows "\<exists>q d. walk (heap st) h b = Inr (q, d) \<and> (d = a \<longleftrightarrow> on_branch st a b)"
proof -
  obtain q d where w: "walk (heap st) h b = Inr (q, d)" "delivered st d" "height_of st d \<le> unat h"
    "\<forall>x\<in>set q. delivered st x \<and> unat h < height_of st x \<and> x \<noteq> b0"
    "successively (parent_link st) (d # rev q)" "last (d # rev q) = b"
    using walk_delivered [OF wf b, of h] by blast
  have br: "on_branch st d b" using on_branch_path [OF w(5)] unfolding w(6) .
  have hd: "height_of st d = unat h"
  proof (cases "rev q")
    case Nil
    with w(3,6) low show ?thesis by simp
  next
    case (Cons x xs)
    then have "x \<in> set q" by (metis list.set_intros(1) set_rev)
    moreover have "parent_link st d x" using w(5) unfolding Cons by simp
    ultimately show ?thesis using parent_link_delivered(2) [OF wf, of d x] w(3,4) by fastforce
  qed
  have "d = a" if "on_branch st a b"
    using on_branch_unique [OF wf that br b] hd a by simp
  with w(1) br show ?thesis by blast
qed

section \<open>Receiving proposals and votes\<close>

text \<open>The rule for voting, in terms of the tree.\<close>

definition vote_rule :: "core \<Rightarrow> block_ref \<Rightarrow> bool" where
  "vote_rule c b \<longleftrightarrow>
     unat (c_vheight c) < height_of (c_storage c) b \<and>
     ((\<exists>r. blk_qc_ref (blk c b) = Some r \<and>
         height_of (c_storage c) (c_b_lock c) < height_of (c_storage c) r) \<or>
      on_branch (c_storage c) (c_b_lock c) b)"

lemma opinion_on_rule:
  assumes wf: "core_wf c" and b: "b < next_ref (c_storage c)"
  shows "opinion_on b c = Inr (vote_rule c b)"
proof (cases "blk_height (blk c b) > c_vheight c")
  case False
  then show ?thesis
    by (simp add: opinion_on_def vote_rule_def height_of_def word_less_nat_alt Let_def)
next
  case True
  note W = core_wfD(1) [OF wf]
  have high: "unat (c_vheight c) < height_of (c_storage c) b"
    using True by (simp add: height_of_def word_less_nat_alt)
  then have del: "delivered (c_storage c) b" using higher_delivered(1) [OF W b] by simp
  let ?h = "blk_height (blk c (c_b_lock c))"
  have lock: "height_of (c_storage c) (c_b_lock c) = unat ?h" by (simp add: height_of_def)
  show ?thesis
  proof (cases "unat ?h \<le> height_of (c_storage c) b")
    case True
    from walk_reaches [OF W del lock this] obtain q d where
      "walk (heap (c_storage c)) ?h b = Inr (q, d)" "d = c_b_lock c \<longleftrightarrow> on_branch (c_storage c) (c_b_lock c) b"
      by blast
    with high \<open>blk_height (blk c b) > c_vheight c\<close> lock show ?thesis
      by (auto simp: opinion_on_def vote_rule_def Let_def height_of_def word_less_nat_alt
          split: option.split)
  next
    case False
    then have "walk (heap (c_storage c)) ?h b = Inr ([], b)"
      by (intro walk_simps(1)) (simp add: height_of_def word_less_nat_alt)
    moreover have "b \<noteq> c_b_lock c" using False lock by auto
    moreover have "\<not> on_branch (c_storage c) (c_b_lock c) b"
    proof
      assume "on_branch (c_storage c) (c_b_lock c) b"
      from on_branch_height [OF W this del] False lock show False by simp
    qed
    ultimately show ?thesis using high \<open>blk_height (blk c b) > c_vheight c\<close> lock
      by (auto simp: opinion_on_def vote_rule_def Let_def height_of_def word_less_nat_alt
          split: option.split)
  qed
qed

lemma vheight_same: "c_vheight (c :: core) = h \<Longrightarrow> c\<lparr>c_vheight := h\<rparr> = c"
  by (cases c) simp

text \<open>Raising \<open>vheight\<close>, and voting at that height.\<close>

lemma vheight_wf:
  assumes wf: "core_wf c" and h: "unat (c_vheight c) \<le> unat h"
  shows "core_wf (c\<lparr>c_vheight := h\<rparr>) \<and> extends c (c\<lparr>c_vheight := h\<rparr>)"
proof -
  have "votes_wf (c\<lparr>c_vheight := h\<rparr>)"
    using core_wfD(4) [OF wf] h unfolding votes_wf_def by (fastforce intro: order_trans)
  then show ?thesis
    using wf h by (simp add: core_wf_def roots_wf_def exec_wf_def futures_wf_def extends_def
        hqc_height_def split: option.split)
qed

lemma vote_wf:
  fixes p :: replica_id
  assumes wf: "core_wf c" and high: "unat (c_vheight c) < height_of (c_storage c) b"
    and b: "b < next_ref (c_storage c)" and v: "v_blk_hash v = blk_hash (blk c b)"
  defines "c' \<equiv> emit (DoVote p v) (c\<lparr>c_vheight := blk_height (blk c b)\<rparr>)"
  shows "core_wf c' \<and> extends c c'"
proof -
  have del: "delivered (c_storage c) b" using higher_delivered(1) [OF core_wfD(1) [OF wf] b] high by simp
  obtain bs where bs: "map (\<lambda>b. blk_hash (blk c b)) bs = map v_blk_hash (votes_of (c_outs c))"
    "sorted_wrt (<) (map (height_of (c_storage c)) bs)"
    "\<forall>b\<in>set bs. delivered (c_storage c) b \<and> height_of (c_storage c) b \<le> unat (c_vheight c)"
    using core_wfD(4) [OF wf] by (auto simp: votes_wf_def)
  have "votes_wf c'"
    unfolding votes_wf_def
  proof (intro exI [of _ "bs @ [b]"] conjI)
    show "map (\<lambda>b. blk_hash (blk c' b)) (bs @ [b]) = map v_blk_hash (votes_of (c_outs c'))"
      using bs(1) v by (simp add: c'_def emit_def)
    show "sorted_wrt (<) (map (height_of (c_storage c')) (bs @ [b]))"
      using bs(2,3) high by (auto simp: c'_def emit_def sorted_wrt_append)
    show "\<forall>x\<in>set (bs @ [b]). delivered (c_storage c') x \<and> height_of (c_storage c') x \<le> unat (c_vheight c')"
      using bs(3) high del by (force simp: c'_def emit_def height_of_def)
  qed
  then show ?thesis
    using wf high
    by (simp add: core_wf_def roots_wf_def exec_wf_def futures_wf_def extends_def hqc_height_def
        c'_def emit_def height_of_def split: option.split)
qed

text \<open>Voting is the last thing that happens to a proposal.\<close>

lemma finish_proposal_wf:
  assumes wf: "core_wf c" and b: "bnew < next_ref (c_storage c)"
    and run: "finish_proposal E prop bnew c = (r, c')"
  shows "core_wf c' \<and> extends c c'"
proof -
  define qf where "qf c = (case blk_qc_ref (blk c bnew) of None \<Rightarrow> c
    | Some r \<Rightarrow> if p_proposer prop = c_id c then c else on_qc_finish r c)" for c
  define fin where "fin c = on_receive_proposal_fin prop (qf c)" for c
  have fin: "same_roots c (fin c)" "c_futures (fin c) = c_futures c" for c
  proof -
    have "same_roots c (qf c)" "c_futures (qf c) = c_futures c"
      by (auto simp: qf_def split: option.split)
    then show "same_roots c (fin c)" "c_futures (fin c) = c_futures c"
      unfolding fin_def by (auto intro: same_roots_trans)
  qed
  have keep: "core_wf (fin c) \<and> extends c (fin c)" if "core_wf c" for c
    using same_roots_wf [OF fin(1) that] futures_wf_cong [OF fin(2)] core_wfD(5) [OF that] by simp
  show ?thesis
  proof (cases "vote_rule c bnew")
    case False
    with run opinion_on_rule [OF wf b] have "c' = fin c"
      by (simp add: finish_proposal_def Let_def fin_def qf_def)
    with keep [OF wf] show ?thesis by simp
  next
    case True
    let ?c1 = "c\<lparr>c_vheight := blk_height (blk c bnew)\<rparr>"
    have high: "unat (c_vheight c) < height_of (c_storage c) bnew"
      using True by (simp add: vote_rule_def)
    then have c1: "core_wf ?c1 \<and> extends c ?c1"
      by (intro vheight_wf [OF wf]) (simp add: height_of_def)
    with keep [of ?c1] have c2: "core_wf (fin ?c1) \<and> extends c (fin ?c1)" by (auto intro: extends_trans)
    have st: "c_storage (fin ?c1) = c_storage c" "c_vheight (fin ?c1) = blk_height (blk c bnew)"
      using fin(1) [of ?c1] by (simp_all add: same_roots_def)
    from run opinion_on_rule [OF wf b] True consider "c' = fin ?c1"
      | v where "c' = emit (DoVote (p_proposer prop) v) (fin ?c1)"
        "v_blk_hash v = blk_hash (blk c bnew)"
      by (auto simp: finish_proposal_def Let_def fin_def [symmetric] qf_def [symmetric] st
          split: if_splits sum.splits)
    then show ?thesis
    proof cases
      case 2
      define c0 where "c0 = (fin ?c1)\<lparr>c_vheight := c_vheight c\<rparr>"
      have "same_roots c c0"
        using fin(1) [of ?c1] by (simp add: same_roots_def c0_def)
      moreover have "futures_wf c0 = futures_wf c"
        by (rule futures_wf_cong) (simp add: c0_def fin(2))
      ultimately have c0: "core_wf c0 \<and> extends c c0"
        using same_roots_wf wf core_wfD(5) [OF wf] by blast
      have "c0\<lparr>c_vheight := blk_height (blk c0 bnew)\<rparr> =
          (fin ?c1)\<lparr>c_vheight := blk_height (blk c bnew)\<rparr>" by (simp add: c0_def st)
      also have "\<dots> = fin ?c1" by (rule vheight_same [OF st(2)])
      finally have "c' = emit (DoVote (p_proposer prop) v) (c0\<lparr>c_vheight := blk_height (blk c0 bnew)\<rparr>)"
        using 2(1) by (simp only:)
      moreover have "core_wf (emit (DoVote (p_proposer prop) v) (c0\<lparr>c_vheight := blk_height (blk c0 bnew)\<rparr>)) \<and>
          extends c0 (emit (DoVote (p_proposer prop) v) (c0\<lparr>c_vheight := blk_height (blk c0 bnew)\<rparr>))"
        using c0 high b 2(2) st by (intro vote_wf) (simp_all add: c0_def)
      ultimately show ?thesis using c0 extends_trans by blast
    qed (use c2 in simp)
  qed
qed

lemma on_receive_proposal_wf:
  assumes wf: "core_wf c" and b: "\<And>b. p_blk prop = Some b \<Longrightarrow> b < next_ref (c_storage c)"
    and run: "on_receive_proposal E prop c = (r, c')" and surv: "survives r"
  shows "core_wf c' \<and> extends c c'"
proof (cases "\<exists>h. slice_get_hash E (p_slice prop) = Inr h \<and> p_s_hash prop = h \<and>
    validate (e_sha_hex E) (p_slice prop)")
  case False
  with run have "c' = c"
    by (auto simp: on_receive_proposal_def split: sum.splits if_splits)
  with wf show ?thesis by simp
next
  case True
  let ?body = "\<lambda>_ :: unit. \<lambda>c. let c = emit (DoBroadcastSlice (p_slice prop)) c in
            case p_blk prop of
              None \<Rightarrow> (Inl NullDeref, c)
            | Some bnew \<Rightarrow>
                bindS (if p_proposer prop = c_id c then (Inr (), c)
                       else case sanity_check_delivered bnew c of
                           Inl e \<Rightarrow> (Inl e, c)
                         | Inr _ \<Rightarrow> update E bnew c)
                  (\<lambda>_ c. finish_proposal E prop bnew c)"
  from True run have "bindS (on_receive_slice E (p_slice prop) c) ?body = (r, c')"
    by (auto simp: on_receive_proposal_def)
  then show ?thesis
  proof (cases rule: bindS_snd_cases)
    case (err e)
    with on_receive_slice_wf [OF wf err(1)] show ?thesis by simp
  next
    case (ok x c1)
    from on_receive_slice_wf [OF wf ok(1)] have c1: "core_wf c1" "extends c c1" "c_storage c1 = c_storage c"
      by simp_all
    define c2 where "c2 = emit (DoBroadcastSlice (p_slice prop)) c1"
    have "same_roots c1 c2" by (simp add: c2_def emit_same_roots)
    moreover have "c_futures c2 = c_futures c1" by (simp add: c2_def)
    ultimately have c2: "core_wf c2" "extends c c2" "c_storage c2 = c_storage c"
      using same_roots_wf [of c1 c2] c1 core_wfD(5) [OF c1(1)] futures_wf_cong [of c2 c1] extends_trans
      by (auto simp: same_roots_def)
    show ?thesis
    proof (cases "p_blk prop")
      case None
      with ok(2) c2 show ?thesis by (auto simp: c2_def [symmetric] Let_def)
    next
      case (Some bnew)
      from b [OF Some] have lt: "bnew < next_ref (c_storage c2)" by (simp add: c2(3))
      from ok(2) Some have "bindS (if p_proposer prop = c_id c2 then (Inr (), c2)
                       else case sanity_check_delivered bnew c2 of
                           Inl e \<Rightarrow> (Inl e, c2)
                         | Inr _ \<Rightarrow> update E bnew c2)
                  (\<lambda>_ c. finish_proposal E prop bnew c) = (r, c')"
        by (simp add: c2_def [symmetric] Let_def)
      then have "core_wf c' \<and> extends c2 c'"
      proof (rule bindS_survives [OF _ surv])
        fix y s
        assume "(if p_proposer prop = c_id c2 then (Inr (), c2)
                       else case sanity_check_delivered bnew c2 of
                           Inl e \<Rightarrow> (Inl e, c2)
                         | Inr _ \<Rightarrow> update E bnew c2) = (y, s)" and "survives y"
        then show "core_wf s \<and> extends c2 s"
          using update_wf [OF c2(1) lt] c2(1) by (auto split: if_splits sum.splits)
      next
        fix y s
        assume s: "core_wf s \<and> extends c2 s" and fin: "finish_proposal E prop bnew s = (r, c')"
        have "bnew < next_ref (c_storage s)" using s lt by (auto simp: extends_def)
        from finish_proposal_wf [OF _ this fin] s show "core_wf c' \<and> extends c2 c'"
          using extends_trans by blast
      qed
      with c2(2) show ?thesis using extends_trans by blast
    qed
  qed
qed

text \<open>Recording a vote and its part of the certificate.\<close>

lemma set_blk_wf:
  assumes wf: "core_wf c"
    and f: "\<And>x. shape (f x) = shape x \<and> blk_decision (f x) = blk_decision x"
    and qc: "\<And>q. b < next_ref (c_storage c) \<Longrightarrow> blk_self_qc (f (blk c b)) = Some q \<Longrightarrow>
      qc_obj_hash q = blk_hash (blk c b)"
  shows "core_wf (set_blk b f c) \<and> extends c (set_blk b f c)"
proof -
  let ?c' = "set_blk b f c"
  have sh: "same_shape (c_storage c) (c_storage ?c')"
    using f by (simp add: set_blk_def same_shape_upd_blk)
  note views = same_shape_views [OF sh] same_shape_fields [OF sh]
  have dec: "blk_decision (blk ?c' r) = blk_decision (blk c r)" for r
    using f by (simp add: set_blk_def upd_blk_def)
  have fields: "c_b0 ?c' = c_b0 c" "c_id ?c' = c_id c" "c_config ?c' = c_config c"
    "c_hqc ?c' = c_hqc c" "c_b_lock ?c' = c_b_lock c" "c_b_exec ?c' = c_b_exec c"
    "c_vheight ?c' = c_vheight c" "c_outs ?c' = c_outs c" "c_futures ?c' = c_futures c"
    by (simp_all add: set_blk_def)
  have self: "self_qc_wf (c_storage ?c')"
    unfolding self_qc_wf_def
  proof (intro allI impI)
    fix r q assume r: "r < next_ref (c_storage ?c')" "blk_self_qc (blk ?c' r) = Some q"
    have rn: "r < next_ref (c_storage c)" using r(1) by (simp add: views)
    have "qc_obj_hash q = blk_hash (blk c r)"
    proof (cases "r = b")
      case True
      then have "blk_self_qc (f (blk c b)) = Some q" using r(2) by (simp add: set_blk_def upd_blk_def)
      from qc [OF _ this] rn True show ?thesis by simp
    next
      case False
      then have "blk_self_qc (blk c r) = Some q" using r(2) by (simp add: set_blk_def upd_blk_def)
      with rn core_wfD(6) [OF wf] show ?thesis by (simp add: self_qc_wf_def)
    qed
    then show "qc_obj_hash q = blk_hash (blk ?c' r)" by (simp only: views)
  qed
  have "roots_wf ?c'" "exec_wf ?c'" "votes_wf ?c'" "futures_wf ?c'" "store_wf (c_b0 ?c') (c_storage ?c')"
    using core_wfD(1-5) [OF wf] same_shape_store_wf [OF sh]
    by (simp_all only: roots_wf_def exec_wf_def votes_wf_def futures_wf_def fields views dec)
  moreover have "extends c ?c'"
    by (simp add: extends_def fields views hqc_height_def split: option.split)
  ultimately show ?thesis using self by (simp add: core_wf_def)
qed

lemma collect_vote_wf:
  assumes wf: "core_wf c" and b: "b < next_ref (c_storage c)"
    and run: "collect_vote E b voter cert n c = (r, c')" and surv: "survives r"
  shows "core_wf c' \<and> extends c c'"
proof -
  define qc where "qc = (case blk_self_qc (blk c b) of
      None \<Rightarrow> create_quorum_cert (e_kind E) (c_config c) (blk_hash (blk c b)) | Some q \<Rightarrow> q)"
  have hash: "qc_obj_hash qc = blk_hash (blk c b)"
    using core_wfD(6) [OF wf] b by (auto simp: qc_def self_qc_wf_def split: option.split)
  define put where "put q = set_blk b (\<lambda>x. x\<lparr>blk_self_qc := Some q\<rparr>) c" for q
  have put: "core_wf (put q) \<and> extends c (put q)" if "qc_obj_hash q = blk_hash (blk c b)" for q
    unfolding put_def by (rule set_blk_wf [OF wf]) (use that in \<open>auto simp: shape_def\<close>)
  show ?thesis
  proof (cases "qc_add_part qc voter cert")
    case (Inl e)
    with run have "c' = put qc" by (simp add: collect_vote_def qc_def [symmetric] Let_def put_def)
    with put [OF hash] show ?thesis by simp
  next
    case (Inr qc1)
    have h1: "qc_obj_hash qc1 = blk_hash (blk c b)" using qc_obj_hash_add_part [OF Inr] hash by simp
    show ?thesis
    proof (cases "n + 1 = nmajority (c_config c)")
      case False
      with run Inr have "c' = put qc1" by (simp add: collect_vote_def qc_def [symmetric] Let_def put_def)
      with put [OF h1] show ?thesis by simp
    next
      case True
      let ?q = "qc_compute qc1"
      have h2: "qc_obj_hash ?q = blk_hash (blk c b)" using h1 by simp
      from run Inr True have "bindS (update_hqc b (Some ?q) (put ?q)) (\<lambda>_ c. (Inr (), on_qc_finish b c)) = (r, c')"
        by (simp add: collect_vote_def qc_def [symmetric] Let_def put_def)
      then show ?thesis
      proof (rule bindS_survives [OF _ surv])
        fix y s assume up: "update_hqc b (Some ?q) (put ?q) = (y, s)" and sv: "survives y"
        have bp: "b < next_ref (c_storage (put ?q))" using put [OF h2] b by (auto simp: extends_def)
        have "blk_hash (blk (put ?q) b) = qc_obj_hash ?q"
          unfolding h2 by (simp add: put_def set_blk_def upd_blk_def)
        then have "core_wf s \<and> extends (put ?q) s \<and> c_storage s = c_storage (put ?q)"
          using put [OF h2] by (intro update_hqc_wf [OF _ bp _ up sv]) auto
        with put [OF h2] extends_trans [of c "put ?q" s] show "core_wf s \<and> extends c s" by simp
      next
        fix y s assume s: "core_wf s \<and> extends c s" and "(Inr (), on_qc_finish b s) = (r, c')"
        then have c': "c' = on_qc_finish b s" by simp
        have "futures_wf c'"
          using core_wfD(5) [of s] s by (simp add: c' futures_wf_def)
        moreover have "same_roots s c'" by (simp add: c')
        ultimately have "core_wf c' \<and> extends s c'" using s by (intro same_roots_wf) simp_all
        with s extends_trans [of c s c'] show "core_wf c' \<and> extends c c'" by simp
      qed
    qed
  qed
qed

lemma on_receive_vote_wf:
  assumes wf: "core_wf c" and run: "on_receive_vote E v c = (r, c')" and surv: "survives r"
  shows "core_wf c' \<and> extends c c'"
proof (cases "\<exists>b cert. get_delivered_blk (v_blk_hash v) c = Inr b \<and> v_cert v = Some cert \<and>
    \<not> nmajority (c_config c) \<le> card (blk_voted (blk c b)) \<and> v_voter v \<notin> blk_voted (blk c b)")
  case False
  with run have "c' = c"
    by (auto simp: on_receive_vote_def Let_def split: sum.splits option.splits if_splits)
  with wf show ?thesis by simp
next
  case True
  then obtain b cert where b: "get_delivered_blk (v_blk_hash v) c = Inr b" "v_cert v = Some cert"
    and vote: "\<not> nmajority (c_config c) \<le> card (blk_voted (blk c b))" "v_voter v \<notin> blk_voted (blk c b)"
    by blast
  have bn: "b < next_ref (c_storage c)"
    using b(1) find_blkD(1) [OF core_wfD(1) [OF wf]]
    by (auto simp: get_delivered_blk_def split: option.splits if_splits)
  define c1 where "c1 = set_blk b (\<lambda>x. x\<lparr>blk_voted := insert (v_voter v) (blk_voted x)\<rparr>) c"
  have c1: "core_wf c1 \<and> extends c c1"
    unfolding c1_def
    by (rule set_blk_wf [OF wf]) (use core_wfD(6) [OF wf] in \<open>auto simp: shape_def self_qc_wf_def\<close>)
  have "collect_vote E b (v_voter v) cert (card (blk_voted (blk c b))) c1 = (r, c')"
    using run b vote by (simp add: on_receive_vote_def Let_def c1_def)
  moreover have "b < next_ref (c_storage c1)" using c1 bn by (auto simp: extends_def)
  ultimately have "core_wf c' \<and> extends c1 c'" using c1 surv by (intro collect_vote_wf) simp_all
  with c1 extends_trans [of c c1 c'] show ?thesis by simp
qed

end
