(* ===== verification/CoreSteps.thy ===== *)
theory CoreSteps
  imports CoreInvariant
begin

text \<open>
  The remaining methods of the protocol state machine keep its invariant: delivering a block,
  proposing one, storing blocks that arrive and starting up. Then the executions of a replica
  as sequences of method calls, and what holds of all of them.
\<close>

section \<open>Delivering and proposing\<close>

text \<open>The documented precondition of \<open>on_deliver_blk\<close>.\<close>

definition deliver_pre :: "block_ref \<Rightarrow> core \<Rightarrow> bool" where
  "deliver_pre b c \<longleftrightarrow>
     b < next_ref (c_storage c) \<and> \<not> blk_delivered (blk c b) \<and> blk_parent_hashes (blk c b) \<noteq> [] \<and>
     (\<forall>h\<in>set (blk_parent_hashes (blk c b)). is_blk_delivered (c_storage c) h) \<and>
     (\<exists>q. blk_qc (blk c b) = Some q \<and> is_blk_fetched (c_storage c) (qc_obj_hash q))"

text \<open>The state after a delivery.\<close>

definition deliver_state :: "block_ref \<Rightarrow> core \<Rightarrow> core" where
  "deliver_state b c =
     (let ps = map (\<lambda>h. the (find_blk (c_storage c) h)) (blk_parent_hashes (blk c b)) in
      set_blk b (\<lambda>x. x\<lparr>blk_parents := ps, blk_height := blk_height (blk c (ps ! 0)) + 1,
          blk_qc_ref := find_blk (c_storage c) (qc_obj_hash (the (blk_qc x))), blk_delivered := True\<rparr>)
        (c\<lparr>c_tails := insert b (c_tails c - set ps)\<rparr>))"

lemma set_blk_simps [simp]:
  "next_ref (c_storage (set_blk b f c)) = next_ref (c_storage c)"
  "blk_cache (c_storage (set_blk b f c)) = blk_cache (c_storage c)"
  "find_blk (c_storage (set_blk b f c)) = find_blk (c_storage c)"
  "blk (set_blk b f c) r = (if r = b then f (blk c b) else blk c r)"
  "set_blk b g (set_blk b f c) = set_blk b (\<lambda>x. g (f x)) c"
  by (simp_all add: set_blk_def upd_blk_def find_blk_def fun_eq_iff)

lemma push_parents_delivered:
  assumes "\<forall>h\<in>set hs. \<exists>p. find_blk (c_storage c) h = Some p \<and> blk_delivered (blk c p)"
    and "\<not> blk_delivered (blk c b)"
  shows "push_parents b hs c =
    (Inr (), set_blk b (\<lambda>x. x\<lparr>blk_parents := blk_parents x @ map (\<lambda>h. the (find_blk (c_storage c) h)) hs\<rparr>) c)"
  using assms
proof (induction hs arbitrary: c)
  case Nil
  have "set_blk b (\<lambda>x. x\<lparr>blk_parents := blk_parents x @ []\<rparr>) c = c"
    by (simp add: set_blk_def upd_blk_def)
  then show ?case by simp
next
  case (Cons h hs)
  then obtain p where p: "find_blk (c_storage c) h = Some p" "blk_delivered (blk c p)" by auto
  let ?c1 = "set_blk b (\<lambda>x. x\<lparr>blk_parents := blk_parents x @ [p]\<rparr>) c"
  have "push_parents b (h # hs) c = push_parents b hs ?c1"
    using p by (simp add: get_delivered_blk_def)
  also have "\<dots> = (Inr (), set_blk b (\<lambda>x. x\<lparr>blk_parents := blk_parents x @
      map (\<lambda>h. the (find_blk (c_storage ?c1) h)) hs\<rparr>) ?c1)"
  proof (rule Cons.IH)
    show "\<forall>h\<in>set hs. \<exists>p. find_blk (c_storage ?c1) h = Some p \<and> blk_delivered (blk ?c1 p)"
    proof
      fix h' assume "h' \<in> set hs"
      then obtain p' where "find_blk (c_storage c) h' = Some p'" "blk_delivered (blk c p')"
        using Cons.prems(1) by auto
      then show "\<exists>p. find_blk (c_storage ?c1) h' = Some p \<and> blk_delivered (blk ?c1 p)" by auto
    qed
  qed (use Cons.prems(2) in simp)
  finally show ?case using p(1) by simp
qed

lemma set_blk_tails [simp]:
  "(set_blk b f c)\<lparr>c_tails := t\<rparr> = set_blk b f (c\<lparr>c_tails := t\<rparr>)"
  "c_tails (set_blk b f c) = c_tails c"
  by (simp_all add: set_blk_def)

lemma set_blk_eq: "f (blk c b) = g (blk c b) \<Longrightarrow> set_blk b f c = set_blk b g c"
  by (simp add: set_blk_def upd_blk_def)

lemma on_deliver_blk_eq:
  assumes b: "\<not> blk_delivered (blk c b)" "blk_parent_hashes (blk c b) \<noteq> []"
    and ps: "\<forall>h\<in>set (blk_parent_hashes (blk c b)).
      \<exists>p. find_blk (c_storage c) h = Some p \<and> blk_delivered (blk c p)"
    and qc: "blk_qc (blk c b) = Some q" "find_blk (c_storage c) (qc_obj_hash q) = Some x"
  shows "on_deliver_blk b c = (Inr True, deliver_state b c)"
proof -
  let ?hs = "blk_parent_hashes (blk c b)"
  define ps where "ps = map (\<lambda>h. the (find_blk (c_storage c) h)) ?hs"
  let ?c0 = "set_blk b (\<lambda>x. x\<lparr>blk_parents := []\<rparr>) c"
  have "\<forall>h\<in>set ?hs. \<exists>p. find_blk (c_storage ?c0) h = Some p \<and> blk_delivered (blk ?c0 p)"
  proof
    fix h assume "h \<in> set ?hs"
    with ps obtain p where "find_blk (c_storage c) h = Some p" "blk_delivered (blk c p)" by blast
    then show "\<exists>p. find_blk (c_storage ?c0) h = Some p \<and> blk_delivered (blk ?c0 p)" by auto
  qed
  moreover have "\<not> blk_delivered (blk ?c0 b)" using b(1) by simp
  ultimately have push: "push_parents b ?hs ?c0 = (Inr (), set_blk b (\<lambda>x. x\<lparr>blk_parents := ps\<rparr>) c)"
    by (simp add: push_parents_delivered ps_def)
  have ne: "ps \<noteq> []" using b(2) by (simp add: ps_def)
  have "ps ! 0 \<in> set ps" using ne by simp
  with ps b(1) have "ps ! 0 \<noteq> b" by (auto simp: ps_def)
  with push ne b qc show ?thesis
    by (simp add: on_deliver_blk_def deliver_state_def Let_def ps_def [symmetric])
       (rule set_blk_eq, simp)
qed

lemma on_deliver_blk_pre:
  assumes wf: "core_wf c" and pre: "deliver_pre b c"
  shows "on_deliver_blk b c = (Inr True, deliver_state b c)"
proof -
  obtain q where "blk_qc (blk c b) = Some q" "is_blk_fetched (c_storage c) (qc_obj_hash q)"
    using pre by (auto simp: deliver_pre_def)
  moreover have "\<forall>h\<in>set (blk_parent_hashes (blk c b)).
      \<exists>p. find_blk (c_storage c) h = Some p \<and> blk_delivered (blk c p)"
  proof
    fix h assume "h \<in> set (blk_parent_hashes (blk c b))"
    with pre have "is_blk_delivered (c_storage c) h" by (simp add: deliver_pre_def)
    then show "\<exists>p. find_blk (c_storage c) h = Some p \<and> blk_delivered (blk c p)"
      by (auto simp: is_blk_delivered_def find_blk_def split: option.splits)
  qed
  ultimately show ?thesis
    using pre by (auto simp: deliver_pre_def is_blk_fetched_def find_blk_def intro!: on_deliver_blk_eq)
qed

text \<open>
  When the roots stay and the delivered blocks keep their place, only the tree itself has to
  be checked.
\<close>

lemma agree_wf:
  assumes wf: "core_wf c"
    and roots: "c_b0 c' = c_b0 c" "c_id c' = c_id c" "c_config c' = c_config c" "c_hqc c' = c_hqc c"
      "c_b_lock c' = c_b_lock c" "c_b_exec c' = c_b_exec c" "c_vheight c' = c_vheight c"
      "c_outs c' = c_outs c" "c_futures c' = c_futures c"
    and nxt: "next_ref (c_storage c) \<le> next_ref (c_storage c')"
    and del: "\<And>r. delivered (c_storage c) r \<Longrightarrow> delivered (c_storage c') r \<and>
      height_of (c_storage c') r = height_of (c_storage c) r \<and> blk_parents (blk c' r) = blk_parents (blk c r)"
    and old: "\<And>r. r < next_ref (c_storage c) \<Longrightarrow> blk_hash (blk c' r) = blk_hash (blk c r) \<and>
      blk_decision (blk c' r) = blk_decision (blk c r)"
    and new: "\<And>r. next_ref (c_storage c) \<le> r \<Longrightarrow> r < next_ref (c_storage c') \<Longrightarrow>
      blk_decision (blk c' r) = 0"
    and tree: "store_wf (c_b0 c) (c_storage c')" and self: "self_qc_wf (c_storage c')"
  shows "core_wf c' \<and> extends c c'"
proof -
  let ?st = "c_storage c" and ?st' = "c_storage c'"
  have hash: "blk_hash (blk c' r) = blk_hash (blk c r)" if "delivered ?st r" for r
    using old that by (simp add: delivered_def)
  obtain hb q where hqc: "c_hqc c = Some (hb, q)" "delivered ?st hb" "blk_hash (blk c hb) = qc_obj_hash q"
    and rd: "delivered ?st (c_b_lock c)" "delivered ?st (c_b_exec c)"
    using core_wfD(2) [OF wf] by (auto simp: roots_wf_def)
  have "roots_wf c'"
    using core_wfD(2) [OF wf] hqc rd del hash by (auto simp: roots_wf_def roots)
  moreover have "exec_wf c'"
  proof -
    let ?bs = "consensus_of (c_outs c)"
    have ex: "successively (parent_link ?st) (c_b0 c # ?bs)" "last (c_b0 c # ?bs) = c_b_exec c"
      "\<forall>b\<in>set ?bs. delivered ?st b \<and> b \<noteq> c_b0 c"
      "\<forall>r<next_ref ?st. blk_decision (blk c r) \<noteq> 0 \<longleftrightarrow> r \<in> set (c_b0 c # ?bs)"
      using core_wfD(3) [OF wf] unfolding exec_wf_def Let_def by blast+
    have b0: "delivered ?st (c_b0 c)" using store_wfD(2) [OF core_wfD(1) [OF wf]] by (simp add: genesis_wf_def)
    have "successively (parent_link ?st') (c_b0 c # ?bs)"
    proof (rule successively_mono [OF ex(1)])
      fix u v assume "v \<in> set (c_b0 c # ?bs)" "parent_link ?st u v"
      then show "parent_link ?st' u v" using ex(3) b0 del by (auto simp: parent_link_def)
    qed
    moreover have "blk_decision (blk c' r) \<noteq> 0 \<longleftrightarrow> r \<in> set (c_b0 c # ?bs)" if "r < next_ref ?st'" for r
    proof (cases "r < next_ref ?st")
      case False
      then have "r \<notin> set (c_b0 c # ?bs)" using ex(3) b0 delivered_next by auto
      with False new [of r] that show ?thesis by simp
    qed (use ex(4) old in simp)
    ultimately show ?thesis using ex(2,3) del by (auto simp: exec_wf_def Let_def roots)
  qed
  moreover have "votes_wf c'"
  proof -
    obtain bs where bs: "map (\<lambda>b. blk_hash (blk c b)) bs = map v_blk_hash (votes_of (c_outs c))"
      "sorted_wrt (<) (map (height_of ?st) bs)"
      "\<forall>b\<in>set bs. delivered ?st b \<and> height_of ?st b \<le> unat (c_vheight c)"
      using core_wfD(4) [OF wf] by (auto simp: votes_wf_def)
    have "map (height_of ?st') bs = map (height_of ?st) bs"
      "map (\<lambda>b. blk_hash (blk c' b)) bs = map (\<lambda>b. blk_hash (blk c b)) bs"
      using bs(3) del hash by simp_all
    then have "map (\<lambda>b. blk_hash (blk c' b)) bs = map v_blk_hash (votes_of (c_outs c'))"
      "sorted_wrt (<) (map (height_of ?st') bs)" using bs(1,2) by (simp_all only: roots)
    with bs(3) del show ?thesis unfolding votes_wf_def by (intro exI [of _ bs]) (simp add: roots)
  qed
  moreover have "futures_wf c'" using core_wfD(5) [OF wf] by (simp add: futures_wf_def roots)
  moreover have "extends c c'"
    using nxt del old rd hqc by (simp add: extends_def roots hqc_height_def)
  ultimately show ?thesis using tree self by (simp add: core_wf_def roots)
qed

text \<open>The tree grows by the block.\<close>

lemma deliver_state_wf:
  assumes wf: "core_wf c" and pre: "deliver_pre b c" and size: "next_ref (c_storage c) \<le> 2 ^ 32"
  shows "core_wf (deliver_state b c) \<and> extends c (deliver_state b c) \<and>
    delivered (c_storage (deliver_state b c)) b"
proof -
  let ?st = "c_storage c" and ?c' = "deliver_state b c"
  let ?st' = "c_storage (deliver_state b c)"
  define ps where "ps = map (\<lambda>h. the (find_blk ?st h)) (blk_parent_hashes (blk c b))"
  note W = core_wfD(1) [OF wf]
  have bn: "b < next_ref ?st" and nd: "\<not> delivered ?st b" and ne: "ps \<noteq> []"
    using pre by (auto simp: deliver_pre_def ps_def delivered_def)
  obtain q x where q: "blk_qc (blk c b) = Some q" "find_blk ?st (qc_obj_hash q) = Some x"
    using pre by (auto simp: deliver_pre_def is_blk_fetched_def find_blk_def)
  have p: "delivered ?st p" if "p \<in> set ps" for p
  proof -
    from that obtain h where h: "h \<in> set (blk_parent_hashes (blk c b))" "p = the (find_blk ?st h)"
      by (auto simp: ps_def)
    with pre have "is_blk_delivered ?st h" by (simp add: deliver_pre_def)
    then obtain p' where "find_blk ?st h = Some p'" "blk_delivered (blk c p')"
      by (auto simp: is_blk_delivered_def find_blk_def split: option.splits)
    with h(2) find_blkD(1) [OF W] show ?thesis by (auto simp: delivered_def)
  qed
  have hashes: "map (\<lambda>p. blk_hash (blk c p)) ps = blk_parent_hashes (blk c b)"
    unfolding ps_def map_map
  proof (rule map_idI)
    fix h assume "h \<in> set (blk_parent_hashes (blk c b))"
    with pre have "is_blk_delivered ?st h" by (simp add: deliver_pre_def)
    then obtain p' where "find_blk ?st h = Some p'"
      by (auto simp: is_blk_delivered_def find_blk_def split: option.splits)
    with find_blkD(2) [OF W] show "((\<lambda>p. blk_hash (blk c p)) \<circ> (\<lambda>h. the (find_blk ?st h))) h = h" by simp
  qed
  let ?g = "\<lambda>y. y\<lparr>blk_parents := ps, blk_height := blk_height (blk c (ps ! 0)) + 1,
          blk_qc_ref := find_blk ?st (qc_obj_hash (the (blk_qc y))), blk_delivered := True\<rparr>"
  have c': "?c' = set_blk b ?g (c\<lparr>c_tails := insert b (c_tails c - set ps)\<rparr>)"
    by (simp add: deliver_state_def Let_def ps_def)
  have fields: "c_b0 ?c' = c_b0 c" "c_id ?c' = c_id c" "c_config ?c' = c_config c"
    "c_hqc ?c' = c_hqc c" "c_b_lock ?c' = c_b_lock c" "c_b_exec ?c' = c_b_exec c"
    "c_vheight ?c' = c_vheight c" "c_outs ?c' = c_outs c" "c_futures ?c' = c_futures c"
    "next_ref ?st' = next_ref ?st" "blk_cache ?st' = blk_cache ?st"
    by (simp_all add: c' set_blk_def upd_blk_def)
  have hp: "blk ?c' r = (if r = b then ?g (blk c b) else blk c r)" for r
    unfolding c' by simp
  have keep: "blk_hash (blk ?c' r) = blk_hash (blk c r)" "blk_qc (blk ?c' r) = blk_qc (blk c r)"
    "blk_parent_hashes (blk ?c' r) = blk_parent_hashes (blk c r)"
    "blk_decision (blk ?c' r) = blk_decision (blk c r)"
    "blk_self_qc (blk ?c' r) = blk_self_qc (blk c r)" for r
    by (simp_all add: hp)
  have del: "delivered ?st' r \<longleftrightarrow> delivered ?st r \<or> r = b" for r
    using bn by (auto simp: delivered_def hp fields)
  have dset: "delivered_set ?st' = insert b (delivered_set ?st)"
    by (auto simp: delivered_set_def del)
  have card: "card (delivered_set ?st') = Suc (card (delivered_set ?st))"
  proof -
    have "b \<notin> delivered_set ?st" using nd by (simp add: delivered_set_def)
    then show ?thesis by (simp add: dset)
  qed
  have p0: "delivered ?st (ps ! 0)" using ne by (intro p) simp
  have bound: "card (delivered_set ?st) < next_ref ?st"
  proof -
    have "delivered_set ?st \<subseteq> {..<next_ref ?st} - {b}"
      using nd by (auto simp: delivered_set_def delivered_def)
    then have "card (delivered_set ?st) \<le> card ({..<next_ref ?st} - {b})"
      by (intro card_mono) simp_all
    with bn show ?thesis by simp
  qed
  have hb: "height_of ?st' b = Suc (height_of ?st (ps ! 0))"
  proof -
    have "height_of ?st (ps ! 0) < card (delivered_set ?st)" using p0 by (rule store_wfD(6) [OF W])
    with bound size have "Suc (height_of ?st (ps ! 0)) < 2 ^ 32" by linarith
    then show ?thesis by (simp add: height_of_def hp unat_word_ariths)
  qed
  have hr: "height_of ?st' r = height_of ?st r" if "delivered ?st r \<or> r \<noteq> b" for r
    using that nd by (auto simp: height_of_def hp)
  have link: "parent_link ?st' u v \<longleftrightarrow> parent_link ?st u v" if "v \<noteq> b" for u v
    using that by (simp add: parent_link_def hp)
  have b0: "c_b0 c \<noteq> b" using store_wfD(2) [OF W] nd by (auto simp: genesis_wf_def)
  have "delivered_wf ?st' r" if "delivered ?st' r" "r \<noteq> c_b0 c" for r
  proof (cases "r = b")
    case True
    have "\<forall>u\<in>set ps. delivered ?st' u" using p by (simp add: del)
    moreover have "blk_parents (blk ?c' b) = ps" "blk_qc_ref (blk ?c' b) = Some x"
      using q by (simp_all add: hp)
    moreover have "blk_parent_hashes (blk c b) = map (\<lambda>p. blk_hash (blk c p)) ps"
      using hashes by simp
    ultimately show ?thesis
      using True ne hb hr [of "ps ! 0"] p0 q(1) find_blkD [OF W q(2)]
      by (simp add: delivered_wf_def fields keep)
  next
    case False
    with that have "delivered_wf ?st r" using store_wfD(3) [OF W] by (simp add: del)
    moreover from this have "delivered ?st (blk_parents (blk c r) ! 0)" by (simp add: delivered_wf_def)
    ultimately show ?thesis
      using False hr [of r] hr [of "blk_parents (blk c r) ! 0"]
      by (simp add: delivered_wf_def hp fields keep del) (metis hp keep(1))
  qed
  moreover have "fetched_wf ?st' r" if "r < next_ref ?st'" "\<not> delivered ?st' r" for r
    using store_wfD(4) [OF W, of r] that hr [of r] by (simp add: fetched_wf_def fields del hp)
  moreover have "cache_wf ?st'"
    using store_wfD(1) [OF W] by (simp add: cache_wf_def fields keep)
  moreover have "genesis_wf (c_b0 c) ?st'"
    using store_wfD(2) [OF W] hr [of "c_b0 c"] b0 by (simp add: genesis_wf_def del hp)
  moreover have "height_of ?st' r < card (delivered_set ?st')" if "delivered ?st' r" for r
    using that store_wfD(6) [OF W, of r] store_wfD(6) [OF W p0] hb hr [of r] card
    by (cases "r = b") (auto simp: del less_SucI)
  ultimately have store: "store_wf (c_b0 ?c') ?st'"
    using store_wfD(5) [OF W] unfolding store_wf_def by (simp add: fields keep)
  have self: "self_qc_wf ?st'" using core_wfD(6) [OF wf] by (simp add: self_qc_wf_def fields keep)
  have "blk_parents (blk ?c' r) = blk_parents (blk c r)" if "delivered ?st r" for r
    using that nd by (auto simp: hp)
  then have "core_wf ?c' \<and> extends c ?c'"
    by (intro agree_wf [OF wf fields(1-9)])
       (use store self hr in \<open>simp_all add: fields(1,10) keep del\<close>)
  then show ?thesis by (simp add: del)
qed

section \<open>Blocks that arrive\<close>

text \<open>A block as \<open>unserialize\<close> makes it, before its delivery.\<close>

definition fresh_blk :: "block \<Rightarrow> bool" where
  "fresh_blk b \<longleftrightarrow>
     \<not> blk_delivered b \<and> blk_height b = 0 \<and> blk_qc_ref b = None \<and> blk_decision b = 0 \<and>
     blk_qc b \<noteq> None \<and> blk_self_qc b = None"

lemma get_block_data_fresh: "get_block_data E s = Inr (b, s') \<Longrightarrow> fresh_blk b"
  by (auto simp: get_block_data_def Let_def bindE_Inr_iff fresh_blk_def block_default_def)

definition store_blk :: "block \<Rightarrow> core \<Rightarrow> core" where
  "store_blk b c = c\<lparr>c_storage := snd (add_blk b (c_storage c))\<rparr>"

lemma store_blk_simps [simp]:
  "c_b0 (store_blk b c) = c_b0 c" "c_id (store_blk b c) = c_id c"
  "c_config (store_blk b c) = c_config c" "c_hqc (store_blk b c) = c_hqc c"
  "c_b_lock (store_blk b c) = c_b_lock c" "c_b_exec (store_blk b c) = c_b_exec c"
  "c_vheight (store_blk b c) = c_vheight c" "c_outs (store_blk b c) = c_outs c"
  "c_futures (store_blk b c) = c_futures c"
  by (simp_all add: store_blk_def)

lemma store_blk_wf:
  assumes wf: "core_wf c" and b: "fresh_blk b"
  shows "core_wf (store_blk b c) \<and> extends c (store_blk b c)"
proof (cases "find_blk (c_storage c) (blk_hash b)")
  case (Some r)
  then have "store_blk b c = c" by (simp add: store_blk_def add_blk_known)
  with wf show ?thesis by simp
next
  case None
  let ?st = "c_storage c" and ?c' = "store_blk b c"
  let ?n = "next_ref ?st" and ?st' = "c_storage (store_blk b c)"
  note W = core_wfD(1) [OF wf]
  have st': "?st' = ?st\<lparr>heap := (heap ?st)(?n := b), next_ref := Suc ?n,
      blk_cache := (blk_cache ?st)(blk_hash b \<mapsto> ?n)\<rparr>"
    by (simp add: store_blk_def add_blk_new [OF None])
  have hp: "heap ?st' r = (if r = ?n then b else heap ?st r)" "next_ref ?st' = Suc ?n" for r
    by (simp_all add: st')
  have del: "delivered ?st' r \<longleftrightarrow> delivered ?st r" for r
    using b by (auto simp: delivered_def hp fresh_blk_def)
  have hr: "height_of ?st' r = (if r = ?n then 0 else height_of ?st r)" for r
    using b by (simp add: height_of_def hp fresh_blk_def)
  have dn: "r \<noteq> ?n" if "delivered ?st r" for r using delivered_next [OF that] by simp
  have dset: "delivered_set ?st' = delivered_set ?st" by (simp add: delivered_set_def del)
  have old: "blk_hash (heap ?st' r) = blk_hash (heap ?st r)" if "r < ?n" for r using that by (simp add: hp)
  have cache: "cache_wf ?st'"
    unfolding cache_wf_def
  proof (intro conjI allI impI)
    fix h r assume "blk_cache ?st' h = Some r"
    then consider "h = blk_hash b" "r = ?n" | "h \<noteq> blk_hash b" "blk_cache ?st h = Some r"
      by (auto simp: st' split: if_splits)
    then have "r < Suc ?n \<and> blk_hash (heap ?st' r) = h"
    proof cases
      case 2
      then have "r < ?n" "blk_hash (heap ?st r) = h" using store_wfD(1) [OF W] by (auto simp: cache_wf_def)
      then show ?thesis by (simp add: hp)
    qed (simp add: hp)
    then show "r < next_ref ?st'" "blk_hash (heap ?st' r) = h" by (simp_all add: hp(2))
  next
    fix r assume r: "r < next_ref ?st'"
    show "blk_cache ?st' (blk_hash (heap ?st' r)) = Some r"
    proof (cases "r = ?n")
      case False
      with r have "find_blk ?st (blk_hash (heap ?st r)) = Some r" by (intro find_stored [OF W]) (simp add: hp)
      with None False show ?thesis by (auto simp: st' find_blk_def)
    qed (simp add: st')
  qed
  have gen: "genesis_wf (c_b0 c) ?st'"
    using store_wfD(2) [OF W] dn by (simp add: genesis_wf_def del hr hp)
  have dwf: "delivered_wf ?st' r" if r: "delivered ?st' r" "r \<noteq> c_b0 c" for r
  proof -
    have wfr: "delivered_wf ?st r" using store_wfD(3) [OF W] r by (simp add: del)
    then have p: "blk_parents (heap ?st r) \<noteq> []" "\<forall>p\<in>set (blk_parents (heap ?st r)). delivered ?st p"
      by (simp_all add: delivered_wf_def)
    then have p0: "delivered ?st (blk_parents (heap ?st r) ! 0)" by simp
    have same: "heap ?st' r = heap ?st r" using dn r by (simp add: hp del)
    have "map (\<lambda>p. blk_hash (heap ?st' p)) (blk_parents (heap ?st r)) =
        map (\<lambda>p. blk_hash (heap ?st p)) (blk_parents (heap ?st r))"
      using p(2) delivered_next old by simp
    moreover obtain x q where xq: "blk_qc_ref (heap ?st r) = Some x" "x < ?n"
        "blk_qc (heap ?st r) = Some q" "blk_hash (heap ?st x) = qc_obj_hash q"
      using wfr by (auto simp: delivered_wf_def)
    then have "x < next_ref ?st'" "blk_hash (heap ?st' x) = qc_obj_hash q" using old by (simp_all add: hp(2))
    then have "\<exists>x q. blk_qc_ref (heap ?st r) = Some x \<and> x < next_ref ?st' \<and>
        blk_qc (heap ?st r) = Some q \<and> blk_hash (heap ?st' x) = qc_obj_hash q" using xq by blast
    moreover have "height_of ?st' r = height_of ?st r"
      "height_of ?st' (blk_parents (heap ?st r) ! 0) = height_of ?st (blk_parents (heap ?st r) ! 0)"
      using dn p0 r by (simp_all add: hr del)
    ultimately show ?thesis
      using wfr unfolding delivered_wf_def same by (simp add: del)
  qed
  have fwf: "fetched_wf ?st' r" if "r < next_ref ?st'" "\<not> delivered ?st' r" for r
    using store_wfD(4) [OF W, of r] that b by (auto simp: fetched_wf_def del hr hp less_Suc_eq fresh_blk_def)
  have qwf: "blk_qc (heap ?st' r) \<noteq> None" if "r < next_ref ?st'" for r
    using store_wfD(5) [OF W, of r] that b by (auto simp: hp less_Suc_eq fresh_blk_def)
  have hwf: "height_of ?st' r < card (delivered_set ?st')" if "delivered ?st' r" for r
    using store_wfD(6) [OF W, of r] that dn by (simp add: del hr dset)
  have tree: "store_wf (c_b0 c) ?st'" by (rule store_wfI [OF cache gen dwf fwf qwf hwf])
  have self: "self_qc_wf ?st'"
    using core_wfD(6) [OF wf] b by (auto simp: self_qc_wf_def hp less_Suc_eq fresh_blk_def)
  show ?thesis
  proof (rule agree_wf [OF wf])
    show "blk_decision (blk ?c' r) = 0" if "?n \<le> r" "r < next_ref ?st'" for r
      using that b by (simp add: hp fresh_blk_def)
  qed (use tree self dn in \<open>simp_all add: hp del hr\<close>)
qed

section \<open>Proposing\<close>

text \<open>
  The parents are delivered; and if the storage has a block of the new block's hash that is not
  delivered yet, it is the same block, that is, the hash has no collision there.
\<close>

definition propose_pre :: "env \<Rightarrow> uint256 list \<Rightarrow> block_ref list \<Rightarrow> bytes \<Rightarrow> core \<Rightarrow> bool" where
  "propose_pre E cmds parents extra c \<longleftrightarrow>
     (\<forall>p\<in>set parents. delivered (c_storage c) p) \<and>
     (\<forall>b r. proposed_blk E cmds parents extra c = Inr b \<longrightarrow>
        find_blk (c_storage c) (blk_hash b) = Some r \<longrightarrow> delivered (c_storage c) r \<or>
          blk_parent_hashes (blk c r) = blk_parent_hashes b \<and> blk_qc (blk c r) = blk_qc b)"

lemma proposed_blk_fields:
  assumes "proposed_blk E cmds parents extra c = Inr b"
  shows "\<exists>hb hq. c_hqc c = Some (hb, hq) \<and> blk_qc b = Some hq \<and> blk_qc_ref b = Some hb"
    and "blk_parent_hashes b = map (\<lambda>p. blk_hash (blk c p)) parents"
    and "\<not> blk_delivered b" and "blk_decision b = 0" and "blk_self_qc b = None"
  using assms
  by (auto simp: proposed_blk_def new_Block_def block_default_def Let_def bindE_Inr_iff
      split: option.splits)

lemma proposed_blk_tails:
  "proposed_blk E cmds parents extra (c\<lparr>c_tails := t\<rparr>) = proposed_blk E cmds parents extra c"
  by (simp add: proposed_blk_def cong: option.case_cong)

lemma tails_wf: "core_wf c \<Longrightarrow> core_wf (c\<lparr>c_tails := t\<rparr>) \<and> extends c (c\<lparr>c_tails := t\<rparr>)"
  by (rule same_roots_wf) (simp_all add: same_roots_def core_wf_def futures_wf_def)

text \<open>A new block is stored and delivered at once.\<close>

lemma deliver_new:
  assumes wf: "core_wf c" and size: "next_ref (c_storage c) < 2 ^ 32"
    and b: "proposed_blk E cmds parents extra c = Inr b" "find_blk (c_storage c) (blk_hash b) = None"
    and ps: "parents \<noteq> []" "\<forall>p\<in>set parents. delivered (c_storage c) p"
    and q: "qc_obj_hash q = blk_hash b"
  defines "n \<equiv> next_ref (c_storage c)"
  defines "c3 \<equiv> set_blk n (\<lambda>x. x\<lparr>blk_self_qc := Some q\<rparr>) (c\<lparr>c_storage := snd (add_blk b (c_storage c))\<rparr>)"
  shows "\<exists>d. on_deliver_blk n c3 = (Inr True, d) \<and> core_wf d \<and> extends c d \<and> delivered (c_storage d) n"
proof -
  let ?b' = "b\<lparr>blk_parents := [], blk_height := 0, blk_qc_ref := None\<rparr>"
  define d0 where "d0 = store_blk ?b' c"
  define d1 where "d1 = set_blk n (\<lambda>x. x\<lparr>blk_self_qc := Some q\<rparr>) d0"
  note W = core_wfD(1) [OF wf]
  obtain hb hq where hqc: "c_hqc c = Some (hb, hq)" "blk_qc b = Some hq"
    using proposed_blk_fields(1) [OF b(1)] by blast
  note bf = proposed_blk_fields(2-) [OF b(1)]
  have none: "find_blk (c_storage c) (blk_hash ?b') = None" using b(2) by simp
  have c3: "c3 = set_blk n (\<lambda>_. b\<lparr>blk_self_qc := Some q\<rparr>) d0"
    by (simp add: c3_def d0_def store_blk_def add_blk_new [OF b(2)] add_blk_new [OF none] n_def
        set_blk_def upd_blk_def)
  have fresh: "fresh_blk ?b'" using bf hqc(2) by (simp add: fresh_blk_def)
  have d0n: "blk d0 n = ?b'" by (simp add: d0_def store_blk_def add_blk_new [OF none] n_def)
  have d0r: "blk d0 r = blk c r" if "r \<noteq> n" for r
    using that by (simp add: d0_def store_blk_def add_blk_new [OF none] n_def)
  have d0f: "find_blk (c_storage d0) h = (if h = blk_hash b then Some n else find_blk (c_storage c) h)" for h
    by (simp add: d0_def store_blk_def add_blk_new [OF none] n_def find_blk_def)
  have d0x: "next_ref (c_storage d0) = Suc n"
    by (simp add: d0_def store_blk_def add_blk_new [OF none] n_def)
  have d0: "core_wf d0 \<and> extends c d0" unfolding d0_def by (rule store_blk_wf [OF wf fresh])
  have d1: "core_wf d1 \<and> extends d0 d1"
    unfolding d1_def using d0 q d0n by (intro set_blk_wf) (simp_all add: shape_def)
  have stored: "find_blk (c_storage d0) (blk_hash (blk c r)) = Some r" "r \<noteq> n" if "r < n" for r
    using find_stored [OF W, of r] b(2) that by (auto simp: d0f n_def)
  have parents: "\<exists>p. find_blk (c_storage d0) h = Some p \<and> p \<noteq> n \<and> blk_delivered (blk c p)"
    if "h \<in> set (blk_parent_hashes b)" for h
  proof -
    from that bf(1) obtain p where p: "p \<in> set parents" "h = blk_hash (blk c p)" by auto
    with ps(2) stored [of p] show ?thesis by (auto simp: delivered_def n_def)
  qed
  have hb: "find_blk (c_storage d0) (qc_obj_hash hq) = Some hb"
    using core_wfD(2) [OF wf] hqc stored(1) [of hb] by (auto simp: roots_wf_def delivered_def n_def)
  have ne: "blk_parent_hashes b \<noteq> []" using bf(1) ps(1) by simp
  have pre: "deliver_pre n d1"
    unfolding deliver_pre_def
  proof (intro conjI ballI)
    show "is_blk_delivered (c_storage d1) h" if "h \<in> set (blk_parent_hashes (blk d1 n))" for h
    proof -
      have "h \<in> set (blk_parent_hashes b)" using that by (simp add: d1_def d0n)
      from parents [OF this] obtain p where p: "find_blk (c_storage d0) h = Some p" "p \<noteq> n"
        "blk_delivered (blk c p)" by blast
      then have "blk_cache (c_storage d1) h = Some p" "blk d1 p = blk c p"
        by (simp_all add: d1_def find_blk_def d0r)
      with p(3) show ?thesis by (simp add: is_blk_delivered_def)
    qed
    show "\<exists>q. blk_qc (blk d1 n) = Some q \<and> is_blk_fetched (c_storage d1) (qc_obj_hash q)"
      using hqc hb by (simp add: d1_def d0n is_blk_fetched_def find_blk_def)
  qed (use ne bf(2) in \<open>simp_all add: d1_def d0n d0x\<close>)
  have "next_ref (c_storage d1) \<le> 2 ^ 32" using size by (simp add: d1_def d0x n_def)
  then have dd: "core_wf (deliver_state n d1) \<and> extends d1 (deliver_state n d1) \<and>
      delivered (c_storage (deliver_state n d1)) n"
    using d1 pre by (intro deliver_state_wf) simp_all
  have "on_deliver_blk n c3 = (Inr True, deliver_state n c3)"
  proof (rule on_deliver_blk_eq)
    show "\<forall>h\<in>set (blk_parent_hashes (blk c3 n)).
        \<exists>p. find_blk (c_storage c3) h = Some p \<and> blk_delivered (blk c3 p)"
      using parents d0r by (fastforce simp: c3)
  qed (use ne bf(2) hqc(2) hb in \<open>simp_all add: c3\<close>)
  moreover have "deliver_state n c3 = deliver_state n d1"
  proof -
    obtain h hs where hs: "blk_parent_hashes b = h # hs" using ne by (cases "blk_parent_hashes b") auto
    from parents [of h] hs obtain p where p: "find_blk (c_storage d0) h = Some p" "p \<noteq> n" by auto
    show ?thesis
      using hs p hqc(2)
      by (simp add: deliver_state_def c3 d1_def d0n Let_def) (rule set_blk_eq, simp add: d0n)
  qed
  ultimately show ?thesis using dd d1 d0 by (auto intro: extends_trans)
qed

text \<open>The proposals that are broadcast are all for the new block.\<close>

lemma slice_proposals_fields:
  "slice_proposals E rid n h ps = Inr props \<Longrightarrow>
     length props = length ps \<and> (\<forall>i<length ps. p_blk (props ! i) = Some n \<and> p_proposer (props ! i) = rid \<and>
       p_slice (props ! i) = new_slice (ps ! i) h)"
proof (induction ps arbitrary: props)
  case (Cons p ps)
  then obtain pr props' where "new_proposal E rid (new_slice p h) (Some n) False = Inr pr"
    "slice_proposals E rid n h ps = Inr props'" "props = pr # props'"
    by (auto simp: bindE_Inr_iff)
  moreover from this have "p_blk pr = Some n \<and> p_proposer pr = rid \<and> p_slice pr = new_slice p h"
    by (auto simp: new_proposal_def bindE_Inr_iff)
  ultimately show ?case using Cons.IH by (auto simp: nth_Cons split: nat.splits)
qed simp

lemma encode_proposals_blk:
  assumes "encode_proposals E r rid n h cmds = Inr props" and "i < length props"
  shows "p_blk (props ! i) = Some n"
  using assms slice_proposals_fields
  by (fastforce simp: encode_proposals_def bindE_Inr_iff split: if_splits prod.splits)

text \<open>Any way of storing the proposed block leaves it delivered.\<close>

lemma propose_deliver:
  fixes k :: crypto_kind and cfg :: replica_config
  assumes wf: "core_wf c" and size: "next_ref (c_storage c) < 2 ^ 32"
    and b: "proposed_blk E cmds parents extra c = Inr b" and ps: "parents \<noteq> []"
    and pre: "propose_pre E cmds parents extra c" and add: "add_blk b (c_storage c) = (n, st)"
  defines "c2 \<equiv> c\<lparr>c_storage := st\<rparr>"
  defines "c3 \<equiv> set_blk n (\<lambda>x. x\<lparr>blk_self_qc := Some (create_quorum_cert k cfg (blk_hash (blk c2 n)))\<rparr>) c2"
  shows "\<exists>x d. on_deliver_blk n c3 = (Inr x, d) \<and> core_wf d \<and> extends c d \<and> delivered (c_storage d) n"
proof (cases "find_blk (c_storage c) (blk_hash b)")
  case None
  from add have n: "n = next_ref (c_storage c)" "c2 = c\<lparr>c_storage := snd (add_blk b (c_storage c))\<rparr>"
    by (auto simp: add_blk_new [OF None] c2_def)
  moreover have "blk_hash (blk c2 n) = blk_hash b" by (simp add: n add_blk_new [OF None])
  moreover have "\<forall>p\<in>set parents. delivered (c_storage c) p" using pre by (simp add: propose_pre_def)
  ultimately show ?thesis
    using deliver_new [OF wf size b None ps, of "create_quorum_cert k cfg (blk_hash b)"]
    by (auto simp: c3_def)
next
  case (Some r)
  with add have "n = r" "st = c_storage c" by (simp_all add: add_blk_known)
  then have c2: "c2 = c" by (simp add: c2_def)
  have c3: "core_wf c3 \<and> extends c c3"
    unfolding c3_def c2 by (rule set_blk_wf [OF wf]) (auto simp: shape_def)
  show ?thesis
  proof (cases "delivered (c_storage c) n")
    case True
    then have "blk_delivered (blk c3 n)" by (simp add: c3_def c2 delivered_def)
    with True c3 show ?thesis by (auto simp: on_deliver_blk_def extends_def)
  next
    case False
    note W = core_wfD(1) [OF wf]
    have n: "n < next_ref (c_storage c)"
      using store_wfD(1) [OF W] Some \<open>n = r\<close> by (simp add: cache_wf_def find_blk_def)
    have same: "blk_parent_hashes (blk c n) = blk_parent_hashes b" "blk_qc (blk c n) = blk_qc b"
      and dps: "\<forall>p\<in>set parents. delivered (c_storage c) p"
      using pre b Some \<open>n = r\<close> False by (auto simp: propose_pre_def)
    obtain hb hq where hqc: "c_hqc c = Some (hb, hq)" "blk_qc b = Some hq"
      using proposed_blk_fields(1) [OF b] by blast
    have "find_blk (c_storage c) (qc_obj_hash hq) = Some hb"
      using core_wfD(2) [OF wf] hqc find_stored [OF W, of hb] by (auto simp: roots_wf_def delivered_def)
    moreover have "is_blk_delivered (c_storage c3) h" if "h \<in> set (blk_parent_hashes b)" for h
    proof -
      from that obtain p where p: "p \<in> set parents" "h = blk_hash (blk c p)"
        using proposed_blk_fields(2) [OF b] by auto
      with dps have "delivered (c_storage c) p" by blast
      with find_stored [OF W, of p] p(2) show ?thesis
        by (auto simp: c3_def c2 is_blk_delivered_def delivered_def find_blk_def)
    qed
    moreover have "blk_parent_hashes b \<noteq> []" using proposed_blk_fields(2) [OF b] ps by simp
    ultimately have "deliver_pre n c3"
      using n False hqc(2) same
      by (simp add: deliver_pre_def c3_def c2 delivered_def is_blk_fetched_def find_blk_def)
    moreover have "next_ref (c_storage c3) \<le> 2 ^ 32" using size by (simp add: c3_def c2)
    ultimately show ?thesis
      using on_deliver_blk_pre [of c3 n] deliver_state_wf [of c3 n] c3 by (blast intro: extends_trans)
  qed
qed

lemma on_propose_wf:
  assumes wf: "core_wf c" and size: "next_ref (c_storage c) < 2 ^ 32"
    and pre: "propose_pre E cmds parents extra c"
    and run: "on_propose E cmds parents extra c = (r, c')" and surv: "survives r"
  shows "core_wf c' \<and> extends c c'"
proof (cases "parents = []")
  case True
  with run wf show ?thesis by (simp add: on_propose_def)
next
  case False
  define c1 where "c1 = c\<lparr>c_tails := c_tails c - set parents\<rparr>"
  have c1: "core_wf c1 \<and> extends c c1" unfolding c1_def using wf by (rule tails_wf)
  have st1: "c_storage c1 = c_storage c" by (simp add: c1_def)
  have prop1: "proposed_blk E cmds parents extra c1 = proposed_blk E cmds parents extra c"
    unfolding c1_def by (rule proposed_blk_tails)
  show ?thesis
  proof (cases "proposed_blk E cmds parents extra c1")
    case (Inl e)
    with run False have "c' = c1" by (simp add: on_propose_def c1_def [symmetric] Let_def)
    with c1 show ?thesis by simp
  next
    case (Inr b)
    obtain n st where add: "add_blk b (c_storage c1) = (n, st)" by force
    define c2 where "c2 = c1\<lparr>c_storage := st\<rparr>"
    define c3 where "c3 = set_blk n (\<lambda>x. x\<lparr>blk_self_qc :=
      Some (create_quorum_cert (e_kind E) (c_config c2) (blk_hash (blk c2 n)))\<rparr>) c2"
    have pre1: "propose_pre E cmds parents extra c1" using pre by (simp add: propose_pre_def prop1 st1)
    obtain x d where d: "on_deliver_blk n c3 = (Inr x, d)" "core_wf d" "extends c1 d" "delivered (c_storage d) n"
      using propose_deliver [OF _ _ Inr False pre1 add] c1 size
      unfolding c3_def c2_def st1 by blast
    define fin where "fin c = (case encode_proposals E (c_rse c) (c_id c) n (blk_hash (blk c2 n)) cmds of
            Inl e \<Rightarrow> (Inl e, c)
          | Inr props \<Rightarrow>
              if blk_height (blk c n) \<le> c_vheight c
              then (Inl (RuntimeError ''new block should be higher than vheight''), c)
              else if length props \<le> unat (c_id c) then (Inl OutOfBounds, c)
              else let pr = props ! unat (c_id c) in
                bindS (on_receive_proposal E pr c) (\<lambda>_ c.
                  (Inr n, emit (DoBroadcastProposals props) (on_propose_fin pr c))))" for c
    have "bindS (update E n d) (\<lambda>_ c. fin c) = (r, c')"
      using run False Inr add d(1)
      by (simp add: on_propose_def c1_def [symmetric] Let_def c2_def c3_def fin_def)
    then have "core_wf c' \<and> extends d c'"
    proof (rule bindS_survives [OF _ surv])
      fix y s assume "update E n d = (y, s)" "survives y"
      with update_wf [OF d(2) delivered_next [OF d(4)]] show "core_wf s \<and> extends d s" by blast
    next
      fix y s assume s: "core_wf s \<and> extends d s" and f: "fin s = (r, c')"
      have ns: "n < next_ref (c_storage s)" using s d(4) delivered_next by (auto simp: extends_def)
      from f consider "c' = s" | props where
        "bindS (on_receive_proposal E (props ! unat (c_id s)) s) (\<lambda>_ c.
           (Inr n, emit (DoBroadcastProposals props) (on_propose_fin (props ! unat (c_id s)) c))) = (r, c')"
        "encode_proposals E (c_rse s) (c_id s) n (blk_hash (blk c2 n)) cmds = Inr props"
        "unat (c_id s) < length props"
        by (auto simp: fin_def Let_def split: sum.splits if_splits)
      then show "core_wf c' \<and> extends d c'"
      proof cases
        case 2
        let ?pr = "props ! unat (c_id s)"
        have blk: "p_blk ?pr = Some n"
          using encode_proposals_blk [OF 2(2)] 2(3) by simp
        from 2(1) show ?thesis
        proof (rule bindS_survives [OF _ surv])
          fix y t assume "on_receive_proposal E ?pr s = (y, t)" "survives y"
          with on_receive_proposal_wf [of s ?pr] s blk ns extends_trans [of d s t]
          show "core_wf t \<and> extends d t" by simp
        next
          fix y t assume t: "core_wf t \<and> extends d t"
            and "(Inr n, emit (DoBroadcastProposals props) (on_propose_fin ?pr t)) = (r, c')"
          then have c': "c' = emit (DoBroadcastProposals props) (on_propose_fin ?pr t)" by simp
          have "same_roots t c'"
            unfolding c' by (rule same_roots_trans [OF promises_same_roots(1) emit_same_roots]) (simp_all add: consensus_of_def votes_of_def)
          moreover have "futures_wf c'" using core_wfD(5) [of t] t by (simp add: futures_wf_def c')
          ultimately have "core_wf c' \<and> extends t c'" using t by (intro same_roots_wf) simp_all
          with t extends_trans [of d t c'] show "core_wf c' \<and> extends d c'" by simp
        qed
      qed (use s in simp)
    qed
    with d(3) c1 extends_trans [of c c1 d] extends_trans [of c d c'] show ?thesis by simp
  qed
qed

end
