(* ===== verification/CoreReach.thy ===== *)
theory CoreReach
  imports CoreSteps
begin

text \<open>
  The reachable states of a replica. The caller of \<open>HotStuffCore\<close> (\<open>HotStuffBase\<close> and the pace
  makers) starts it once and then calls its methods one after the other, under the conditions
  that include/hotstuff/consensus.h documents for them. The method \<open>prune\<close> is not among the calls:
  nothing in the repository calls it, and it cuts the parents of old blocks, which the invariant
  speaks of (its effect is the subject of CorePrune). Whatever sequence of the calls is made
  and whatever their arguments hold, the well-formedness of CoreInvariant is kept.
\<close>

section \<open>Machines with an invariant\<close>

text \<open>What a state machine guarantees when an invariant and a progress relation are kept.\<close>

locale monitored_machine =
  fixes init :: "'s \<Rightarrow> bool" and step :: "'s \<Rightarrow> 's \<Rightarrow> bool"
    and inv :: "'s \<Rightarrow> bool" and prog :: "'s \<Rightarrow> 's \<Rightarrow> bool"
  assumes init_inv: "init s \<Longrightarrow> inv s"
    and step_inv: "step s t \<Longrightarrow> inv s \<Longrightarrow> inv t"
    and step_prog: "step s t \<Longrightarrow> inv s \<Longrightarrow> prog s t"
    and prog_refl: "prog s s"
    and prog_trans: "prog s t \<Longrightarrow> prog t u \<Longrightarrow> prog s u"
begin

definition run :: "'s \<Rightarrow> bool" where
  "run t \<longleftrightarrow> (\<exists>s. init s \<and> step\<^sup>*\<^sup>* s t)"

lemma steps_keep: "step\<^sup>*\<^sup>* s t \<Longrightarrow> inv s \<Longrightarrow> inv t \<and> prog s t"
  by (induction rule: rtranclp_induct) (auto intro: prog_refl step_inv prog_trans step_prog)

lemma run_inv: "run t \<Longrightarrow> inv t"
  unfolding run_def using init_inv steps_keep by blast

lemma run_prog: "run s \<Longrightarrow> step\<^sup>*\<^sup>* s t \<Longrightarrow> run t \<and> prog s t"
  unfolding run_def using init_inv steps_keep rtranclp_trans [of step] by metis

end

section \<open>Starting a replica\<close>

text \<open>
  The part of \<open>HotStuffBase::start\<close> that sets up the core: the parameters of the code and of the
  container, one replica per entry, and \<open>on_init\<close>.
\<close>

fun add_all_replicas :: "nat \<Rightarrow> (peer_id \<times> pub_key) list \<Rightarrow> core \<Rightarrow> core" where
  "add_all_replicas i [] c = c"
| "add_all_replicas i ((p, k) # rs) c = add_all_replicas (Suc i) rs (add_replica (word_of_nat i) p k c)"

definition start_core :: "env \<Rightarrow> (peer_id \<times> pub_key) list \<Rightarrow> u32 \<Rightarrow> core \<Rightarrow> core" where
  "start_core E replicas nfaulty c =
     (let n = word_of_nat (length replicas);
          c = c\<lparr>c_rse := rse_set_params n, c_sc := set_pramas n (c_sc c)\<rparr> in
      on_init E nfaulty (add_all_replicas 0 replicas c))"

definition core_started :: "env \<Rightarrow> core \<Rightarrow> bool" where
  "core_started E c \<longleftrightarrow>
     (\<exists>rid priv_key replicas nfaulty c0. hotstuff_core E rid priv_key = Inr c0 \<and>
        c = start_core E replicas nfaulty c0)"

section \<open>The calls of a replica\<close>

datatype core_call =
    Fetch bytes
  | Deliver block_ref
  | ReceiveProposal proposal
  | ReceiveVote vote
  | ReceiveSlice slice
  | Propose "uint256 list" "block_ref list" bytes
  | AsyncQcFinish block_ref
  | SetVoteDisabled bool

text \<open>\<open>Fetch\<close> is the arrival of the bytes of a block, which is parsed and stored.\<close>

fun run_call :: "env \<Rightarrow> core_call \<Rightarrow> core \<Rightarrow> unit res \<times> core" where
  "run_call E (Fetch s) c =
     (case get_block_data E s of Inl e \<Rightarrow> (Inl e, c) | Inr (b, _) \<Rightarrow> (Inr (), store_blk b c))"
| "run_call E (Deliver b) c = bindS (on_deliver_blk b c) (\<lambda>_ c. (Inr (), c))"
| "run_call E (ReceiveProposal p) c = on_receive_proposal E p c"
| "run_call E (ReceiveVote v) c = on_receive_vote E v c"
| "run_call E (ReceiveSlice x) c = on_receive_slice E x c"
| "run_call E (Propose cmds parents extra) c =
     bindS (on_propose E cmds parents extra c) (\<lambda>_ c. (Inr (), c))"
| "run_call E (AsyncQcFinish b) c = (Inr (), snd (async_qc_finish b c))"
| "run_call E (SetVoteDisabled f) c = (Inr (), set_vote_disabled f c)"

text \<open>The documented preconditions. A replica holds fewer than \<open>2 ^ 32\<close> blocks.\<close>

fun allowed :: "env \<Rightarrow> core_call \<Rightarrow> core \<Rightarrow> bool" where
  "allowed E (Deliver b) c \<longleftrightarrow> deliver_pre b c"
| "allowed E (ReceiveProposal p) c \<longleftrightarrow> (\<forall>b. p_blk p = Some b \<longrightarrow> b < next_ref (c_storage c))"
| "allowed E (Propose cmds parents extra) c \<longleftrightarrow> propose_pre E cmds parents extra c"
| "allowed E _ c \<longleftrightarrow> True"

inductive core_step :: "env \<Rightarrow> core \<Rightarrow> core \<Rightarrow> bool" for E where
  call: "core_step E c c'"
    if "next_ref (c_storage c) < 2 ^ 32" and "allowed E a c"
      and "run_call E a c = (r, c')" and "survives r"

inductive_cases core_stepE: "core_step E c c'"

definition core_reachable :: "env \<Rightarrow> core \<Rightarrow> bool" where
  "core_reachable E c \<longleftrightarrow> (\<exists>s. core_started E s \<and> (core_step E)\<^sup>*\<^sup>* s c)"

section \<open>The start is well-formed\<close>

text \<open>The state before \<open>on_init\<close>: only the genesis block, and it has no certificate of its own yet.\<close>

definition pre_init :: "core \<Rightarrow> bool" where
  "pre_init c \<longleftrightarrow>
     c_b_lock c = c_b0 c \<and> c_b_exec c = c_b0 c \<and> c_outs c = [] \<and> c_futures c = Map.empty \<and>
     c_b0 c = 0 \<and> next_ref (c_storage c) = 1 \<and>
     blk_cache (c_storage c) = [blk_hash (blk c 0) \<mapsto> 0] \<and>
     blk_delivered (blk c 0) \<and> blk_height (blk c 0) = 0 \<and> blk_parents (blk c 0) = [] \<and>
     blk_parent_hashes (blk c 0) = [] \<and> blk_decision (blk c 0) = 1"

lemma hotstuff_core_pre_init: "hotstuff_core E rid k = Inr c \<Longrightarrow> pre_init c"
  by (auto simp: hotstuff_core_def bindE_Inr_iff block_genesis_def block_default_def alloc_blk_def
      add_blk_ref_def empty_storage_def pre_init_def Let_def split: if_splits)

lemma add_replica_pre_init: "pre_init c \<Longrightarrow> pre_init (add_replica r p k c)"
  by (simp add: pre_init_def add_replica_def set_blk_def upd_blk_def)

lemma add_all_replicas_pre_init: "pre_init c \<Longrightarrow> pre_init (add_all_replicas i rs c)"
  by (induction i rs c rule: add_all_replicas.induct) (simp_all add: add_replica_pre_init)

lemma on_init_wf:
  assumes "pre_init c"
  shows "core_wf (on_init E nfaulty c)"
proof -
  let ?c = "on_init E nfaulty c" and ?st = "c_storage (on_init E nfaulty c)"
  note pre = assms [unfolded pre_init_def]
  define q where "q = qc_compute (create_quorum_cert (e_kind E)
    (set_majority (unat nfaulty) (c_config c)) (blk_hash (blk c 0)))"
  have c': "?c = (set_blk 0 (\<lambda>b. b\<lparr>blk_qc := Some q, blk_self_qc := Some q, blk_qc_ref := Some 0\<rparr>)
      (c\<lparr>c_config := set_majority (unat nfaulty) (c_config c)\<rparr>))\<lparr>c_hqc := Some (0, q)\<rparr>"
    using pre by (simp add: on_init_def Let_def q_def)
  have hp: "next_ref ?st = 1" "blk_cache ?st = [blk_hash (blk ?c 0) \<mapsto> 0]" "c_b0 ?c = 0"
    "c_b_lock ?c = 0" "c_b_exec ?c = 0" "c_outs ?c = []" "c_futures ?c = Map.empty"
    and b0: "blk_delivered (blk ?c 0)" "blk_height (blk ?c 0) = 0" "blk_parents (blk ?c 0) = []"
    "blk_parent_hashes (blk ?c 0) = []" "blk_decision (blk ?c 0) = 1" "blk_qc_ref (blk ?c 0) = Some 0"
    using pre by (simp_all add: c' set_blk_def upd_blk_def)
  have qc: "blk_qc (blk ?c 0) = Some q" "blk_self_qc (blk ?c 0) = Some q" "c_hqc ?c = Some (0, q)"
    "qc_obj_hash q = blk_hash (blk ?c 0)"
    by (simp_all add: c' set_blk_def upd_blk_def) (simp add: q_def)
  have del: "delivered ?st r \<longleftrightarrow> r = 0" for r using hp(1) b0(1) by (auto simp: delivered_def)
  then have dset: "delivered_set ?st = {0}" by (auto simp: delivered_set_def)
  have h0: "height_of ?st 0 = 0" using b0(2) by (simp add: height_of_def)
  have "store_wf (c_b0 ?c) ?st"
  proof (rule store_wfI)
    show "cache_wf ?st" using hp by (simp add: cache_wf_def)
    show "genesis_wf (c_b0 ?c) ?st" using hp b0 h0 del by (simp add: genesis_wf_def)
    show "r < next_ref ?st \<Longrightarrow> blk_qc (heap ?st r) \<noteq> None" for r using hp(1) qc(1) by simp
  qed (use hp(1,3) del dset h0 in simp_all)
  moreover have "roots_wf ?c" using hp(4,5) h0 qc(3,4) del by (simp add: roots_wf_def)
  moreover have "exec_wf ?c" using hp b0(5) by (simp add: exec_wf_def)
  moreover have "votes_wf ?c" by (simp add: votes_wf_def hp(6))
  moreover have "futures_wf ?c" by (simp add: futures_wf_def hp(7))
  moreover have "self_qc_wf ?st" using hp(1) qc(2,4) by (simp add: self_qc_wf_def)
  ultimately show ?thesis by (simp add: core_wf_def)
qed

lemma core_started_wf: "core_started E c \<Longrightarrow> core_wf c"
proof -
  assume "core_started E c"
  then obtain rid k rs nfaulty c0 where c: "hotstuff_core E rid k = Inr c0" "c = start_core E rs nfaulty c0"
    by (auto simp: core_started_def)
  let ?n = "word_of_nat (length rs)"
  let ?c1 = "c0\<lparr>c_rse := rse_set_params ?n, c_sc := set_pramas ?n (c_sc c0)\<rparr>"
  have "pre_init ?c1" using hotstuff_core_pre_init [OF c(1)] by (simp add: pre_init_def)
  then show ?thesis using c(2) by (simp add: start_core_def Let_def on_init_wf add_all_replicas_pre_init)
qed

section \<open>Every call keeps the invariant\<close>

lemma set_vote_disabled_wf: "core_wf c \<Longrightarrow> core_wf (set_vote_disabled f c) \<and> extends c (set_vote_disabled f c)"
  by (rule same_roots_wf) (simp_all add: same_roots_def core_wf_def futures_wf_def set_vote_disabled_def)

lemma run_call_wf:
  assumes wf: "core_wf c" and size: "next_ref (c_storage c) < 2 ^ 32" and pre: "allowed E a c"
    and run: "run_call E a c = (r, c')" and surv: "survives r"
  shows "core_wf c' \<and> extends c c'"
proof (cases a)
  case (Fetch s)
  then show ?thesis
    using run wf store_blk_wf [OF wf get_block_data_fresh] by (auto split: sum.splits)
next
  case (Deliver b)
  then show ?thesis
    using run pre on_deliver_blk_pre [OF wf, of b] deliver_state_wf [OF wf, of b] size
    by (auto simp: bindS_def)
next
  case (ReceiveProposal p)
  then show ?thesis using run pre surv on_receive_proposal_wf [OF wf, of p E r c'] by simp
next
  case (ReceiveVote v)
  then show ?thesis using run surv on_receive_vote_wf [OF wf, of E v r c'] by simp
next
  case (ReceiveSlice x)
  then show ?thesis using run on_receive_slice_wf [OF wf, of E x r c'] by simp
next
  case (Propose cmds parents extra)
  then obtain y where "on_propose E cmds parents extra c = (y, c')" "survives y"
    using run surv by (cases "on_propose E cmds parents extra c"; cases "fst (on_propose E cmds parents extra c)")
      (auto simp: bindS_def)
  then show ?thesis using Propose pre on_propose_wf [OF wf size] by simp
next
  case (AsyncQcFinish b)
  then have "c' = snd (async_qc_finish b c)" using run by simp
  then show ?thesis
    using same_roots_wf [OF promises_same_roots(4) wf, of b] core_wfD(5) [OF wf]
    by (simp add: futures_wf_def)
next
  case (SetVoteDisabled f)
  then show ?thesis using run set_vote_disabled_wf [OF wf] by auto
qed

interpretation replica: monitored_machine "core_started E" "core_step E" core_wf extends for E
proof
  show "core_wf t" if "core_step E s t" "core_wf s" for s t
    using that by (auto elim!: core_stepE dest: run_call_wf)
  show "extends s t" if "core_step E s t" "core_wf s" for s t
    using that by (auto elim!: core_stepE dest: run_call_wf)
qed (auto intro: core_started_wf extends_trans)

lemma core_reachable_run: "core_reachable E c \<longleftrightarrow> replica.run E c"
  by (simp add: core_reachable_def replica.run_def)

lemma reachable_wf: "core_reachable E c \<Longrightarrow> core_wf c"
  unfolding core_reachable_run by (rule replica.run_inv)

end
