(* ===== verification/CoreChain.thy ===== *)
theory CoreChain
  imports CoreReach
begin

text \<open>
  What \<open>update\<close> decides: a block is executed only as the tail of a three-chain of certificates
  with direct parents, together with exactly its undecided ancestors; when the block is not on
  the executed branch the documented exception is thrown and nothing changes.
\<close>

section \<open>Committing a block\<close>

lemma genesis_on_branch:
  assumes wf: "store_wf b0 st" and b: "delivered st b"
  shows "on_branch st b0 b"
proof -
  obtain q d where w: "delivered st d" "height_of st d \<le> unat (0 :: u32)"
    "successively (parent_link st) (d # rev q)" "last (d # rev q) = b"
    using walk_delivered [OF wf b, of 0] by blast
  have "d = b0"
  proof (rule ccontr)
    assume "d \<noteq> b0"
    from first_parent [OF wf w(1) this] w(2) show False by auto
  qed
  with on_branch_path [OF w(3)] w(4) show ?thesis by simp
qed

lemma parent_hashes_ne: "store_wf b0 st \<Longrightarrow> delivered st b \<Longrightarrow> b \<noteq> b0 \<Longrightarrow> blk_parent_hashes (heap st b) \<noteq> []"
  using store_wfD(3) [of b0 st b] by (simp add: delivered_wf_def)

lemma commit_branch:
  assumes wf: "core_wf c" and b: "delivered (c_storage c) b"
    and on: "on_branch (c_storage c) (c_b_exec c) b"
  shows "\<exists>bs. successively (parent_link (c_storage c)) (c_b_exec c # bs) \<and> last (c_b_exec c # bs) = b \<and>
    commit E b c = bindS (commit_all E bs c) (\<lambda>_ c. (Inr (), c\<lparr>c_b_exec := b\<rparr>))"
proof -
  let ?st = "c_storage c" and ?h = "blk_height (blk c (c_b_exec c))"
  note W = core_wfD(1) [OF wf]
  have low: "unat ?h \<le> height_of ?st b"
    using on_branch_height [OF W on b] by (simp add: height_of_def)
  obtain q d where w: "walk (heap ?st) ?h b = Inr (q, d)" "successively (parent_link ?st) (d # rev q)"
    "last (d # rev q) = b"
    using walk_delivered [OF W b, of ?h] by blast
  have "d = c_b_exec c"
    using walk_reaches [OF W b _ low, of "c_b_exec c"] w(1) on by (auto simp: height_of_def)
  with w show ?thesis by (intro exI [of _ "rev q"]) (simp add: commit_def)
qed

lemma commit_off_branch:
  assumes wf: "core_wf c" and b: "delivered (c_storage c) b" "b \<noteq> c_b0 c"
    and off: "\<not> on_branch (c_storage c) (c_b_exec c) b"
  shows "commit E b c = (Inl (RuntimeError ''safety breached :(''), c)"
proof -
  let ?st = "c_storage c" and ?h = "blk_height (blk c (c_b_exec c))"
  note W = core_wfD(1) [OF wf]
  obtain q d where w: "walk (heap ?st) ?h b = Inr (q, d)" "successively (parent_link ?st) (d # rev q)"
    "last (d # rev q) = b"
    using walk_delivered [OF W b(1), of ?h] by blast
  have "on_branch ?st d b" using on_branch_path [OF w(2)] w(3) by simp
  with off have d: "d \<noteq> c_b_exec c" by blast
  have ex: "delivered ?st (c_b_exec c)" using core_wfD(2) [OF wf] by (simp add: roots_wf_def)
  have "c_b_exec c \<noteq> c_b0 c" using off genesis_on_branch [OF W b(1)] by auto
  then have "safety_breached b (c_b_exec c) c = RuntimeError ''safety breached :(''"
    using parent_hashes_ne [OF W] b ex by (simp add: safety_breached_def)
  with w(1) d show ?thesis by (simp add: commit_def)
qed

lemma commit_all_error:
  assumes "commit_all E bs c = (Inl e, c')"
  shows "\<exists>k. c_futures c' k = Some (Inl e)"
  using assms
proof (induction bs arbitrary: c)
  case (Cons b bs)
  from Cons.prems have "bindS (commit_blk E b c) (\<lambda>_ c. commit_all E bs c) = (Inl e, c')" by simp
  then show ?case
  proof (cases rule: bindS_snd_cases)
    case (err e')
    then show ?thesis
      using Cons.prems by (auto simp: commit_blk_def Let_def bindS_def split: option.splits sum.splits)
  next
    case (ok x s)
    then show ?thesis using Cons.IH by blast
  qed
qed simp

section \<open>The three-chain\<close>

text \<open>The condition on which \<open>update\<close> commits the block \<open>b\<close> for a new block \<open>nblk\<close>.\<close>

definition three_chain :: "core \<Rightarrow> block_ref \<Rightarrow> block_ref \<Rightarrow> bool" where
  "three_chain c nblk b \<longleftrightarrow>
     (\<exists>blk2 blk1. blk_qc_ref (blk c nblk) = Some blk2 \<and> blk_qc_ref (blk c blk2) = Some blk1 \<and>
        blk_qc_ref (blk c blk1) = Some b \<and> parent_link (c_storage c) blk1 blk2 \<and>
        parent_link (c_storage c) b blk1 \<and>
        blk_decision (blk c blk2) = 0 \<and> blk_decision (blk c blk1) = 0 \<and> blk_decision (blk c b) = 0)"

text \<open>The state in which \<open>update\<close> reaches the commit: only the roots above \<open>b_exec\<close> have moved.\<close>

definition before_commit :: "core \<Rightarrow> core \<Rightarrow> bool" where
  "before_commit c s \<longleftrightarrow>
     core_wf s \<and> extends c s \<and> c_storage s = c_storage c \<and> c_b_exec s = c_b_exec c \<and>
     consensus_of (c_outs s) = consensus_of (c_outs c)"

lemma update_hqc_before: 
  assumes "update_hqc b q c = (Inr (), s)"
  shows "c_b_exec s = c_b_exec c \<and> consensus_of (c_outs s) = consensus_of (c_outs c)"
  using assms by (auto simp: update_hqc_def on_hqc_update_def emit_def split: option.splits if_splits)

lemma start_decode_fields [simp]:
  "c_b_exec (start_decode E b c) = c_b_exec c" "c_outs (start_decode E b c) = c_outs c"
  by (simp_all add: start_decode_def Let_def split: prod.splits)

lemma lock_blk_fields [simp]:
  "c_b_exec (lock_blk b c) = c_b_exec c" "c_outs (lock_blk b c) = c_outs c"
  "c_storage (lock_blk b c) = c_storage c"
  by (simp_all add: lock_blk_def)

lemma update_hqc_ok:
  assumes wf: "core_wf c" and b: "nblk < next_ref (c_storage c)"
  shows "\<exists>s. update_hqc b (blk_qc (blk c nblk)) c = (Inr (), s)"
proof -
  obtain q where "blk_qc (blk c nblk) = Some q" using store_wfD(5) [OF core_wfD(1) [OF wf] b] by blast
  then show ?thesis using core_wfD(2) [OF wf] by (auto simp: update_hqc_def roots_wf_def)
qed

lemma direct_parents_link:
  assumes "parent_link (c_storage c) p2 blk2" and "parent_link (c_storage c) p1 blk1"
  shows "direct_parents blk2 blk1 b c = Inr (p2 = blk1 \<and> p1 = b)"
  using assms by (auto simp: direct_parents_def parent_link_def)

lemma update_cases:
  assumes wf: "core_wf c" and b: "nblk < next_ref (c_storage c)" and run: "update E nblk c = (r, c')"
  obtains (quiet) "r = Inr ()" "before_commit c c'" "\<not> (\<exists>b. three_chain c nblk b)"
  | (commit) b s where "three_chain c nblk b" "before_commit c s" "delivered (c_storage c) b"
      "b \<noteq> c_b0 c" "height_of (c_storage c) b \<le> height_of (c_storage c) (c_b_lock s)"
      "commit E b s = (r, c')"
proof (cases "\<exists>blk2. blk_qc_ref (blk c nblk) = Some blk2 \<and> blk_decision (blk c blk2) = 0")
  case False
  with run have "r = Inr ()" "c' = c" by (auto simp: update_def split: option.splits)
  moreover have "\<not> (\<exists>b. three_chain c nblk b)" using False by (auto simp: three_chain_def)
  ultimately show ?thesis using quiet wf by (simp add: before_commit_def)
next
  case True
  then obtain blk2 where blk2: "blk_qc_ref (blk c nblk) = Some blk2" "blk_decision (blk c blk2) = 0" by blast
  note W = core_wfD(1) [OF wf]
  have ne2: "blk2 \<noteq> c_b0 c" using wf blk2(2) by (rule undecided_not_genesis)
  then have q: "\<And>q. blk_qc (blk c nblk) = Some q \<Longrightarrow> blk_hash (blk c blk2) = qc_obj_hash q"
    and n2: "blk2 < next_ref (c_storage c)"
    using qc_refD(1,2,4) [OF W b blk2(1)] by auto
  obtain s1 where up: "update_hqc blk2 (blk_qc (blk c nblk)) c = (Inr (), s1)"
    using update_hqc_ok [OF wf b] by blast
  have s1: "core_wf s1" "extends c s1" "c_storage s1 = c_storage c"
    using update_hqc_wf [OF wf n2 q up] by simp_all
  then have bef1: "before_commit c s1" using update_hqc_before [OF up] by (simp add: before_commit_def)
  show ?thesis
  proof (cases "\<exists>blk1. blk_qc_ref (blk c blk2) = Some blk1 \<and> blk_decision (blk c blk1) = 0")
    case False
    with run blk2 up s1(3) have "r = Inr ()" "c' = s1"
      by (auto simp: update_def bindS_def split: option.splits)
    moreover have "\<not> (\<exists>b. three_chain c nblk b)" using False blk2(1) by (auto simp: three_chain_def)
    ultimately show ?thesis using quiet bef1 by simp
  next
    case True
    then obtain blk1 where blk1: "blk_qc_ref (blk c blk2) = Some blk1" "blk_decision (blk c blk1) = 0" by blast
    have ne1: "blk1 \<noteq> c_b0 c" using wf blk1(2) by (rule undecided_not_genesis)
    have n1: "blk1 < next_ref (c_storage c)" using qc_refD(1) [OF W n2 blk1(1)] .
    define s where "s = lock_blk blk1 (start_decode E blk1 s1)"
    note sd = start_decode_wf [OF s1(1), of E blk1]
    have lk: "core_wf s \<and> extends (start_decode E blk1 s1) s" "c_storage s = c_storage c"
      "height_of (c_storage c) blk1 \<le> height_of (c_storage c) (c_b_lock s)"
      using lock_blk_wf [of "start_decode E blk1 s1" blk1] sd n1 s1(3) by (simp_all add: s_def)
    have "extends c s" using extends_trans [OF s1(2)] extends_trans [of s1 "start_decode E blk1 s1" s] sd lk(1) by blast
    then have bef: "before_commit c s"
      using lk update_hqc_before [OF up] by (simp add: before_commit_def s_def)
    have del2: "delivered (c_storage c) blk2" using qc_refD(3) [OF W n2 blk1(1)] .
    obtain p2 where p2: "parent_link (c_storage c) p2 blk2" using first_parent [OF W del2 ne2] by blast
    have run1: "(case blk_qc_ref (blk c blk1) of
          None \<Rightarrow> (Inr (), s)
        | Some b \<Rightarrow> if blk_decision (blk c b) \<noteq> 0 then (Inr (), s)
            else case direct_parents blk2 blk1 b s of
                Inl e \<Rightarrow> (Inl e, s) | Inr False \<Rightarrow> (Inr (), s) | Inr True \<Rightarrow> commit E b s) = (r, c')"
      using run blk2 up blk1 s1(3) lk(2) by (simp add: update_def bindS_def Let_def s_def [symmetric] cong: option.case_cong)
    show ?thesis
    proof (cases "\<exists>b. blk_qc_ref (blk c blk1) = Some b \<and> blk_decision (blk c b) = 0")
      case False
      with run1 have "r = Inr ()" "c' = s" by (auto split: option.splits)
      moreover have "\<not> (\<exists>b. three_chain c nblk b)" using False blk1(1) blk2(1) by (auto simp: three_chain_def)
      ultimately show ?thesis using quiet bef by simp
    next
      case True
      then obtain d where d: "blk_qc_ref (blk c blk1) = Some d" "blk_decision (blk c d) = 0" by blast
      have del1: "delivered (c_storage c) blk1" using qc_refD(3) [OF W n1 d(1)] .
      obtain p1 where p1: "parent_link (c_storage c) p1 blk1" "delivered (c_storage c) p1"
        "height_of (c_storage c) blk1 = Suc (height_of (c_storage c) p1)"
        using first_parent [OF W del1 ne1] by blast
      have dp: "direct_parents blk2 blk1 d s = Inr (p2 = blk1 \<and> p1 = d)"
        by (rule direct_parents_link) (simp_all add: lk(2) p2 p1(1))
      show ?thesis
      proof (cases "p2 = blk1 \<and> p1 = d")
        case False
        with run1 d dp have "r = Inr ()" "c' = s" by (auto split: bool.splits)
        moreover have "\<not> (\<exists>b. three_chain c nblk b)"
          using False blk1(1) blk2(1) d(1) p1(1) p2 by (auto simp: three_chain_def parent_link_def)
        ultimately show ?thesis using quiet bef by simp
      next
        case True
        then have "three_chain c nblk d"
          using blk1 blk2 d p1(1) p2 by (auto simp: three_chain_def)
        moreover have "d \<noteq> c_b0 c" using wf d(2) by (rule undecided_not_genesis)
        moreover have "commit E d s = (r, c')" using run1 d dp True by simp
        ultimately show ?thesis using commit bef p1 True lk(3) by simp
      qed
    qed
  qed
qed

lemma set_blk_keeps [simp]:
  "c_b0 (set_blk b f c) = c_b0 c" "c_hqc (set_blk b f c) = c_hqc c"
  "c_b_lock (set_blk b f c) = c_b_lock c" "c_b_exec (set_blk b f c) = c_b_exec c"
  "c_vheight (set_blk b f c) = c_vheight c" "c_config (set_blk b f c) = c_config c"
  "c_id (set_blk b f c) = c_id c" "c_futures (set_blk b f c) = c_futures c"
  "c_sc (set_blk b f c) = c_sc c" "c_outs (set_blk b f c) = c_outs c"
  by (simp_all add: set_blk_def)

section \<open>An example\<close>

text \<open>Four blocks over the genesis block, each certified by the next one, none executed yet.\<close>

definition demo_blk :: "env \<Rightarrow> nat \<Rightarrow> block" where
  "demo_blk E i =
     (block_default E)\<lparr>blk_parent_hashes := (if i = 0 then [] else [word_of_nat (i - 1)]),
        blk_qc := Some (QuorumCertDummy (word_of_nat (i - 1))), blk_hash := word_of_nat i,
        blk_parents := (if i = 0 then [] else [i - 1]), blk_qc_ref := Some (i - 1),
        blk_height := word_of_nat i, blk_delivered := True, blk_decision := (if i = 0 then 1 else 0)\<rparr>"

definition demo_core :: "env \<Rightarrow> core" where
  "demo_core E =
     \<lparr>c_b0 = 0, c_hqc = Some (0, QuorumCertDummy 0), c_b_lock = 0, c_b_exec = 0, c_vheight = 0,
      c_priv_key = PrivKeyDummy, c_tails = {4}, c_config = set_majority 1 (add_replicas 0
        [(1, PubKeyDummy), (2, PubKeyDummy), (3, PubKeyDummy), (4, PubKeyDummy)] empty_config),
      c_qc_waiting = Map.empty, c_propose_waiting = 0, c_receive_proposal_waiting = 1,
      c_hqc_update_waiting = 2, c_next_promise = 3, c_vote_disabled = False, c_id = 0,
      c_storage = \<lparr>heap = demo_blk E, next_ref = 5,
        blk_cache = (\<lambda>h. if unat h < 5 then Some (unat h) else None), cmd_cache = Map.empty\<rparr>,
      c_rse = rse_set_params 4, c_sc = set_pramas 4 sc_default, c_futures = Map.empty, c_outs = []\<rparr>"

lemma demo_core_simps [simp]:
  "c_b0 (demo_core E) = 0" "c_hqc (demo_core E) = Some (0, QuorumCertDummy 0)"
  "c_b_lock (demo_core E) = 0" "c_b_exec (demo_core E) = 0" "c_vheight (demo_core E) = 0"
  "c_outs (demo_core E) = []" "c_futures (demo_core E) = Map.empty" "c_id (demo_core E) = 0"
  "heap (c_storage (demo_core E)) = demo_blk E" "next_ref (c_storage (demo_core E)) = 5"
  "blk_cache (c_storage (demo_core E)) = (\<lambda>h. if unat h < 5 then Some (unat h) else None)"
  "c_sc (demo_core E) = set_pramas 4 sc_default"
  "c_vote_disabled (demo_core E) = False" "c_priv_key (demo_core E) = PrivKeyDummy"
  by (simp_all add: demo_core_def)

lemma demo_blk_simps [simp]:
  "blk_parent_hashes (demo_blk E i) = (if i = 0 then [] else [word_of_nat (i - 1)])"
  "blk_qc (demo_blk E i) = Some (QuorumCertDummy (word_of_nat (i - 1)))"
  "blk_hash (demo_blk E i) = word_of_nat i" "blk_parents (demo_blk E i) = (if i = 0 then [] else [i - 1])"
  "blk_qc_ref (demo_blk E i) = Some (i - 1)" "blk_height (demo_blk E i) = word_of_nat i"
  "blk_delivered (demo_blk E i)" "blk_decision (demo_blk E i) = (if i = 0 then 1 else 0)"
  "blk_self_qc (demo_blk E i) = None" "blk_voted (demo_blk E i) = {}"
  by (simp_all add: demo_blk_def block_default_def)

lemma demo_delivered [simp]: "delivered (c_storage (demo_core E)) r \<longleftrightarrow> r < 5"
  by (simp add: delivered_def)

lemma demo_height: "r < 5 \<Longrightarrow> height_of (c_storage (demo_core E)) r = r"
  by (simp add: height_of_def word_of_nat_eq_small unat_of_nat)

lemma demo_core_wf: "core_wf (demo_core E)"
proof -
  let ?st = "c_storage (demo_core E)"
  have small: "unat (word_of_nat r :: uint256) = r" if "r < 5" for r
    using that by (simp add: unat_of_nat)
  have dset: "delivered_set ?st = {..<5}" by (auto simp: delivered_set_def)
  have "store_wf 0 ?st"
  proof (rule store_wfI)
    show "cache_wf ?st" by (simp add: cache_wf_def small)
    show "genesis_wf 0 ?st" by (simp add: genesis_wf_def demo_height)
    show "delivered_wf ?st r" if "delivered ?st r" "r \<noteq> 0" for r
      using that by (simp add: delivered_wf_def demo_height)
  qed (use dset demo_height in \<open>simp_all\<close>)
  moreover have "roots_wf (demo_core E)" by (simp add: roots_wf_def)
  moreover have "exec_wf (demo_core E)" by (simp add: exec_wf_def)
  ultimately show ?thesis by (simp add: core_wf_def votes_wf_def futures_wf_def self_qc_wf_def)
qed

lemma demo_link: "parent_link (c_storage (demo_core E)) p b \<longleftrightarrow> b = Suc p"
  by (cases b) (auto simp: parent_link_def)

lemma demo_branch: "on_branch (c_storage (demo_core E)) a b \<longleftrightarrow> a \<le> b"
proof
  assume "on_branch (c_storage (demo_core E)) a b"
  then show "a \<le> b" unfolding on_branch_def
    by (induction rule: rtranclp_induct) (simp_all add: demo_link)
next
  assume "a \<le> b"
  then show "on_branch (c_storage (demo_core E)) a b" unfolding on_branch_def
  proof (induction b)
    case (Suc b)
    then show ?case by (cases "a = Suc b") (auto simp: demo_link intro: rtranclp.rtrancl_into_rtrancl)
  qed simp
qed

section \<open>Properties\<close>

text \<open>
  C3: \<open>update\<close> hands blocks to \<open>do_consensus\<close> only for a three-chain: the new block certifies
  \<open>blk2\<close>, which certifies its direct parent \<open>blk1\<close>, which certifies its direct parent \<open>b\<close>, none
  of them decided. If \<open>b\<close> extends the executed branch, exactly the blocks from below \<open>b_exec\<close> up
  to \<open>b\<close> are executed, parents first, and \<open>b\<close> becomes \<open>b_exec\<close>, unless decoding the slices of
  one of them failed before; if it does not, the safety exception is thrown and nothing is
  executed. Without a three-chain nothing is executed, and no other failure is possible.
\<close>

theorem update_decides:
  assumes "core_wf c" and "nblk < next_ref (c_storage c)" and "update E nblk c = (r, c')"
  shows "if \<exists>b. three_chain c nblk b
    then \<exists>b. three_chain c nblk b \<and>
      (if on_branch (c_storage c) (c_b_exec c) b
       then case r of
           Inl e \<Rightarrow> \<exists>k. c_futures c' k = Some (Inl e)
         | Inr _ \<Rightarrow> \<exists>bs. successively (parent_link (c_storage c)) (c_b_exec c # bs) \<and>
             last (c_b_exec c # bs) = b \<and> c_b_exec c' = b \<and>
             consensus_of (c_outs c') = consensus_of (c_outs c) @ bs
       else r = Inl (RuntimeError ''safety breached :('') \<and> c_b_exec c' = c_b_exec c \<and>
         consensus_of (c_outs c') = consensus_of (c_outs c))
    else r = Inr () \<and> c_b_exec c' = c_b_exec c \<and> consensus_of (c_outs c') = consensus_of (c_outs c)"
  using assms
proof (cases rule: update_cases)
  case quiet
  then show ?thesis by (simp add: before_commit_def)
next
  case (commit b s)
  note s = commit(2) [unfolded before_commit_def]
  have wf: "core_wf s" and b: "delivered (c_storage s) b" "b \<noteq> c_b0 s"
    using s commit(3,4) by (simp_all add: extends_def)
  show ?thesis
  proof (cases "on_branch (c_storage c) (c_b_exec c) b")
    case False
    then show ?thesis
      using commit_off_branch [OF wf b] commit(1,6) s by auto
  next
    case True
    then have "on_branch (c_storage s) (c_b_exec s) b" using s by simp
    from commit_branch [OF wf b(1) this, of E] obtain bs where
      bs: "successively (parent_link (c_storage c)) (c_b_exec c # bs)" "last (c_b_exec c # bs) = b"
      "bindS (commit_all E bs s) (\<lambda>_ c. (Inr (), c\<lparr>c_b_exec := b\<rparr>)) = (r, c')"
      unfolding commit(6) using s by metis
    from bs(3) show ?thesis
    proof (cases rule: bindS_snd_cases)
      case (err e)
      then show ?thesis using commit_all_error [OF err(1)] commit(1) True by auto
    next
      case (ok x t)
      then have all: "commit_all E bs s = (Inr (), t)" "r = Inr ()" "c' = t\<lparr>c_b_exec := b\<rparr>" by auto
      from commit_all_commits [OF core_wfD(5) [OF wf] all(1)] have "commits bs s t" by simp
      then have "consensus_of (c_outs c') = consensus_of (c_outs c) @ bs"
        using s by (auto simp: commits_def all(3))
      then show ?thesis using bs commit(1) True all by auto
    qed
  qed
qed

lemma demo_three_chain: "three_chain (demo_core E) 4 b \<longleftrightarrow> b = 1"
  by (auto simp: three_chain_def demo_link)

text \<open>No slice has arrived in the example, so that nothing is decoded.\<close>

lemma demo_start_decode:
  "c_sc c = set_pramas 4 sc_default \<Longrightarrow> start_decode E b c = c"
  by (simp add: start_decode_def get_block_def set_pramas_def sc_default_def Let_def)

lemma demo_update_ok: "fst (update E 4 (demo_core E)) = Inr ()"
  by (simp add: update_def update_hqc_def on_hqc_update_def emit_def demo_start_decode
      lock_blk_def direct_parents_def commit_def walk_simps commit_blk_def Let_def bindS_def)

lemma update_decides_witness:
  "\<exists>c'. update (toy_env NoSig) 4 (demo_core (toy_env NoSig)) = (Inr (), c') \<and> c_b_exec c' = 1 \<and>
     consensus_of (c_outs c') = [1]"
proof -
  let ?E = "toy_env NoSig" and ?c = "demo_core (toy_env NoSig)"
  obtain c' where run: "update ?E 4 ?c = (Inr (), c')"
    using demo_update_ok [of ?E] by (cases "update ?E 4 ?c") simp
  from update_decides [OF demo_core_wf _ run] obtain bs where
    bs: "successively (parent_link (c_storage ?c)) (0 # bs)" "last (0 # bs) = 1" "c_b_exec c' = 1"
      "consensus_of (c_outs c') = bs"
    by (simp only: demo_three_chain demo_branch demo_core_simps) auto
  have "bs = [1]"
  proof (cases bs)
    case (Cons x xs)
    show ?thesis
    proof (cases xs)
      case (Cons y ys)
      then have "on_branch (c_storage ?c) y (last (y # ys))"
        using bs(1) \<open>bs = x # xs\<close> by (intro on_branch_path) simp
      then have "y \<le> last (y # ys)" unfolding demo_branch .
      then show ?thesis using bs(1,2) \<open>bs = x # xs\<close> Cons by (auto simp: demo_link split: if_splits)
    qed (use bs(2) Cons in simp)
  qed (use bs(2) in simp)
  with run bs show ?thesis by simp
qed

end
