(* ===== verification/CoreVotes.thy ===== *)
theory CoreVotes
  imports CoreChain
begin

text \<open>
  What a replica guarantees in every state it can reach: one executed chain that only grows,
  at most one vote per height; and what it does with a proposal and with the votes for a block.
\<close>

section \<open>Proposals\<close>

text \<open>What stays between the arrival of a proposal and the decision to vote, and while proposing.\<close>

definition same_votes :: "core \<Rightarrow> core \<Rightarrow> bool" where
  "same_votes c s \<longleftrightarrow>
     c_vheight s = c_vheight c \<and> votes_of (c_outs s) = votes_of (c_outs c) \<and>
     c_vote_disabled s = c_vote_disabled c \<and> c_priv_key s = c_priv_key c \<and> c_rse s = c_rse c"

lemma same_votes_refl [simp]: "same_votes c c"
  by (simp add: same_votes_def)

lemma same_votes_trans: "same_votes a b \<Longrightarrow> same_votes b c \<Longrightarrow> same_votes a c"
  by (simp add: same_votes_def)

lemma on_receive_slice_votes: "same_votes c (snd (on_receive_slice E x c))"
  by (simp add: on_receive_slice_def same_votes_def Let_def split: prod.splits)

lemma update_hqc_votes: "same_votes c (snd (update_hqc b q c))"
  by (simp add: update_hqc_def same_votes_def on_hqc_update_def emit_def split: option.splits)

lemma start_decode_votes: "same_votes c (start_decode E b c)"
  by (simp add: start_decode_def same_votes_def Let_def split: prod.splits)

lemma lock_blk_votes: "same_votes c (lock_blk b c)"
  by (simp add: lock_blk_def same_votes_def)

lemma decide_fold_votes: "same_votes c (foldl (\<lambda>c i. emit (DoDecide (g c i)) c) c is)"
proof (induction "is" arbitrary: c)
  case (Cons i js)
  have "same_votes c (emit (DoDecide (g c i)) c)" by (simp add: same_votes_def emit_def)
  then show ?case using Cons.IH [of "emit (DoDecide (g c i)) c"] by (auto intro: same_votes_trans)
qed simp

lemma commit_blk_votes: "same_votes c (snd (commit_blk E b c))"
proof -
  let ?c1 = "emit (DoConsensus b) (set_blk b (\<lambda>x. x\<lparr>blk_decision := 1\<rparr>) c)"
  have c1: "same_votes c ?c1" by (simp add: same_votes_def emit_def set_blk_def)
  show ?thesis
  proof (cases "c_futures ?c1 (e_get_hex E (blk_hash (blk c b)))")
    case (Some fu)
    let ?c2 = "?c1\<lparr>c_futures := (c_futures ?c1)(e_get_hex E (blk_hash (blk c b)) := None),
      c_sc := snd (sc_remove (e_get_hex E (blk_hash (blk c b))) (c_sc ?c1))\<rparr>"
    have "same_votes ?c1 ?c2" by (simp add: same_votes_def)
    with c1 have c2: "same_votes c ?c2" by (rule same_votes_trans)
    show ?thesis
    proof (cases fu)
      case (Inr cmds)
      have "same_votes ?c2 (snd (commit_blk E b c))"
        using Some Inr by (simp add: commit_blk_def Let_def decide_fold_votes del: set_blk_keeps)
      with c2 show ?thesis by (rule same_votes_trans)
    qed (use Some c1 in \<open>simp add: commit_blk_def Let_def\<close>)
  qed (use c1 in \<open>simp add: commit_blk_def Let_def\<close>)
qed

lemma bindS_votes:
  assumes "same_votes c (snd m)" and "\<And>x s. same_votes s (snd (f x s))"
  shows "same_votes c (snd (bindS m f))"
  using assms by (cases m; cases "fst m") (auto simp: bindS_def intro: same_votes_trans)

lemma commit_all_votes: "same_votes c (snd (commit_all E bs c))"
proof (induction bs arbitrary: c)
  case (Cons b bs)
  then show ?case by (simp add: bindS_votes commit_blk_votes)
qed simp

lemma commit_votes: "same_votes c (snd (commit E b c))"
proof -
  have "same_votes c (snd (bindS (commit_all E bs c) (\<lambda>_ c. (Inr (), c\<lparr>c_b_exec := b\<rparr>))))" for bs
    by (intro bindS_votes commit_all_votes) (simp add: same_votes_def)
  then show ?thesis by (simp add: commit_def split: sum.split prod.split)
qed

lemma update_votes: "same_votes c (snd (update E nblk c))"
proof -
  have step: "same_votes c (lock_blk blk1 (start_decode E blk1 c))" for blk1 c
    by (rule same_votes_trans [OF start_decode_votes lock_blk_votes])
  have "same_votes c (snd (commit E b (lock_blk blk1 (start_decode E blk1 c))))" for b blk1 c
    by (rule same_votes_trans [OF step commit_votes])
  with step show ?thesis
    unfolding update_def Let_def
    by (auto intro!: bindS_votes update_hqc_votes split: option.split sum.split bool.split)
qed

text \<open>
  The state in which the opinion on the block \<open>b\<close> of a proposal is formed, or \<open>None\<close> when the
  handling fails before: the slice is valid, it is stored and forwarded, and \<open>update\<close> has run on the
  block, which is delivered, when the proposal is another replica's.
\<close>

definition opinion_state :: "env \<Rightarrow> proposal \<Rightarrow> block_ref \<Rightarrow> core \<Rightarrow> core option" where
  "opinion_state E p b c =
     (if slice_get_hash E (p_slice p) = Inr (p_s_hash p) \<and> validate (e_sha_hex E) (p_slice p) \<and>
         fst (on_receive_slice E (p_slice p) c) = Inr ()
      then let s = emit (DoBroadcastSlice (p_slice p)) (snd (on_receive_slice E (p_slice p) c)) in
        if p_proposer p = c_id c then Some s
        else if blk_delivered (blk c b) \<and> fst (update E b s) = Inr () then Some (snd (update E b s))
        else None
      else None)"

lemma on_receive_proposal_state:
  assumes wf: "core_wf c" and blk: "p_blk p = Some b" "b < next_ref (c_storage c)"
    and run: "on_receive_proposal E p c = (r, c')" and surv: "survives r"
  shows "case opinion_state E p b c of
      None \<Rightarrow> (\<exists>e. r = Inl e) \<and> same_votes c c'
    | Some s \<Rightarrow> core_wf s \<and> extends c s \<and> same_votes c s \<and> finish_proposal E p b s = (r, c')"
proof (cases "slice_get_hash E (p_slice p) = Inr (p_s_hash p) \<and> validate (e_sha_hex E) (p_slice p)")
  case False
  with run have "(\<exists>e. r = Inl e) \<and> c' = c" by (auto simp: on_receive_proposal_def split: sum.splits if_splits)
  moreover have "opinion_state E p b c = None" using False by (auto simp: opinion_state_def)
  ultimately show ?thesis by simp
next
  case True
  obtain x c1 where slice: "on_receive_slice E (p_slice p) c = (x, c1)" by force
  have v1: "same_votes c c1" using on_receive_slice_votes [of c E "p_slice p"] slice by simp
  have c1: "core_wf c1" "extends c c1" "c_storage c1 = c_storage c"
    using on_receive_slice_wf [OF wf slice] by simp_all
  define c2 where "c2 = emit (DoBroadcastSlice (p_slice p)) c1"
  have c2: "core_wf c2" "extends c c2" "c_storage c2 = c_storage c" "same_votes c c2" "c_id c2 = c_id c"
  proof -
    have "same_roots c1 c2" by (simp add: c2_def emit_same_roots)
    moreover have "c_futures c2 = c_futures c1" by (simp add: c2_def)
    ultimately show "core_wf c2" "extends c c2" "c_storage c2 = c_storage c" "c_id c2 = c_id c"
      using same_roots_wf [of c1 c2] c1 core_wfD(5) [OF c1(1)] futures_wf_cong [of c2 c1] extends_trans
      by (auto simp: same_roots_def extends_def)
    show "same_votes c c2" using v1 by (simp add: c2_def same_votes_def emit_def)
  qed
  show ?thesis
  proof (cases x)
    case (Inl e)
    then have "r = Inl e" "c' = c1" using run True slice by (auto simp: on_receive_proposal_def bindS_def)
    moreover have "opinion_state E p b c = None" using Inl slice by (simp add: opinion_state_def)
    ultimately show ?thesis using v1 by simp
  next
    case (Inr u)
    define up where "up = (if p_proposer p = c_id c2 then (Inr (), c2)
        else case sanity_check_delivered b c2 of Inl e \<Rightarrow> (Inl e, c2) | Inr _ \<Rightarrow> update E b c2)"
    have state: "opinion_state E p b c = (if fst up = Inr () then Some (snd up) else None)"
      using True slice Inr c2(3,5)
      by (auto simp: opinion_state_def up_def sanity_check_delivered_def c2_def [symmetric])
    have run2: "bindS up (\<lambda>_ c. finish_proposal E p b c) = (r, c')"
      using run True slice Inr blk(1)
      by (auto simp: on_receive_proposal_def Let_def up_def c2_def [symmetric] cong: sum.case_cong)
    have vu: "same_votes c2 (snd up)"
      by (auto simp: up_def sanity_check_delivered_def update_votes)
    from run2 show ?thesis
    proof (cases rule: bindS_snd_cases)
      case (err e)
      then show ?thesis using state vu same_votes_trans [OF c2(4)] by auto
    next
      case (ok y s)
      have "core_wf s \<and> extends c2 s"
        using ok(1) update_wf [OF c2(1), of b E "Inr ()" s] blk(2) c2(1,3)
        by (auto simp: up_def sanity_check_delivered_def split: if_splits)
      then show ?thesis
        using state ok vu same_votes_trans [OF c2(4)] extends_trans [OF c2(2)] by auto
    qed
  qed
qed

text \<open>The end of the handling: voting, or not, on a block according to the rule.\<close>

definition voting :: "env \<Rightarrow> proposal \<Rightarrow> block_ref \<Rightarrow> core \<Rightarrow> unit res \<Rightarrow> core \<Rightarrow> bool" where
  "voting E p b s r c' \<longleftrightarrow>
     c_vheight c' = (if vote_rule s b then blk_height (blk s b) else c_vheight s) \<and>
     (if vote_rule s b \<and> \<not> c_vote_disabled s
      then case create_part_cert (e_crypto E) (e_kind E) (c_priv_key s) (blk_hash (blk s b)) of
          Inl e \<Rightarrow> r = Inl e \<and> votes_of (c_outs c') = votes_of (c_outs s)
        | Inr cert \<Rightarrow> r = Inr () \<and>
            (let v = \<lparr>v_voter = c_id s, v_blk_hash = blk_hash (blk s b), v_cert = Some cert, v_hsc = True\<rparr> in
             votes_of (c_outs c') = votes_of (c_outs s) @ [v] \<and> last (c_outs c') = DoVote (p_proposer p) v)
      else r = Inr () \<and> votes_of (c_outs c') = votes_of (c_outs s))"

lemma finish_votes:
  assumes wf: "core_wf s" and b: "b < next_ref (c_storage s)"
    and run: "finish_proposal E p b s = (r, c')"
  shows "voting E p b s r c'"
proof -
  define qf where "qf c = (case blk_qc_ref (blk c b) of None \<Rightarrow> c
    | Some r \<Rightarrow> if p_proposer p = c_id c then c else on_qc_finish r c)" for c
  define t where "t = on_receive_proposal_fin p (qf
    (if vote_rule s b then s\<lparr>c_vheight := blk_height (blk s b)\<rparr> else s))"
  have t: "votes_of (c_outs t) = votes_of (c_outs s)" "c_storage t = c_storage s" "c_id t = c_id s"
    "c_vote_disabled t = c_vote_disabled s" "c_priv_key t = c_priv_key s"
    "c_vheight t = (if vote_rule s b then blk_height (blk s b) else c_vheight s)"
    by (auto simp: t_def qf_def on_receive_proposal_fin_def on_qc_finish_def emit_def split: option.split)
  define vote where "vote opinion t = (if opinion \<and> \<not> c_vote_disabled t
      then case create_part_cert (e_crypto E) (e_kind E) (c_priv_key t) (blk_hash (blk t b)) of
          Inl e \<Rightarrow> (Inl e, t)
        | Inr cert \<Rightarrow> (Inr (), emit (DoVote (p_proposer p)
            \<lparr>v_voter = c_id t, v_blk_hash = blk_hash (blk t b),
             v_cert = Some cert, v_hsc = True\<rparr>) t)
      else (Inr (), t))" for opinion t
  have "finish_proposal E p b s = (case opinion_on b s of Inl e \<Rightarrow> (Inl e, s)
      | Inr opinion \<Rightarrow> vote opinion (on_receive_proposal_fin p (qf
          (if opinion then s\<lparr>c_vheight := blk_height (blk s b)\<rparr> else s))))"
    by (simp only: finish_proposal_def Let_def qf_def vote_def)
  then have "vote (vote_rule s b) t = (r, c')"
    using run opinion_on_rule [OF wf b] by (simp add: t_def)
  then show ?thesis
    unfolding voting_def using t unfolding vote_def by (auto simp: emit_def Let_def split: if_splits sum.splits)
qed

text \<open>What a vote that was cast says, for the proofs that only follow the votes.\<close>

lemma voting_cases:
  assumes "voting E p b s r c'"
  obtains (quiet) "votes_of (c_outs c') = votes_of (c_outs s)" "vote_rule s b \<and> \<not> c_vote_disabled s \<Longrightarrow> \<exists>e.
      create_part_cert (e_crypto E) (e_kind E) (c_priv_key s) (blk_hash (blk s b)) = Inl e"
  | (vote) cert where "vote_rule s b" "\<not> c_vote_disabled s" "r = Inr ()" "c_vheight c' = blk_height (blk s b)"
      "votes_of (c_outs c') = votes_of (c_outs s) @
         [\<lparr>v_voter = c_id s, v_blk_hash = blk_hash (blk s b), v_cert = Some cert, v_hsc = True\<rparr>]"
proof (cases "vote_rule s b \<and> \<not> c_vote_disabled s")
  case False
  with assms that(1) show ?thesis by (auto simp: voting_def)
next
  case True
  then show ?thesis
    using assms that
    by (cases "create_part_cert (e_crypto E) (e_kind E) (c_priv_key s) (blk_hash (blk s b))")
       (auto simp: voting_def Let_def)
qed

text \<open>
  C6: A replica that handles a proposal votes for its block exactly when voting is enabled and the
  voting rule holds in the state that storing the slice and \<open>update\<close> lead to: the block is higher
  than every block voted for before, and it certifies a block above the locked one or extends the
  locked block. It then casts one vote, signed over the hash of that block and sent to the
  proposer; \<open>vheight\<close> becomes the block's height whenever the rule holds, and stays otherwise.
  When an earlier step fails, it has not voted.
\<close>

theorem proposal_votes:
  assumes "core_wf c" and "p_blk p = Some b" and "b < next_ref (c_storage c)"
    and "on_receive_proposal E p c = (r, c')" and "survives r"
  shows "case opinion_state E p b c of
      None \<Rightarrow> (\<exists>e. r = Inl e) \<and> votes_of (c_outs c') = votes_of (c_outs c) \<and> c_vheight c' = c_vheight c
    | Some s \<Rightarrow>
        c_vheight s = c_vheight c \<and>
        c_vheight c' = (if vote_rule s b then blk_height (blk c' b) else c_vheight c) \<and>
        (if vote_rule s b \<and> \<not> c_vote_disabled c
         then case create_part_cert (e_crypto E) (e_kind E) (c_priv_key c) (blk_hash (blk c b)) of
             Inl e \<Rightarrow> r = Inl e \<and> votes_of (c_outs c') = votes_of (c_outs c)
           | Inr cert \<Rightarrow> r = Inr () \<and>
               (let v = \<lparr>v_voter = c_id c, v_blk_hash = blk_hash (blk c b), v_cert = Some cert, v_hsc = True\<rparr> in
                votes_of (c_outs c') = votes_of (c_outs c) @ [v] \<and> last (c_outs c') = DoVote (p_proposer p) v)
         else r = Inr () \<and> votes_of (c_outs c') = votes_of (c_outs c))"
proof (cases "opinion_state E p b c")
  case None
  with on_receive_proposal_state [OF assms] show ?thesis by (simp add: same_votes_def)
next
  case (Some s)
  with on_receive_proposal_state [OF assms] have s: "core_wf s" "extends c s" "same_votes c s"
    "finish_proposal E p b s = (r, c')" by simp_all
  have b: "b < next_ref (c_storage s)" "blk_hash (blk s b) = blk_hash (blk c b)" "c_id s = c_id c"
    using s(2) assms(3) by (auto simp: extends_def)
  have "c_storage c' = c_storage s"
    using s(4) by (auto simp: finish_proposal_def on_receive_proposal_fin_def on_qc_finish_def emit_def Let_def
        split: sum.splits option.splits if_splits)
  moreover note finish_votes [OF s(1) b(1) s(4)]
  ultimately show ?thesis
    using s(3) b(2,3) Some
    by (cases "create_part_cert (e_crypto E) (e_kind E) (c_priv_key s) (blk_hash (blk s b))")
       (auto simp: same_votes_def voting_def Let_def)
qed

end
