(* ===== verification/CoreExample.thy ===== *)
theory CoreExample
  imports CoreVotes
begin

text \<open>
  A run of a replica, for the concrete instances of the properties: one of four replicas
  starts, receives a block over the genesis block, delivers it, and votes for it when it is
  proposed.
\<close>

section \<open>The environment and the start\<close>

text \<open>A hash that tells the blocks of this run apart by their lengths.\<close>

definition sample_env :: env where
  "sample_env = (toy_env NoSig)\<lparr>e_get_hash := (\<lambda>s. word_of_nat (length s))\<rparr>"

lemma sample_env_simps [simp]:
  "e_stream sample_env = le_stream" "e_crypto sample_env = toy_crypto" "e_kind sample_env = NoSig"
  "e_leo sample_env = parity_leo" "e_get_hash sample_env = (\<lambda>s. word_of_nat (length s))"
  "e_uint256_default sample_env = 0"
  by (simp_all add: sample_env_def)

definition sample_start :: core where
  "sample_start = start_core sample_env
     [(1, PubKeyDummy), (2, PubKeyDummy), (3, PubKeyDummy), (4, PubKeyDummy)] 1
     (projr (hotstuff_core sample_env 0 PrivKeyDummy))"

lemma sample_genesis:
  "block_genesis sample_env True 1 = Inr ((block_default sample_env)\<lparr>blk_qc := Some (QuorumCertDummy 0),
     blk_delivered := True, blk_decision := 1, blk_hash := 48\<rparr>)"
  by (simp add: block_genesis_def block_get_hash_def put_block_def put_vec_def put_blob_def
      block_default_def le_stream_def)

lemma sample_core:
  "\<exists>c. hotstuff_core sample_env 0 PrivKeyDummy = Inr c \<and> blk_hash (blk c 0) = 48 \<and> c_sc c = sc_default \<and>
     c_priv_key c = PrivKeyDummy \<and> \<not> c_vote_disabled c \<and> c_id c = 0 \<and> c_vheight c = 0 \<and>
     c_config c = empty_config"
  by (simp add: hotstuff_core_def sample_genesis parity_leo_def alloc_blk_def add_blk_ref_def
      empty_storage_def Let_def split: option.split)

lemma sample_start:
  "core_started sample_env sample_start" "core_wf sample_start" "blk_hash (blk sample_start 0) = 48"
  "c_b0 sample_start = 0" "c_b_lock sample_start = 0" "c_outs sample_start = []"
  "next_ref (c_storage sample_start) = 1" "blk_cache (c_storage sample_start) = [48 \<mapsto> 0]"
  "c_sc sample_start = set_pramas 4 sc_default" "c_priv_key sample_start = PrivKeyDummy"
  "\<not> c_vote_disabled sample_start" "c_id sample_start = 0" "c_vheight sample_start = 0"
  "blk_delivered (blk sample_start 0)" "blk_height (blk sample_start 0) = 0"
  "nmajority (c_config sample_start) = 3"
proof -
  obtain c where c: "hotstuff_core sample_env 0 PrivKeyDummy = Inr c" "blk_hash (blk c 0) = 48"
    "c_sc c = sc_default" "c_priv_key c = PrivKeyDummy" "\<not> c_vote_disabled c" "c_id c = 0" "c_vheight c = 0"
    "c_config c = empty_config"
    using sample_core by blast
  note pre = hotstuff_core_pre_init [OF c(1), unfolded pre_init_def]
  have S: "sample_start = start_core sample_env
     [(1, PubKeyDummy), (2, PubKeyDummy), (3, PubKeyDummy), (4, PubKeyDummy)] 1 c"
    by (simp add: sample_start_def c(1))
  then show started: "core_started sample_env sample_start" using c(1) unfolding core_started_def by blast
  then show "core_wf sample_start" by (rule core_started_wf)
  show "blk_hash (blk sample_start 0) = 48" "c_b0 sample_start = 0" "c_b_lock sample_start = 0"
    "c_outs sample_start = []" "next_ref (c_storage sample_start) = 1"
    "blk_cache (c_storage sample_start) = [48 \<mapsto> 0]" "c_sc sample_start = set_pramas 4 sc_default"
    "c_priv_key sample_start = PrivKeyDummy" "\<not> c_vote_disabled sample_start" "c_id sample_start = 0"
    "c_vheight sample_start = 0" "blk_delivered (blk sample_start 0)" "blk_height (blk sample_start 0) = 0"
    "nmajority (c_config sample_start) = 3"
    using c pre by (simp_all add: S start_core_def Let_def on_init_def add_replica_def set_blk_def upd_blk_def
        set_majority_def cfg_add_replica_def empty_config_def)
qed

section \<open>A block arrives\<close>

definition sample_child :: block where
  "sample_child = (block_default sample_env)\<lparr>blk_parent_hashes := [48],
     blk_qc := Some (QuorumCertDummy 48), blk_hash := 80\<rparr>"

definition sample_bytes :: bytes where
  "sample_bytes = projr (put_block sample_env sample_child)"

lemma sample_parse: "get_block_data sample_env sample_bytes = Inr (sample_child, [])"
proof -
  have put: "\<exists>s. put_block sample_env sample_child = Inr s \<and> length s = 80"
    by (simp add: sample_child_def put_block_def put_vec_def put_blob_def block_default_def le_stream_def)
  then have "block_get_hash sample_env sample_child = Inr (blk_hash sample_child)"
    by (auto simp: block_get_hash_def sample_child_def)
  moreover have "block_ok sample_env sample_child"
    by (simp add: block_ok_def sample_child_def block_default_def)
  moreover have "(block_content sample_env sample_child)\<lparr>blk_hash := blk_hash sample_child\<rparr> = sample_child"
    by (simp add: block_content_def sample_child_def block_default_def)
  ultimately obtain s where s: "put_block sample_env sample_child = Inr s"
    "\<forall>r. get_block_data sample_env (s @ r) = Inr (sample_child, r)"
    using block_codec_total [of sample_env sample_child] le.laws by auto
  from s(2) have "get_block_data sample_env (s @ []) = Inr (sample_child, [])" by blast
  then show ?thesis by (simp add: sample_bytes_def s(1))
qed

definition sample_fetched :: core where
  "sample_fetched = store_blk sample_child sample_start"

definition sample_delivered :: core where
  "sample_delivered = deliver_state 1 sample_fetched"

lemma sample_fetched:
  "c_storage sample_fetched = (c_storage sample_start)\<lparr>heap := (blk sample_start)(1 := sample_child),
     next_ref := 2, blk_cache := [48 \<mapsto> 0, 80 \<mapsto> 1]\<rparr>"
  using sample_start(7,8) by (simp add: sample_fetched_def store_blk_def add_blk_def alloc_blk_def
      add_blk_ref_def sample_child_def Let_def)

lemma sample_pre: "deliver_pre 1 sample_fetched"
  using sample_start(14)
  by (simp add: deliver_pre_def sample_fetched sample_child_def block_default_def is_blk_delivered_def
      is_blk_fetched_def)

lemma sample_delivered:
  "blk_delivered (blk sample_delivered 1)" "blk_height (blk sample_delivered 1) = 1"
  "blk_parents (blk sample_delivered 1) = [0]" "blk_qc_ref (blk sample_delivered 1) = Some 0"
  "blk_hash (blk sample_delivered 1) = 80" "blk sample_delivered 0 = blk sample_start 0"
  "next_ref (c_storage sample_delivered) = 2" "blk_voted (blk sample_delivered 1) = {}"
  using sample_start(15)
  by (simp_all add: sample_delivered_def deliver_state_def sample_fetched sample_child_def find_blk_def
      block_default_def Let_def)

lemma sample_delivered_keeps [simp]:
  "c_b0 sample_delivered = 0" "c_b_lock sample_delivered = 0" "c_outs sample_delivered = []"
  "c_sc sample_delivered = set_pramas 4 sc_default" "c_priv_key sample_delivered = PrivKeyDummy"
  "\<not> c_vote_disabled sample_delivered" "c_id sample_delivered = 0" "c_vheight sample_delivered = 0"
  using sample_start by (simp_all add: sample_delivered_def deliver_state_def sample_fetched_def
      store_blk_def set_blk_def Let_def)

lemma sample_reaches: "core_reachable sample_env sample_delivered"
proof -
  have "core_step sample_env sample_start sample_fetched"
    by (rule core_step.call [of _ _ "Fetch sample_bytes" "Inr ()"])
       (simp_all add: sample_start(7) sample_parse sample_fetched_def)
  moreover have wf: "core_wf sample_fetched"
    unfolding sample_fetched_def
    using store_blk_wf [OF sample_start(2) get_block_data_fresh [OF sample_parse]] by blast
  have "core_step sample_env sample_fetched sample_delivered"
    by (rule core_step.call [of _ _ "Deliver 1" "Inr ()"])
       (simp_all add: sample_fetched sample_pre on_deliver_blk_pre [OF wf sample_pre] sample_delivered_def bindS_def
         del: One_nat_def)
  ultimately show ?thesis
    using sample_start(1) unfolding core_reachable_def by (blast intro: rtranclp.rtrancl_into_rtrancl)
qed

section \<open>A proposal and a vote\<close>

text \<open>The slice is the only leaf of its tree.\<close>

definition sample_part :: slice where
  "sample_part = \<lparr>m_data = [1], m_index = 0, m_root_hash = e_sha_hex sample_env [1], m_branch = [],
     m_blk_hash = 80\<rparr>"

definition sample_proposal :: proposal where
  "sample_proposal = projr (new_proposal sample_env 0 sample_part (Some 1) True)"

lemma sample_part_hash: "\<exists>h. slice_get_hash sample_env sample_part = Inr h"
  by (simp add: slice_get_hash_def put_slice_def sample_part_def)

lemma sample_proposal:
  "p_proposer sample_proposal = 0" "p_blk sample_proposal = Some 1" "p_slice sample_proposal = sample_part"
  "slice_get_hash sample_env sample_part = Inr (p_s_hash sample_proposal)"
  using sample_part_hash by (auto simp: sample_proposal_def new_proposal_def)

lemma sample_rule:
  assumes "c_storage s = c_storage sample_delivered" "c_vheight s = 0" "c_b_lock s = 0"
  shows "vote_rule s 1"
proof -
  have "parent_link (c_storage s) 0 1" using assms(1) sample_delivered(3) by (simp add: parent_link_def)
  then have "on_branch (c_storage s) 0 1" unfolding on_branch_def by blast
  then show ?thesis using assms sample_delivered(2) by (simp add: vote_rule_def height_of_def)
qed

lemma sample_votes:
  "\<exists>c. on_receive_proposal sample_env sample_proposal sample_delivered = (Inr (), c) \<and>
     core_reachable sample_env c \<and> length (votes_of (c_outs c)) = 1 \<and> c_vheight c = 1"
proof -
  have valid: "validate (e_sha_hex sample_env) sample_part"
    by (simp add: validate_def sample_part_def)
  define s where "s = emit (DoBroadcastSlice sample_part) (snd (on_receive_slice sample_env sample_part sample_delivered))"
  have slice: "fst (on_receive_slice sample_env sample_part sample_delivered) = Inr ()"
    using valid by (simp add: on_receive_slice_def insert_shard_def new_block_def sc_entry_def sample_part_def
        set_pramas_def sc_default_def map_insert_apply Let_def split: prod.split)
  have s: "c_storage s = c_storage sample_delivered" "c_vheight s = 0" "c_b_lock s = 0" "c_id s = 0"
    "c_vote_disabled s = False" "c_priv_key s = PrivKeyDummy" "votes_of (c_outs s) = []"
    using valid by (simp_all add: s_def on_receive_slice_def emit_def Let_def split: prod.split)
  obtain r c where fin: "finish_proposal sample_env sample_proposal 1 s = (r, c)" by force
  have run: "on_receive_proposal sample_env sample_proposal sample_delivered = (r, c)"
    using fin slice valid s(4)
    by (cases "on_receive_slice sample_env sample_part sample_delivered")
       (simp add: on_receive_proposal_def sample_proposal s_def bindS_def)
  have wf: "core_wf sample_delivered" using sample_reaches by (rule reachable_wf)
  have wfs: "core_wf s"
  proof -
    obtain x c1 where c1: "on_receive_slice sample_env sample_part sample_delivered = (x, c1)" by force
    then have "core_wf c1" using on_receive_slice_wf [OF wf] by blast
    moreover have "same_roots c1 s" using c1 by (simp add: s_def emit_same_roots)
    moreover have "futures_wf s" using core_wfD(5) [OF \<open>core_wf c1\<close>] c1 by (simp add: s_def futures_wf_def)
    ultimately show ?thesis using same_roots_wf by blast
  qed
  have b: "1 < next_ref (c_storage s)" using s(1) sample_delivered(7) by simp
  have "r = Inr () \<and> length (votes_of (c_outs c)) = 1 \<and> c_vheight c = 1"
    using finish_votes [OF wfs b fin] sample_rule [OF s(1-3)] s(1,5-7) sample_delivered(2)
    by (simp add: voting_def Let_def)
  then have r: "r = Inr ()" and voted: "length (votes_of (c_outs c)) = 1 \<and> c_vheight c = 1" by blast+
  have "core_step sample_env sample_delivered c"
    by (rule core_step.call [of _ _ "ReceiveProposal sample_proposal" "Inr ()"])
       (simp_all add: run r sample_proposal(2) sample_delivered(7))
  then have "core_reachable sample_env c"
    using sample_reaches unfolding core_reachable_def by (blast intro: rtranclp.rtrancl_into_rtrancl)
  then show ?thesis using run r voted by blast
qed

lemma proposal_votes_witness:
  "\<exists>c :: core. on_receive_proposal sample_env sample_proposal sample_delivered = (Inr (), c) \<and>
     votes_of (c_outs c) = [\<lparr>v_voter = 0, v_blk_hash = 80, v_cert = Some (PartCertDummy 80), v_hsc = True\<rparr>] \<and>
     c_vheight c = blk_height (blk c 1)"
proof -
  obtain c where run: "on_receive_proposal sample_env sample_proposal sample_delivered = (Inr (), c)"
    and voted: "length (votes_of (c_outs c)) = 1"
    using sample_votes by blast
  have "1 < next_ref (c_storage sample_delivered)" by (simp add: sample_delivered(7))
  from proposal_votes [OF reachable_wf [OF sample_reaches] sample_proposal(2) this run] voted
  have "votes_of (c_outs c) = [\<lparr>v_voter = 0, v_blk_hash = 80, v_cert = Some (PartCertDummy 80), v_hsc = True\<rparr>] \<and>
      c_vheight c = blk_height (blk c 1)"
    by (simp add: sample_delivered(5) Let_def del: One_nat_def split: option.splits if_splits)
  then show ?thesis using run by simp
qed

end
