(* ===== verification/CoreHistory.thy ===== *)
theory CoreHistory
  imports CoreExample
begin

text \<open>
  What holds in every state a replica can reach, whatever calls it receives: one executed chain
  that only grows, heights that never go down, and at most one vote per height.
\<close>

section \<open>The executed chain\<close>

lemma distinct_chain:
  assumes wf: "store_wf b0 st" and "successively (parent_link st) (d # bs)"
    and "\<forall>b\<in>set bs. delivered st b \<and> b \<noteq> b0"
  shows "distinct (d # bs)"
proof -
  have height: "height_of st ((d # bs) ! i) = height_of st d + i" if "i < length (d # bs)" for i
    by (rule path_heights [OF assms]) (use that in simp)
  have "i = j" if "i < length (d # bs)" "j < length (d # bs)" "(d # bs) ! i = (d # bs) ! j" for i j
  proof -
    have "height_of st d + i = height_of st d + j"
      using height [OF that(1)] height [OF that(2)] unfolding that(3) by (rule trans [OF sym])
    then show ?thesis by simp
  qed
  then show ?thesis unfolding distinct_conv_nth by blast
qed

text \<open>
  C4: In every state a replica can reach, the blocks that were handed to \<open>do_consensus\<close>, in
  order, are a path of direct parents from the genesis block to \<open>b_exec\<close> without repetition,
  and they (with the genesis block) are exactly the blocks marked as decided.
\<close>

theorem executed_chain:
  assumes "core_reachable E c"
  shows "let bs = c_b0 c # consensus_of (c_outs c) in
    successively (parent_link (c_storage c)) bs \<and> last bs = c_b_exec c \<and> distinct bs \<and>
    {r. r < next_ref (c_storage c) \<and> blk_decision (blk c r) \<noteq> 0} = set bs"
proof -
  let ?bs = "c_b0 c # consensus_of (c_outs c)"
  note wf = reachable_wf [OF assms]
  have ex: "successively (parent_link (c_storage c)) ?bs" "last ?bs = c_b_exec c"
    "\<forall>b\<in>set (consensus_of (c_outs c)). delivered (c_storage c) b \<and> b \<noteq> c_b0 c"
    "\<forall>r<next_ref (c_storage c). blk_decision (blk c r) \<noteq> 0 \<longleftrightarrow> r \<in> set ?bs"
    using core_wfD(3) [OF wf] unfolding exec_wf_def Let_def by blast+
  have "delivered (c_storage c) (c_b0 c)"
    using store_wfD(2) [OF core_wfD(1) [OF wf]] by (simp add: genesis_wf_def)
  then have "\<forall>r\<in>set ?bs. r < next_ref (c_storage c)" using ex(3) by (simp add: delivered_next)
  then have "{r. r < next_ref (c_storage c) \<and> blk_decision (blk c r) \<noteq> 0} = set ?bs" using ex(4) by blast
  moreover have "distinct ?bs" using distinct_chain [OF core_wfD(1) [OF wf] ex(1,3)] .
  ultimately show ?thesis unfolding Let_def using ex(1,2) by blast
qed

lemma executed_chain_witness:
  "\<exists>c. core_reachable sample_env c \<and> length (votes_of (c_outs c)) = 1 \<and>
     c_b_exec c = last (c_b0 c # consensus_of (c_outs c)) \<and> distinct (c_b0 c # consensus_of (c_outs c))"
proof -
  obtain c where c: "core_reachable sample_env c" "length (votes_of (c_outs c)) = 1"
    using sample_votes by blast
  note chain = executed_chain [OF c(1), unfolded Let_def]
  show ?thesis
    using c chain [THEN conjunct2, THEN conjunct1, symmetric]
      chain [THEN conjunct2, THEN conjunct2, THEN conjunct1]
    by - (intro exI [of _ c] conjI)
qed

text \<open>
  C14: Whatever calls other than \<open>prune\<close> a replica receives, what it has executed stays executed, in
  the same order; delivered blocks keep their parents and heights; and the heights of its last
  vote, its locked block, its executed block and its highest certificate never go down. (Nothing
  in the repository calls \<open>prune\<close>, which cuts the parents of old blocks.)
\<close>

theorem replica_progress:
  assumes "core_reachable E c" and "(core_step E)\<^sup>*\<^sup>* c c'"
  shows "(\<exists>new. consensus_of (c_outs c') = consensus_of (c_outs c) @ new) \<and>
    (\<forall>b. delivered (c_storage c) b \<longrightarrow> delivered (c_storage c') b \<and>
       blk_parents (blk c' b) = blk_parents (blk c b) \<and> blk_height (blk c' b) = blk_height (blk c b)) \<and>
    c_vheight c \<le> c_vheight c' \<and> blk_height (blk c (c_b_lock c)) \<le> blk_height (blk c' (c_b_lock c')) \<and>
    blk_height (blk c (c_b_exec c)) \<le> blk_height (blk c' (c_b_exec c')) \<and> hqc_height c \<le> hqc_height c'"
proof -
  have ext: "extends c c'"
    using assms unfolding core_reachable_run by (blast dest: replica.run_prog)
  then obtain new where "c_outs c' = c_outs c @ new" unfolding extends_def by blast
  then have "\<exists>new. consensus_of (c_outs c') = consensus_of (c_outs c) @ new" by simp
  moreover have "blk_height (blk c' b) = blk_height (blk c b)" if "delivered (c_storage c) b" for b
    using ext that unfolding extends_def height_of_def word_unat_eq_iff by blast
  ultimately show ?thesis
    using ext by (auto simp: extends_def height_of_def word_le_nat_alt)
qed

lemma replica_progress_witness:
  "\<exists>c. core_reachable sample_env sample_delivered \<and> (core_step sample_env)\<^sup>*\<^sup>* sample_delivered c \<and>
     c_vheight sample_delivered = 0 \<and> c_vheight c = 1 \<and>
     blk_delivered (blk c 1) \<and> blk_parents (blk c 1) = [0] \<and> blk_height (blk c 1) = 1 \<and>
     hqc_height sample_delivered \<le> hqc_height c"
proof -
  obtain c where c: "on_receive_proposal sample_env sample_proposal sample_delivered = (Inr (), c)"
    "core_reachable sample_env c" "c_vheight c = 1"
    using sample_votes by blast
  have step: "(core_step sample_env)\<^sup>*\<^sup>* sample_delivered c"
    by (rule r_into_rtranclp, rule core_step.call [of _ _ "ReceiveProposal sample_proposal" "Inr ()"])
       (simp_all add: c(1) sample_proposal(2) sample_delivered(7))
  have "delivered (c_storage sample_delivered) 1" by (simp add: delivered_def sample_delivered(1,7) del: One_nat_def)
  then have "delivered (c_storage c) 1 \<and> blk_parents (blk c 1) = [0] \<and> blk_height (blk c 1) = 1 \<and>
      hqc_height sample_delivered \<le> hqc_height c"
    using replica_progress [OF sample_reaches step] sample_delivered(2,3) by metis
  then show ?thesis using sample_reaches step c(3) by (auto simp: delivered_def intro!: exI [of _ c])
qed

text \<open>
  C5: A replica never votes twice at one height: the blocks of its votes are delivered and have
  pairwise different heights.
\<close>

theorem one_vote_per_height:
  assumes "core_reachable E c"
  shows "\<exists>bs. length bs = length (votes_of (c_outs c)) \<and>
    (\<forall>i<length bs. find_blk (c_storage c) (v_blk_hash (votes_of (c_outs c) ! i)) = Some (bs ! i) \<and>
       blk_delivered (blk c (bs ! i))) \<and>
    distinct (map (\<lambda>b. blk_height (blk c b)) bs)"
proof -
  note wf = reachable_wf [OF assms]
  obtain bs where bs: "map (\<lambda>b. blk_hash (blk c b)) bs = map v_blk_hash (votes_of (c_outs c))"
    "sorted_wrt (<) (map (height_of (c_storage c)) bs)" "\<forall>b\<in>set bs. delivered (c_storage c) b"
    using core_wfD(4) [OF wf] unfolding votes_wf_def by blast
  have len: "length bs = length (votes_of (c_outs c))" using arg_cong [OF bs(1), of length] by simp
  have hash: "blk_hash (blk c (bs ! i)) = v_blk_hash (votes_of (c_outs c) ! i)" if "i < length bs" for i
    using arg_cong [OF bs(1), of "\<lambda>x. x ! i"] that len by simp
  have "find_blk (c_storage c) (v_blk_hash (votes_of (c_outs c) ! i)) = Some (bs ! i) \<and>
      blk_delivered (blk c (bs ! i))" if "i < length bs" for i
    using find_stored [OF core_wfD(1) [OF wf], of "bs ! i"] hash [OF that] bs(3) that
    by (auto simp: delivered_def)
  moreover have "distinct (map (\<lambda>b. blk_height (blk c b)) bs)"
    using bs(2) unfolding distinct_conv_nth sorted_wrt_iff_nth_less
    by (auto simp: height_of_def) (metis less_irrefl linorder_neqE_nat)
  ultimately show ?thesis using len by blast
qed

lemma one_vote_per_height_witness:
  "\<exists>c :: core. length (votes_of (c_outs c)) = 1 \<and>
     (\<exists>b. find_blk (c_storage c) (v_blk_hash (votes_of (c_outs c) ! 0)) = Some b \<and> blk_delivered (blk c b))"
proof -
  obtain c where c: "core_reachable sample_env c" "length (votes_of (c_outs c)) = 1"
    using sample_votes by blast
  from one_vote_per_height [OF c(1)] c(2) show ?thesis by fastforce
qed

end
