(* ===== verification/CoreQuorum.thy ===== *)
theory CoreQuorum
  imports CoreExample
begin

text \<open>
  How the votes for a block become a certificate: the \<open>nmajority\<close>-th vote completes it, updates
  the highest certificate and resolves the promise that waits for it; every other vote is
  recorded or ignored.
\<close>

section \<open>One vote\<close>

text \<open>The certificate that collects the votes for \<open>b\<close>.\<close>

definition collecting :: "env \<Rightarrow> core \<Rightarrow> block_ref \<Rightarrow> quorum_cert" where
  "collecting E c b =
     (case blk_self_qc (blk c b) of
        None \<Rightarrow> create_quorum_cert (e_kind E) (c_config c) (blk_hash (blk c b)) | Some q \<Rightarrow> q)"

definition vote_for :: "core \<Rightarrow> block_ref \<Rightarrow> replica_id \<times> part_cert \<Rightarrow> vote" where
  "vote_for c b v = \<lparr>v_voter = fst v, v_blk_hash = blk_hash (blk c b), v_cert = Some (snd v), v_hsc = True\<rparr>"

definition stored :: "core \<Rightarrow> block_ref \<Rightarrow> bool" where
  "stored c b \<longleftrightarrow> find_blk (c_storage c) (blk_hash (blk c b)) = Some b \<and> blk_delivered (blk c b)"

definition record_vote :: "block_ref \<Rightarrow> replica_id \<Rightarrow> quorum_cert \<Rightarrow> core \<Rightarrow> core" where
  "record_vote b voter q c = set_blk b (\<lambda>x. x\<lparr>blk_voted := insert voter (blk_voted x), blk_self_qc := Some q\<rparr>) c"

lemma stored_delivered: "core_wf c \<Longrightarrow> delivered (c_storage c) b \<Longrightarrow> stored c b"
  using find_stored [OF core_wfD(1)] by (auto simp: stored_def delivered_def)

lemma record_vote_simps [simp]:
  "blk_voted (blk (record_vote b voter q c) b) = insert voter (blk_voted (blk c b))"
  "blk_self_qc (blk (record_vote b voter q c) b) = Some q"
  "collecting E (record_vote b voter q c) b = q"
  "c_config (record_vote b voter q c) = c_config c" "c_hqc (record_vote b voter q c) = c_hqc c"
  "c_qc_waiting (record_vote b voter q c) = c_qc_waiting c" "c_outs (record_vote b voter q c) = c_outs c"
  "blk_height (blk (record_vote b voter q c) r) = blk_height (blk c r)"
  "blk_hash (blk (record_vote b voter q c) r) = blk_hash (blk c r)"
  "stored (record_vote b voter q c) b = stored c b"
  "vote_for (record_vote b voter q c) b = vote_for c b"
  by (simp_all add: record_vote_def collecting_def stored_def vote_for_def fun_eq_iff set_blk_def upd_blk_def
      find_blk_def)

lemma vote_ignored:
  assumes "stored c b"
    and "nmajority (c_config c) \<le> card (blk_voted (blk c b)) \<or> fst v \<in> blk_voted (blk c b)"
  shows "on_receive_vote E (vote_for c b v) c = (Inr (), c)"
  using assms by (auto simp: on_receive_vote_def vote_for_def stored_def get_delivered_blk_def Let_def)

text \<open>A vote that counts reaches \<open>collect_vote\<close>.\<close>

lemma vote_counted:
  assumes "stored c b" and "fst v \<notin> blk_voted (blk c b)"
    and "card (blk_voted (blk c b)) < nmajority (c_config c)"
    and "qc_add_part (collecting E c b) (fst v) (snd v) = Inr q"
  shows "on_receive_vote E (vote_for c b v) c =
    (if Suc (card (blk_voted (blk c b))) = nmajority (c_config c)
     then bindS (update_hqc b (Some (qc_compute q)) (record_vote b (fst v) (qc_compute q) c))
       (\<lambda>_ c. (Inr (), on_qc_finish b c))
     else (Inr (), record_vote b (fst v) q c))"
proof -
  let ?c1 = "set_blk b (\<lambda>x. x\<lparr>blk_voted := insert (fst v) (blk_voted x)\<rparr>) c"
  have "on_receive_vote E (vote_for c b v) c = collect_vote E b (fst v) (snd v) (card (blk_voted (blk c b))) ?c1"
    using assms by (simp add: on_receive_vote_def vote_for_def stored_def get_delivered_blk_def Let_def)
  moreover have "set_blk b (\<lambda>x. x\<lparr>blk_self_qc := Some q\<rparr>) ?c1 = record_vote b (fst v) q c" for q
    by (simp add: record_vote_def)
  moreover have "collecting E ?c1 b = collecting E c b"
    by (simp add: collecting_def split: option.split)
  moreover have "collect_vote E b voter cert n d = (case qc_add_part (collecting E d b) voter cert of
        Inl e \<Rightarrow> (Inl e, set_blk b (\<lambda>x. x\<lparr>blk_self_qc := Some (collecting E d b)\<rparr>) d)
      | Inr q \<Rightarrow> if Suc n = nmajority (c_config d)
          then bindS (update_hqc b (Some (qc_compute q)) (set_blk b (\<lambda>x. x\<lparr>blk_self_qc := Some (qc_compute q)\<rparr>) d))
            (\<lambda>_ c. (Inr (), on_qc_finish b c))
          else (Inr (), set_blk b (\<lambda>x. x\<lparr>blk_self_qc := Some q\<rparr>) d))" for voter cert n d
    by (simp only: collect_vote_def collecting_def Let_def Suc_eq_plus1)
  ultimately show ?thesis using assms(4) by simp
qed

lemma vote_recorded:
  assumes "stored c b" and "fst v \<notin> blk_voted (blk c b)"
    and "Suc (card (blk_voted (blk c b))) < nmajority (c_config c)"
    and "qc_add_part (collecting E c b) (fst v) (snd v) = Inr q"
  shows "on_receive_vote E (vote_for c b v) c = (Inr (), record_vote b (fst v) q c)"
  using assms by (simp add: vote_counted)

lemma vote_completes:
  assumes "stored c b" and "fst v \<notin> blk_voted (blk c b)" and "c_hqc c = Some (hb, hq)"
    and "Suc (card (blk_voted (blk c b))) = nmajority (c_config c)"
    and "qc_add_part (collecting E c b) (fst v) (snd v) = Inr q"
  shows "on_receive_vote E (vote_for c b v) c =
    (let d = record_vote b (fst v) (qc_compute q) c in
     (Inr (), on_qc_finish b (if blk_height (blk c hb) < blk_height (blk c b)
       then on_hqc_update (d\<lparr>c_hqc := Some (b, qc_compute q)\<rparr>) else d)))"
  using assms by (simp add: vote_counted update_hqc_def bindS_def Let_def)

section \<open>A quorum of votes\<close>

fun receive_votes :: "env \<Rightarrow> vote list \<Rightarrow> core \<Rightarrow> unit res \<times> core" where
  "receive_votes E [] c = (Inr (), c)"
| "receive_votes E (v # vs) c = bindS (on_receive_vote E v c) (\<lambda>_ c. receive_votes E vs c)"

definition certified :: "block_ref \<Rightarrow> quorum_cert \<Rightarrow> core \<Rightarrow> core \<Rightarrow> bool" where
  "certified b q c c' \<longleftrightarrow>
     blk_self_qc (blk c' b) = Some q \<and> c_qc_waiting c' b = None \<and>
     (\<forall>pm. c_qc_waiting c b = Some pm \<longrightarrow> last (c_outs c') = Resolve pm VUnit) \<and>
     (\<forall>hb hq. c_hqc c = Some (hb, hq) \<longrightarrow>
        c_hqc c' = (if blk_height (blk c hb) < blk_height (blk c b) then Some (b, q) else Some (hb, hq)))"

lemma votes_complete:
  assumes "stored c b" and "c_hqc c = Some (hb, hq)" and "finite (blk_voted (blk c b))"
    and "distinct (map fst vs)" and "fst ` set vs \<inter> blk_voted (blk c b) = {}" and "vs \<noteq> []"
    and "card (blk_voted (blk c b)) + length vs = nmajority (c_config c)"
    and "foldE (\<lambda>q v. qc_add_part q (fst v) (snd v)) (collecting E c b) vs = Inr q"
  shows "\<exists>c'. receive_votes E (map (vote_for c b) vs) c = (Inr (), c') \<and> certified b (qc_compute q) c c' \<and>
    blk_voted (blk c' b) = blk_voted (blk c b) \<union> fst ` set vs \<and>
    stored c' b \<and> c_config c' = c_config c \<and> vote_for c' b = vote_for c b"
  using assms
proof (induction vs arbitrary: c)
  case (Cons v vs)
  obtain q1 where q1: "qc_add_part (collecting E c b) (fst v) (snd v) = Inr q1"
    "foldE (\<lambda>q v. qc_add_part q (fst v) (snd v)) q1 vs = Inr q"
    using Cons.prems(8) by (auto simp: bindE_Inr_iff)
  have new: "fst v \<notin> blk_voted (blk c b)" using Cons.prems(5) by auto
  show ?case
  proof (cases "vs = []")
    case True
    with Cons.prems(7) have maj: "Suc (card (blk_voted (blk c b))) = nmajority (c_config c)" by simp
    have q: "q1 = q" using q1(2) True by simp
    define d where "d = record_vote b (fst v) (qc_compute q) c"
    define d' where "d' = (if blk_height (blk c hb) < blk_height (blk c b)
      then on_hqc_update (d\<lparr>c_hqc := Some (b, qc_compute q)\<rparr>) else d)"
    have run: "on_receive_vote E (vote_for c b v) c = (Inr (), on_qc_finish b d')"
      using vote_completes [OF Cons.prems(1) new Cons.prems(2) maj q1(1)] q
      by (simp add: Let_def d_def d'_def)
    have d': "c_storage d' = c_storage d" "c_qc_waiting d' = c_qc_waiting c" "c_config d' = c_config c"
      "c_hqc d' = (if blk_height (blk c hb) < blk_height (blk c b) then Some (b, qc_compute q) else Some (hb, hq))"
      using Cons.prems(2) by (simp_all add: d'_def d_def on_hqc_update_def emit_def)
    have fin: "c_storage (on_qc_finish b d') = c_storage d" "c_config (on_qc_finish b d') = c_config c"
      "c_hqc (on_qc_finish b d') = c_hqc d'" "c_qc_waiting (on_qc_finish b d') b = None"
      "\<forall>pm. c_qc_waiting c b = Some pm \<longrightarrow> last (c_outs (on_qc_finish b d')) = Resolve pm VUnit"
      using d'(1-3) by (auto simp: on_qc_finish_def emit_def split: option.split)
    have "stored d b" "vote_for d b = vote_for c b" using Cons.prems(1) by (simp_all add: d_def)
    then have "stored (on_qc_finish b d') b" "vote_for (on_qc_finish b d') b = vote_for c b"
      by (simp_all add: stored_def vote_for_def fin(1) fun_eq_iff)
    moreover have "certified b (qc_compute q) c (on_qc_finish b d')"
      using Cons.prems(2) fin d'(4) by (simp add: certified_def) (simp add: d_def)
    moreover have "blk_voted (blk (on_qc_finish b d') b) = blk_voted (blk c b) \<union> fst ` set (v # vs)"
      unfolding fin(1) using True by (simp add: d_def)
    ultimately show ?thesis using run True fin(2) by (simp add: bindS_def)
  next
    case False
    let ?d = "record_vote b (fst v) q1 c"
    have step: "on_receive_vote E (vote_for c b v) c = (Inr (), ?d)"
      using Cons.prems(7) False by (intro vote_recorded [OF Cons.prems(1) new _ q1(1)]) (cases vs; simp)
    have "\<exists>c'. receive_votes E (map (vote_for ?d b) vs) ?d = (Inr (), c') \<and> certified b (qc_compute q) ?d c' \<and>
        blk_voted (blk c' b) = blk_voted (blk ?d b) \<union> fst ` set vs \<and>
        stored c' b \<and> c_config c' = c_config ?d \<and> vote_for c' b = vote_for ?d b"
    proof (rule Cons.IH)
      show "card (blk_voted (blk ?d b)) + length vs = nmajority (c_config ?d)"
        using Cons.prems(3,7) new by simp
    qed (use Cons.prems False q1(2) in \<open>auto\<close>)
    with step show ?thesis by (auto simp: bindS_def certified_def)
  qed
qed simp

text \<open>
  C13: When the votes of \<open>nmajority\<close> distinct replicas for a delivered block arrive, each signed
  with the key configured for its replica, all of them are accepted, and the last one completes
  a certificate for the block that verifies. It becomes the highest certificate if the block is
  higher than the old one, the promise that waits for it is resolved as the last thing that
  happens, and every further vote for the block changes nothing.
\<close>

theorem votes_make_certificate:
  assumes "crypto_ok (e_crypto E)" and "core_wf c" and "delivered (c_storage c) b"
    and "nreplicas (c_config c) \<le> 2 ^ 16" and "blk_voted (blk c b) = {}"
    and "collecting E c b = create_quorum_cert (e_kind E) (c_config c) (blk_hash (blk c b))"
    and "distinct (map fst vs)" and "vs \<noteq> []" and "length vs = nmajority (c_config c)"
    and "\<forall>(rid, pc)\<in>set vs. unat rid < nreplicas (c_config c) \<and>
      (\<exists>sk pk. create_part_cert (e_crypto E) (e_kind E) sk (blk_hash (blk c b)) = Inr pc \<and>
         get_pubkey_of (e_crypto E) sk = Inr pk \<and> get_pubkey (c_config c) rid = Inr pk)"
  shows "\<exists>c' q. receive_votes E (map (vote_for c b) vs) c = (Inr (), c') \<and> certified b q c c' \<and>
    qc_verify (e_crypto E) (c_config c) q = Inr True \<and> qc_obj_hash q = blk_hash (blk c b) \<and>
    (\<forall>v. on_receive_vote E (vote_for c b v) c' = (Inr (), c'))"
proof -
  let ?h = "blk_hash (blk c b)"
  have good: "\<forall>v\<in>set vs. good_vote (e_crypto E) (e_kind E) (c_config c) ?h v"
    using assms(10) by (auto intro: good_vote_created [OF assms(1)])
  from collect_verifies [OF assms(1,4,7) _ good] assms(9) obtain q where
    q: "foldE (\<lambda>q v. qc_add_part q (fst v) (snd v)) (create_quorum_cert (e_kind E) (c_config c) ?h) vs = Inr q"
      "qc_verify (e_crypto E) (c_config c) (qc_compute q) = Inr True" by auto
  have hash: "qc_obj_hash (qc_compute q) = ?h" by (rule qc.collected_obj_hash [OF q(1)])
  obtain hb hq where hqc: "c_hqc c = Some (hb, hq)"
    using core_wfD(2) [OF assms(2)] by (auto simp: roots_wf_def)
  have empty: "finite (blk_voted (blk c b))" "fst ` set vs \<inter> blk_voted (blk c b) = {}"
    "card (blk_voted (blk c b)) + length vs = nmajority (c_config c)"
    using assms(5,9) by simp_all
  obtain c' where c': "receive_votes E (map (vote_for c b) vs) c = (Inr (), c')"
    "certified b (qc_compute q) c c'" "blk_voted (blk c' b) = fst ` set vs" "stored c' b"
    "c_config c' = c_config c" "vote_for c' b = vote_for c b"
    using votes_complete [OF stored_delivered [OF assms(2,3)] hqc empty(1) assms(7) empty(2) assms(8) empty(3),
        of E q] q(1) assms(5,6) by auto
  have "card (fst ` set vs) = nmajority (c_config c)"
    using assms(7,9) by (metis distinct_card length_map set_map)
  then have "on_receive_vote E (vote_for c b v) c' = (Inr (), c')" for v
    using vote_ignored [OF c'(4), of v E] c'(3,5,6) by simp
  with c' q hash show ?thesis by blast
qed

lemma votes_make_certificate_witness:
  "\<exists>c' q. receive_votes (toy_env NoSig) (map (vote_for (demo_core (toy_env NoSig)) 4)
      [(0, PartCertDummy 4), (3, PartCertDummy 4), (1, PartCertDummy 4)]) (demo_core (toy_env NoSig)) = (Inr (), c') \<and>
     c_hqc c' = Some (4, q)"
proof -
  let ?E = "toy_env NoSig" and ?c = "demo_core (toy_env NoSig)"
    and ?vs = "[(0 :: replica_id, PartCertDummy 4), (3, PartCertDummy 4), (1, PartCertDummy 4)]"
  have cfg: "nreplicas (c_config ?c) = 4" "nmajority (c_config ?c) = 3"
    "get_pubkey (c_config ?c) 0 = Inr PubKeyDummy" "get_pubkey (c_config ?c) 1 = Inr PubKeyDummy"
    "get_pubkey (c_config ?c) 3 = Inr PubKeyDummy"
    by (simp_all add: demo_core_def set_majority_def empty_config_def cfg_add_replica_def
      get_pubkey_def get_info_def map_insert_apply)
  have "\<exists>c' q. receive_votes ?E (map (vote_for ?c 4) ?vs) ?c = (Inr (), c') \<and> certified 4 q ?c c' \<and>
    qc_verify (e_crypto ?E) (c_config ?c) q = Inr True \<and> qc_obj_hash q = blk_hash (blk ?c 4) \<and>
    (\<forall>v. on_receive_vote ?E (vote_for ?c 4 v) c' = (Inr (), c'))"
  proof (rule votes_make_certificate)
    show "core_wf ?c" by (rule demo_core_wf)
    show "\<forall>(rid, pc)\<in>set ?vs. unat rid < nreplicas (c_config ?c) \<and>
      (\<exists>sk pk. create_part_cert (e_crypto ?E) (e_kind ?E) sk (blk_hash (blk ?c 4)) = Inr pc \<and>
         get_pubkey_of (e_crypto ?E) sk = Inr pk \<and> get_pubkey (c_config ?c) rid = Inr pk)"
      using cfg by (auto intro!: exI [of _ PrivKeyDummy])
  qed (use toy_crypto_ok cfg in \<open>simp_all add: collecting_def\<close>)
  then show ?thesis by (auto simp: certified_def)
qed

end
