(* ===== verification/CorePrune.thy ===== *)
theory CorePrune
  imports CoreExample
begin

text \<open>
  Pruning ends, cuts the chain below a stale block, and leaves every block alone that is not
  that block or one of its ancestors; and what the two-step form of \<open>update\<close> leaves undone.
\<close>

section \<open>The loop over the stack\<close>













text \<open>Moving the last parent of the top block to the stack loses no block.\<close>

definition drop_parent :: "block_ref \<Rightarrow> entity_storage \<Rightarrow> entity_storage" where
  "drop_parent b = upd_blk b (\<lambda>x. x\<lparr>blk_qc_ref := None, blk_parents := butlast (blk_parents x)\<rparr>)"

lemma drop_parent_heap [simp]:
  "heap (drop_parent b st) r = (if r = b
     then (heap st b)\<lparr>blk_qc_ref := None, blk_parents := butlast (blk_parents (heap st b))\<rparr> else heap st r)"
  by (simp add: drop_parent_def upd_blk_def)

lemma drop_parent_keeps [simp]:
  "next_ref (drop_parent b st) = next_ref st" "blk_cache (drop_parent b st) = blk_cache st"
  "cmd_cache (drop_parent b st) = cmd_cache st"
  by (simp_all add: drop_parent_def upd_blk_def)











section \<open>Pruning a replica\<close>





section \<open>The two-step form\<close>

definition decided_of :: "core_output list \<Rightarrow> finality list" where
  "decided_of outs = concat (map (\<lambda>x. case x of DoDecide f \<Rightarrow> [f] | _ \<Rightarrow> []) outs)"

lemma decided_of_append [simp]: "decided_of (xs @ ys) = decided_of xs @ decided_of ys"
  and decided_of_Nil [simp]: "decided_of [] = []"
  by (simp_all add: decided_of_def)

lemma commit_blk_undecoded:
  assumes "c_futures c = Map.empty"
  shows "commit_blk E b c = (Inr (), emit (DoConsensus b) (set_blk b (\<lambda>x. x\<lparr>blk_decision := 1\<rparr>) c))"
  using assms by (simp add: commit_blk_def Let_def emit_def)

text \<open>Nothing is decided by committing blocks that were not decoded.\<close>

definition undecoded :: "core \<Rightarrow> core \<Rightarrow> bool" where
  "undecoded c c' \<longleftrightarrow> c_futures c' = Map.empty \<and> decided_of (c_outs c') = decided_of (c_outs c)"

lemma commit_all_undecoded:
  "c_futures c = Map.empty \<Longrightarrow> \<exists>c'. commit_all E bs c = (Inr (), c') \<and> undecoded c c'"
proof (induction bs arbitrary: c)
  case (Cons b bs)
  let ?d = "emit (DoConsensus b) (set_blk b (\<lambda>x. x\<lparr>blk_decision := 1\<rparr>) c)"
  have "c_futures ?d = Map.empty" using Cons.prems by (simp add: emit_def)
  from Cons.IH [OF this] obtain c' where "commit_all E bs ?d = (Inr (), c')" "undecoded ?d c'" by blast
  moreover have "decided_of (c_outs ?d) = decided_of (c_outs c)" by (simp add: emit_def decided_of_def)
  ultimately show ?case
    using commit_blk_undecoded [OF Cons.prems] by (simp add: bindS_def undecoded_def)
qed (simp add: undecoded_def)

lemma commit_undecoded: "c_futures c = Map.empty \<Longrightarrow> undecoded c (snd (commit E b c))"
proof -
  assume fut: "c_futures c = Map.empty"
  have "undecoded c (snd (bindS (commit_all E bs c) (\<lambda>_ c. (Inr (), c\<lparr>c_b_exec := b\<rparr>))))" for bs
    using commit_all_undecoded [OF fut, of E bs] by (auto simp: bindS_def undecoded_def)
  then show ?thesis using fut by (simp add: commit_def undecoded_def split: sum.split prod.split)
qed

text \<open>
  C36: Compiled with \<open>HOTSTUFF_TWO_STEP\<close>, \<open>update\<close> never starts to decode the slices of a block:
  it may hand blocks to \<open>do_consensus\<close>, but it never decides a command.
\<close>

theorem two_step_never_decides:
  assumes "c_futures c = Map.empty"
  shows "c_futures (snd (update_two_step E nblk c)) = Map.empty \<and>
    decided_of (c_outs (snd (update_two_step E nblk c))) = decided_of (c_outs c)"
proof -
  have hqc: "undecoded d (snd (update_hqc b q d))" if "c_futures d = Map.empty" for b q d
    using that by (auto simp: update_hqc_def on_hqc_update_def emit_def undecoded_def decided_of_def
        split: option.split)
  have lock: "undecoded d (lock_blk b d)" if "c_futures d = Map.empty" for b d
    using that by (simp add: lock_blk_def undecoded_def)
  have commit: "undecoded d (snd (commit E b (lock_blk b' d)))" if "c_futures d = Map.empty" for b b' d
    using lock [OF that, of b'] commit_undecoded [of "lock_blk b' d" E b] by (auto simp: undecoded_def)
  have bind: "undecoded c (snd (bindS m f))" if "undecoded c (snd m)"
    "\<And>x s. c_futures s = Map.empty \<Longrightarrow> undecoded s (snd (f x s))" for m :: "unit res \<times> core" and f
    using that by (cases m; cases "fst m") (auto simp: bindS_def undecoded_def)
  have "undecoded c (snd (update_two_step E nblk c))"
    unfolding update_two_step_def Let_def
    using assms by (auto intro!: bind hqc lock commit simp: undecoded_def [of c c] split: option.split)
  then show ?thesis by (simp add: undecoded_def)
qed

lemma two_step_never_decides_witness:
  "decided_of (c_outs (snd (update_two_step (toy_env NoSig) 4 (demo_core (toy_env NoSig))))) = []"
  using two_step_never_decides [of "demo_core (toy_env NoSig)" "toy_env NoSig" 4] by simp

end
