(* ===== verification/Dissemination.thy ===== *)
theory Dissemination
  imports CoreExample
begin

text \<open>
  The way of the commands of a block: the proposer encodes them into one slice per replica,
  replicas exchange the slices, and any threshold of them gives a replica the commands back.
\<close>

section \<open>Receiving slices\<close>

fun receive_slices :: "env \<Rightarrow> slice list \<Rightarrow> core \<Rightarrow> unit res \<times> core" where
  "receive_slices E [] c = (Inr (), c)"
| "receive_slices E (x # xs) c = bindS (on_receive_slice E x c) (\<lambda>_ c. receive_slices E xs c)"

lemma slice_accepted:
  assumes "validate (e_sha_hex E) x" and "sc_inv (c_sc c)" and "m_data x \<noteq> []"
    and "unat (m_index x) < unat (m_nodenum (c_sc c))"
    and "sc_held (c_sc c) (e_get_hex E (m_blk_hash x)) (unat (m_index x)) = []"
  shows "\<exists>sc. on_receive_slice E x c = (Inr (), c\<lparr>c_sc := sc\<rparr>) \<and> sc_inv sc \<and>
    m_nodenum sc = m_nodenum (c_sc c) \<and> m_threshold sc = m_threshold (c_sc c) \<and>
    sc_held sc = (sc_held (c_sc c))(e_get_hex E (m_blk_hash x) :=
      (sc_held (c_sc c) (e_get_hex E (m_blk_hash x)))(unat (m_index x) := m_data x))"
  using insert_shard_free [OF assms(2,4,5,3)] assms(1) by (auto simp: on_receive_slice_def Let_def)

text \<open>Valid slices of one block with distinct indices are all stored.\<close>

lemma slices_accepted:
  assumes "sc_inv (c_sc c)" and "distinct (map (unat \<circ> m_index) xs)"
    and "\<forall>x\<in>set xs. validate (e_sha_hex E) x \<and> m_data x \<noteq> [] \<and> e_get_hex E (m_blk_hash x) = key \<and>
      unat (m_index x) < unat (m_nodenum (c_sc c)) \<and> sc_held (c_sc c) key (unat (m_index x)) = []"
  shows "\<exists>sc. receive_slices E xs c = (Inr (), c\<lparr>c_sc := sc\<rparr>) \<and> sc_inv sc \<and>
    m_nodenum sc = m_nodenum (c_sc c) \<and> m_threshold sc = m_threshold (c_sc c) \<and>
    (\<forall>x\<in>set xs. sc_held sc key (unat (m_index x)) = m_data x) \<and>
    (\<forall>j. j \<notin> (unat \<circ> m_index) ` set xs \<longrightarrow> sc_held sc key j = sc_held (c_sc c) key j)"
  using assms
proof (induction xs arbitrary: c)
  case Nil
  then show ?case by (intro exI [of _ "c_sc c"]) simp
next
  case (Cons x xs)
  have x: "validate (e_sha_hex E) x" "m_data x \<noteq> []" "e_get_hex E (m_blk_hash x) = key"
    "unat (m_index x) < unat (m_nodenum (c_sc c))" "sc_held (c_sc c) key (unat (m_index x)) = []"
    using Cons.prems(3) [THEN bspec, OF list.set_intros(1)] by blast+
  from slice_accepted [OF x(1) Cons.prems(1) x(2,4), unfolded x(3), OF x(5)] obtain sc where
    sc: "on_receive_slice E x c = (Inr (), c\<lparr>c_sc := sc\<rparr>)" "sc_inv sc"
    "m_nodenum sc = m_nodenum (c_sc c)" "m_threshold sc = m_threshold (c_sc c)"
    and held: "sc_held sc = (sc_held (c_sc c))(key := (sc_held (c_sc c) key)(unat (m_index x) := m_data x))"
    by (elim exE conjE)
  let ?c = "c\<lparr>c_sc := sc\<rparr>"
  have c: "c_sc ?c = sc" "?c\<lparr>c_sc := s\<rparr> = c\<lparr>c_sc := s\<rparr>" for s by simp_all
  have new: "unat (m_index x) \<notin> (unat \<circ> m_index) ` set xs" and dist: "distinct (map (unat \<circ> m_index) xs)"
    using Cons.prems(2) by (simp_all add: comp_def)
  have free: "validate (e_sha_hex E) y \<and> m_data y \<noteq> [] \<and> e_get_hex E (m_blk_hash y) = key \<and>
      unat (m_index y) < unat (m_nodenum (c_sc ?c)) \<and> sc_held (c_sc ?c) key (unat (m_index y)) = []"
    if y: "y \<in> set xs" for y
  proof -
    have "unat (m_index y) \<noteq> unat (m_index x)" using new y by (auto simp: image_iff)
    then have "sc_held sc key (unat (m_index y)) = sc_held (c_sc c) key (unat (m_index y))"
      by (simp add: held)
    then show ?thesis
      using Cons.prems(3) [THEN bspec, OF list.set_intros(2) [OF y]] unfolding c sc(3) by simp
  qed
  have "sc_inv (c_sc ?c)" using sc(2) by simp
  from Cons.IH [OF this dist] free obtain sc' where
    sc': "receive_slices E xs ?c = (Inr (), c\<lparr>c_sc := sc'\<rparr>)" "sc_inv sc'"
    "m_nodenum sc' = m_nodenum sc" "m_threshold sc' = m_threshold sc"
    "\<forall>y\<in>set xs. sc_held sc' key (unat (m_index y)) = m_data y"
    "\<forall>j. j \<notin> (unat \<circ> m_index) ` set xs \<longrightarrow> sc_held sc' key j = sc_held sc key j"
    unfolding c by blast
  have "sc_held sc' key (unat (m_index x)) = m_data x" using sc'(6) new by (simp add: held)
  moreover have "receive_slices E (x # xs) c = (Inr (), c\<lparr>c_sc := sc'\<rparr>)"
    using sc(1) sc'(1) by simp
  moreover have "sc_held sc' key j = sc_held (c_sc c) key j" if "j \<notin> (unat \<circ> m_index) ` set (x # xs)" for j
    using sc'(6) that by (simp add: held)
  moreover have "\<forall>y\<in>set (x # xs). sc_held sc' key (unat (m_index y)) = m_data y"
    using sc'(5) calculation(1) by (simp only: list.set ball_simps)
  moreover have "m_nodenum sc' = m_nodenum (c_sc c)" "m_threshold sc' = m_threshold (c_sc c)"
    using sc'(3,4) sc(3,4) by simp_all
  ultimately show ?case using sc'(2) by blast
qed

section \<open>The proofs the proposer makes can be sent\<close>

text \<open>Every hash of the tree has 64 characters, and there are no more levels than slices.\<close>

lemma next_level_digests: "\<forall>x. length (H x) = 64 \<Longrightarrow> leaf_digests (next_level H l)"
  by (induction H l rule: next_level.induct) (auto simp: leaf_digests_def hash_2_leaf_def)

lemma pad_level_digests: "leaf_digests l \<Longrightarrow> leaf_digests (pad_level l)"
  by (auto simp: pad_level_def leaf_digests_def EMPTY_HASH_def)

lemma levels_digests:
  assumes "\<forall>x. length (H x) = 64" and "leaf_digests l" and "l \<noteq> []" and "levels H l = Some ls"
  shows "length ls \<le> length l \<and> (\<forall>l'\<in>set ls. leaf_digests l')"
  using assms(2-)
proof (induction l arbitrary: ls rule: measure_induct_rule [where f = length])
  case (less l)
  show ?case
  proof (cases "length l = 1")
    case True
    then have "ls = [l]" using less.prems(3) by (simp add: levels_one)
    then show ?thesis using less.prems(1) True by simp
  next
    case False
    let ?up = "next_level H (pad_level l)"
    obtain n where n: "length (pad_level l) = 2 * n" "length l \<le> 2 * n" "2 * n \<le> length l + 1"
      using pad_level_length by blast
    have up: "length ?up = n" using n(1) by (rule length_next_level)
    have "0 < length l" using less.prems by simp
    with False n have "n < length l" "0 < n" by linarith+
    moreover obtain ls' where "levels H ?up = Some ls'" "ls = pad_level l # ls'"
      using less.prems(3) False by (subst (asm) levels.simps) (auto simp: Option.bind_eq_Some_conv)
    ultimately show ?thesis
      using less.IH [of ?up ls'] up next_level_digests [OF assms(1)] pad_level_digests [OF less.prems(1)]
      by auto
  qed
qed

lemma siblings_levels:
  "siblings ls i = Inr b \<Longrightarrow> length b \<le> length ls \<and> (\<forall>x\<in>set b. \<exists>l\<in>set ls. x \<in> set l)"
proof (induction ls i arbitrary: b rule: siblings.induct)
  case (1 l l' ls i)
  then obtain h b' where "at_index l (if i smod 2 = 0 then i + 1 else i - 1) = Inr h"
    "siblings (l' # ls) (i sdiv 2) = Inr b'" "b = h # b'"
    by (auto simp: bindE_Inr_iff)
  moreover from this(1) have "h \<in> set l" by (auto simp: at_index_def split: if_splits)
  ultimately show ?case using "1.IH" by auto
qed auto

lemma proofs_siblings:
  assumes "proofs t = Inr ps" and "p \<in> set ps"
  shows "\<exists>i. siblings (t_levels t) i = Inr (m_branch p)"
proof -
  have "\<forall>p\<in>set ps. \<exists>i. siblings (t_levels t) i = Inr (m_branch p)"
    using assms(1) unfolding proofs_def
    by (rule foldE_invariant) (auto simp: bindE_Inr_iff proof_i_def, blast)
  then show ?thesis using assms(2) by blast
qed

lemma slice_proposals_total:
  assumes "\<forall>p\<in>set ps. leaf_digests (m_branch p) \<and> 64 * length (m_branch p) < 2 ^ 32"
  shows "\<exists>props. slice_proposals E rid b h ps = Inr props"
  using assms
proof (induction ps)
  case (Cons p ps)
  then have "\<exists>s. put_slice (e_stream E) (new_slice p h) = Inr s"
    using branch_size [of "length (m_branch p)"] length_concat_digests [of "m_branch p"]
    by (simp add: put_slice_def new_slice_def leaf_digests_def list_all_iff Let_def)
  then show ?case using Cons by (auto simp: new_proposal_def slice_get_hash_def)
qed simp

section \<open>What the proposer sends\<close>

lemma unat_sint_index: "sint (w :: u32) = int i \<Longrightarrow> i < 2 ^ 31 \<Longrightarrow> unat w = i"
proof -
  assume w: "sint w = int i" and i: "i < 2 ^ 31"
  have "(word_of_nat i :: u32) = word_of_int (sint w)" using w by simp
  also have "\<dots> = w" by simp
  finally show "unat w = i" using i by (auto simp: unat_of_nat)
qed

text \<open>Each of the proposals carries its slice of the encoded commands, with a valid proof.\<close>

lemma encode_proposals_slices:
  assumes "encode_proposals E r rid b h cmds = Inr props"
    and "rse_encode (e_leo E) r (concat (map (e_to_bytes E) cmds)) [] = Inr (0, shards)"
    and "shards \<noteq> []" and "length shards \<le> 2 ^ 31"
  shows "length props = length shards"
    and "i < length shards \<Longrightarrow> m_data (p_slice (props ! i)) = shards ! i \<and>
      unat (m_index (p_slice (props ! i))) = i \<and> m_blk_hash (p_slice (props ! i)) = h \<and>
      validate (e_sha_hex E) (p_slice (props ! i)) \<and> p_blk (props ! i) = Some b \<and> p_proposer (props ! i) = rid"
proof -
  obtain t ps where t: "new_merkle_tree (e_sha_hex E) shards = Inr t" "proofs t = Inr ps"
    "length ps = length shards" and p: "\<And>i. i < length shards \<Longrightarrow> m_data (ps ! i) = shards ! i \<and>
      sint (m_index (ps ! i)) = int i \<and> validate (e_sha_hex E) (ps ! i)"
    using merkle_proofs [OF assms(3,4), of "e_sha_hex E"] by blast
  have "slice_proposals E rid b h ps = Inr props" using assms(1,2) t by (simp add: encode_proposals_def)
  note props = slice_proposals_fields [OF this]
  then show "length props = length shards" using t(3) by simp
  assume i: "i < length shards"
  have valid: "validate H (new_slice q h) = validate H q" for H q
    by (simp add: validate_def new_slice_def)
  have "unat (m_index (ps ! i)) = i" using p [OF i] i assms(4) by (intro unat_sint_index) auto
  then show "m_data (p_slice (props ! i)) = shards ! i \<and>
      unat (m_index (p_slice (props ! i))) = i \<and> m_blk_hash (p_slice (props ! i)) = h \<and>
      validate (e_sha_hex E) (p_slice (props ! i)) \<and> p_blk (props ! i) = Some b \<and> p_proposer (props ! i) = rid"
    using props p [OF i] i t(3) by (simp add: valid) (simp add: new_slice_def)
qed

lemma encode_proposals_total:
  assumes "rse_encode (e_leo E) r (concat (map (e_to_bytes E) cmds)) [] = Inr (0, shards)"
    and "shards \<noteq> []" and "length shards \<le> 2 ^ 16" and "\<forall>x. length (e_sha_hex E x) = 64"
  shows "\<exists>props. encode_proposals E r rid b h cmds = Inr props"
proof -
  have "length shards \<le> 2 ^ 31" using assms(3) by simp
  from merkle_proofs [OF assms(2) this, of "e_sha_hex E"] obtain t ps where
    t: "new_merkle_tree (e_sha_hex E) shards = Inr t" "proofs t = Inr ps" by blast
  then have ls: "levels (e_sha_hex E) (map (e_sha_hex E) shards) = Some (t_levels t)"
    by (auto simp: new_merkle_tree_def split: option.splits)
  have "leaf_digests (map (e_sha_hex E) shards)" using assms(4) by (simp add: leaf_digests_def)
  from levels_digests [OF assms(4) this _ ls] assms(2) have
    lev: "length (t_levels t) \<le> length shards" "\<forall>l\<in>set (t_levels t). leaf_digests l" by simp_all
  have "leaf_digests (m_branch p) \<and> 64 * length (m_branch p) < 2 ^ 32" if p: "p \<in> set ps" for p
  proof -
    from proofs_siblings [OF t(2) p] obtain i where "siblings (t_levels t) i = Inr (m_branch p)" by blast
    note sib = siblings_levels [OF this]
    then have "length (m_branch p) \<le> 2 ^ 16" using lev(1) assms(3) by simp
    moreover have "leaf_digests (m_branch p)" using sib lev(2) unfolding leaf_digests_def by blast
    ultimately show ?thesis by simp
  qed
  then obtain props where "slice_proposals E rid b h ps = Inr props"
    using slice_proposals_total by blast
  then show ?thesis using assms(1) t by (simp add: encode_proposals_def)
qed

lemma rse_counts:
  assumes "0 < (n :: u32)"
  shows "unat (n - (n - 1) div 3) + unat ((n - 1) div 3) = unat n" and "0 < unat (n - (n - 1) div 3)"
proof -
  have "unat (n - 1) = unat n - 1" using assms by (simp add: unat_minus_one unat_gt_0)
  then have d: "unat ((n - 1) div 3) = (unat n - 1) div 3" by (simp add: unat_div)
  have pos: "0 < unat n" using assms by (simp add: word_less_nat_alt)
  then have "(n - 1) div 3 \<le> n" using d by (simp add: word_le_nat_alt)
  then have "unat (n - (n - 1) div 3) = unat n - unat ((n - 1) div 3)" by (rule unat_sub)
  with d pos show "unat (n - (n - 1) div 3) + unat ((n - 1) div 3) = unat n" "0 < unat (n - (n - 1) div 3)"
    by simp_all
qed

section \<open>Any threshold of the slices gives the commands back\<close>

lemma async_decode_encoded:
  assumes "bytes_ok E" and "encoded (e_leo E) r (concat (map (e_to_bytes E) cmds)) shards"
    and "32 * length cmds + 16 < 2 ^ 32" and "finite lost" and "card lost \<le> unat (m_recovery_count r)"
  shows "async_decode E r (arrived lost shards) = Inr cmds"
proof -
  let ?x = "concat (map (e_to_bytes E) cmds)"
  have len: "length ?x = 32 * length cmds"
    using assms(1) by (intro concat_map_length_const) (simp add: bytes_ok_def)
  have chunk: "take 32 (drop (i * 32) ?x) = e_to_bytes E (cmds ! i)" if "i < length cmds" for i
    using take_drop_concat_chunk [of "map (e_to_bytes E) cmds" 32 i] assms(1) that
    by (auto simp: bytes_ok_def)
  have "map (\<lambda>i. e_from_bytes E (take 32 (drop (i * 32) ?x))) [0..<length cmds] = cmds"
    using chunk assms(1) by (intro nth_equalityI) (simp_all add: bytes_ok_def)
  moreover have "rse_decode (e_leo E) r (arrived lost shards) [] = Inr (0, ?x)"
    using rse_decode_encoded [OF assms(2) _ assms(4,5)] assms(3) len by simp
  ultimately show ?thesis by (simp add: async_decode_def len)
qed

lemma threshold_decodes:
  fixes n :: u32
  assumes "bytes_ok E" and enc: "encoded (e_leo E) (rse_set_params n) (concat (map (e_to_bytes E) cmds)) shards"
    and "0 < n" and "32 * length cmds + 16 < 2 ^ 32"
    and slices: "\<And>i. i < length shards \<Longrightarrow> m_data (xs i) = shards ! i \<and> unat (m_index (xs i)) = i \<and>
      m_blk_hash (xs i) = h \<and> validate (e_sha_hex E) (xs i)"
    and "c_rse c = rse_set_params n" and "sc_inv (c_sc c)" and "m_nodenum (c_sc c) = n"
    and "m_threshold (c_sc c) = n - (n - 1) div 3"
    and "m_shards (c_sc c) (e_get_hex E h) = None" and "c_futures c (e_get_hex E h) = None"
    and js: "distinct js" "set js \<subseteq> {..<unat n}" "unat (n - (n - 1) div 3) \<le> length js"
  shows "\<exists>c'. receive_slices E (map xs js) c = (Inr (), c') \<and>
    (\<forall>b'. blk_hash (blk c' b') = h \<longrightarrow> c_futures (start_decode E b' c') (e_get_hex E h) = Some (Inr cmds))"
proof -
  let ?key = "e_get_hex E h" and ?lost = "{..<unat n} - set js"
  have thr: "unat (m_recovery_count (rse_set_params n)) = unat ((n - 1) div 3)"
    and counts: "unat (n - (n - 1) div 3) + unat ((n - 1) div 3) = unat n" "0 < unat (n - (n - 1) div 3)"
    using rse_counts [OF assms(3)] by (simp_all add: rse_set_params_def Let_def)
  note S = encoded_shards [OF enc]
  have n: "length shards = unat n" using S(1) counts(1) by (simp add: rse_set_params_def Let_def)
  have ne: "shards ! i \<noteq> []" if "i < unat n" for i
    using S(3) S(5) [of i] that S(1) n by (metis less_irrefl list.size(3))
  have idx: "unat (m_index (xs i)) = i \<and> m_data (xs i) = shards ! i" if "i \<in> set js" for i
    using slices [of i] that js(2) n by auto
  have "map (unat \<circ> m_index) (map xs js) = js"
    using idx by (intro map_idI [of js, folded map_map] trans [OF map_map]) (simp add: map_idI)
  then have dist: "distinct (map (unat \<circ> m_index) (map xs js))" using js(1) by simp
  have "validate (e_sha_hex E) x \<and> m_data x \<noteq> [] \<and> e_get_hex E (m_blk_hash x) = ?key \<and>
      unat (m_index x) < unat (m_nodenum (c_sc c)) \<and> sc_held (c_sc c) ?key (unat (m_index x)) = []"
    if "x \<in> set (map xs js)" for x
  proof -
    from that obtain i where i: "i \<in> set js" "x = xs i" by auto
    with js(2) have "i < unat n" by auto
    with i slices [of i] ne [of i] n show ?thesis
      by (simp add: assms(8) sc_held_fresh [OF assms(10)])
  qed
  then obtain sc where sc: "receive_slices E (map xs js) c = (Inr (), c\<lparr>c_sc := sc\<rparr>)" "sc_inv sc"
    "m_nodenum sc = n" "m_threshold sc = n - (n - 1) div 3"
    "\<forall>x\<in>set (map xs js). sc_held sc ?key (unat (m_index x)) = m_data x"
    "\<forall>j. j \<notin> (unat \<circ> m_index) ` set (map xs js) \<longrightarrow> sc_held sc ?key j = sc_held (c_sc c) ?key j"
    using slices_accepted [OF assms(7) dist] unfolding assms(8,9) by blast
  have img: "(unat \<circ> m_index) ` set (map xs js) = set js"
    using idx by (force simp: image_iff)
  have held: "sc_held sc ?key j = (if j \<in> set js then shards ! j else [])" for j
    using sc(5,6) idx [of j] unfolding img by (auto simp: sc_held_fresh [OF assms(10)])
  have "{j. j < unat n \<and> sc_held sc ?key j \<noteq> []} = set js"
    using js(2) ne by (auto simp: held)
  then have "get_block ?key [] sc = (0, map (sc_held sc ?key) [0..<unat n])"
    using shards.get_enough [OF sc(2), of ?key "[]"] counts(2) js(1,3) sc(3,4) by (simp add: distinct_card)
  also have "map (sc_held sc ?key) [0..<unat n] = arrived ?lost shards"
    by (simp add: arrived_def n held)
  finally have got: "get_block ?key [] sc = (0, arrived ?lost shards)" .
  have "card ?lost = unat n - length js"
    using js(1,2) by (simp add: card_Diff_subset distinct_card)
  then have "card ?lost \<le> unat (m_recovery_count (rse_set_params n))"
    using thr counts(1) js(3) by simp
  from async_decode_encoded [OF assms(1) enc assms(4) _ this]
  have dec: "async_decode E (rse_set_params n) (arrived ?lost shards) = Inr cmds" by simp
  have "c_futures (start_decode E b' (c\<lparr>c_sc := sc\<rparr>)) ?key = Some (Inr cmds)" if "blk_hash (blk c b') = h" for b'
    using got dec that assms(6,11) by (simp add: start_decode_def map_insert_apply)
  then show ?thesis using sc(1) by auto
qed

text \<open>
  C7: When a slice has at least nine bytes (shorter ones cannot be decoded), a proposer gets its
  commands encoded into one slice per replica. Whichever slices a replica that has none of this
  block yet receives then, in any order, as long as they are at least the threshold and distinct,
  they are accepted, and \<open>start_decode\<close>, the step of \<open>update\<close> that decodes a block, gives exactly
  the proposer's commands.
\<close>

theorem commands_disseminated:
  fixes n :: u32
  assumes "bytes_ok E" and "\<forall>x. length (e_sha_hex E x) = 64"
    and "leo_ok (e_leo E) (m_original_count (rse_set_params n)) (m_recovery_count (rse_set_params n))"
    and "0 < n" and "unat n \<le> 2 ^ 16"
    and "9 \<le> slice_bytes (unat (m_original_count (rse_set_params n))) (32 * length cmds)"
    and "32 * length cmds + 16 < 2 ^ 32"
    and "c_rse c = rse_set_params n" and "sc_inv (c_sc c)" and "m_nodenum (c_sc c) = n"
    and "m_threshold (c_sc c) = n - (n - 1) div 3"
    and "m_shards (c_sc c) (e_get_hex E h) = None" and "c_futures c (e_get_hex E h) = None"
  shows "\<exists>props. encode_proposals E (rse_set_params n) rid b h cmds = Inr props \<and> length props = unat n \<and>
    (\<forall>is. distinct is \<and> set is \<subseteq> {..<unat n} \<and> unat (n - (n - 1) div 3) \<le> length is \<longrightarrow>
      (\<exists>c'. receive_slices E (map (\<lambda>i. p_slice (props ! i)) is) c = (Inr (), c') \<and>
        (\<forall>b'. blk_hash (blk c' b') = h \<longrightarrow>
           c_futures (start_decode E b' c') (e_get_hex E h) = Some (Inr cmds))))"
proof -
  let ?r = "rse_set_params n" and ?x = "concat (map (e_to_bytes E) cmds)" and ?key = "e_get_hex E h"
  let ?k = "unat (m_original_count ?r)" and ?m = "unat (m_recovery_count ?r)"
  have counts: "?k + ?m = unat n" "0 < ?k" and thr: "m_original_count ?r = n - (n - 1) div 3"
    using rse_counts [OF assms(4)] by (simp_all add: rse_set_params_def Let_def)
  have len: "length ?x = 32 * length cmds"
    using assms(1) by (intro concat_map_length_const) (simp add: bytes_ok_def)
  obtain shards where shards: "rse_encode (e_leo E) ?r ?x [] = Inr (0, shards)" "encoded (e_leo E) ?r ?x shards"
    using rse_encode_encoded [OF assms(3) counts(2), of ?x] assms(6,7) unfolding len by auto
  note S = encoded_shards [OF shards(2)]
  have n: "length shards = unat n" using S(1) counts(1) by simp
  have ne: "shards \<noteq> []" using n assms(4) by (auto simp: word_less_nat_alt)
  obtain props where props: "encode_proposals E ?r rid b h cmds = Inr props"
    using encode_proposals_total [OF shards(1) ne _ assms(2), of rid b h] n assms(5) by auto
  have "length shards \<le> 2 ^ 31" using n assms(5) by simp
  note P = encode_proposals_slices [OF props shards(1) ne this]
  have "\<exists>c'. receive_slices E (map (\<lambda>i. p_slice (props ! i)) js) c = (Inr (), c') \<and>
      (\<forall>b'. blk_hash (blk c' b') = h \<longrightarrow> c_futures (start_decode E b' c') ?key = Some (Inr cmds))"
    if js: "distinct js" "set js \<subseteq> {..<unat n}" "unat (n - (n - 1) div 3) \<le> length js" for js
    by (rule threshold_decodes [OF assms(1) shards(2) assms(4,7) _ assms(8-13) js]) (use P(2) in simp)
  then show ?thesis using props P(1) n by auto
qed

lemma commands_disseminated_witness:
  "\<exists>props. encode_proposals (toy_env NoSig) (rse_set_params 4) 0 1 80 [7] = Inr props \<and> length props = 4 \<and>
     (\<exists>c' :: core. receive_slices (toy_env NoSig) (map (\<lambda>i. p_slice (props ! i)) [3, 0, 2])
        (sample_delivered\<lparr>c_rse := rse_set_params 4, c_futures := Map.empty\<rparr>) = (Inr (), c') \<and>
      (\<forall>b'. blk_hash (blk c' b') = 80 \<longrightarrow>
         c_futures (start_decode (toy_env NoSig) b' c') (e_get_hex (toy_env NoSig) 80) = Some (Inr [7])))"
proof -
  let ?E = "toy_env NoSig" and ?c = "sample_delivered\<lparr>c_rse := rse_set_params 4, c_futures := Map.empty\<rparr>"
  have "bytes_ok ?E" by (rule toy_bytes_ok)
  moreover have "\<forall>x. length (e_sha_hex ?E x) = 64" by (simp add: toy_env_def)
  moreover have "leo_ok (e_leo ?E) (m_original_count (rse_set_params 4)) (m_recovery_count (rse_set_params 4))"
    using parity_leo_ok by (simp add: rse_set_params_def)
  moreover have "sc_inv (c_sc ?c)" by (simp add: sc_inv_set_pramas sc_default_def)
  ultimately obtain props where props: "encode_proposals ?E (rse_set_params 4) 0 1 80 [7] = Inr props"
    "length props = unat (4 :: u32)"
    "\<And>is. distinct is \<and> set is \<subseteq> {..<unat (4 :: u32)} \<and> unat ((4 :: u32) - (4 - 1) div 3) \<le> length is \<Longrightarrow>
      (\<exists>c'. receive_slices ?E (map (\<lambda>i. p_slice (props ! i)) is) ?c = (Inr (), c') \<and>
        (\<forall>b'. blk_hash (blk c' b') = 80 \<longrightarrow>
           c_futures (start_decode ?E b' c') (e_get_hex ?E 80) = Some (Inr [7])))"
    using commands_disseminated [of ?E 4 "[7]" ?c 80 0 1]
    by (auto simp: rse_set_params_def slice_bytes_def set_pramas_def sc_default_def)
  from props(3) [of "[3, 0, 2]"] have
    "\<exists>c'. receive_slices ?E (map (\<lambda>i. p_slice (props ! i)) [3, 0, 2]) ?c = (Inr (), c') \<and>
      (\<forall>b'. blk_hash (blk c' b') = 80 \<longrightarrow>
         c_futures (start_decode ?E b' c') (e_get_hex ?E 80) = Some (Inr [7]))" by simp
  with props(1,2) show ?thesis by (intro exI [of _ props]) simp
qed

end
