(* ===== verification/Promise.thy ===== *)
theory Promise
  imports Prelude
begin

text \<open>
  Promises (include/hotstuff/promise.hpp, built without \<open>CPPROMISE_USE_STACK_FREE\<close>). Promises
  are shared through \<open>promise_t\<close> handles, so they live in a heap, and their callbacks are
  first-order: a callback names the user's closure (of a type \<open>'k\<close> that the client chooses) and
  the promise that \<open>then\<close> returned for it. Settling a promise runs its callbacks at once, in the
  order in which they were added; the operations return them as tasks, which the machine runs
  before whatever comes next.
\<close>

section \<open>Promises and their callbacks\<close>

text \<open>The promises the core hands out have the core's numbers, the others are local.\<close>

datatype pid = CorePm nat | LocalPm nat

datatype pm_state = Pending | Fulfilled | Rejected

text \<open>
  What \<open>gen_on_fulfilled\<close> and \<open>gen_on_rejected\<close> make of a closure without a result (the promise
  is then settled without a value) and of one with a result; the two callbacks that hand a
  result or a reason on; and the one that \<open>all\<close> adds for a place in its results.
\<close>

datatype 'k callback =
    Call 'k pid
  | CallMap 'k pid
  | CallRejected 'k pid
  | CallMapRejected 'k pid
  | PassResult pid
  | PassReason pid
  | FillSlot nat nat pid

text \<open>A value is a \<open>std::any\<close>: \<open>None\<close> is the empty one.\<close>

record ('k, 'v) promise =
  fulfilled_callbacks :: "'k callback list"
  rejected_callbacks :: "'k callback list"
  pm_state :: pm_state
  pm_result :: "'v option"
  pm_reason :: "'v option"

definition new_promise :: "('k, 'v) promise" where
  "new_promise = \<lparr>fulfilled_callbacks = [], rejected_callbacks = [], pm_state = Pending,
     pm_result = None, pm_reason = None\<rparr>"

text \<open>The shared \<open>size\<close> and \<open>results\<close> of a call of \<open>all\<close>.\<close>

record 'v all_cell =
  cell_size :: nat
  cell_results :: "'v option list"

record ('k, 'v) promises =
  pms :: "pid \<Rightarrow> ('k, 'v) promise"
  next_pm :: nat
  cells :: "nat \<Rightarrow> 'v all_cell"
  next_cell :: nat

definition no_promises :: "('k, 'v) promises" where
  "no_promises = \<lparr>pms = (\<lambda>_. new_promise), next_pm = 0,
     cells = (\<lambda>_. \<lparr>cell_size = 0, cell_results = []\<rparr>), next_cell = 0\<rparr>"

datatype ('k, 'v) pm_task =
    RunCallback "'k callback" "'v option"
  | RunClosure 'k "'v option"
  | RunMap 'k "'v option" pid
  | RunMapRejected 'k "'v option" pid
  | ResolvePm pid "'v option"
  | RejectPm pid "'v option"

section \<open>Operations\<close>

definition set_pm :: "pid \<Rightarrow> ('k, 'v) promise \<Rightarrow> ('k, 'v) promises \<Rightarrow> ('k, 'v) promises" where
  "set_pm p x h = h\<lparr>pms := (pms h)(p := x)\<rparr>"

text \<open>\<open>promise_t()\<close>.\<close>

definition alloc_pm :: "('k, 'v) promises \<Rightarrow> pid \<times> ('k, 'v) promises" where
  "alloc_pm h = (LocalPm (next_pm h),
     (set_pm (LocalPm (next_pm h)) new_promise h)\<lparr>next_pm := Suc (next_pm h)\<rparr>)"

text \<open>\<open>resolve\<close> and \<open>reject\<close>, with \<open>trigger_fulfill\<close> and \<open>trigger_reject\<close>.\<close>

definition pm_resolve ::
  "pid \<Rightarrow> 'v option \<Rightarrow> ('k, 'v) promises \<Rightarrow> ('k, 'v) pm_task list \<times> ('k, 'v) promises" where
  "pm_resolve p v h =
     (let x = pms h p in
      if pm_state x = Pending
      then (map (\<lambda>cb. RunCallback cb v) (fulfilled_callbacks x),
            set_pm p (x\<lparr>pm_result := v, pm_state := Fulfilled, fulfilled_callbacks := []\<rparr>) h)
      else ([], h))"

definition pm_reject ::
  "pid \<Rightarrow> 'v option \<Rightarrow> ('k, 'v) promises \<Rightarrow> ('k, 'v) pm_task list \<times> ('k, 'v) promises" where
  "pm_reject p v h =
     (let x = pms h p in
      if pm_state x = Pending
      then (map (\<lambda>cb. RunCallback cb v) (rejected_callbacks x),
            set_pm p (x\<lparr>pm_reason := v, pm_state := Rejected, rejected_callbacks := []\<rparr>) h)
      else ([], h))"

text \<open>\<open>promise_t([](promise_t &pm){ pm.resolve(v); })\<close>.\<close>

definition resolved_pm :: "'v option \<Rightarrow> ('k, 'v) promises \<Rightarrow> pid \<times> ('k, 'v) promises" where
  "resolved_pm v h = (let (p, h) = alloc_pm h in (p, snd (pm_resolve p v h)))"

text \<open>
  The three forms of \<open>then\<close> and \<open>fail\<close>: a pending promise keeps the callbacks, a settled one
  runs the right one at once.
\<close>

definition add_callbacks ::
  "pid \<Rightarrow> 'k callback \<Rightarrow> 'k callback \<Rightarrow> ('k, 'v) promises \<Rightarrow> ('k, 'v) pm_task list \<times> ('k, 'v) promises"
  where
  "add_callbacks p on_fulfilled on_rejected h =
     (let x = pms h p in
      case pm_state x of
        Pending \<Rightarrow> ([], set_pm p (x\<lparr>fulfilled_callbacks := fulfilled_callbacks x @ [on_fulfilled],
                                    rejected_callbacks := rejected_callbacks x @ [on_rejected]\<rparr>) h)
      | Fulfilled \<Rightarrow> ([RunCallback on_fulfilled (pm_result x)], h)
      | Rejected \<Rightarrow> ([RunCallback on_rejected (pm_reason x)], h))"

definition pm_then ::
  "pid \<Rightarrow> 'k \<Rightarrow> ('k, 'v) promises \<Rightarrow> pid \<times> ('k, 'v) pm_task list \<times> ('k, 'v) promises" where
  "pm_then p k h = (let (npm, h) = alloc_pm h in (npm, add_callbacks p (Call k npm) (PassReason npm) h))"

definition pm_then_map ::
  "pid \<Rightarrow> 'k \<Rightarrow> ('k, 'v) promises \<Rightarrow> pid \<times> ('k, 'v) pm_task list \<times> ('k, 'v) promises" where
  "pm_then_map p k h =
     (let (npm, h) = alloc_pm h in (npm, add_callbacks p (CallMap k npm) (PassReason npm) h))"

definition pm_then_both ::
  "pid \<Rightarrow> 'k \<Rightarrow> 'k \<Rightarrow> ('k, 'v) promises \<Rightarrow> pid \<times> ('k, 'v) pm_task list \<times> ('k, 'v) promises" where
  "pm_then_both p k k' h =
     (let (npm, h) = alloc_pm h in (npm, add_callbacks p (Call k npm) (CallRejected k' npm) h))"

definition pm_fail ::
  "pid \<Rightarrow> 'k \<Rightarrow> ('k, 'v) promises \<Rightarrow> pid \<times> ('k, 'v) pm_task list \<times> ('k, 'v) promises" where
  "pm_fail p k h =
     (let (npm, h) = alloc_pm h in (npm, add_callbacks p (PassResult npm) (CallRejected k npm) h))"

text \<open>The callback of \<open>all\<close> for the place \<open>i\<close>; \<open>pack\<close> makes a value of the results.\<close>

definition fill_slot ::
  "('v option list \<Rightarrow> 'v) \<Rightarrow> nat \<Rightarrow> nat \<Rightarrow> pid \<Rightarrow> 'v option \<Rightarrow> ('k, 'v) promises \<Rightarrow>
     ('k, 'v) pm_task list \<times> ('k, 'v) promises" where
  "fill_slot pack c i npm v h =
     (let x = cells h c;
          x = \<lparr>cell_size = cell_size x - 1, cell_results = (cell_results x)[i := v]\<rparr>;
          h = h\<lparr>cells := (cells h)(c := x)\<rparr> in
      if cell_size x = 0 then pm_resolve npm (Some (pack (cell_results x))) h else ([], h))"

text \<open>The effect of a callback, and what it leaves to do.\<close>

fun run_callback ::
  "('v option list \<Rightarrow> 'v) \<Rightarrow> 'k callback \<Rightarrow> 'v option \<Rightarrow> ('k, 'v) promises \<Rightarrow>
     ('k, 'v) pm_task list \<times> ('k, 'v) promises" where
  "run_callback pack (Call k npm) v h = ([RunClosure k v, ResolvePm npm None], h)"
| "run_callback pack (CallMap k npm) v h = ([RunMap k v npm], h)"
| "run_callback pack (CallRejected k npm) v h = ([RunClosure k v, RejectPm npm None], h)"
| "run_callback pack (CallMapRejected k npm) v h = ([RunMapRejected k v npm], h)"
| "run_callback pack (PassResult npm) v h = pm_resolve npm v h"
| "run_callback pack (PassReason npm) v h = pm_reject npm v h"
| "run_callback pack (FillSlot c i npm) v h = fill_slot pack c i npm v h"

text \<open>
  \<open>all\<close>: the loop over the promises, at place \<open>i\<close>. Nobody waits for the new promise yet, so the
  callbacks of a settled promise, which run in the loop, leave nothing to do.
\<close>

fun all_loop ::
  "('v option list \<Rightarrow> 'v) \<Rightarrow> nat \<Rightarrow> pid \<Rightarrow> nat \<Rightarrow> pid list \<Rightarrow> ('k, 'v) promises \<Rightarrow> ('k, 'v) promises"
  where
  "all_loop pack c npm i [] h = h"
| "all_loop pack c npm i (p # ps) h =
     all_loop pack c npm (Suc i) ps
       (case pm_state (pms h p) of
          Pending \<Rightarrow> snd (add_callbacks p (FillSlot c i npm) (PassReason npm) h)
        | Fulfilled \<Rightarrow> snd (fill_slot pack c i npm (pm_result (pms h p)) h)
        | Rejected \<Rightarrow> snd (pm_reject npm (pm_reason (pms h p)) h))"

definition pm_all ::
  "('v option list \<Rightarrow> 'v) \<Rightarrow> pid list \<Rightarrow> ('k, 'v) promises \<Rightarrow> pid res \<times> ('k, 'v) promises" where
  "pm_all pack ps h =
     (if ps = [] then (Inl (RuntimeError ''mismatching promise value types''), h)
      else let (npm, h) = alloc_pm h;
               c = next_cell h;
               h = h\<lparr>cells := (cells h)(c := \<lparr>cell_size = length ps, cell_results = replicate (length ps) None\<rparr>),
                     next_cell := Suc c\<rparr> in
        (Inr npm, all_loop pack c npm 0 ps h))"

text \<open>\<open>race\<close>: the first promise that is settled settles the new one.\<close>

definition pm_race :: "pid list \<Rightarrow> ('k, 'v) promises \<Rightarrow> pid \<times> ('k, 'v) promises" where
  "pm_race ps h =
     (let (npm, h) = alloc_pm h in
      (npm, foldl (\<lambda>h p.
         case pm_state (pms h p) of
           Pending \<Rightarrow> snd (add_callbacks p (PassResult npm) (PassReason npm) h)
         | Fulfilled \<Rightarrow> snd (pm_resolve npm (pm_result (pms h p)) h)
         | Rejected \<Rightarrow> snd (pm_reject npm (pm_reason (pms h p)) h)) h ps))"

end
