(* ===== verification/Node.thy ===== *)
theory Node
  imports Promise CoreReach Complex_Main
begin

text \<open>
  The state of a running replica: \<open>HotStuffBase\<close> (include/hotstuff/hotstuff.h) around its core,
  the verification pool (include/hotstuff/task.h) and the pace maker (include/hotstuff/liveness.h),
  which share one heap of promises. The closures that the code attaches to promises, and the rest
  of a method that is still to run after callbacks have run, are the constructors of one datatype.
\<close>

section \<open>Values and closures\<close>

datatype pm_value =
    VBlk block_ref
  | VBool bool
  | VProp proposal
  | VRid replica_id
  | VAll "pm_value option list"

text \<open>
  The first group belongs to \<open>HotStuffBase\<close>, the second to verification, the third to the core's
  promises and outputs, the others to the pace makers.
\<close>

datatype closure =
    FetchedForDelivery peer_id
  | DeliverParents block_ref peer_id "pid list" "uint256 list"
  | ReadyForDelivery block_ref
  | DeliveredForProposal proposal
  | CheckVote vote pid
  | CheckedVote vote
  | FetchedForRequest peer_id
  | AllThen "pid list" closure
  | OnFetchBlks "block_ref list"
  | EraseFetch uint256
  | EraseDelivery uint256
  | OnBeat "uint256 list"
  | OnBeatResp vote
  | ThenClosure pid closure
  | AllTrue
  | MatchHash vote
  | PassProposal
  | PassHqc
  | Output core_output
  | HtHqcUpdate
  | HtProposal
  | HtReceiveProposal
  | WqQcFinish pid
  | WqProposal
  | WqLock
  | WqUpdateLastProposed
  | RrProposal
  | RrReceiveProposal
  | RrAwaitManual int block_ref
  | RrManual int
  | RrRotateTimer
  | RrRepropose

type_synonym task = "(closure, pm_value) pm_task"

section \<open>The verification pool\<close>

text \<open>
  A task checks one signature (\<open>Secp256k1VeriTask\<close>). Tasks are told apart by their addresses,
  here by numbers. Verified tasks wait in \<open>vp_out\<close> for the handler of the event loop.
\<close>

datatype veri_task = Secp256k1VeriTask uint256 bytes bytes

record veripool =
  vp_in :: "(nat \<times> veri_task) list"
  vp_out :: "(nat \<times> bool) list"
  vp_pms :: "nat \<rightharpoonup> pid"
  vp_next :: nat

definition veripool_init :: veripool where
  "veripool_init = \<lparr>vp_in = [], vp_out = [], vp_pms = Map.empty, vp_next = 0\<rparr>"

fun veri_task_verify :: "crypto_ops \<Rightarrow> veri_task \<Rightarrow> bool res" where
  "veri_task_verify C (Secp256k1VeriTask h pk sg) = sig_verify C sg (uint256_bytes C h) pk"

section \<open>The pace maker\<close>

text \<open>
  \<open>PaceMakerDummy\<close>, \<open>PaceMakerDummyFixed\<close> and \<open>PaceMakerRR\<close>. The fields are those of
  \<open>PMHighTail\<close>, those of \<open>PMWaitQC\<close> and \<open>PMRoundRobinProposer\<close> in common, and the rest of the
  latter. A timer holds what it runs and its delay. A null entry of \<open>prop_blk\<close> is like none, and
  \<open>hqc_tail\<close> and \<open>last_proposed\<close> are null until \<open>init\<close> sets them, before anything uses them.
\<close>

datatype pace_kind = PaceMakerDummy | PaceMakerDummyFixed replica_id | PaceMakerRR

datatype timer_action = RotateTimer | ExpTimer

record pacemaker =
  pace_kind :: pace_kind
  hqc_tail :: block_ref
  pending_beats :: "pid list"
  last_proposed :: block_ref
  locked :: bool
  pm_qc_finish :: pid
  pm_wait_propose :: pid
  base_timeout :: real
  exp_timeout :: real
  prop_delay :: real
  timer :: "(timer_action \<times> real) option"
  pm_proposer :: replica_id
  prop_blk :: "replica_id \<rightharpoonup> block_ref"
  rotating :: bool
  pm_qc_manual :: pid

section \<open>The replica\<close>

type_synonym net_addr = nat

text \<open>A message on the wire: its opcode and its payload.\<close>

datatype net_msg =
    NetPropose bytes
  | NetVote bytes
  | NetReqBlock bytes
  | NetRespBlock bytes
  | NetSlice bytes

text \<open>
  What a replica does to the outside. Commit callbacks are numbered by the application.
\<close>

datatype net_output =
    SendMsg net_msg peer_id
  | MulticastMsg net_msg "peer_id list"
  | StateMachineExecute finality
  | CommitCallback nat finality
  | ConnectPeer peer_id net_addr
  | DoElected

record fetch_context =
  fc_pm :: pid
  fc_replicas :: "peer_id set"

record node =
  n_core :: core
  n_pms :: "(closure, pm_value) promises"
  n_vpool :: veripool
  n_pace :: pacemaker
  n_listen_addr :: net_addr
  n_blk_size :: nat
  n_peers :: "peer_id list"
  n_tls :: bool
  n_valid_tls_certs :: "uint256 set"
  n_fetch_waiting :: "uint256 \<rightharpoonup> fetch_context"
  n_delivery_waiting :: "uint256 \<rightharpoonup> pid"
  n_decision_waiting :: "uint256 \<rightharpoonup> nat"
  n_cmd_pending :: "(uint256 \<times> nat) list"
  n_cmd_pending_buffer :: "uint256 list"
  n_async_calls :: "closure list"
  n_fetched :: "64 word"
  n_delivered :: "64 word"
  n_part_parent_size :: u32
  n_part_fetched :: u32
  n_part_delivered :: u32
  n_part_decided :: u32
  n_part_fetched_replica :: "peer_id \<rightharpoonup> u32"
  n_net :: "net_output list"

text \<open>
  What the model takes from outside the repository: \<open>ne_addr_peer\<close> is \<open>PeerId(addr)\<close>,
  \<open>ne_tails\<close> and \<open>ne_hashes\<close> give the order in which the containers \<open>tails\<close> (by address) and
  \<open>decision_waiting\<close> (by hash) are iterated.
\<close>

record net_env =
  ne_env :: env
  ne_addr_peer :: "net_addr \<Rightarrow> peer_id"
  ne_tails :: "block_ref set \<Rightarrow> block_ref list"
  ne_hashes :: "uint256 set \<Rightarrow> uint256 list"

section \<open>Running code of the replica\<close>

text \<open>
  A method may settle promises, whose callbacks run before the method goes on: it returns the
  tasks to run next, in order. When it throws, what it caused before is still done.
\<close>

type_synonym 'a run = "'a \<times> task list \<times> node"

definition tell :: "net_output \<Rightarrow> node \<Rightarrow> node" where
  "tell out n = n\<lparr>n_net := n_net n @ [out]\<rparr>"

definition next_task :: "closure \<Rightarrow> task" where
  "next_task k = RunClosure k None"

text \<open>A call of the core: its outputs are handled in order, each when it was made.\<close>

definition call_core :: "(core \<Rightarrow> 'a res \<times> core) \<Rightarrow> node \<Rightarrow> 'a res run" where
  "call_core f n =
     (let (r, c) = f (n_core n) in
      (r, map (\<lambda>out. next_task (Output out)) (drop (length (c_outs (n_core n))) (c_outs c)),
       n\<lparr>n_core := c\<rparr>))"

text \<open>Operations on promises.\<close>

definition n_resolve :: "pid \<Rightarrow> pm_value option \<Rightarrow> node \<Rightarrow> task list \<times> node" where
  "n_resolve p v n = (let (ts, h) = pm_resolve p v (n_pms n) in (ts, n\<lparr>n_pms := h\<rparr>))"

definition n_reject :: "pid \<Rightarrow> pm_value option \<Rightarrow> node \<Rightarrow> task list \<times> node" where
  "n_reject p v n = (let (ts, h) = pm_reject p v (n_pms n) in (ts, n\<lparr>n_pms := h\<rparr>))"

definition n_new_pm :: "node \<Rightarrow> pid \<times> node" where
  "n_new_pm n = (let (p, h) = alloc_pm (n_pms n) in (p, n\<lparr>n_pms := h\<rparr>))"

definition n_resolved :: "pm_value option \<Rightarrow> node \<Rightarrow> pid \<times> node" where
  "n_resolved v n = (let (p, h) = resolved_pm v (n_pms n) in (p, n\<lparr>n_pms := h\<rparr>))"

definition n_then :: "pid \<Rightarrow> closure \<Rightarrow> node \<Rightarrow> pid run" where
  "n_then p k n = (let (q, ts, h) = pm_then p k (n_pms n) in (q, ts, n\<lparr>n_pms := h\<rparr>))"

definition n_then_map :: "pid \<Rightarrow> closure \<Rightarrow> node \<Rightarrow> pid run" where
  "n_then_map p k n = (let (q, ts, h) = pm_then_map p k (n_pms n) in (q, ts, n\<lparr>n_pms := h\<rparr>))"

definition n_all :: "pid list \<Rightarrow> node \<Rightarrow> pid res \<times> node" where
  "n_all ps n = (let (r, h) = pm_all VAll ps (n_pms n) in (r, n\<lparr>n_pms := h\<rparr>))"

text \<open>\<open>VeriPool::verify\<close>, a worker that takes one of the tasks, and the handler of the results.\<close>

definition vp_verify :: "veri_task \<Rightarrow> node \<Rightarrow> pid \<times> node" where
  "vp_verify t n =
     (let (p, n) = n_new_pm n; vp = n_vpool n in
      (p, n\<lparr>n_vpool := vp\<lparr>vp_in := vp_in vp @ [(vp_next vp, t)], vp_pms := (vp_pms vp)(vp_next vp \<mapsto> p),
             vp_next := Suc (vp_next vp)\<rparr>\<rparr>))"

definition vp_work :: "crypto_ops \<Rightarrow> nat \<Rightarrow> node \<Rightarrow> unit res \<times> node" where
  "vp_work C k n =
     (let vp = n_vpool n in
      if length (vp_in vp) \<le> k then (Inr (), n)
      else let (i, t) = vp_in vp ! k in
        case veri_task_verify C t of
          Inl e \<Rightarrow> (Inl e, n)
        | Inr b \<Rightarrow> (Inr (), n\<lparr>n_vpool := vp\<lparr>vp_in := take k (vp_in vp) @ drop (Suc k) (vp_in vp),
                                           vp_out := vp_out vp @ [(i, b)]\<rparr>\<rparr>))"

definition vp_handle :: "node \<Rightarrow> task list \<times> node" where
  "vp_handle n =
     (let vp = n_vpool n in
      case vp_out vp of
        [] \<Rightarrow> ([], n)
      | (i, b) # rest \<Rightarrow>
          (case vp_pms vp i of
             None \<Rightarrow> ([], n)
           | Some p \<Rightarrow> n_resolve p (Some (VBool b))
               (n\<lparr>n_vpool := vp\<lparr>vp_out := rest, vp_pms := (vp_pms vp)(i := None)\<rparr>\<rparr>)))"

text \<open>
  The promise of \<open>verify(pubkey, vpool)\<close> for a partial certificate, and the one of
  \<open>verify(config, vpool)\<close> for a quorum certificate, with the loop over the set bits.
\<close>

fun cert_verify_pool :: "env \<Rightarrow> part_cert \<Rightarrow> pub_key \<Rightarrow> node \<Rightarrow> pid res \<times> node" where
  "cert_verify_pool E (PartCertDummy h) pk n = (let (p, n) = n_resolved (Some (VBool True)) n in (Inr p, n))"
| "cert_verify_pool E (PartCertSecp256k1 sg h) (PubKeySecp256k1 d) n =
     (let (p, n) = vp_verify (Secp256k1VeriTask h d sg) n in (Inr p, n))"
| "cert_verify_pool E (PartCertSecp256k1 sg h) PubKeyDummy n = (Inl BadCast, n)"

fun qc_tasks ::
  "replica_config \<Rightarrow> uint256 \<Rightarrow> (replica_id \<rightharpoonup> bytes) \<Rightarrow> nat list \<Rightarrow> node \<Rightarrow> pid list res \<times> node" where
  "qc_tasks cfg h sigs [] n = (Inr [], n)"
| "qc_tasks cfg h sigs (i # is) n =
     (case get_pubkey cfg (word_of_nat i) of
        Inl e \<Rightarrow> (Inl e, n)
      | Inr PubKeyDummy \<Rightarrow> (Inl BadCast, n)
      | Inr (PubKeySecp256k1 d) \<Rightarrow>
          (case sigs (word_of_nat i) of
             None \<Rightarrow> (Inl Uninitialised, n)
           | Some sg \<Rightarrow>
               let (p, n) = vp_verify (Secp256k1VeriTask h d sg) n in
               bindS (qc_tasks cfg h sigs is n) (\<lambda>ps n. (Inr (p # ps), n))))"

fun qc_verify_promise :: "replica_config \<Rightarrow> quorum_cert \<Rightarrow> node \<Rightarrow> pid res \<times> node" where
  "qc_verify_promise cfg (QuorumCertDummy h) n =
     (let (p, n) = n_resolved (Some (VBool True)) n in (Inr p, n))"
| "qc_verify_promise cfg (QuorumCertSecp256k1 h rids sigs) n =
     (if card (dom sigs) < nmajority cfg
      then let (p, n) = n_resolved (Some (VBool False)) n in (Inr p, n)
      else bindS (qc_tasks cfg h sigs (set_bits rids) n) (\<lambda>ps n.
        bindS (n_all ps n) (\<lambda>p n. let (q, ts, n) = n_then_map p AllTrue n in (Inr q, n))))"

definition blk_verify_promise :: "block_ref \<Rightarrow> node \<Rightarrow> pid res \<times> node" where
  "blk_verify_promise b n =
     (let c = n_core n in
      case blk_qc (blk c b) of
        None \<Rightarrow> (Inl NullDeref, n)
      | Some q \<Rightarrow>
          if qc_obj_hash q = blk_hash (blk c (c_b0 c))
          then let (p, n) = n_resolved (Some (VBool True)) n in (Inr p, n)
          else qc_verify_promise (c_config c) q n)"

end
