(* ===== verification/Liveness.thy ===== *)
theory Liveness
  imports Node
begin

text \<open>
  The pace makers (include/hotstuff/liveness.h): \<open>PMHighTail\<close> selects the parent of a new block,
  \<open>PMWaitQC\<close> and \<open>PMRoundRobinProposer\<close> the time for it and the proposer. The methods
  \<open>proposer_schedule_next\<close> and \<open>proposer_update_last_proposed\<close> of the latter have the text of
  \<open>schedule_next\<close> and \<open>update_last_proposed\<close> of the former and are modelled once.
\<close>

definition set_pace :: "(pacemaker \<Rightarrow> pacemaker) \<Rightarrow> node \<Rightarrow> node" where
  "set_pace f n = n\<lparr>n_pace := f (n_pace n)\<rparr>"

section \<open>Waiting for the core\<close>

text \<open>The promises of the core's \<open>async_\<close> methods, with the closures they attach.\<close>

definition wait_proposal :: "node \<Rightarrow> pid run" where
  "wait_proposal n = n_then_map (CorePm (async_wait_proposal (n_core n))) PassProposal n"

definition wait_receive_proposal :: "node \<Rightarrow> pid run" where
  "wait_receive_proposal n =
     n_then_map (CorePm (async_wait_receive_proposal (n_core n))) PassProposal n"

definition wait_hqc_update :: "node \<Rightarrow> pid run" where
  "wait_hqc_update n = n_then_map (CorePm (async_hqc_update (n_core n))) PassHqc n"

definition wait_qc_finish :: "block_ref \<Rightarrow> node \<Rightarrow> pid \<times> node" where
  "wait_qc_finish b n =
     (case async_qc_finish b (n_core n) of
        (None, c) \<Rightarrow> n_resolved None (n\<lparr>n_core := c\<rparr>)
      | (Some pm, c) \<Rightarrow> (CorePm pm, n\<lparr>n_core := c\<rparr>))"

text \<open>\<open>wait(...).then(k)\<close>.\<close>

definition on_wait :: "(node \<Rightarrow> pid run) \<Rightarrow> closure \<Rightarrow> node \<Rightarrow> task list \<times> node" where
  "on_wait wait k n = (let (p, ts, n) = wait n; (q, ts', n) = n_then p k n in (ts @ ts', n))"

section \<open>Parent selection\<close>

definition check_ancestry :: "(block_ref \<Rightarrow> block) \<Rightarrow> block_ref \<Rightarrow> block_ref \<Rightarrow> bool res" where
  "check_ancestry hp a b = bindE (walk hp (blk_height (hp a)) b) (\<lambda>(_, r). Inr (r = a))"

definition better_tail :: "(block_ref \<Rightarrow> block) \<Rightarrow> block_ref \<Rightarrow> block_ref \<Rightarrow> block_ref \<Rightarrow> block_ref res" where
  "better_tail hp a t b =
     bindE (check_ancestry hp a b) (\<lambda>ok. Inr (if ok \<and> blk_height (hp b) > blk_height (hp t) then b else t))"

definition ht_reg_hqc_update :: "node \<Rightarrow> task list \<times> node" where
  "ht_reg_hqc_update n = on_wait wait_hqc_update HtHqcUpdate n"

definition ht_reg_proposal :: "node \<Rightarrow> task list \<times> node" where
  "ht_reg_proposal n = on_wait wait_proposal HtProposal n"

definition ht_reg_receive_proposal :: "node \<Rightarrow> task list \<times> node" where
  "ht_reg_receive_proposal n = on_wait wait_receive_proposal HtReceiveProposal n"

text \<open>The closures: the highest tail that follows \<open>hqc\<close>; the own proposal; a received one.\<close>

definition ht_on_hqc_update :: "net_env \<Rightarrow> block_ref \<Rightarrow> node \<Rightarrow> unit res run" where
  "ht_on_hqc_update N hqc n =
     (case foldE (better_tail (heap (c_storage (n_core n))) hqc) hqc (ne_tails N (get_tails (n_core n))) of
        Inl e \<Rightarrow> (Inl e, [], n)
      | Inr t \<Rightarrow> (Inr (), ht_reg_hqc_update (set_pace (\<lambda>p. p\<lparr>hqc_tail := t\<rparr>) n)))"

definition ht_on_proposal :: "proposal \<Rightarrow> node \<Rightarrow> unit res run" where
  "ht_on_proposal prop n =
     (case p_blk prop of
        None \<Rightarrow> (Inl NullDeref, [], n)
      | Some b \<Rightarrow> (Inr (), ht_reg_proposal (set_pace (\<lambda>p. p\<lparr>hqc_tail := b\<rparr>) n)))"

definition ht_on_receive_proposal :: "proposal \<Rightarrow> node \<Rightarrow> unit res run" where
  "ht_on_receive_proposal prop n =
     (case (get_hqc (n_core n), p_blk prop) of
        (Some hqc, Some b) \<Rightarrow>
          (case better_tail (heap (c_storage (n_core n))) hqc (hqc_tail (n_pace n)) b of
             Inl e \<Rightarrow> (Inl e, [], n)
           | Inr t \<Rightarrow> (Inr (), ht_reg_receive_proposal (set_pace (\<lambda>p. p\<lparr>hqc_tail := t\<rparr>) n)))
      | _ \<Rightarrow> (Inl NullDeref, [], n))"

definition high_tail_init :: "node \<Rightarrow> task list \<times> node" where
  "high_tail_init n =
     (let n = set_pace (\<lambda>p. p\<lparr>hqc_tail := get_genesis (n_core n)\<rparr>) n;
          (t1, n) = ht_reg_hqc_update n; (t2, n) = ht_reg_proposal n;
          (t3, n) = ht_reg_receive_proposal n in (t1 @ t2 @ t3, n))"

definition get_parents :: "node \<Rightarrow> block_ref list" where
  "get_parents n = [hqc_tail (n_pace n)]"

section \<open>Beats\<close>

definition get_proposer :: "node \<Rightarrow> replica_id" where
  "get_proposer n =
     (case pace_kind (n_pace n) of
        PaceMakerDummy \<Rightarrow> get_id (n_core n)
      | PaceMakerDummyFixed p \<Rightarrow> p
      | PaceMakerRR \<Rightarrow> pm_proposer (n_pace n))"

text \<open>
  \<open>schedule_next\<close>: the closure of the certificate's promise may run at once, so \<open>locked\<close> is set
  after it. What a rejected promise still runs only rejects promises that nobody waits for.
\<close>

definition schedule_next :: "node \<Rightarrow> task list \<times> node" where
  "schedule_next n =
     (case pending_beats (n_pace n) of
        [] \<Rightarrow> ([], n)
      | pm # beats \<Rightarrow>
          if locked (n_pace n) then ([], n)
          else let n = set_pace (\<lambda>p. p\<lparr>pending_beats := beats\<rparr>) n;
                   (t1, n) = n_reject (pm_qc_finish (n_pace n)) None n;
                   (q, n) = wait_qc_finish (last_proposed (n_pace n)) n;
                   n = set_pace (\<lambda>p. p\<lparr>pm_qc_finish := q\<rparr>) n;
                   (_, t2, n) = n_then q (WqQcFinish pm) n in
            (t1 @ t2 @ [next_task WqLock], n))"

definition wq_on_qc_finish :: "pid \<Rightarrow> node \<Rightarrow> task list \<times> node" where
  "wq_on_qc_finish pm n = n_resolve pm (Some (VRid (get_proposer n))) n"

definition update_last_proposed :: "node \<Rightarrow> task list \<times> node" where
  "update_last_proposed n =
     (let (t1, n) = n_reject (pm_wait_propose (n_pace n)) None n;
          (q, t2, n) = wait_proposal n;
          n = set_pace (\<lambda>p. p\<lparr>pm_wait_propose := q\<rparr>) n;
          (_, t3, n) = n_then q WqProposal n in
      (t1 @ t2 @ t3, n))"

definition wq_on_proposal :: "proposal \<Rightarrow> node \<Rightarrow> unit res run" where
  "wq_on_proposal prop n =
     (case p_blk prop of
        None \<Rightarrow> (Inl NullDeref, [], n)
      | Some b \<Rightarrow>
          let (ts, n) = schedule_next (set_pace (\<lambda>p. p\<lparr>last_proposed := b, locked := False\<rparr>) n) in
          (Inr (), ts @ [next_task WqUpdateLastProposed], n))"

definition wait_qc_init :: "node \<Rightarrow> task list \<times> node" where
  "wait_qc_init n =
     update_last_proposed (set_pace (\<lambda>p. p\<lparr>last_proposed := get_genesis (n_core n), locked := False\<rparr>) n)"

definition get_pending_size :: "node \<Rightarrow> nat" where
  "get_pending_size n = length (pending_beats (n_pace n))"

definition beat :: "node \<Rightarrow> pid run" where
  "beat n =
     (if pace_kind (n_pace n) = PaceMakerRR \<and>
         (rotating (n_pace n) \<or> pm_proposer (n_pace n) \<noteq> get_id (n_core n))
      then let (pm, n) = n_resolved (Some (VRid (pm_proposer (n_pace n)))) n in (pm, [], n)
      else let (pm, n) = n_new_pm n;
               n = set_pace (\<lambda>p. p\<lparr>pending_beats := pending_beats p @ [pm]\<rparr>) n in
        (pm, schedule_next n))"

definition beat_resp :: "replica_id \<Rightarrow> node \<Rightarrow> pid \<times> node" where
  "beat_resp last_proposer n =
     n_resolved (Some (VRid (case pace_kind (n_pace n) of
         PaceMakerDummyFixed p \<Rightarrow> p | _ \<Rightarrow> last_proposer))) n"

section \<open>Rotation\<close>

definition rr_reg_proposal :: "node \<Rightarrow> task list \<times> node" where
  "rr_reg_proposal n = on_wait wait_proposal RrProposal n"

definition rr_reg_receive_proposal :: "node \<Rightarrow> task list \<times> node" where
  "rr_reg_receive_proposal n = on_wait wait_receive_proposal RrReceiveProposal n"

definition note_proposal :: "replica_id \<Rightarrow> proposal \<Rightarrow> pacemaker \<Rightarrow> pacemaker" where
  "note_proposal rid prop p =
     (if prop_blk p rid = None then p\<lparr>prop_blk := (prop_blk p)(rid := p_blk prop)\<rparr> else p)"

definition rr_on_proposal :: "proposal \<Rightarrow> node \<Rightarrow> task list \<times> node" where
  "rr_on_proposal prop n =
     (let n = set_pace (note_proposal (get_id (n_core n)) prop) n in
      if rotating (n_pace n) then rr_reg_proposal n else ([], n))"

definition rr_on_receive_proposal :: "proposal \<Rightarrow> node \<Rightarrow> task list \<times> node" where
  "rr_on_receive_proposal prop n =
     (let n = set_pace (note_proposal (p_proposer prop) prop) n in
      if rotating (n_pace n) then rr_reg_receive_proposal n else ([], n))"

text \<open>\<open>do_new_consensus\<close>, what follows the proposal, and the closure of its certificate.\<close>

definition do_new_consensus :: "net_env \<Rightarrow> int \<Rightarrow> uint256 list \<Rightarrow> node \<Rightarrow> unit res run" where
  "do_new_consensus N x cmds n =
     (let (r, ts, n) = call_core (on_propose (ne_env N) cmds (get_parents n) []) n in
      case r of
        Inl e \<Rightarrow> (Inl e, ts, n)
      | Inr b \<Rightarrow> (Inr (), ts @ [next_task (RrAwaitManual x b)], n))"

definition rr_await_manual :: "int \<Rightarrow> block_ref \<Rightarrow> node \<Rightarrow> task list \<times> node" where
  "rr_await_manual x b n =
     (let (t1, n) = n_reject (pm_qc_manual (n_pace n)) None n;
          (q, n) = wait_qc_finish b n;
          n = set_pace (\<lambda>p. p\<lparr>pm_qc_manual := q\<rparr>) n;
          (_, t2, n) = n_then q (RrManual x) n in
      (t1 @ t2, n))"

definition rr_on_manual :: "net_env \<Rightarrow> int \<Rightarrow> node \<Rightarrow> unit res run" where
  "rr_on_manual N x n = (if x \<ge> 3 then (Inr (), [], n) else do_new_consensus N (x + 1) [] n)"

definition reject_waits :: "node \<Rightarrow> task list \<times> node" where
  "reject_waits n =
     (let (t1, n) = n_reject (pm_qc_finish (n_pace n)) None n;
          (t2, n) = n_reject (pm_wait_propose (n_pace n)) None n;
          (t3, n) = n_reject (pm_qc_manual (n_pace n)) None n in (t1 @ t2 @ t3, n))"

definition rotate_pm :: "node \<Rightarrow> unit res run" where
  "rotate_pm n =
     (let (t1, n) = rr_reg_proposal n; (t2, n) = rr_reg_receive_proposal n;
          nreplicas = nreplicas (get_config (n_core n)) in
      if nreplicas = 0 then (Inl DivByZero, t1 @ t2, n)
      else let n = set_pace (\<lambda>p. p\<lparr>prop_blk := Map.empty, rotating := True,
                     pm_proposer := word_of_nat ((unat (pm_proposer p) + 1) mod nreplicas)\<rparr>) n;
               (t3, n) = reject_waits n in
        (Inr (), t1 @ t2 @ t3, set_pace (\<lambda>p. p\<lparr>timer := Some (ExpTimer, exp_timeout p),
           exp_timeout := 2 * exp_timeout p\<rparr>) n))"

definition on_exp_timeout :: "net_env \<Rightarrow> node \<Rightarrow> unit res run" where
  "on_exp_timeout N n =
     (if pm_proposer (n_pace n) = get_id (n_core n)
      then let (r, ts, n) = do_new_consensus N 0 [] n in (r, ts @ [next_task RrRotateTimer], n)
      else (Inr (), [next_task RrRotateTimer], n))"

definition stop_rotate :: "node \<Rightarrow> task list \<times> node" where
  "stop_rotate n =
     (let n = set_pace (\<lambda>p. p\<lparr>timer := None\<rparr>) n;
          (t1, n) = reject_waits n;
          n = set_pace (\<lambda>p. p\<lparr>rotating := False, locked := False,
                last_proposed := get_genesis (n_core n)\<rparr>) n;
          (t2, n) = update_last_proposed n in
      (t1 @ t2,
       if pm_proposer (n_pace n) = get_id (n_core n)
       then (tell DoElected n)\<lparr>n_async_calls := n_async_calls n @ [RrRepropose]\<rparr>
       else n))"

definition rr_repropose :: "net_env \<Rightarrow> node \<Rightarrow> unit res run" where
  "rr_repropose N n =
     (if dom (n_decision_waiting n) = {} then (Inr (), [], n)
      else do_new_consensus N 0 (ne_hashes N (dom (n_decision_waiting n))) n)"

definition pm_on_consensus :: "block_ref \<Rightarrow> node \<Rightarrow> task list \<times> node" where
  "pm_on_consensus b n =
     (if pace_kind (n_pace n) \<noteq> PaceMakerRR then ([], n)
      else let n = set_pace (\<lambda>p. p\<lparr>timer := None, exp_timeout := base_timeout p\<rparr>) n in
        if prop_blk (n_pace n) (pm_proposer (n_pace n)) = Some b then stop_rotate n else ([], n))"

definition impeach :: "node \<Rightarrow> unit res run" where
  "impeach n =
     (if pace_kind (n_pace n) \<noteq> PaceMakerRR \<or> rotating (n_pace n) then (Inr (), [], n)
      else rotate_pm n)"

text \<open>\<open>init\<close> of the three pace makers, and their constructors.\<close>

definition pm_init :: "node \<Rightarrow> task list \<times> node" where
  "pm_init n =
     (let (t1, n) = high_tail_init n;
          (t2, n) = (if pace_kind (n_pace n) = PaceMakerRR
                     then stop_rotate (set_pace (\<lambda>p. p\<lparr>exp_timeout := base_timeout p\<rparr>) n)
                     else wait_qc_init n) in
      (t1 @ t2, n))"

end
