(* ===== verification/Base.thy ===== *)
theory Base
  imports Liveness
begin

text \<open>
  \<open>HotStuffBase\<close>, the replica over the network (include/hotstuff/hotstuff.h and
  src/hotstuff.cpp): fetching and delivering blocks, the message handlers, what becomes of the
  core's outputs, the queue of commands, and the event loop that runs all this. Logging and the
  delivery times of the statistics are left out.
\<close>

section \<open>Sending\<close>

definition send_to :: "(bytes \<Rightarrow> net_msg) \<Rightarrow> bytes res \<Rightarrow> peer_id \<Rightarrow> node \<Rightarrow> unit res \<times> node" where
  "send_to K m peer n =
     (case m of Inl e \<Rightarrow> (Inl e, n) | Inr s \<Rightarrow> (Inr (), tell (SendMsg (K s) peer) n))"

definition do_broadcast_slice :: "env \<Rightarrow> slice \<Rightarrow> node \<Rightarrow> unit res \<times> node" where
  "do_broadcast_slice E x n =
     (case msg_slice E x of
        Inl e \<Rightarrow> (Inl e, n)
      | Inr s \<Rightarrow> (Inr (), tell (MulticastMsg (NetSlice s) (n_peers n)) n))"

definition do_broadcast_proposal :: "env \<Rightarrow> proposal \<Rightarrow> node \<Rightarrow> unit res \<times> node" where
  "do_broadcast_proposal E prop n =
     (case msg_propose E (heap (c_storage (n_core n))) prop of
        Inl e \<Rightarrow> (Inl e, n)
      | Inr s \<Rightarrow> (Inr (), tell (MulticastMsg (NetPropose s) (n_peers n)) n))"

text \<open>Every peer gets the proposal with its own slice.\<close>

fun send_proposals :: "env \<Rightarrow> proposal list \<Rightarrow> peer_id list \<Rightarrow> node \<Rightarrow> unit res \<times> node" where
  "send_proposals E props [] n = (Inr (), n)"
| "send_proposals E props (peer # peers) n =
     (case get_rid (get_config (n_core n)) peer of
        Inl e \<Rightarrow> (Inl e, n)
      | Inr rid \<Rightarrow>
          if length props \<le> unat rid then (Inl OutOfBounds, n)
          else bindS (send_to NetPropose
                 (msg_propose E (heap (c_storage (n_core n))) (props ! unat rid)) peer n)
               (\<lambda>_ n. send_proposals E props peers n))"

definition do_broadcast_proposal_with_slice :: "env \<Rightarrow> proposal list \<Rightarrow> node \<Rightarrow> unit res \<times> node" where
  "do_broadcast_proposal_with_slice E props n = send_proposals E props (n_peers n) n"

section \<open>Fetching blocks\<close>

text \<open>\<open>FetchContext::send\<close>, \<open>add_replica\<close> and \<open>timeout_cb\<close>; the timer is an event.\<close>

definition fc_send :: "env \<Rightarrow> uint256 \<Rightarrow> peer_id \<Rightarrow> node \<Rightarrow> unit res \<times> node" where
  "fc_send E h replica n =
     send_to NetReqBlock (msg_req_block (e_stream E) [h]) replica
       (n\<lparr>n_part_fetched_replica := (n_part_fetched_replica n)(replica \<mapsto>
            (case n_part_fetched_replica n replica of None \<Rightarrow> 0 | Some k \<Rightarrow> k) + 1)\<rparr>)"

definition fc_add_replica :: "env \<Rightarrow> uint256 \<Rightarrow> peer_id \<Rightarrow> bool \<Rightarrow> node \<Rightarrow> unit res \<times> node" where
  "fc_add_replica E h replica fetch_now n =
     (case n_fetch_waiting n h of
        None \<Rightarrow> (Inr (), n)
      | Some fc \<Rightarrow>
          bindS (if fc_replicas fc = {} \<and> fetch_now then fc_send E h replica n else (Inr (), n))
            (\<lambda>_ n. (Inr (), n\<lparr>n_fetch_waiting :=
               (n_fetch_waiting n)(h \<mapsto> fc\<lparr>fc_replicas := insert replica (fc_replicas fc)\<rparr>)\<rparr>)))"

fun fc_send_all :: "env \<Rightarrow> uint256 \<Rightarrow> peer_id list \<Rightarrow> node \<Rightarrow> unit res \<times> node" where
  "fc_send_all E h [] n = (Inr (), n)"
| "fc_send_all E h (r # rs) n = bindS (fc_send E h r n) (\<lambda>_ n. fc_send_all E h rs n)"

definition fc_timeout :: "net_env \<Rightarrow> uint256 \<Rightarrow> node \<Rightarrow> unit res \<times> node" where
  "fc_timeout N h n =
     (case n_fetch_waiting n h of
        None \<Rightarrow> (Inr (), n)
      | Some fc \<Rightarrow> fc_send_all (ne_env N) h (ne_hashes N (fc_replicas fc)) n)"

text \<open>A null \<open>replica\<close> is \<open>None\<close>.\<close>

definition async_fetch_blk ::
  "env \<Rightarrow> uint256 \<Rightarrow> peer_id option \<Rightarrow> bool \<Rightarrow> node \<Rightarrow> pid res \<times> node" where
  "async_fetch_blk E h replica fetch_now n =
     (case find_blk (c_storage (n_core n)) h of
        Some b \<Rightarrow> (let (p, n) = n_resolved (Some (VBlk b)) n in (Inr p, n))
      | None \<Rightarrow>
          let (p, n) = (case n_fetch_waiting n h of
                Some fc \<Rightarrow> (fc_pm fc, n)
              | None \<Rightarrow> let (p, n) = n_new_pm n in
                  (p, n\<lparr>n_fetch_waiting := (n_fetch_waiting n)(h \<mapsto> \<lparr>fc_pm = p, fc_replicas = {}\<rparr>)\<rparr>)) in
          case replica of
            None \<Rightarrow> (Inr p, n)
          | Some r \<Rightarrow> bindS (fc_add_replica E h r fetch_now n) (\<lambda>_ n. (Inr p, n)))"

definition on_fetch_blk :: "block_ref \<Rightarrow> node \<Rightarrow> task list \<times> node" where
  "on_fetch_blk b n =
     (let n = n\<lparr>n_part_fetched := n_part_fetched n + 1, n_fetched := n_fetched n + 1\<rparr>;
          h = blk_hash (blk (n_core n) b) in
      case n_fetch_waiting n h of
        None \<Rightarrow> ([], n)
      | Some fc \<Rightarrow> let (ts, n) = n_resolve (fc_pm fc) (Some (VBlk b)) n in
          (ts @ [next_task (EraseFetch h)], n))"

section \<open>Delivering blocks\<close>

definition async_deliver_blk :: "env \<Rightarrow> uint256 \<Rightarrow> peer_id \<Rightarrow> node \<Rightarrow> pid res run" where
  "async_deliver_blk E h replica n =
     (if is_blk_delivered (c_storage (n_core n)) h
      then let (p, n) = n_resolved (map_option VBlk (find_blk (c_storage (n_core n)) h)) n in (Inr p, [], n)
      else case n_delivery_waiting n h of
          Some p \<Rightarrow> (Inr p, [], n)
        | None \<Rightarrow>
            let (pm, n) = n_new_pm n;
                n = n\<lparr>n_delivery_waiting := (n_delivery_waiting n)(h \<mapsto> pm)\<rparr> in
            case async_fetch_blk E h (Some replica) True n of
              (Inl e, n) \<Rightarrow> (Inl e, [], n)
            | (Inr p, n) \<Rightarrow> let (q, ts, n) = n_then p (FetchedForDelivery replica) n in (Inr pm, ts, n))"

text \<open>
  The closure of the fetched block, the loop over its parents and the closure of them all:
  fetching the parents may run closures before the loop goes on.
\<close>

definition fetched_for_delivery :: "env \<Rightarrow> peer_id \<Rightarrow> block_ref \<Rightarrow> node \<Rightarrow> unit res run" where
  "fetched_for_delivery E replica b n =
     (case blk_qc (blk (n_core n) b) of
        None \<Rightarrow> (Inl AssertFail, [], n)
      | Some q \<Rightarrow>
          (case (if b = get_genesis (n_core n)
                 then let (p, n) = n_resolved (Some (VBool True)) n in (Inr p, n)
                 else blk_verify_promise b n) of
             (Inl e, n) \<Rightarrow> (Inl e, [], n)
           | (Inr p1, n) \<Rightarrow>
               (case async_fetch_blk E (qc_obj_hash q) (Some replica) True n of
                  (Inl e, n) \<Rightarrow> (Inl e, [], n)
                | (Inr p2, n) \<Rightarrow>
                    (Inr (), [next_task (DeliverParents b replica [p1, p2]
                       (blk_parent_hashes (blk (n_core n) b)))], n))))"

definition all_then :: "pid list \<Rightarrow> closure \<Rightarrow> node \<Rightarrow> unit res run" where
  "all_then ps k n =
     (case n_all ps n of
        (Inl e, n) \<Rightarrow> (Inl e, [], n)
      | (Inr p, n) \<Rightarrow> let (q, ts, n) = n_then p k n in (Inr (), ts, n))"

fun deliver_parents ::
  "env \<Rightarrow> block_ref \<Rightarrow> peer_id \<Rightarrow> pid list \<Rightarrow> uint256 list \<Rightarrow> node \<Rightarrow> unit res run" where
  "deliver_parents E b replica ps [] n = all_then ps (ReadyForDelivery b) n"
| "deliver_parents E b replica ps (h # hs) n =
     (case async_deliver_blk E h replica n of
        (Inl e, ts, n) \<Rightarrow> (Inl e, ts, n)
      | (Inr p, ts, n) \<Rightarrow> (Inr (), ts @ [next_task (DeliverParents b replica (ps @ [p]) hs)], n))"

text \<open>\<open>HotStuffBase::on_deliver_blk\<close>: the core's promise is kept before the core is called.\<close>

definition base_on_deliver_blk :: "block_ref \<Rightarrow> node \<Rightarrow> unit res run" where
  "base_on_deliver_blk b n =
     (let h = blk_hash (blk (n_core n) b); hs = blk_parent_hashes (blk (n_core n) b) in
      if \<not> list_all (is_blk_delivered (c_storage (n_core n))) hs then (Inl AssertFail, [], n)
      else let (r, ts, n) = call_core (on_deliver_blk b) n in
        case r of
          Inl e \<Rightarrow> (Inl e, ts, n)
        | Inr valid \<Rightarrow>
            let n = (if valid
                     then n\<lparr>n_part_parent_size := n_part_parent_size n + word_of_nat (length hs),
                            n_part_delivered := n_part_delivered n + 1, n_delivered := n_delivered n + 1\<rparr>
                     else n) in
            case n_delivery_waiting n h of
              None \<Rightarrow> (Inr (), ts, n)
            | Some pm \<Rightarrow>
                let (ts', n) = (if valid then n_resolve pm (Some (VBlk b)) n
                                else n_reject pm (Some (VBlk b)) n) in
                (Inr (), ts @ ts' @ [next_task (EraseDelivery h)], n))"

definition ready_for_delivery :: "block_ref \<Rightarrow> pm_value option list \<Rightarrow> node \<Rightarrow> unit res run" where
  "ready_for_delivery b vs n =
     (case vs of
        Some (VBool ok) # _ \<Rightarrow> if ok then base_on_deliver_blk b n else (Inr (), [], n)
      | _ \<Rightarrow> (Inl (RuntimeError ''bad any cast''), [], n))"

section \<open>Message handlers\<close>

text \<open>Parsing a message may store blocks.\<close>

definition call_storage :: "(entity_storage \<Rightarrow> 'a res \<times> entity_storage) \<Rightarrow> node \<Rightarrow> 'a res \<times> node" where
  "call_storage f n =
     (let (r, st) = f (c_storage (n_core n)) in (r, n\<lparr>n_core := (n_core n)\<lparr>c_storage := st\<rparr>\<rparr>))"

definition propose_handler :: "env \<Rightarrow> bytes \<Rightarrow> peer_id option \<Rightarrow> node \<Rightarrow> unit res run" where
  "propose_handler E s conn n =
     (case conn of
        None \<Rightarrow> (Inr (), [], n)
      | Some peer \<Rightarrow>
          (case call_storage (msg_propose_parse E s) n of
             (Inl e, n) \<Rightarrow> (Inl e, [], n)
           | (Inr prop, n) \<Rightarrow>
               (case p_blk prop of
                  None \<Rightarrow> (Inr (), [], n)
                | Some b \<Rightarrow>
                    (case get_peer_id (get_config (n_core n)) (p_proposer prop) of
                       Inl e \<Rightarrow> (Inl e, [], n)
                     | Inr proposer \<Rightarrow>
                         if peer \<noteq> proposer then (Inr (), [], n)
                         else case async_deliver_blk E (blk_hash (blk (n_core n) b)) peer n of
                             (Inl e, ts, n) \<Rightarrow> (Inl e, ts, n)
                           | (Inr p, ts, n) \<Rightarrow>
                               (Inr (), ts @ [next_task (AllThen [p] (DeliveredForProposal prop))], n)))))"

definition vote_handler :: "env \<Rightarrow> bytes \<Rightarrow> peer_id option \<Rightarrow> node \<Rightarrow> unit res run" where
  "vote_handler E s conn n =
     (case conn of
        None \<Rightarrow> (Inr (), [], n)
      | Some peer \<Rightarrow>
          (case msg_vote_parse E s of
             Inl e \<Rightarrow> (Inl e, [], n)
           | Inr v \<Rightarrow>
               (case async_deliver_blk E (v_blk_hash v) peer n of
                  (Inl e, ts, n) \<Rightarrow> (Inl e, ts, n)
                | (Inr p, ts, n) \<Rightarrow> (Inr (), ts @ [next_task (CheckVote v p)], n))))"

text \<open>\<open>Vote::verify(vpool)\<close>, once the promise of the delivery is there.\<close>

definition check_vote :: "env \<Rightarrow> vote \<Rightarrow> pid \<Rightarrow> node \<Rightarrow> unit res run" where
  "check_vote E v p n =
     (if \<not> v_hsc v then (Inl AssertFail, [], n)
      else case v_cert v of
          None \<Rightarrow> (Inl NullDeref, [], n)
        | Some cert \<Rightarrow>
            (case get_pubkey (get_config (n_core n)) (v_voter v) of
               Inl e \<Rightarrow> (Inl e, [], n)
             | Inr pk \<Rightarrow>
                 (case cert_verify_pool E cert pk n of
                    (Inl e, n) \<Rightarrow> (Inl e, [], n)
                  | (Inr q, n) \<Rightarrow>
                      let (r, ts, n) = n_then_map q (MatchHash v) n in
                      (Inr (), ts @ [next_task (AllThen [p, r] (CheckedVote v))], n))))"

definition checked_vote :: "env \<Rightarrow> vote \<Rightarrow> pm_value option list \<Rightarrow> node \<Rightarrow> unit res run" where
  "checked_vote E v vs n =
     (case vs of
        [_, Some (VBool ok)] \<Rightarrow>
          if ok then call_core (on_receive_vote E v) n else (Inr (), [], n)
      | _ \<Rightarrow> (Inl (RuntimeError ''bad any cast''), [], n))"

fun fetch_all :: "env \<Rightarrow> uint256 list \<Rightarrow> node \<Rightarrow> pid list res \<times> node" where
  "fetch_all E [] n = (Inr [], n)"
| "fetch_all E (h # hs) n =
     bindS (async_fetch_blk E h None True n) (\<lambda>p n.
       bindS (fetch_all E hs n) (\<lambda>ps n. (Inr (p # ps), n)))"

definition req_blk_handler :: "env \<Rightarrow> bytes \<Rightarrow> peer_id option \<Rightarrow> node \<Rightarrow> unit res run" where
  "req_blk_handler E s conn n =
     (case msg_req_block_parse (e_stream E) s of
        Inl e \<Rightarrow> (Inl e, [], n)
      | Inr hs \<Rightarrow>
          (case conn of
             None \<Rightarrow> (Inr (), [], n)
           | Some replica \<Rightarrow>
               (case fetch_all E hs n of
                  (Inl e, n) \<Rightarrow> (Inl e, [], n)
                | (Inr ps, n) \<Rightarrow> all_then ps (FetchedForRequest replica) n)))"

fun cast_blks :: "pm_value option list \<Rightarrow> block_ref list res" where
  "cast_blks [] = Inr []"
| "cast_blks (Some (VBlk b) # vs) = bindE (cast_blks vs) (\<lambda>bs. Inr (b # bs))"
| "cast_blks (_ # vs) = Inl (RuntimeError ''bad any cast'')"

definition fetched_for_request ::
  "env \<Rightarrow> peer_id \<Rightarrow> pm_value option list \<Rightarrow> node \<Rightarrow> unit res \<times> node" where
  "fetched_for_request E replica vs n =
     (case cast_blks vs of
        Inl e \<Rightarrow> (Inl e, n)
      | Inr bs \<Rightarrow> send_to NetRespBlock (msg_resp_block E (map (blk (n_core n)) bs)) replica n)"

definition resp_blk_handler :: "env \<Rightarrow> bytes \<Rightarrow> node \<Rightarrow> unit res run" where
  "resp_blk_handler E s n =
     (case call_storage (msg_resp_block_parse E s) n of
        (Inl e, n) \<Rightarrow> (Inl e, [], n)
      | (Inr bs, n) \<Rightarrow> (Inr (), [next_task (OnFetchBlks bs)], n))"

text \<open>The promises around the handling of a slice are resolved at once and nobody waits for them.\<close>

definition slice_handler :: "env \<Rightarrow> bytes \<Rightarrow> peer_id option \<Rightarrow> node \<Rightarrow> unit res run" where
  "slice_handler E s conn n =
     (case conn of
        None \<Rightarrow> (Inr (), [], n)
      | Some peer \<Rightarrow>
          (case msg_slice_parse E s of
             Inl e \<Rightarrow> (Inl e, [], n)
           | Inr (h, x) \<Rightarrow>
               (case slice_get_hash E x of
                  Inl e \<Rightarrow> (Inl e, [], n)
                | Inr h' \<Rightarrow>
                    if h \<noteq> h'
                    then (case get_rid (get_config (n_core n)) peer of
                            Inl e \<Rightarrow> (Inl e, [], n) | Inr _ \<Rightarrow> (Inr (), [], n))
                    else call_core (on_receive_slice E x) n)))"

text \<open>With TLS, only peers whose certificate was configured may connect.\<close>

definition conn_handler :: "env \<Rightarrow> bytes \<Rightarrow> bool \<Rightarrow> node \<Rightarrow> bool" where
  "conn_handler E der up n =
     (if up then (if \<not> n_tls n then True else e_get_hash E der \<in> n_valid_tls_certs n) else True)"

section \<open>The outputs of the core\<close>

definition do_vote :: "replica_id \<Rightarrow> vote \<Rightarrow> node \<Rightarrow> task list \<times> node" where
  "do_vote last_proposer v n =
     (let (p, n) = beat_resp last_proposer n; (q, ts, n) = n_then p (OnBeatResp v) n in (ts, n))"

definition on_beat_resp :: "env \<Rightarrow> vote \<Rightarrow> replica_id \<Rightarrow> node \<Rightarrow> unit res run" where
  "on_beat_resp E v proposer n =
     (if proposer = get_id (n_core n) then call_core (on_receive_vote E v) n
      else case msg_vote E v of
          Inl e \<Rightarrow> (Inl e, [], n)
        | Inr s \<Rightarrow>
            (case get_peer_id (get_config (n_core n)) proposer of
               Inl e \<Rightarrow> (Inl e, [], n)
             | Inr peer \<Rightarrow> (Inr (), [], tell (SendMsg (NetVote s) peer) n)))"

definition do_decide :: "finality \<Rightarrow> node \<Rightarrow> node" where
  "do_decide fin n =
     (let n = tell (StateMachineExecute fin) (n\<lparr>n_part_decided := n_part_decided n + 1\<rparr>) in
      case n_decision_waiting n (f_cmd_hash fin) of
        None \<Rightarrow> n
      | Some cb \<Rightarrow> (tell (CommitCallback cb fin) n)
          \<lparr>n_decision_waiting := (n_decision_waiting n)(f_cmd_hash fin := None)\<rparr>)"

fun cast_core :: "promise_value \<Rightarrow> pm_value option" where
  "cast_core VUnit = None"
| "cast_core (VBlock b) = None"
| "cast_core (VProposal p) = Some (VProp p)"

fun handle_output :: "env \<Rightarrow> core_output \<Rightarrow> node \<Rightarrow> unit res run" where
  "handle_output E (DoDecide fin) n = (Inr (), [], do_decide fin n)"
| "handle_output E (DoConsensus b) n = (let (ts, n) = pm_on_consensus b n in (Inr (), ts, n))"
| "handle_output E (DoBroadcastSlice x) n = (let (r, n) = do_broadcast_slice E x n in (r, [], n))"
| "handle_output E (DoBroadcastProposals props) n =
     (let (r, n) = do_broadcast_proposal_with_slice E props n in (r, [], n))"
| "handle_output E (DoVote last_proposer v) n = (let (ts, n) = do_vote last_proposer v n in (Inr (), ts, n))"
| "handle_output E (Resolve i v) n = (let (ts, n) = n_resolve (CorePm i) (cast_core v) n in (Inr (), ts, n))"

section \<open>The queue of commands\<close>

definition exec_command :: "uint256 \<Rightarrow> nat \<Rightarrow> node \<Rightarrow> node" where
  "exec_command h callback n = n\<lparr>n_cmd_pending := n_cmd_pending n @ [(h, callback)]\<rparr>"

text \<open>One round of the handler's loop, up to the test whether there are enough commands.\<close>

definition take_command :: "env \<Rightarrow> uint256 \<Rightarrow> nat \<Rightarrow> node \<Rightarrow> node" where
  "take_command E h callback n =
     (let n = (case n_decision_waiting n h of
                 None \<Rightarrow> n\<lparr>n_decision_waiting := (n_decision_waiting n)(h \<mapsto> callback)\<rparr>
               | Some _ \<Rightarrow> tell (CommitCallback callback
                   \<lparr>f_rid = get_id (n_core n), f_decision = 0, f_cmd_idx = 0, f_cmd_height = 0,
                    f_cmd_hash = h, f_blk_hash = e_uint256_default E\<rparr>) n) in
      if get_proposer n \<noteq> get_id (n_core n) then n
      else n\<lparr>n_cmd_pending_buffer := n_cmd_pending_buffer n @ [h]\<rparr>)"

definition propose_commands :: "node \<Rightarrow> task list \<times> node" where
  "propose_commands n =
     (let cmds = take (n_blk_size n) (n_cmd_pending_buffer n);
          (p, ts, n) = beat (n\<lparr>n_cmd_pending_buffer := drop (n_blk_size n) (n_cmd_pending_buffer n)\<rparr>) in
      (ts @ [next_task (ThenClosure p (OnBeat cmds))], n))"

fun cmd_loop :: "env \<Rightarrow> (uint256 \<times> nat) list \<Rightarrow> node \<Rightarrow> task list \<times> node" where
  "cmd_loop E [] n = ([], n\<lparr>n_cmd_pending := []\<rparr>)"
| "cmd_loop E ((h, callback) # q) n =
     (let n' = take_command E h callback n in
      if get_proposer n = get_id (n_core n) \<and> n_blk_size n \<le> length (n_cmd_pending_buffer n')
      then propose_commands (n'\<lparr>n_cmd_pending := q\<rparr>)
      else cmd_loop E q n')"

definition cmd_handler :: "env \<Rightarrow> node \<Rightarrow> task list \<times> node" where
  "cmd_handler E n = cmd_loop E (n_cmd_pending n) n"

definition on_beat :: "env \<Rightarrow> uint256 list \<Rightarrow> replica_id \<Rightarrow> node \<Rightarrow> unit res run" where
  "on_beat E cmds proposer n =
     (if proposer = get_id (n_core n)
      then let (r, ts, n) = call_core (on_propose E cmds (get_parents n) []) n in
        ((case r of Inl e \<Rightarrow> Inl e | Inr _ \<Rightarrow> Inr ()), ts, n)
      else (Inr (), [], n))"

section \<open>Running\<close>

text \<open>A closure with an argument casts it; the cast fails when the value is of another type.\<close>

definition bad_cast :: "node \<Rightarrow> unit res run" where
  "bad_cast n = (Inl (RuntimeError ''mismatching promise value types''), [], n)"

definition ok_run :: "task list \<times> node \<Rightarrow> unit res run" where
  "ok_run x = (Inr (), x)"

definition no_tasks :: "unit res \<times> node \<Rightarrow> unit res run" where
  "no_tasks x = (fst x, [], snd x)"

definition on_fetch_blks :: "block_ref list \<Rightarrow> node \<Rightarrow> unit res run" where
  "on_fetch_blks bs n =
     (case bs of
        [] \<Rightarrow> (Inr (), [], n)
      | b # bs \<Rightarrow> let (ts, n) = on_fetch_blk b n in (Inr (), ts @ [next_task (OnFetchBlks bs)], n))"

definition with_blk ::
  "pm_value option \<Rightarrow> (block_ref \<Rightarrow> node \<Rightarrow> unit res run) \<Rightarrow> node \<Rightarrow> unit res run" where
  "with_blk v f n = (case v of Some (VBlk b) \<Rightarrow> f b n | _ \<Rightarrow> bad_cast n)"

definition with_rid ::
  "pm_value option \<Rightarrow> (replica_id \<Rightarrow> node \<Rightarrow> unit res run) \<Rightarrow> node \<Rightarrow> unit res run" where
  "with_rid v f n = (case v of Some (VRid r) \<Rightarrow> f r n | _ \<Rightarrow> bad_cast n)"

definition with_prop ::
  "pm_value option \<Rightarrow> (proposal \<Rightarrow> node \<Rightarrow> unit res run) \<Rightarrow> node \<Rightarrow> unit res run" where
  "with_prop v f n = (case v of Some (VProp p) \<Rightarrow> f p n | _ \<Rightarrow> bad_cast n)"

definition with_all ::
  "pm_value option \<Rightarrow> (pm_value option list \<Rightarrow> node \<Rightarrow> unit res run) \<Rightarrow> node \<Rightarrow> unit res run" where
  "with_all v f n = (case v of Some (VAll vs) \<Rightarrow> f vs n | _ \<Rightarrow> bad_cast n)"

fun run_closure :: "net_env \<Rightarrow> closure \<Rightarrow> pm_value option \<Rightarrow> node \<Rightarrow> unit res run" where
  "run_closure N (FetchedForDelivery replica) v n = with_blk v (fetched_for_delivery (ne_env N) replica) n"
| "run_closure N (DeliverParents b replica ps hs) v n = deliver_parents (ne_env N) b replica ps hs n"
| "run_closure N (ReadyForDelivery b) v n = with_all v (ready_for_delivery b) n"
| "run_closure N (DeliveredForProposal prop) v n = call_core (on_receive_proposal (ne_env N) prop) n"
| "run_closure N (CheckVote v p) w n = check_vote (ne_env N) v p n"
| "run_closure N (CheckedVote x) v n = with_all v (checked_vote (ne_env N) x) n"
| "run_closure N (FetchedForRequest replica) v n =
     with_all v (\<lambda>vs n. no_tasks (fetched_for_request (ne_env N) replica vs n)) n"
| "run_closure N (AllThen ps k) v n = all_then ps k n"
| "run_closure N (OnFetchBlks bs) v n = on_fetch_blks bs n"
| "run_closure N (EraseFetch h) v n = (Inr (), [], n\<lparr>n_fetch_waiting := (n_fetch_waiting n)(h := None)\<rparr>)"
| "run_closure N (EraseDelivery h) v n =
     (Inr (), [], n\<lparr>n_delivery_waiting := (n_delivery_waiting n)(h := None)\<rparr>)"
| "run_closure N (OnBeat cmds) v n = with_rid v (on_beat (ne_env N) cmds) n"
| "run_closure N (OnBeatResp x) v n = with_rid v (on_beat_resp (ne_env N) x) n"
| "run_closure N (ThenClosure p k) v n = ok_run (snd (n_then p k n))"
| "run_closure N (Output out) v n = handle_output (ne_env N) out n"
| "run_closure N HtHqcUpdate v n = with_blk v (ht_on_hqc_update N) n"
| "run_closure N HtProposal v n = with_prop v ht_on_proposal n"
| "run_closure N HtReceiveProposal v n = with_prop v ht_on_receive_proposal n"
| "run_closure N (WqQcFinish pm) v n = ok_run (wq_on_qc_finish pm n)"
| "run_closure N WqProposal v n = with_prop v wq_on_proposal n"
| "run_closure N WqLock v n = (Inr (), [], set_pace (\<lambda>p. p\<lparr>locked := True\<rparr>) n)"
| "run_closure N WqUpdateLastProposed v n = ok_run (update_last_proposed n)"
| "run_closure N RrProposal v n = with_prop v (\<lambda>p n. ok_run (rr_on_proposal p n)) n"
| "run_closure N RrReceiveProposal v n = with_prop v (\<lambda>p n. ok_run (rr_on_receive_proposal p n)) n"
| "run_closure N (RrAwaitManual x b) v n = ok_run (rr_await_manual x b n)"
| "run_closure N (RrManual x) v n = rr_on_manual N x n"
| "run_closure N RrRotateTimer v n =
     (Inr (), [], set_pace (\<lambda>p. p\<lparr>timer := Some (RotateTimer, prop_delay p)\<rparr>) n)"
| "run_closure N RrRepropose v n = rr_repropose N n"
| "run_closure N AllTrue v n = bad_cast n"
| "run_closure N (MatchHash x) v n = bad_cast n"
| "run_closure N PassProposal v n = bad_cast n"
| "run_closure N PassHqc v n = bad_cast n"

text \<open>The closures with a result.\<close>

definition run_map :: "closure \<Rightarrow> pm_value option \<Rightarrow> node \<Rightarrow> pm_value option res" where
  "run_map k v n =
     (case (k, v) of
        (PassProposal, Some (VProp p)) \<Rightarrow> Inr (Some (VProp p))
      | (PassHqc, _) \<Rightarrow> Inr (map_option VBlk (get_hqc (n_core n)))
      | (AllTrue, Some (VAll vs)) \<Rightarrow>
          if \<forall>w\<in>set vs. \<exists>b. w = Some (VBool b) then Inr (Some (VBool (\<forall>w\<in>set vs. w = Some (VBool True))))
          else Inl (RuntimeError ''bad any cast'')
      | (MatchHash x, Some (VBool ok)) \<Rightarrow>
          Inr (Some (VBool (ok \<and> map_option part_cert_obj_hash (v_cert x) = Some (v_blk_hash x))))
      | _ \<Rightarrow> Inl (RuntimeError ''mismatching promise value types''))"

fun run_task :: "net_env \<Rightarrow> task \<Rightarrow> node \<Rightarrow> unit res run" where
  "run_task N (RunCallback cb v) n =
     (let (ts, h) = run_callback VAll cb v (n_pms n) in (Inr (), ts, n\<lparr>n_pms := h\<rparr>))"
| "run_task N (RunClosure k v) n = run_closure N k v n"
| "run_task N (RunMap k v p) n =
     (case run_map k v n of Inl e \<Rightarrow> (Inl e, [], n) | Inr w \<Rightarrow> ok_run (n_resolve p w n))"
| "run_task N (RunMapRejected k v p) n =
     (case run_map k v n of Inl e \<Rightarrow> (Inl e, [], n) | Inr w \<Rightarrow> ok_run (n_reject p w n))"
| "run_task N (ResolvePm p v) n = ok_run (n_resolve p v n)"
| "run_task N (RejectPm p v) n = ok_run (n_reject p v n)"

section \<open>Events\<close>

datatype event =
    Receive net_msg "peer_id option"
  | FetchTimeout uint256
  | PoolWork nat
  | PoolResult
  | ExecCommand uint256 nat
  | CmdQueue
  | AsyncCall
  | TimerFires
  | Impeach

fun receive :: "env \<Rightarrow> net_msg \<Rightarrow> peer_id option \<Rightarrow> node \<Rightarrow> unit res run" where
  "receive E (NetPropose s) conn n = propose_handler E s conn n"
| "receive E (NetVote s) conn n = vote_handler E s conn n"
| "receive E (NetReqBlock s) conn n = req_blk_handler E s conn n"
| "receive E (NetRespBlock s) conn n = resp_blk_handler E s n"
| "receive E (NetSlice s) conn n = slice_handler E s conn n"

definition fire_timer :: "net_env \<Rightarrow> node \<Rightarrow> unit res run" where
  "fire_timer N n =
     (case timer (n_pace n) of
        None \<Rightarrow> (Inr (), [], n)
      | Some (act, _) \<Rightarrow>
          let n = set_pace (\<lambda>p. p\<lparr>timer := None\<rparr>) n in
          (case act of RotateTimer \<Rightarrow> rotate_pm n | ExpTimer \<Rightarrow> on_exp_timeout N n))"

fun handle_event :: "net_env \<Rightarrow> event \<Rightarrow> node \<Rightarrow> unit res run" where
  "handle_event N (Receive m conn) n = receive (ne_env N) m conn n"
| "handle_event N (FetchTimeout h) n = no_tasks (fc_timeout N h n)"
| "handle_event N (PoolWork k) n = no_tasks (vp_work (e_crypto (ne_env N)) k n)"
| "handle_event N PoolResult n = ok_run (vp_handle n)"
| "handle_event N (ExecCommand h callback) n = (Inr (), [], exec_command h callback n)"
| "handle_event N CmdQueue n = ok_run (cmd_handler (ne_env N) n)"
| "handle_event N AsyncCall n =
     (case n_async_calls n of
        [] \<Rightarrow> (Inr (), [], n)
      | k # ks \<Rightarrow> (Inr (), [next_task k], n\<lparr>n_async_calls := ks\<rparr>))"
| "handle_event N TimerFires n = fire_timer N n"
| "handle_event N Impeach n = impeach n"

section \<open>Starting\<close>

text \<open>The constructors: the core, the default promises of the pace maker, empty queues.\<close>

definition new_pacemaker ::
  "pace_kind \<Rightarrow> real \<Rightarrow> real \<Rightarrow> (closure, pm_value) promises \<Rightarrow> pacemaker \<times> (closure, pm_value) promises"
  where
  "new_pacemaker kind base delay h =
     (let (p1, h) = alloc_pm h; (p2, h) = alloc_pm h; (p3, h) = alloc_pm h in
      (\<lparr>pace_kind = kind, hqc_tail = 0, pending_beats = [], last_proposed = 0, locked = False,
        pm_qc_finish = p1, pm_wait_propose = p2, base_timeout = base,
        exp_timeout = base, prop_delay = delay, timer = None, pm_proposer = 0,
        prop_blk = Map.empty, rotating = False, pm_qc_manual = p3\<rparr>, h))"

definition hotstuff_base ::
  "env \<Rightarrow> nat \<Rightarrow> replica_id \<Rightarrow> priv_key \<Rightarrow> net_addr \<Rightarrow> pace_kind \<Rightarrow> real \<Rightarrow> real \<Rightarrow> bool \<Rightarrow> node res" where
  "hotstuff_base E blk_size rid priv_key listen_addr kind base delay tls =
     bindE (hotstuff_core E rid priv_key) (\<lambda>c.
       let (pace, h) = new_pacemaker kind base delay no_promises in
       Inr \<lparr>n_core = c, n_pms = h, n_vpool = veripool_init, n_pace = pace, n_listen_addr = listen_addr,
            n_blk_size = blk_size, n_peers = [], n_tls = tls, n_valid_tls_certs = {},
            n_fetch_waiting = Map.empty, n_delivery_waiting = Map.empty, n_decision_waiting = Map.empty,
            n_cmd_pending = [], n_cmd_pending_buffer = [], n_async_calls = [], n_fetched = 0,
            n_delivered = 0, n_part_parent_size = 0, n_part_fetched = 0, n_part_delivered = 0,
            n_part_decided = 0, n_part_fetched_replica = Map.empty, n_net = []\<rparr>)"

text \<open>\<open>start\<close>: the peers are the replicas with another address.\<close>

definition replica_peer :: "net_env \<Rightarrow> node \<Rightarrow> net_addr \<times> pub_key \<times> uint256 \<Rightarrow> peer_id" where
  "replica_peer N n r = (case r of (addr, pk, cert) \<Rightarrow> if n_tls n then cert else ne_addr_peer N addr)"

fun add_peers :: "net_env \<Rightarrow> (net_addr \<times> pub_key \<times> uint256) list \<Rightarrow> node \<Rightarrow> node" where
  "add_peers N [] n = n"
| "add_peers N ((addr, pk, cert) # rs) n =
     (let peer = replica_peer N n (addr, pk, cert);
          n = n\<lparr>n_valid_tls_certs := insert cert (n_valid_tls_certs n)\<rparr> in
      add_peers N rs
        (if addr = n_listen_addr n then n
         else tell (ConnectPeer peer addr) (n\<lparr>n_peers := n_peers n @ [peer]\<rparr>)))"

definition start_node :: "net_env \<Rightarrow> (net_addr \<times> pub_key \<times> uint256) list \<Rightarrow> node \<Rightarrow> task list \<times> node" where
  "start_node N replicas n =
     (let n = add_peers N replicas n;
          nfaulty = word_of_nat (length (n_peers n) div 3);
          core_replicas = map (\<lambda>r. (replica_peer N n r, fst (snd r))) replicas in
      pm_init (n\<lparr>n_core := start_core (ne_env N) core_replicas nfaulty (n_core n)\<rparr>))"

text \<open>The class template \<open>HotStuff\<close>: keys and certificates' digests come as bytes.\<close>

definition hotstuff ::
  "env \<Rightarrow> nat \<Rightarrow> replica_id \<Rightarrow> bytes \<Rightarrow> net_addr \<Rightarrow> pace_kind \<Rightarrow> real \<Rightarrow> real \<Rightarrow> bool \<Rightarrow> node res" where
  "hotstuff E blk_size rid raw_privkey listen_addr kind base delay tls =
     bindE (get_priv_key (e_stream E) (e_kind E) raw_privkey) (\<lambda>(key, _).
       hotstuff_base E blk_size rid key listen_addr kind base delay tls)"

fun parse_replicas ::
  "env \<Rightarrow> (net_addr \<times> bytes \<times> bytes) list \<Rightarrow> (net_addr \<times> pub_key \<times> uint256) list res" where
  "parse_replicas E [] = Inr []"
| "parse_replicas E ((addr, raw_pubkey, cert) # rs) =
     bindE (get_pub_key (e_stream E) (e_crypto E) (e_kind E) raw_pubkey) (\<lambda>(pk, _).
     bindE (parse_replicas E rs) (\<lambda>reps. Inr ((addr, pk, e_from_bytes E cert) # reps)))"

definition start_hotstuff ::
  "net_env \<Rightarrow> (net_addr \<times> bytes \<times> bytes) list \<Rightarrow> node \<Rightarrow> (task list \<times> node) res" where
  "start_hotstuff N replicas n = bindE (parse_replicas (ne_env N) replicas) (\<lambda>reps. Inr (start_node N reps n))"

section \<open>Statistics\<close>

text \<open>
  \<open>print_stat\<close> starts a new period; \<open>conn_up\<close> says which peers have a connection. The times and
  \<open>part_gened\<close>, which nothing else uses, and the counters of the network are left out.
\<close>

definition print_stat :: "(peer_id \<Rightarrow> bool) \<Rightarrow> node \<Rightarrow> node" where
  "print_stat conn_up n =
     n\<lparr>n_part_parent_size := 0, n_part_fetched := 0, n_part_delivered := 0, n_part_decided := 0,
       n_part_fetched_replica := (\<lambda>p. if p \<in> set (n_peers n) \<and> conn_up p then Some 0
                                     else n_part_fetched_replica n p)\<rparr>"

end
