(* ===== verification/CoreGrowth.thy ===== *)
theory CoreGrowth
  imports CoreReach
begin

text \<open>
  What a caller of \<open>HotStuffCore\<close> may rely on between its calls: blocks that are stored keep
  their hash, parents' hashes and certificate, delivered blocks stay delivered, \<open>tails\<close> has only
  delivered blocks, and the proposals that promises are resolved with are for the block at hand.
\<close>

section \<open>Growing states\<close>

definition core_le :: "core \<Rightarrow> core \<Rightarrow> bool" where
  "core_le c c' \<longleftrightarrow>
     c_b0 c' = c_b0 c \<and> c_config c' = c_config c \<and>
     next_ref (c_storage c) \<le> next_ref (c_storage c') \<and>
     (\<forall>h r. find_blk (c_storage c) h = Some r \<longrightarrow> find_blk (c_storage c') h = Some r) \<and>
     (\<forall>r<next_ref (c_storage c). blk_hash (blk c' r) = blk_hash (blk c r) \<and>
        blk_parent_hashes (blk c' r) = blk_parent_hashes (blk c r) \<and>
        blk_qc (blk c' r) = blk_qc (blk c r) \<and>
        (blk_delivered (blk c r) \<longrightarrow> blk_delivered (blk c' r)))"

lemma core_le_refl [simp]: "core_le c c"
  by (simp add: core_le_def)

lemma core_le_trans: "core_le a b \<Longrightarrow> core_le b c \<Longrightarrow> core_le a c"
  by (simp add: core_le_def)

lemma core_leD:
  assumes "core_le c c'"
  shows "c_b0 c' = c_b0 c" and "c_config c' = c_config c"
    and "next_ref (c_storage c) \<le> next_ref (c_storage c')"
    and "find_blk (c_storage c) h = Some r \<Longrightarrow> find_blk (c_storage c') h = Some r"
    and "q < next_ref (c_storage c) \<Longrightarrow> blk_hash (blk c' q) = blk_hash (blk c q)"
    and "q < next_ref (c_storage c) \<Longrightarrow> blk_parent_hashes (blk c' q) = blk_parent_hashes (blk c q)"
    and "q < next_ref (c_storage c) \<Longrightarrow> blk_qc (blk c' q) = blk_qc (blk c q)"
    and "delivered (c_storage c) q \<Longrightarrow> delivered (c_storage c') q"
  using assms by (auto simp: core_le_def delivered_def)

lemma core_le_same:
  "c_storage c' = c_storage c \<Longrightarrow> c_b0 c' = c_b0 c \<Longrightarrow> c_config c' = c_config c \<Longrightarrow> core_le c c'"
  by (simp add: core_le_def)

lemma core_le_set_blk:
  assumes "\<And>x. blk_hash (f x) = blk_hash x" "\<And>x. blk_parent_hashes (f x) = blk_parent_hashes x"
    "\<And>x. blk_qc (f x) = blk_qc x" "\<And>x. blk_delivered x \<Longrightarrow> blk_delivered (f x)"
  shows "core_le c (set_blk b f c)"
  using assms by (simp add: core_le_def set_blk_def upd_blk_def find_blk_def)

lemma core_le_store: "core_wf c \<Longrightarrow> core_le c (store_blk b c)"
proof (cases "find_blk (c_storage c) (blk_hash b)")
  case None
  then show ?thesis
    by (simp add: core_le_def store_blk_def add_blk_new) (simp add: find_blk_def)
qed (simp add: store_blk_def add_blk_known)

definition tails_ok :: "core \<Rightarrow> bool" where
  "tails_ok c \<longleftrightarrow> (\<forall>r\<in>c_tails c. delivered (c_storage c) r)"

lemma tails_ok_le:
  "core_le c c' \<Longrightarrow> tails_ok c \<Longrightarrow> (\<And>r. r \<in> c_tails c' \<Longrightarrow> r \<in> c_tails c \<or> delivered (c_storage c') r) \<Longrightarrow> tails_ok c'"
  using core_leD(8) [of c c'] by (auto simp: tails_ok_def)

text \<open>The outputs from \<open>c\<close> to \<open>c'\<close>; promises are resolved with proposals of the block \<open>b\<close> only.\<close>

definition new_outs :: "core \<Rightarrow> core \<Rightarrow> core_output list" where
  "new_outs c c' = drop (length (c_outs c)) (c_outs c')"

definition proposes_only :: "block_ref option \<Rightarrow> core_output \<Rightarrow> bool" where
  "proposes_only b out \<longleftrightarrow> (\<forall>i p. out = Resolve i (VProposal p) \<longrightarrow> p_blk p = b)"

lemma proposes_only_simps [simp]:
  "proposes_only b (DoDecide f)" "proposes_only b (DoConsensus r)" "proposes_only b (DoBroadcastSlice x)"
  "proposes_only b (DoBroadcastProposals ps)" "proposes_only b (DoVote rid v)"
  "proposes_only b (Resolve i VUnit)" "proposes_only b (Resolve i (VBlock r))"
  "proposes_only b (Resolve i (VProposal p)) \<longleftrightarrow> p_blk p = b"
  by (simp_all add: proposes_only_def)

section \<open>Calls that leave the tree alone\<close>

definition quiet :: "block_ref option \<Rightarrow> core \<Rightarrow> core \<Rightarrow> bool" where
  "quiet b c c' \<longleftrightarrow>
     same_shape (c_storage c) (c_storage c') \<and> c_tails c' = c_tails c \<and> c_config c' = c_config c \<and>
     c_b0 c' = c_b0 c \<and> (\<exists>new. c_outs c' = c_outs c @ new \<and> list_all (proposes_only b) new)"

named_theorems quiet_intros

lemma quiet_refl [simp]: "quiet b c c"
  by (simp add: quiet_def)

lemma quiet_le: "quiet b c c' \<Longrightarrow> core_le c c'"
  by (auto simp: quiet_def core_le_def same_shape_fields same_shape_views)

lemma quiet_tails: "quiet b c c' \<Longrightarrow> tails_ok c \<Longrightarrow> tails_ok c'"
  by (auto simp: quiet_def tails_ok_def same_shape_views)

lemma quiet_outs: "quiet b c c' \<Longrightarrow> list_all (proposes_only b) (new_outs c c')"
  by (auto simp: quiet_def new_outs_def)

text \<open>Fields that do not matter.\<close>

lemma quiet_cong:
  assumes "quiet b c0 c" and "c_storage c' = c_storage c" and "c_tails c' = c_tails c"
    and "c_config c' = c_config c" and "c_b0 c' = c_b0 c" and "c_outs c' = c_outs c"
  shows "quiet b c0 c'"
  using assms by (simp add: quiet_def)

lemma quiet_emit [quiet_intros]:
  "quiet b c0 c \<Longrightarrow> proposes_only b out \<Longrightarrow> quiet b c0 (emit out c)"
  by (auto simp: quiet_def emit_def)

lemma quiet_set_blk [quiet_intros]:
  "quiet b c0 c \<Longrightarrow> (\<And>x. shape (f x) = shape x) \<Longrightarrow> quiet b c0 (set_blk r f c)"
  using same_shape_trans [of "c_storage c0" "c_storage c"] same_shape_upd_blk [of f "c_storage c" r]
  by (auto simp: quiet_def set_blk_def)

lemma quiet_fold:
  "quiet b c0 c \<Longrightarrow> (\<And>i c. quiet b c0 c \<Longrightarrow> quiet b c0 (f c i)) \<Longrightarrow> quiet b c0 (foldl f c is)"
  by (induction "is" arbitrary: c) simp_all

lemma quiet_on_hqc_update [quiet_intros]: "quiet b c0 c \<Longrightarrow> quiet b c0 (on_hqc_update c)"
  unfolding on_hqc_update_def
  by (rule quiet_emit, erule quiet_cong) (auto split: option.splits)

lemma quiet_on_qc_finish [quiet_intros]: "quiet b c0 c \<Longrightarrow> quiet b c0 (on_qc_finish r c)"
  unfolding on_qc_finish_def
  by (auto split: option.split intro!: quiet_emit elim: quiet_cong)

lemma quiet_receive_fin [quiet_intros]:
  "quiet b c0 c \<Longrightarrow> p_blk p = b \<Longrightarrow> quiet b c0 (on_receive_proposal_fin p c)"
  unfolding on_receive_proposal_fin_def by (rule quiet_emit, erule quiet_cong) simp_all

lemma quiet_propose_fin [quiet_intros]:
  "quiet b c0 c \<Longrightarrow> p_blk p = b \<Longrightarrow> quiet b c0 (on_propose_fin p c)"
  unfolding on_propose_fin_def by (rule quiet_emit, erule quiet_cong) simp_all

lemma quiet_update_hqc [quiet_intros]: "quiet b c0 c \<Longrightarrow> quiet b c0 (snd (update_hqc r q c))"
  unfolding update_hqc_def
  by (auto split: option.split prod.split intro!: quiet_on_hqc_update elim: quiet_cong)

lemma quiet_commit_blk [quiet_intros]: "quiet b c0 c \<Longrightarrow> quiet b c0 (snd (commit_blk E r c))"
proof -
  let ?c = "emit (DoConsensus r) (set_blk r (\<lambda>x. x\<lparr>blk_decision := 1\<rparr>) c)"
  assume "quiet b c0 c"
  then have q: "quiet b c0 ?c" by (intro quiet_intros) (simp_all add: shape_def)
  have "quiet b c0 (?c\<lparr>c_futures := f, c_sc := s\<rparr>)" for f s using q by (rule quiet_cong) simp_all
  then show ?thesis
    using q unfolding commit_blk_def Let_def
    by (auto split: option.split sum.split intro!: quiet_fold quiet_emit)
qed

lemma quiet_commit_all: "quiet b c0 c \<Longrightarrow> quiet b c0 (snd (commit_all E rs c))"
proof (induction rs arbitrary: c)
  case (Cons r rs)
  show ?case
    unfolding commit_all.simps by (rule bindS_keeps) (use Cons in \<open>auto intro: quiet_commit_blk\<close>)
qed simp

lemma quiet_commit [quiet_intros]: "quiet b c0 c \<Longrightarrow> quiet b c0 (snd (commit E r c))"
proof -
  assume q: "quiet b c0 c"
  have "quiet b c0 (snd (bindS (commit_all E rs c) (\<lambda>_ c. (Inr (), c\<lparr>c_b_exec := r\<rparr>))))" for rs
    by (rule bindS_keeps, rule quiet_commit_all [OF q]) (auto elim: quiet_cong)
  with q show ?thesis by (auto simp: commit_def split: sum.split)
qed

lemma quiet_lock [quiet_intros]: "quiet b c0 c \<Longrightarrow> quiet b c0 (lock_blk r c)"
  by (auto simp: lock_blk_def elim: quiet_cong)

lemma quiet_start_decode [quiet_intros]: "quiet b c0 c \<Longrightarrow> quiet b c0 (start_decode E r c)"
  by (auto simp: start_decode_def Let_def split: prod.split elim: quiet_cong)

lemma quiet_update [quiet_intros]: "quiet b c0 c \<Longrightarrow> quiet b c0 (snd (update E r c))"
proof -
  assume q: "quiet b c0 c"
  have "quiet b c0 (snd (bindS (update_hqc blk2 qc c) (\<lambda>_ c.
            case blk_qc_ref (blk c blk2) of
              None \<Rightarrow> (Inr (), c)
            | Some blk1 \<Rightarrow>
                if blk_decision (blk c blk1) \<noteq> 0 then (Inr (), c)
                else let c = lock_blk blk1 (start_decode E blk1 c) in
                  case blk_qc_ref (blk c blk1) of
                    None \<Rightarrow> (Inr (), c)
                  | Some b \<Rightarrow>
                      if blk_decision (blk c b) \<noteq> 0 then (Inr (), c)
                      else case direct_parents blk2 blk1 b c of
                          Inl e \<Rightarrow> (Inl e, c)
                        | Inr False \<Rightarrow> (Inr (), c)
                        | Inr True \<Rightarrow> commit E b c)))" for blk2 qc
    by (rule bindS_keeps, rule quiet_update_hqc [OF q])
      (auto simp: Let_def split: option.split sum.split bool.split intro!: quiet_intros)
  with q show ?thesis by (auto simp: update_def split: option.split)
qed

lemma quiet_on_receive_slice [quiet_intros]: "quiet b c0 c \<Longrightarrow> quiet b c0 (snd (on_receive_slice E x c))"
  by (auto simp: on_receive_slice_def Let_def split: prod.split elim: quiet_cong)

lemma quiet_finish_proposal [quiet_intros]:
  assumes q: "quiet b c0 c" and p: "p_blk prop = b"
  shows "quiet b c0 (snd (finish_proposal E prop r c))"
proof (cases "opinion_on r c")
  case (Inr opinion)
  define c1 where "c1 = (if opinion then c\<lparr>c_vheight := blk_height (blk c r)\<rparr> else c)"
  define c2 where "c2 = (case blk_qc_ref (blk c1 r) of None \<Rightarrow> c1
      | Some x \<Rightarrow> if p_proposer prop = c_id c1 then c1 else on_qc_finish x c1)"
  have "quiet b c0 c1" using q by (auto simp: c1_def elim: quiet_cong)
  then have "quiet b c0 c2" by (auto simp: c2_def split: option.split intro: quiet_on_qc_finish)
  then have "quiet b c0 (on_receive_proposal_fin prop c2)" using p by (rule quiet_receive_fin)
  then show ?thesis
    using Inr by (auto simp: finish_proposal_def Let_def c1_def [symmetric] c2_def [symmetric]
        split: sum.split intro!: quiet_emit)
qed (use q in \<open>simp add: finish_proposal_def\<close>)

lemma quiet_on_receive_proposal [quiet_intros]:
  assumes q: "quiet b c0 c" and p: "p_blk prop = b"
  shows "quiet b c0 (snd (on_receive_proposal E prop c))"
proof -
  have after: "quiet b c0 (snd (bindS
      (if p_proposer prop = c_id c then (Inr (), c)
       else case sanity_check_delivered r c of Inl e \<Rightarrow> (Inl e, c) | Inr _ \<Rightarrow> update E r c)
      (\<lambda>_ c. finish_proposal E prop r c)))" if "quiet b c0 c" for r c
    by (rule bindS_keeps)
      (use that p in \<open>auto split: sum.split intro: quiet_update quiet_finish_proposal\<close>)
  have rest: "quiet b c0 (snd (let c = emit (DoBroadcastSlice (p_slice prop)) c in
      case p_blk prop of
        None \<Rightarrow> (Inl NullDeref, c)
      | Some bnew \<Rightarrow> bindS
          (if p_proposer prop = c_id c then (Inr (), c)
           else case sanity_check_delivered bnew c of Inl e \<Rightarrow> (Inl e, c) | Inr _ \<Rightarrow> update E bnew c)
          (\<lambda>_ c. finish_proposal E prop bnew c)))" if "quiet b c0 c" for c
    using after [OF quiet_emit [OF that]] quiet_emit [OF that]
    by (simp add: Let_def split: option.split split del: if_split)
  have "quiet b c0 (snd (bindS (on_receive_slice E (p_slice prop) c) (\<lambda>_ c.
      let c = emit (DoBroadcastSlice (p_slice prop)) c in
      case p_blk prop of
        None \<Rightarrow> (Inl NullDeref, c)
      | Some bnew \<Rightarrow> bindS
          (if p_proposer prop = c_id c then (Inr (), c)
           else case sanity_check_delivered bnew c of Inl e \<Rightarrow> (Inl e, c) | Inr _ \<Rightarrow> update E bnew c)
          (\<lambda>_ c. finish_proposal E prop bnew c))))"
    by (rule bindS_keeps, rule quiet_on_receive_slice [OF q], rule rest)
  with q show ?thesis
    by (simp add: on_receive_proposal_def split: sum.split)
qed

lemma quiet_collect_vote: "quiet b c0 c \<Longrightarrow> quiet b c0 (snd (collect_vote E r voter cert qsize c))"
proof -
  assume q: "quiet b c0 c"
  have s: "quiet b c0 (set_blk r (\<lambda>x. x\<lparr>blk_self_qc := qc\<rparr>) c)" for qc
    using q by (rule quiet_set_blk) (simp add: shape_def)
  have "quiet b c0 (snd (bindS (update_hqc r qc (set_blk r (\<lambda>x. x\<lparr>blk_self_qc := qc'\<rparr>) c))
      (\<lambda>_ c. (Inr (), on_qc_finish r c))))" for qc qc'
    by (rule bindS_keeps, rule quiet_update_hqc [OF s]) (auto intro: quiet_on_qc_finish)
  with s q show ?thesis by (auto simp: collect_vote_def Let_def split: sum.split)
qed

lemma quiet_on_receive_vote [quiet_intros]: "quiet b c0 c \<Longrightarrow> quiet b c0 (snd (on_receive_vote E v c))"
  unfolding on_receive_vote_def Let_def
  by (auto split: sum.split option.split intro!: quiet_collect_vote quiet_set_blk simp: shape_def)

lemma quiet_async_qc_finish [quiet_intros]: "quiet b c0 c \<Longrightarrow> quiet b c0 (snd (async_qc_finish r c))"
  by (auto simp: async_qc_finish_def split: option.split elim: quiet_cong)

section \<open>Delivering and proposing\<close>

lemma push_parents_kept:
  assumes "push_parents b hs c = (r, c')"
  shows "core_le c c' \<and> c_tails c' = c_tails c \<and> c_outs c' = c_outs c"
  using assms
proof (induction hs arbitrary: c)
  case (Cons h hs)
  show ?case
  proof (cases "get_delivered_blk h c")
    case (Inr p)
    let ?c = "set_blk b (\<lambda>x. x\<lparr>blk_parents := blk_parents x @ [p]\<rparr>) c"
    have "core_le c ?c" by (rule core_le_set_blk) simp_all
    with Cons.IH [of ?c] Cons.prems Inr core_le_trans show ?thesis
      by (auto simp: set_blk_def)
  qed (use Cons.prems in simp)
qed simp

lemma on_deliver_blk_kept:
  assumes "on_deliver_blk b c = (r, c')"
  shows "core_le c c' \<and> c_tails c' \<subseteq> insert b (c_tails c) \<and> c_outs c' = c_outs c"
proof (cases "blk_delivered (blk c b)")
  case False
  define good where "good d \<longleftrightarrow> core_le c d \<and> c_tails d \<subseteq> insert b (c_tails c) \<and> c_outs d = c_outs c" for d
  have upd: "good (set_blk b f d)" if "good d" "\<And>x. blk_hash (f x) = blk_hash x"
    "\<And>x. blk_parent_hashes (f x) = blk_parent_hashes x"
    "\<And>x. blk_qc (f x) = blk_qc x" "\<And>x. blk_delivered x \<Longrightarrow> blk_delivered (f x)" for d f
    using that core_le_set_blk [of f d b] core_le_trans [of c d] by (simp add: good_def set_blk_def)
  have start: "good (set_blk b (\<lambda>x. x\<lparr>blk_parents := []\<rparr>) c)"
    by (rule upd) (auto simp: good_def)
  have push: "good (snd (push_parents b hs d))" if "good d" for hs d
    using that push_parents_kept [of b hs d] core_le_trans [of c d]
    by (cases "push_parents b hs d") (auto simp: good_def)
  have tails: "good (d\<lparr>c_tails := insert b (c_tails d - T)\<rparr>)" if "good d" for d T
    using that core_le_trans [of c d] core_le_same [of "d\<lparr>c_tails := insert b (c_tails d - T)\<rparr>" d]
    by (auto simp: good_def)
  have "good (snd (on_deliver_blk b c))"
    unfolding on_deliver_blk_def using False
    by (auto simp: Let_def split: option.split intro!: bindS_keeps [where P = good] push start upd tails)
  with assms show ?thesis by (simp add: good_def)
qed (use assms in \<open>auto simp: on_deliver_blk_def\<close>)

text \<open>The proposals that \<open>on_propose\<close> resolves promises with are for the block it returns.\<close>

lemma on_propose_kept:
  assumes wf: "core_wf c" and size: "next_ref (c_storage c) < 2 ^ 32"
    and pre: "propose_pre E cmds parents extra c"
    and run: "on_propose E cmds parents extra c = (r, c')"
  shows "core_le c c' \<and> (tails_ok c \<longrightarrow> tails_ok c') \<and>
    (\<exists>b. list_all (proposes_only b) (new_outs c c') \<and>
       (\<forall>n. b = Some n \<longrightarrow> delivered (c_storage c') n))"
proof (cases "parents = []")
  case True
  with run show ?thesis by (auto simp: on_propose_def new_outs_def)
next
  case False
  define c1 where "c1 = c\<lparr>c_tails := c_tails c - set parents\<rparr>"
  have c1: "core_wf c1 \<and> extends c c1" unfolding c1_def using wf by (rule tails_wf)
  have st1: "c_storage c1 = c_storage c" "c_outs c1 = c_outs c" by (simp_all add: c1_def)
  have le1: "core_le c c1" "tails_ok c \<Longrightarrow> tails_ok c1" by (simp_all add: core_le_def tails_ok_def c1_def)
  have prop1: "proposed_blk E cmds parents extra c1 = proposed_blk E cmds parents extra c"
    unfolding c1_def by (rule proposed_blk_tails)
  show ?thesis
  proof (cases "proposed_blk E cmds parents extra c1")
    case (Inl e)
    with run False have "c' = c1" by (simp add: on_propose_def c1_def [symmetric] Let_def)
    with le1 st1 show ?thesis by (auto simp: new_outs_def)
  next
    case (Inr b)
    obtain n st where add: "add_blk b (c_storage c1) = (n, st)" by force
    define c2 where "c2 = c1\<lparr>c_storage := st\<rparr>"
    define c3 where "c3 = set_blk n (\<lambda>x. x\<lparr>blk_self_qc :=
      Some (create_quorum_cert (e_kind E) (c_config c2) (blk_hash (blk c2 n)))\<rparr>) c2"
    have pre1: "propose_pre E cmds parents extra c1" using pre by (simp add: propose_pre_def prop1 st1)
    obtain x d where d: "on_deliver_blk n c3 = (Inr x, d)" "delivered (c_storage d) n"
      using propose_deliver [OF _ _ Inr False pre1 add] c1 size
      unfolding c3_def c2_def st1 by blast
    have "core_le c1 c2" using core_le_store [of c1 b] c1 add by (simp add: c2_def store_blk_def)
    moreover have "core_le c2 c3" unfolding c3_def by (rule core_le_set_blk) simp_all
    ultimately have le2: "core_le c c3" using le1(1) core_le_trans by blast
    have "c_tails c3 = c_tails c1" "c_outs c3 = c_outs c" by (simp_all add: c3_def c2_def st1 set_blk_def)
    with on_deliver_blk_kept [OF d(1)] le2
    have led: "core_le c d" "c_tails d \<subseteq> insert n (c_tails c1)" "c_outs d = c_outs c"
      using core_le_trans by auto
    have "tails_ok d" if "tails_ok c"
      using tails_ok_le [OF led(1) that] led(2) d(2) by (auto simp: c1_def)
    define fin where "fin c = (case encode_proposals E (c_rse c) (c_id c) n (blk_hash (blk c2 n)) cmds of
            Inl e \<Rightarrow> (Inl e, c)
          | Inr props \<Rightarrow>
              if blk_height (blk c n) \<le> c_vheight c
              then (Inl (RuntimeError ''new block should be higher than vheight''), c)
              else if length props \<le> unat (c_id c) then (Inl OutOfBounds, c)
              else let pr = props ! unat (c_id c) in
                bindS (on_receive_proposal E pr c) (\<lambda>_ c.
                  (Inr n, emit (DoBroadcastProposals props) (on_propose_fin pr c))))" for c
    have fin: "quiet (Some n) d (snd (fin s))" if s: "quiet (Some n) d s" for s
    proof (cases "encode_proposals E (c_rse s) (c_id s) n (blk_hash (blk c2 n)) cmds")
      case (Inr props)
      have "quiet (Some n) d (snd (bindS (on_receive_proposal E (props ! i) s) (\<lambda>_ c.
          (Inr n, emit (DoBroadcastProposals props) (on_propose_fin (props ! i) c)))))"
        if "i < length props" for i
        by (rule bindS_keeps)
          (use s encode_proposals_blk [OF Inr that] in \<open>auto intro!: quiet_intros\<close>)
      with Inr s show ?thesis by (simp add: fin_def Let_def)
    qed (use s in \<open>simp add: fin_def\<close>)
    have "bindS (update E n d) (\<lambda>_ c. fin c) = (r, c')"
      using run False Inr add d(1)
      by (simp add: on_propose_def c1_def [symmetric] Let_def c2_def c3_def fin_def)
    moreover have "quiet (Some n) d (snd (bindS (update E n d) (\<lambda>_ c. fin c)))"
      by (rule bindS_keeps) (auto intro: quiet_update fin)
    ultimately have q: "quiet (Some n) d c'" by simp
    have "new_outs c c' = new_outs d c'" by (simp add: new_outs_def led(3))
    with quiet_outs [OF q] quiet_le [OF q] core_le_trans [OF led(1)] core_leD(8) [OF quiet_le [OF q] d(2)]
      quiet_tails [OF q] \<open>tails_ok c \<Longrightarrow> tails_ok d\<close>
    show ?thesis by auto
  qed
qed

end
