(* ===== verification/PromiseTyping.thy ===== *)
theory PromiseTyping
  imports Promise
begin

text \<open>
  A type discipline for promises. A client says, for the states of its program, which values a
  promise of a given type may be fulfilled with, and which closures may wait for it; the promises
  then keep the discipline through every operation and every callback, and the results of \<open>all\<close>
  are complete and in their places.
\<close>

section \<open>Ghost state\<close>

text \<open>
  The types of the promises in use, the types of the places of every call of \<open>all\<close>, and the
  places that are filled.
\<close>

record 't ghost =
  pm_type :: "pid \<rightharpoonup> 't"
  cell_types :: "nat \<rightharpoonup> 't list"
  filled :: "nat \<Rightarrow> nat set"

definition extended :: "'t ghost \<Rightarrow> 't ghost \<Rightarrow> bool" where
  "extended g g' \<longleftrightarrow> pm_type g \<subseteq>\<^sub>m pm_type g' \<and> cell_types g \<subseteq>\<^sub>m cell_types g'"

lemma extended_refl [simp]: "extended g g"
  by (simp add: extended_def)

lemma extended_trans: "extended a b \<Longrightarrow> extended b c \<Longrightarrow> extended a c"
  by (auto simp: extended_def intro: map_le_trans)

lemma extended_type: "extended g g' \<Longrightarrow> pm_type g p = Some t \<Longrightarrow> pm_type g' p = Some t"
  unfolding extended_def map_le_def by (metis domI)

lemma extended_cell: "extended g g' \<Longrightarrow> cell_types g c = Some ts \<Longrightarrow> cell_types g' c = Some ts"
  unfolding extended_def map_le_def by (metis domI)

text \<open>The places that callbacks of pending promises and waiting tasks will fill.\<close>

fun slot_of :: "'k callback \<Rightarrow> (nat \<times> nat) list" where
  "slot_of (FillSlot c i npm) = [(c, i)]"
| "slot_of _ = []"

fun task_slot :: "('k, 'v) pm_task \<Rightarrow> (nat \<times> nat) list" where
  "task_slot (RunCallback cb v) = slot_of cb"
| "task_slot _ = []"

definition pm_slots :: "('k, 'v) promise \<Rightarrow> (nat \<times> nat) list" where
  "pm_slots x = (if pm_state x = Pending then concat (map slot_of (fulfilled_callbacks x)) else [])"

definition task_slots :: "('k, 'v) pm_task list \<Rightarrow> (nat \<times> nat) list" where
  "task_slots ts = concat (map task_slot ts)"

lemma task_slots_simps [simp]:
  "task_slots [] = []" "task_slots (t # ts) = task_slot t @ task_slots ts"
  "task_slots (ts @ ts') = task_slots ts @ task_slots ts'"
  by (simp_all add: task_slots_def)

lemma task_slots_callbacks [simp]:
  "task_slots (map (\<lambda>cb. RunCallback cb v) cbs) = concat (map slot_of cbs)"
  by (simp add: task_slots_def comp_def)

lemma pm_slots_new [simp]: "pm_slots new_promise = []"
  by (simp add: pm_slots_def new_promise_def)

text \<open>Every place is due at most once, and is not filled yet.\<close>

definition slots_once :: "'t ghost \<Rightarrow> ('k, 'v) promises \<Rightarrow> ('k, 'v) pm_task list \<Rightarrow> bool" where
  "slots_once g h ts \<longleftrightarrow>
     distinct (task_slots ts) \<and>
     (\<forall>p. distinct (pm_slots (pms h p)) \<and> set (pm_slots (pms h p)) \<inter> set (task_slots ts) = {}) \<and>
     (\<forall>p q. p \<noteq> q \<longrightarrow> set (pm_slots (pms h p)) \<inter> set (pm_slots (pms h q)) = {}) \<and>
     (\<forall>c i. (c, i) \<in> set (task_slots ts) \<union> (\<Union>p. set (pm_slots (pms h p))) \<longrightarrow>
        c \<in> dom (cell_types g) \<and> i \<notin> filled g c)"

lemma slots_once_tasks:
  assumes "slots_once g h ts" and "set (task_slots ts') \<subseteq> set (task_slots ts)" and "distinct (task_slots ts')"
  shows "slots_once g h ts'"
  using assms unfolding slots_once_def by blast

text \<open>Settling a promise that nobody waits for runs nothing.\<close>

definition lonely :: "('k, 'v) promise \<Rightarrow> bool" where
  "lonely x \<longleftrightarrow> fulfilled_callbacks x = [] \<and> rejected_callbacks x = []"

lemma lonely_slots [simp]: "lonely x \<Longrightarrow> pm_slots x = []"
  by (simp add: lonely_def pm_slots_def)

lemma lonely_new [simp]: "lonely new_promise"
  by (simp add: lonely_def new_promise_def)

lemma resolve_lonely:
  assumes "lonely (pms h p)" and "pm_resolve p v h = (ts, h')"
  shows "ts = []" and "lonely (pms h' p)" and "q \<noteq> p \<Longrightarrow> pms h' q = pms h q"
    and "pm_slots (pms h' q) = pm_slots (pms h q)" and "cells h' = cells h"
  using assms by (auto simp: pm_resolve_def lonely_def set_pm_def pm_slots_def Let_def split: if_splits)

lemma reject_lonely:
  assumes "lonely (pms h p)" and "pm_reject p v h = (ts, h')"
  shows "ts = []" and "lonely (pms h' p)" and "q \<noteq> p \<Longrightarrow> pms h' q = pms h q"
    and "pm_slots (pms h' q) = pm_slots (pms h q)" and "cells h' = cells h"
  using assms by (auto simp: pm_reject_def lonely_def set_pm_def pm_slots_def Let_def split: if_splits)

lemma fill_lonely:
  assumes "lonely (pms h npm)" and "fill_slot pack c i npm v h = (ts, h')"
  shows "ts = []" and "lonely (pms h' npm)" and "q \<noteq> npm \<Longrightarrow> pms h' q = pms h q"
    and "pm_slots (pms h' q) = pm_slots (pms h q)"
  using assms by (auto simp: fill_slot_def pm_resolve_def lonely_def set_pm_def pm_slots_def Let_def split: if_splits)

section \<open>The discipline\<close>

locale promise_typing =
  fixes has_type :: "'s \<Rightarrow> 't \<Rightarrow> 'v option \<Rightarrow> bool"
    and accepts :: "'s \<Rightarrow> (pid \<rightharpoonup> 't) \<Rightarrow> 't \<Rightarrow> 'k \<Rightarrow> bool"
    and maps :: "'t \<Rightarrow> 'k \<Rightarrow> 't \<Rightarrow> bool"
    and any_type :: 't and all_type :: "'t list \<Rightarrow> 't"
    and pack :: "'v option list \<Rightarrow> 'v"
    and le :: "'s \<Rightarrow> 's \<Rightarrow> bool"
  assumes has_type_mono: "le s s' \<Longrightarrow> has_type s t v \<Longrightarrow> has_type s' t v"
    and accepts_mono: "le s s' \<Longrightarrow> T \<subseteq>\<^sub>m T' \<Longrightarrow> accepts s T t k \<Longrightarrow> accepts s' T' t k"
    and le_refl: "le s s"
    and any_None: "has_type s any_type None"
    and all_pack: "length vs = length ts \<Longrightarrow> (\<And>i. i < length ts \<Longrightarrow> has_type s (ts ! i) (vs ! i)) \<Longrightarrow>
      has_type s (all_type ts) (Some (pack vs))"
begin

text \<open>What may wait for a promise of type \<open>t\<close>, and what may be run.\<close>

fun cb_ok :: "'s \<Rightarrow> 't ghost \<Rightarrow> 't \<Rightarrow> 'k callback \<Rightarrow> bool" where
  "cb_ok s g t (Call k npm) \<longleftrightarrow> accepts s (pm_type g) t k \<and> pm_type g npm = Some any_type"
| "cb_ok s g t (CallMap k npm) \<longleftrightarrow> (\<exists>u. maps t k u \<and> pm_type g npm = Some u)"
| "cb_ok s g t (PassResult npm) \<longleftrightarrow> pm_type g npm = Some t"
| "cb_ok s g t (FillSlot c i npm) \<longleftrightarrow> (\<exists>ts. cell_types g c = Some ts \<and> i < length ts \<and> ts ! i = t \<and>
     pm_type g npm = Some (all_type ts))"
| "cb_ok s g t _ \<longleftrightarrow> False"

fun rejects :: "'t ghost \<Rightarrow> 'k callback \<Rightarrow> bool" where
  "rejects g (PassReason npm) \<longleftrightarrow> pm_type g npm \<noteq> None"
| "rejects g _ \<longleftrightarrow> False"

fun task_ok :: "'s \<Rightarrow> 't ghost \<Rightarrow> ('k, 'v) pm_task \<Rightarrow> bool" where
  "task_ok s g (RunCallback cb v) \<longleftrightarrow> rejects g cb \<or> (\<exists>t. has_type s t v \<and> cb_ok s g t cb)"
| "task_ok s g (RunClosure k v) \<longleftrightarrow> (\<exists>t. has_type s t v \<and> accepts s (pm_type g) t k)"
| "task_ok s g (RunMap k v npm) \<longleftrightarrow> (\<exists>t u. has_type s t v \<and> maps t k u \<and> pm_type g npm = Some u)"
| "task_ok s g (ResolvePm p v) \<longleftrightarrow> (\<exists>t. pm_type g p = Some t \<and> has_type s t v)"
| "task_ok s g (RejectPm p v) \<longleftrightarrow> False"
| "task_ok s g (RunMapRejected k v npm) \<longleftrightarrow> False"

definition pm_ok :: "'s \<Rightarrow> 't ghost \<Rightarrow> pid \<Rightarrow> ('k, 'v) promise \<Rightarrow> bool" where
  "pm_ok s g p x \<longleftrightarrow>
     (case pm_type g p of
        None \<Rightarrow> x = new_promise
      | Some t \<Rightarrow> (pm_state x = Fulfilled \<longrightarrow> has_type s t (pm_result x)) \<and>
          (\<forall>cb\<in>set (fulfilled_callbacks x). cb_ok s g t cb) \<and>
          (\<forall>cb\<in>set (rejected_callbacks x). rejects g cb))"

definition cell_ok :: "'s \<Rightarrow> 't ghost \<Rightarrow> nat \<Rightarrow> 'v all_cell \<Rightarrow> bool" where
  "cell_ok s g c x \<longleftrightarrow>
     (\<forall>ts. cell_types g c = Some ts \<longrightarrow>
        length (cell_results x) = length ts \<and> filled g c \<subseteq> {..<length ts} \<and>
        cell_size x + card (filled g c) = length ts \<and>
        (\<forall>i\<in>filled g c. has_type s (ts ! i) (cell_results x ! i)))"

definition typed :: "'s \<Rightarrow> 't ghost \<Rightarrow> ('k, 'v) promises \<Rightarrow> ('k, 'v) pm_task list \<Rightarrow> bool" where
  "typed s g h ts \<longleftrightarrow>
     (\<forall>p. pm_ok s g p (pms h p)) \<and> (\<forall>c. cell_ok s g c (cells h c)) \<and>
     (\<forall>m\<ge>next_pm h. pm_type g (LocalPm m) = None) \<and> dom (cell_types g) \<subseteq> {..<next_cell h} \<and>
     slots_once g h ts \<and> (\<forall>t\<in>set ts. task_ok s g t)"

section \<open>Growing states and types\<close>

lemma accepts_ext:
  "le s s' \<Longrightarrow> extended g g' \<Longrightarrow> accepts s (pm_type g) t k \<Longrightarrow> accepts s' (pm_type g') t k"
  unfolding extended_def by (blast intro: accepts_mono)

lemma cb_ok_mono:
  assumes "le s s'" "extended g g'" "cb_ok s g t cb"
  shows "cb_ok s' g' t cb"
  using assms(3) accepts_ext [OF assms(1,2)] extended_type [OF assms(2)] extended_cell [OF assms(2)]
  by (cases cb) (simp; blast)+

lemma rejects_mono: "extended g g' \<Longrightarrow> rejects g cb \<Longrightarrow> rejects g' cb"
  by (cases cb) (auto dest: extended_type)

lemma task_ok_mono:
  assumes "le s s'" "extended g g'" "task_ok s g t"
  shows "task_ok s' g' t"
  using assms(3) accepts_ext [OF assms(1,2)] extended_type [OF assms(2)] has_type_mono [OF assms(1)]
    cb_ok_mono [OF assms(1,2)] rejects_mono [OF assms(2)]
  by (cases t) (simp; blast)+

lemma pm_ok_mono: "le s s' \<Longrightarrow> pm_ok s g p x \<Longrightarrow> pm_ok s' g p x"
  using has_type_mono [of s s'] cb_ok_mono [of s s' g g] by (auto simp: pm_ok_def split: option.splits)

lemma typed_mono:
  assumes le: "le s s'" and "typed s g h ts"
  shows "typed s' g h ts"
proof -
  have "cell_ok s' g c x" if "cell_ok s g c x" for c x
    using that has_type_mono [OF le] unfolding cell_ok_def by blast
  then show ?thesis
    using assms(2) pm_ok_mono [OF le] task_ok_mono [OF le extended_refl] unfolding typed_def by blast
qed

text \<open>A promise nobody used yet can be given any type.\<close>

lemma pm_ok_extend:
  assumes "pm_ok s g q x" and "pm_type g p = None"
  shows "pm_ok s (g\<lparr>pm_type := (pm_type g)(p \<mapsto> t)\<rparr>) q x"
proof -
  let ?g = "g\<lparr>pm_type := (pm_type g)(p \<mapsto> t)\<rparr>"
  have "extended g ?g" using assms(2) by (auto simp: extended_def map_le_def)
  then have "\<And>u cb. cb_ok s g u cb \<Longrightarrow> cb_ok s ?g u cb" by (rule cb_ok_mono [OF le_refl])
  then show ?thesis
    using assms rejects_mono [OF \<open>extended g ?g\<close>] by (auto simp: pm_ok_def new_promise_def split: option.splits)
qed

lemma typed_extend:
  assumes "typed s g h ts" and "pm_type g p = None" and "\<And>m. p = LocalPm m \<Longrightarrow> m < next_pm h"
  shows "\<exists>g'. extended g g' \<and> pm_type g' p = Some t \<and> typed s g' h ts"
proof -
  let ?g = "g\<lparr>pm_type := (pm_type g)(p \<mapsto> t)\<rparr>"
  have ext: "extended g ?g" using assms(2) by (auto simp: extended_def map_le_def)
  have "typed s ?g h ts"
    using assms(1,3) pm_ok_extend [OF _ assms(2)] task_ok_mono [OF le_refl ext]
    unfolding typed_def cell_ok_def slots_once_def by fastforce
  with ext show ?thesis by (intro exI [of _ ?g]) simp
qed

lemma typed_used:
  assumes "typed s g h ts" and "\<And>m. p = LocalPm m \<Longrightarrow> m < next_pm h"
  shows "\<exists>g' t. extended g g' \<and> pm_type g' p = Some t \<and> typed s g' h ts"
proof (cases "pm_type g p")
  case None
  from typed_extend [OF assms(1) this assms(2)] show ?thesis by blast
next
  case (Some t)
  with assms(1) show ?thesis using extended_refl by blast
qed

section \<open>The operations\<close>

lemma typed_tasks:
  assumes "typed s g h ts" and "set (task_slots ts') \<subseteq> set (task_slots ts)" and "distinct (task_slots ts')"
    and "\<And>t. t \<in> set ts' \<Longrightarrow> task_ok s g t"
  shows "typed s g h ts'"
  using assms slots_once_tasks unfolding typed_def by blast

lemma typed_tl: "typed s g h (t # ts) \<Longrightarrow> typed s g h ts"
  by (rule typed_tasks) (auto simp: typed_def slots_once_def)

lemma typed_Cons:
  assumes "typed s g h ts" and "task_ok s g t" and "task_slot t = []"
  shows "typed s g h (t # ts)"
  by (rule typed_tasks [OF assms(1)]) (use assms in \<open>auto simp: typed_def slots_once_def\<close>)

lemma typed_alloc:
  assumes typed: "typed s g h ts" and alloc: "alloc_pm h = (p, h')"
  shows "\<exists>g'. extended g g' \<and> pm_type g' p = Some t \<and> typed s g' h' ts \<and> pms h' p = new_promise"
proof -
  have p: "p = LocalPm (next_pm h)" and h': "h' = (set_pm p new_promise h)\<lparr>next_pm := Suc (next_pm h)\<rparr>"
    using alloc by (auto simp: alloc_pm_def)
  have "pm_ok s g p (pms h p)" and "pm_type g p = None" using typed by (auto simp: typed_def p)
  then have none: "pm_type g p = None" and "pms h p = new_promise" by (simp_all add: pm_ok_def)
  then have "pms h' = pms h" by (auto simp: h' set_pm_def)
  then have "typed s g h' ts" using typed by (simp add: typed_def h' set_pm_def slots_once_def)
  from typed_extend [OF this none, of t] \<open>pms h p = new_promise\<close> \<open>pms h' = pms h\<close>
  show ?thesis by (auto simp: p h')
qed

lemma typed_set_pm:
  assumes "typed s g h ts" and "pm_ok s g p x" and "\<And>t. t \<in> set ts' \<Longrightarrow> task_ok s g t"
    and "slots_once g (set_pm p x h) ts'"
  shows "typed s g (set_pm p x h) ts'"
  using assms unfolding typed_def set_pm_def by auto

text \<open>The slots of one promise move to the tasks.\<close>

lemma slots_once_move:
  assumes "slots_once g h ts" and "task_slots ts' = pm_slots (pms h p)" and "pm_slots x = []"
  shows "slots_once g (set_pm p x h) (ts' @ ts)"
  using assms(1) assms(3) unfolding slots_once_def assms(2) task_slots_simps set_pm_def
  by (auto simp: assms(2)) blast+

lemma typed_resolve:
  assumes typed: "typed s g h ts" and p: "pm_type g p = Some t" "has_type s t v"
    and run: "pm_resolve p v h = (ts', h')"
  shows "typed s g h' (ts' @ ts)"
proof (cases "pm_state (pms h p) = Pending")
  case True
  let ?x = "pms h p"
  let ?x' = "?x\<lparr>pm_result := v, pm_state := Fulfilled, fulfilled_callbacks := []\<rparr>"
  have ts': "ts' = map (\<lambda>cb. RunCallback cb v) (fulfilled_callbacks ?x)" and h': "h' = set_pm p ?x' h"
    using run True by (auto simp: pm_resolve_def Let_def)
  have ok: "pm_ok s g p ?x" using typed by (simp add: typed_def)
  then have "pm_ok s g p ?x'" and cbs: "\<forall>cb\<in>set (fulfilled_callbacks ?x). cb_ok s g t cb"
    using p by (simp_all add: pm_ok_def)
  moreover have "\<forall>u\<in>set ts. task_ok s g u" using typed by (simp add: typed_def)
  then have "task_ok s g u" if "u \<in> set (ts' @ ts)" for u
  proof -
    from that consider cb where "u = RunCallback cb v" "cb \<in> set (fulfilled_callbacks ?x)" | "u \<in> set ts"
      by (auto simp: ts')
    then show ?thesis using cbs p(2) \<open>\<forall>u\<in>set ts. task_ok s g u\<close> by cases (simp; blast)+
  qed
  moreover have "slots_once g h' (ts' @ ts)"
    unfolding h' using typed True
    by (intro slots_once_move) (simp_all add: typed_def ts' pm_slots_def)
  ultimately show ?thesis unfolding h' using typed by (intro typed_set_pm)
qed (use typed run in \<open>simp add: pm_resolve_def Let_def\<close>)

lemma rejects_slot: "rejects g cb \<Longrightarrow> slot_of cb = []"
  by (cases cb) simp_all

lemma slots_once_drop:
  assumes "slots_once g h ts" and "set (pm_slots x) \<subseteq> set (pm_slots (pms h p))" and "distinct (pm_slots x)"
    and "task_slots ts' = []"
  shows "slots_once g (set_pm p x h) (ts' @ ts)"
  using assms(1-3) unfolding slots_once_def set_pm_def task_slots_simps assms(4)
  by (auto split: if_splits) blast+

lemma typed_reject:
  assumes typed: "typed s g h ts" and p: "pm_type g p = Some t" and run: "pm_reject p v h = (ts', h')"
  shows "typed s g h' (ts' @ ts)"
proof (cases "pm_state (pms h p) = Pending")
  case True
  let ?x = "pms h p"
  let ?x' = "?x\<lparr>pm_reason := v, pm_state := Rejected, rejected_callbacks := []\<rparr>"
  have ts': "ts' = map (\<lambda>cb. RunCallback cb v) (rejected_callbacks ?x)" and h': "h' = set_pm p ?x' h"
    using run True by (auto simp: pm_reject_def Let_def)
  have ok: "pm_ok s g p ?x" using typed by (simp add: typed_def)
  then have "pm_ok s g p ?x'" and rej: "\<forall>cb\<in>set (rejected_callbacks ?x). rejects g cb"
    using p by (simp_all add: pm_ok_def)
  moreover have "task_ok s g u" if "u \<in> set (ts' @ ts)" for u
    using that typed rej by (auto simp: ts' typed_def)
  moreover have "task_slots ts' = []" using rej rejects_slot by (auto simp: ts')
  then have "slots_once g h' (ts' @ ts)"
    unfolding h' using typed by (intro slots_once_drop) (simp_all add: typed_def pm_slots_def)
  ultimately show ?thesis unfolding h' using typed by (intro typed_set_pm)
qed (use typed run in \<open>simp add: pm_reject_def Let_def\<close>)

text \<open>
  Adding a callback. For a callback of \<open>all\<close> its place must be free; the other callbacks have none.
\<close>

lemma slots_once_add:
  assumes "slots_once g h ts" and "pm_slots x = pm_slots (pms h p) @ slot_of cb"
    and "\<And>c i. (c, i) \<in> set (slot_of cb) \<Longrightarrow> c \<in> dom (cell_types g) \<and> i \<notin> filled g c \<and>
      (c, i) \<notin> set (task_slots ts) \<and> (\<forall>q. (c, i) \<notin> set (pm_slots (pms h q)))"
  shows "slots_once g (set_pm p x h) ts"
proof -
  let ?h = "set_pm p x h"
  have get: "pm_slots (pms ?h q) = (if q = p then pm_slots (pms h p) @ slot_of cb else pm_slots (pms h q))" for q
    by (simp add: set_pm_def assms(2))
  note S = assms(1) [unfolded slots_once_def, THEN conjunct1]
    assms(1) [unfolded slots_once_def, THEN conjunct2, THEN conjunct1, rule_format]
    assms(1) [unfolded slots_once_def, THEN conjunct2, THEN conjunct2, THEN conjunct1, rule_format]
    assms(1) [unfolded slots_once_def, THEN conjunct2, THEN conjunct2, THEN conjunct2, rule_format]
  show ?thesis
  proof (cases "slot_of cb")
    case Nil
    then have "pm_slots (pms ?h q) = pm_slots (pms h q)" for q by (simp add: get)
    then show ?thesis using assms(1) by (simp add: slots_once_def)
  next
    case (Cons ci rest)
    then obtain c i where slot: "slot_of cb = [(c, i)]" by (cases cb) auto
    with assms(3) have new: "c \<in> dom (cell_types g)" "i \<notin> filled g c" "(c, i) \<notin> set (task_slots ts)"
      "\<And>q. (c, i) \<notin> set (pm_slots (pms h q))" by auto
    have p: "set (pm_slots (pms ?h p)) = insert (c, i) (set (pm_slots (pms h p)))"
      and q: "q \<noteq> p \<Longrightarrow> pm_slots (pms ?h q) = pm_slots (pms h q)" for q
      by (simp_all add: get slot)
    have "distinct (pm_slots (pms ?h q))" for q using S(2) [of q] S(2) [of p] new(4) by (simp add: get slot)
    moreover have "set (pm_slots (pms ?h q)) \<inter> set (task_slots ts) = {}" for q
      using S(2) [of q] new(3) p q by (cases "q = p") auto
    moreover have "set (pm_slots (pms ?h q)) \<inter> set (pm_slots (pms ?h r)) = {}" if "q \<noteq> r" for q r
      using S(3) [OF that] that new(4) p q by (cases "q = p"; cases "r = p") auto
    moreover have "c' \<in> dom (cell_types g) \<and> i' \<notin> filled g c'"
      if m: "(c', i') \<in> set (task_slots ts) \<union> (\<Union>p. set (pm_slots (pms ?h p)))" for c' i'
    proof (cases "(c', i') = (c, i)")
      case False
      obtain r where "(c', i') \<in> set (task_slots ts) \<or> (c', i') \<in> set (pm_slots (pms ?h r))" using m by auto
      then have "(c', i') \<in> set (task_slots ts) \<or> (c', i') \<in> set (pm_slots (pms h r))"
        using False p q by (cases "r = p") auto
      then show ?thesis by (intro S(4)) auto
    qed (use new(1,2) in simp)
    ultimately show ?thesis using S(1) unfolding slots_once_def by simp
  qed
qed

lemma typed_add:
  assumes typed: "typed s g h ts" and p: "pm_type g p = Some t" "cb_ok s g t cb" "rejects g rej"
    and slot: "slot_of cb = []" and run: "add_callbacks p cb rej h = (ts', h')"
  shows "typed s g h' (ts' @ ts)"
proof -
  let ?x = "pms h p"
  have ok: "pm_ok s g p ?x" using typed by (simp add: typed_def)
  show ?thesis
  proof (cases "pm_state ?x")
    case Pending
    let ?x' = "?x\<lparr>fulfilled_callbacks := fulfilled_callbacks ?x @ [cb], rejected_callbacks := rejected_callbacks ?x @ [rej]\<rparr>"
    have h': "h' = set_pm p ?x' h" and ts': "ts' = []"
      using run Pending by (auto simp: add_callbacks_def Let_def)
    have "pm_ok s g p ?x'" using ok p by (simp add: pm_ok_def)
    moreover have "slots_once g h' ts"
      unfolding h' using typed slot
      by (intro slots_once_add [where cb = cb]) (simp_all add: typed_def pm_slots_def Pending)
    ultimately show ?thesis unfolding h' ts' using typed
      by (intro typed_set_pm [OF typed]) (simp_all add: typed_def)
  next
    case Fulfilled
    then have "h' = h" "ts' = [RunCallback cb (pm_result ?x)]"
      using run by (auto simp: add_callbacks_def Let_def)
    moreover have "has_type s t (pm_result ?x)" using ok p(1) Fulfilled by (simp add: pm_ok_def)
    then have "task_ok s g (RunCallback cb (pm_result ?x))" using p(2) by auto
    from typed_Cons [OF typed this] slot
    have "typed s g h (RunCallback cb (pm_result ?x) # ts)" by simp
    ultimately show ?thesis by simp
  next
    case Rejected
    then have "h' = h" "ts' = [RunCallback rej (pm_reason ?x)]"
      using run by (auto simp: add_callbacks_def Let_def)
    moreover have "typed s g h (RunCallback rej (pm_reason ?x) # ts)"
      by (rule typed_Cons [OF typed]) (simp_all add: p(3) rejects_slot [OF p(3)])
    ultimately show ?thesis by simp
  qed
qed

lemma typed_then:
  assumes typed: "typed s g h ts" and p: "pm_type g p = Some t" "accepts s (pm_type g) t k"
    and run: "pm_then p k h = (q, ts', h')"
  shows "\<exists>g'. extended g g' \<and> pm_type g' q = Some any_type \<and> typed s g' h' (ts' @ ts)"
proof -
  obtain h1 where a: "alloc_pm h = (q, h1)" "add_callbacks p (Call k q) (PassReason q) h1 = (ts', h')"
    using run by (auto simp: pm_then_def split: prod.splits)
  from typed_alloc [OF typed a(1), of any_type] obtain g' where
    g': "extended g g'" "pm_type g' q = Some any_type" "typed s g' h1 ts" by blast
  have "cb_ok s g' t (Call k q)" using accepts_ext [OF le_refl g'(1) p(2)] g'(2) by simp
  from typed_add [OF g'(3) extended_type [OF g'(1) p(1)] this _ _ a(2)] g' show ?thesis by auto
qed

lemma typed_then_map:
  assumes typed: "typed s g h ts" and p: "pm_type g p = Some t" "maps t k u"
    and run: "pm_then_map p k h = (q, ts', h')"
  shows "\<exists>g'. extended g g' \<and> pm_type g' q = Some u \<and> typed s g' h' (ts' @ ts)"
proof -
  obtain h1 where a: "alloc_pm h = (q, h1)" "add_callbacks p (CallMap k q) (PassReason q) h1 = (ts', h')"
    using run by (auto simp: pm_then_map_def split: prod.splits)
  from typed_alloc [OF typed a(1), of u] obtain g' where
    g': "extended g g'" "pm_type g' q = Some u" "typed s g' h1 ts" by blast
  have "cb_ok s g' t (CallMap k q)" using p(2) g'(2) by auto
  from typed_add [OF g'(3) extended_type [OF g'(1) p(1)] this _ _ a(2)] g' show ?thesis by auto
qed

lemma typed_resolved:
  assumes typed: "typed s g h ts" and "has_type s t v" and run: "resolved_pm v h = (p, h')"
  shows "\<exists>g'. extended g g' \<and> pm_type g' p = Some t \<and> typed s g' h' ts"
proof -
  obtain h1 where a: "alloc_pm h = (p, h1)" "h' = snd (pm_resolve p v h1)"
    using run by (auto simp: resolved_pm_def split: prod.splits)
  from typed_alloc [OF typed a(1), of t] obtain g' where
    g': "extended g g'" "pm_type g' p = Some t" "typed s g' h1 ts" "pms h1 p = new_promise" by blast
  have "pm_resolve p v h1 = ([], h')"
    using g'(4) a(2) by (simp add: pm_resolve_def new_promise_def Let_def)
  from typed_resolve [OF g'(3,2) assms(2) this] g' show ?thesis by auto
qed

section \<open>All\<close>

definition slot_free :: "nat \<Rightarrow> nat \<Rightarrow> ('k, 'v) promises \<Rightarrow> ('k, 'v) pm_task list \<Rightarrow> bool" where
  "slot_free c i h ts \<longleftrightarrow> (c, i) \<notin> set (task_slots ts) \<and> (\<forall>q. (c, i) \<notin> set (pm_slots (pms h q)))"

text \<open>Filling a place that is due nowhere else.\<close>

lemma typed_fill:
  assumes typed: "typed s g h ts" and c: "cell_types g c = Some tys" "i < length tys" "i \<notin> filled g c"
    and free: "slot_free c i h ts" and v: "has_type s (tys ! i) v"
    and npm: "pm_type g npm = Some (all_type tys)" and run: "fill_slot pack c i npm v h = (ts', h')"
  shows "typed s (g\<lparr>filled := (filled g)(c := insert i (filled g c))\<rparr>) h' (ts' @ ts)"
proof -
  let ?g = "g\<lparr>filled := (filled g)(c := insert i (filled g c))\<rparr>" and ?x = "cells h c"
  let ?y = "\<lparr>cell_size = cell_size ?x - 1, cell_results = (cell_results ?x)[i := v]\<rparr>"
  let ?h = "h\<lparr>cells := (cells h)(c := ?y)\<rparr>"
  have old: "length (cell_results ?x) = length tys" "filled g c \<subseteq> {..<length tys}"
    "cell_size ?x + card (filled g c) = length tys"
    "\<forall>j\<in>filled g c. has_type s (tys ! j) (cell_results ?x ! j)"
    using typed c(1) by (auto simp: typed_def cell_ok_def)
  have fin: "finite (filled g c)" using old(2) finite_subset by blast
  have card: "card (insert i (filled g c)) = Suc (card (filled g c))" using fin c(3) by simp
  have "card (insert i (filled g c)) \<le> card {..<length tys}" using old(2) c(2) by (intro card_mono) auto
  with card old(3) have pos: "0 < cell_size ?x" by simp
  have new: "cell_ok s ?g c ?y"
    using old c card pos v by (auto simp: cell_ok_def nth_list_update)
  have same: "pm_ok s ?g p x = pm_ok s g p x" "task_ok s ?g t = task_ok s g t" for p x t
  proof -
    have cb: "cb_ok s ?g u cb = cb_ok s g u cb" "rejects ?g cb = rejects g cb" for u cb
      by (cases cb; simp)+
    then show "pm_ok s ?g p x = pm_ok s g p x" by (simp add: pm_ok_def cong: option.case_cong)
    show "task_ok s ?g t = task_ok s g t" using cb by (cases t) simp_all
  qed
  have "cell_ok s ?g c' (cells ?h c')" for c'
    using new typed by (cases "c' = c") (auto simp: typed_def cell_ok_def)
  moreover have "slots_once ?g ?h ts"
    using typed free by (auto simp: typed_def slots_once_def slot_free_def)
  ultimately have t: "typed s ?g ?h ts" using typed by (simp add: typed_def same)
  show ?thesis
  proof (cases "cell_size ?y = 0")
    case True
    then have "card (insert i (filled g c)) = length tys" using old(3) card pos by simp
    then have "insert i (filled g c) = {..<length tys}"
      using old(2) c(2) by (intro card_subset_eq) auto
    then have "has_type s (tys ! j) (cell_results ?y ! j)" if "j < length tys" for j
      using new c(1) that by (simp add: cell_ok_def)
    then have "has_type s (all_type tys) (Some (pack (cell_results ?y)))"
      using old(1) by (intro all_pack) simp_all
    then have ok: "has_type s (all_type tys) (Some (pack (cell_results ?y)))" .
    have go: "pm_resolve npm (Some (pack (cell_results ?y))) ?h = (ts', h')"
      using run True by (simp add: fill_slot_def Let_def)
    show ?thesis by (rule typed_resolve [OF t _ ok go]) (simp add: npm)
  qed (use t run in \<open>simp add: fill_slot_def Let_def\<close>)
qed

text \<open>The loop of \<open>all\<close>: the places from \<open>i\<close> on are free.\<close>

definition free_from :: "'t ghost \<Rightarrow> nat \<Rightarrow> nat \<Rightarrow> ('k, 'v) promises \<Rightarrow> ('k, 'v) pm_task list \<Rightarrow> bool" where
  "free_from g c i h ts \<longleftrightarrow> (\<forall>j\<ge>i. slot_free c j h ts \<and> j \<notin> filled g c)"

lemma free_from_step:
  assumes "free_from g c i h ts"
    and "\<And>q j. j \<noteq> i \<Longrightarrow> (c, j) \<in> set (pm_slots (pms h' q)) \<Longrightarrow> (c, j) \<in> set (pm_slots (pms h q))"
    and "filled g' c \<subseteq> insert i (filled g c)"
  shows "free_from g' c (Suc i) h' ts"
  using assms unfolding free_from_def slot_free_def by (metis Suc_le_lessD insertE less_imp_le less_irrefl subsetD)

lemma typed_add_slot:
  assumes typed: "typed s g h ts" and p: "pm_type g p = Some t" "cb_ok s g t (FillSlot c i npm)" "rejects g rej"
    and free: "slot_free c i h ts" "i \<notin> filled g c" and pend: "pm_state (pms h p) = Pending"
    and run: "add_callbacks p (FillSlot c i npm) rej h = (ts', h')"
  shows "typed s g h' ts"
proof -
  let ?x = "pms h p" and ?cb = "FillSlot c i npm"
  let ?x' = "?x\<lparr>fulfilled_callbacks := fulfilled_callbacks ?x @ [?cb], rejected_callbacks := rejected_callbacks ?x @ [rej]\<rparr>"
  have h': "h' = set_pm p ?x' h" using run pend by (auto simp: add_callbacks_def Let_def)
  have "pm_ok s g p ?x" using typed by (simp add: typed_def)
  then have "pm_ok s g p ?x'" using p by (simp add: pm_ok_def)
  moreover have "slots_once g h' ts"
    unfolding h' using typed free p(2) pend
    by (intro slots_once_add [where cb = ?cb]) (auto simp: typed_def pm_slots_def slot_free_def)
  ultimately show ?thesis unfolding h' using typed by (intro typed_set_pm [OF typed]) (simp_all add: typed_def)
qed

lemma typed_all_loop:
  assumes "typed s g h ts" and "cell_types g c = Some (pre @ tys)" and "length pre = i"
    and "list_all2 (\<lambda>p t. pm_type g p = Some t) ps tys" and "npm \<notin> set ps" and "lonely (pms h npm)"
    and "pm_type g npm = Some (all_type (pre @ tys))" and "free_from g c i h ts"
  shows "\<exists>g'. pm_type g' = pm_type g \<and> cell_types g' = cell_types g \<and>
    typed s g' (all_loop pack c npm i ps h) ts"
  using assms
proof (induction ps arbitrary: g h i pre tys)
  case Nil
  then show ?case by (auto intro: exI [of _ g])
next
  case (Cons p ps)
  then obtain t tys' where t: "tys = t # tys'" "pm_type g p = Some t"
    "list_all2 (\<lambda>p t. pm_type g p = Some t) ps tys'" by (auto simp: list_all2_Cons1)
  have np: "p \<noteq> npm" "npm \<notin> set ps" using Cons.prems(5) by auto
  have i: "i < length (pre @ tys)" "(pre @ tys) ! i = t" using Cons.prems(3) t(1) by auto
  have free: "slot_free c i h ts" "i \<notin> filled g c" using Cons.prems(8) by (simp_all add: free_from_def)
  have ok: "pm_ok s g p (pms h p)" using Cons.prems(1) by (simp add: typed_def)
  have go: "\<exists>g'. pm_type g' = pm_type g \<and> cell_types g' = cell_types g \<and>
      typed s g' (all_loop pack c npm (Suc i) ps h1) ts"
    if "typed s g1 h1 ts" "pm_type g1 = pm_type g" "cell_types g1 = cell_types g" "lonely (pms h1 npm)"
      "free_from g1 c (Suc i) h1 ts" for g1 h1
    using Cons.IH [OF that(1), of "pre @ [t]" tys' "Suc i"] that(2-5) Cons.prems(2,3,7) t np(2) by simp
  show ?case
  proof (cases "pm_state (pms h p)")
    case Pending
    obtain ts' h1 where run: "add_callbacks p (FillSlot c i npm) (PassReason npm) h = (ts', h1)" by force
    have "cb_ok s g t (FillSlot c i npm)" using Cons.prems(2,7) i by simp
    from typed_add_slot [OF Cons.prems(1) t(2) this _ free Pending run] Cons.prems(7)
    have "typed s g h1 ts" by simp
    moreover have h1: "h1 = set_pm p ((pms h p)\<lparr>fulfilled_callbacks := fulfilled_callbacks (pms h p) @ [FillSlot c i npm],
        rejected_callbacks := rejected_callbacks (pms h p) @ [PassReason npm]\<rparr>) h"
      using run Pending by (auto simp: add_callbacks_def Let_def)
    have "free_from g c (Suc i) h1 ts"
      by (rule free_from_step [OF Cons.prems(8)]) (auto simp: h1 set_pm_def pm_slots_def split: if_splits)
    moreover have "lonely (pms h1 npm)" using Cons.prems(6) np(1) by (simp add: h1 set_pm_def)
    ultimately show ?thesis using go [of g h1] Pending run by simp
  next
    case Fulfilled
    obtain ts' h1 where run: "fill_slot pack c i npm (pm_result (pms h p)) h = (ts', h1)" by force
    let ?g = "g\<lparr>filled := (filled g)(c := insert i (filled g c))\<rparr>"
    have "has_type s ((pre @ tys) ! i) (pm_result (pms h p))"
      using ok t(2) Fulfilled i(2) by (simp add: pm_ok_def)
    from typed_fill [OF Cons.prems(1,2) i(1) free(2,1) this Cons.prems(7) run]
    have "typed s ?g h1 ts" using fill_lonely(1) [OF Cons.prems(6) run] by simp
    moreover have "free_from ?g c (Suc i) h1 ts"
      by (rule free_from_step [OF Cons.prems(8)]) (simp_all add: fill_lonely(4) [OF Cons.prems(6) run])
    ultimately show ?thesis using go [of ?g h1] Fulfilled run fill_lonely(2) [OF Cons.prems(6) run] by simp
  next
    case Rejected
    obtain ts' h1 where run: "pm_reject npm (pm_reason (pms h p)) h = (ts', h1)" by force
    from typed_reject [OF Cons.prems(1,7) run] reject_lonely(1) [OF Cons.prems(6) run]
    have "typed s g h1 ts" by simp
    moreover have "free_from g c (Suc i) h1 ts"
      by (rule free_from_step [OF Cons.prems(8)]) (auto simp: reject_lonely(4) [OF Cons.prems(6) run])
    ultimately show ?thesis using go [of g h1] Rejected run reject_lonely(2) [OF Cons.prems(6) run] by simp
  qed
qed

lemma typed_all:
  assumes typed: "typed s g h ts" and ps: "list_all2 (\<lambda>p t. pm_type g p = Some t) ps tys"
    and run: "pm_all pack ps h = (Inr p, h')"
  shows "\<exists>g'. extended g g' \<and> pm_type g' p = Some (all_type tys) \<and> typed s g' h' ts"
proof -
  obtain h1 where a: "alloc_pm h = (p, h1)" using run by (auto simp: pm_all_def Let_def split: if_splits prod.splits)
  let ?c = "next_cell h1"
  let ?h2 = "h1\<lparr>cells := (cells h1)(?c := \<lparr>cell_size = length ps, cell_results = replicate (length ps) None\<rparr>),
    next_cell := Suc ?c\<rparr>"
  have h': "h' = all_loop pack ?c p 0 ps ?h2"
    using run a by (auto simp: pm_all_def Let_def split: if_splits prod.splits)
  from typed_alloc [OF typed a, of "all_type tys"] obtain g1 where
    g1: "extended g g1" "pm_type g1 p = Some (all_type tys)" "typed s g1 h1 ts" "pms h1 p = new_promise" by blast
  let ?g2 = "g1\<lparr>cell_types := (cell_types g1)(?c \<mapsto> tys), filled := (filled g1)(?c := {})\<rparr>"
  have len: "length ps = length tys" using ps by (rule list_all2_lengthD)
  have c: "cell_types g1 ?c = None" using g1(3) by (auto simp: typed_def)
  have ext: "extended g1 ?g2" using c by (auto simp: extended_def map_le_def)
  have cb: "cb_ok s g1 t cb \<Longrightarrow> cb_ok s ?g2 t cb" for t cb
    using cb_ok_mono [OF le_refl ext] by simp
  then have "pm_ok s ?g2 q x" if "pm_ok s g1 q x" for q x
    using that rejects_mono [OF ext] by (auto simp: pm_ok_def split: option.splits)
  moreover have "task_ok s ?g2 t" if "task_ok s g1 t" for t
    using task_ok_mono [OF le_refl ext] that by simp
  moreover have "cell_ok s ?g2 c' (cells ?h2 c')" for c'
    using g1(3) len by (cases "c' = ?c") (auto simp: typed_def cell_ok_def)
  moreover have "slots_once ?g2 ?h2 ts"
    using g1(3) c unfolding typed_def slots_once_def by auto
  moreover have "dom (cell_types ?g2) \<subseteq> {..<next_cell ?h2}"
    using g1(3) by (auto simp: typed_def less_Suc_eq)
  ultimately have t2: "typed s ?g2 ?h2 ts" using g1(3) by (simp add: typed_def)
  have free: "free_from ?g2 ?c 0 ?h2 ts"
    using g1(3) c unfolding typed_def slots_once_def free_from_def slot_free_def by fastforce
  have tys: "list_all2 (\<lambda>p t. pm_type ?g2 p = Some t) ps tys"
    using ps by (rule list_all2_mono) (auto intro: extended_type [OF g1(1)])
  have "pm_type g p = None" using a typed by (auto simp: alloc_pm_def typed_def)
  with ps have "p \<notin> set ps" by (auto simp: list_all2_conv_all_nth in_set_conv_nth)
  with typed_all_loop [OF t2 _ _ tys, of ?c "[]" 0 p] g1(2,4) free
  obtain g' where g': "pm_type g' = pm_type ?g2" "cell_types g' = cell_types ?g2" "typed s g' h' ts"
    unfolding h' by auto
  have "extended ?g2 g'" using g'(1,2) by (simp add: extended_def)
  with g1(1) ext have "extended g g'" by (blast intro: extended_trans)
  with g' g1(2) show ?thesis by auto
qed

section \<open>Running a callback\<close>

lemma typed_callback:
  assumes typed: "typed s g h (RunCallback cb v # ts)" and run: "run_callback pack cb v h = (ts', h')"
  shows "\<exists>g'. extended g g' \<and> typed s g' h' (ts' @ ts)"
proof -
  note tl = typed_tl [OF typed]
  have ok: "task_ok s g (RunCallback cb v)" using typed by (simp add: typed_def)
  show ?thesis
  proof (cases "rejects g cb")
    case True
    then obtain npm t where npm: "cb = PassReason npm" "pm_type g npm = Some t" by (cases cb) auto
    with run have "pm_reject npm v h = (ts', h')" by simp
    from typed_reject [OF tl npm(2) this] show ?thesis using extended_refl by blast
  next
    case False
    with ok obtain t where t: "has_type s t v" "cb_ok s g t cb" by auto
    show ?thesis
    proof (cases cb)
      case (Call k npm)
      with run have r: "h' = h" "ts' = [RunClosure k v, ResolvePm npm None]" by auto
      have "task_ok s g (ResolvePm npm None)" "task_ok s g (RunClosure k v)" using t Call any_None by auto
      from typed_Cons [OF typed_Cons [OF tl this(1)] this(2)] r
      show ?thesis by (intro exI [of _ g]) simp
    next
      case (CallMap k npm)
      with run have r: "h' = h" "ts' = [RunMap k v npm]" by auto
      have "task_ok s g (RunMap k v npm)" using t CallMap by auto
      from typed_Cons [OF tl this] r show ?thesis by (intro exI [of _ g]) simp
    next
      case (PassResult npm)
      with run t typed_resolve [OF tl, of npm t v] show ?thesis by (intro exI [of _ g]) simp
    next
      case (FillSlot c i npm)
      with t obtain tys where c: "cell_types g c = Some tys" "i < length tys" "tys ! i = t"
        "pm_type g npm = Some (all_type tys)" by auto
      have once: "slots_once g h (RunCallback cb v # ts)" using typed by (simp add: typed_def)
      then have "slot_free c i h ts" "i \<notin> filled g c"
        using FillSlot by (auto simp: slots_once_def slot_free_def)
      from typed_fill [OF tl c(1,2) this(2,1) _ c(4)] t(1) c(3) run FillSlot
      have "typed s (g\<lparr>filled := (filled g)(c := insert i (filled g c))\<rparr>) h' (ts' @ ts)" by simp
      then show ?thesis by (intro exI) (auto simp: extended_def)
    qed (use t False in auto)
  qed
qed

end

end
