(* ===== verification/NodeTyping.thy ===== *)
theory NodeTyping
  imports Base CoreGrowth PromiseTyping
begin

text \<open>
  The types of the promises of a replica: what a promise may be fulfilled with, and which closure
  may wait for it. A fetched block is stored under its hash, a delivered one is delivered, and a
  verification that succeeds means that the certificate, or the vote, is valid.
\<close>

section \<open>Types\<close>

datatype pm_ty =
    TAny
  | TTrue
  | TStored uint256
  | TDelivered uint256
  | TQc replica_config quorum_cert
  | TVote replica_config vote
  | TTask veri_task
  | TAll "pm_ty list"

definition vote_valid :: "crypto_ops \<Rightarrow> replica_config \<Rightarrow> vote \<Rightarrow> bool" where
  "vote_valid C cfg x \<longleftrightarrow>
     (\<exists>cert pk. v_cert x = Some cert \<and> get_pubkey cfg (v_voter x) = Inr pk \<and>
        part_cert_obj_hash cert = v_blk_hash x \<and> part_cert_verify C cert pk = Inr True)"

definition value_ok :: "core \<Rightarrow> pm_value option \<Rightarrow> bool" where
  "value_ok c v \<longleftrightarrow>
     (\<forall>b. v = Some (VBlk b) \<longrightarrow> delivered (c_storage c) b) \<and>
     (\<forall>p b. v = Some (VProp p) \<longrightarrow> p_blk p = Some b \<longrightarrow> delivered (c_storage c) b)"

primrec has_type :: "crypto_ops \<Rightarrow> core \<Rightarrow> pm_ty \<Rightarrow> pm_value option \<Rightarrow> bool" where
  "has_type C c TAny = value_ok c"
| "has_type C c TTrue = (\<lambda>v. v = Some (VBool True))"
| "has_type C c (TStored h) = (\<lambda>v. \<exists>b. v = Some (VBlk b) \<and> find_blk (c_storage c) h = Some b)"
| "has_type C c (TDelivered h) =
     (\<lambda>v. \<exists>b. v = Some (VBlk b) \<and> find_blk (c_storage c) h = Some b \<and> delivered (c_storage c) b)"
| "has_type C c (TQc cfg q) =
     (\<lambda>v. \<exists>b. v = Some (VBool b) \<and> (b \<longrightarrow> qc_verify C cfg q = Inr True))"
| "has_type C c (TVote cfg x) = (\<lambda>v. \<exists>b. v = Some (VBool b) \<and> (b \<longrightarrow> vote_valid C cfg x))"
| "has_type C c (TTask t) = (\<lambda>v. \<exists>b. v = Some (VBool b) \<and> veri_task_verify C t = Inr b)"
| "has_type C c (TAll tys) =
     (\<lambda>v. \<exists>vs. v = Some (VAll vs) \<and> list_all2 (\<lambda>P w. P w) (map (has_type C c) tys) vs)"

lemma has_type_all:
  "has_type C c (TAll tys) v \<longleftrightarrow> (\<exists>vs. v = Some (VAll vs) \<and> list_all2 (has_type C c) tys vs)"
  by (simp add: list_all2_map1)

declare has_type.simps(8) [simp del]
declare has_type_all [simp]

section \<open>What may wait\<close>

text \<open>The type of the promise that a block's certificate is verified with.\<close>

definition cert_ty :: "core \<Rightarrow> block_ref \<Rightarrow> quorum_cert \<Rightarrow> pm_ty \<Rightarrow> bool" where
  "cert_ty c b q t \<longleftrightarrow>
     t = TQc (c_config c) q \<or>
     t = TTrue \<and> (b = c_b0 c \<or> qc_obj_hash q = blk_hash (blk c (c_b0 c)))"

definition stored :: "core \<Rightarrow> block_ref \<Rightarrow> bool" where
  "stored c b \<longleftrightarrow> b < next_ref (c_storage c)"

definition parent_tys :: "core \<Rightarrow> block_ref \<Rightarrow> uint256 list \<Rightarrow> pm_ty list \<Rightarrow> bool" where
  "parent_tys c b hs tys \<longleftrightarrow>
     stored c b \<and> (\<exists>q t. blk_qc (blk c b) = Some q \<and> cert_ty c b q t \<and>
       tys = t # TStored (qc_obj_hash q) # map TDelivered hs)"

definition output_ok :: "core \<Rightarrow> core_output \<Rightarrow> bool" where
  "output_ok c out \<longleftrightarrow>
     (\<forall>i p b. out = Resolve i (VProposal p) \<longrightarrow> p_blk p = Some b \<longrightarrow> delivered (c_storage c) b)"

abbreviation typed_as :: "(pid \<rightharpoonup> pm_ty) \<Rightarrow> pid list \<Rightarrow> pm_ty list \<Rightarrow> bool" where
  "typed_as T ps tys \<equiv> list_all2 (\<lambda>p t. T p = Some t) ps tys"

primrec accepts :: "core \<Rightarrow> (pid \<rightharpoonup> pm_ty) \<Rightarrow> closure \<Rightarrow> pm_ty \<Rightarrow> bool" where
  "accepts c T (FetchedForDelivery r) = (\<lambda>t. \<exists>h. t = TStored h)"
| "accepts c T (DeliverParents b r ps hs) =
     (\<lambda>t. t = TAny \<and> (\<exists>hs0 tys. blk_parent_hashes (blk c b) = hs0 @ hs \<and> parent_tys c b hs0 tys \<and> typed_as T ps tys))"
| "accepts c T (ReadyForDelivery b) =
     (\<lambda>t. \<exists>tys. t = TAll tys \<and> parent_tys c b (blk_parent_hashes (blk c b)) tys)"
| "accepts c T (DeliveredForProposal p) =
     (\<lambda>t. \<exists>h. t = TAll [TDelivered h] \<and> (\<forall>b. p_blk p = Some b \<longrightarrow> find_blk (c_storage c) h = Some b))"
| "accepts c T (CheckVote x p) = (\<lambda>t. t = TAny \<and> T p = Some (TDelivered (v_blk_hash x)))"
| "accepts c T (CheckedVote x) = (\<lambda>t. t = TAll [TDelivered (v_blk_hash x), TVote (c_config c) x])"
| "accepts c T (FetchedForRequest r) = (\<lambda>t. \<exists>hs. t = TAll (map TStored hs))"
| "accepts c T (AllThen ps k) = (\<lambda>t. t = TAny \<and> (\<exists>tys. typed_as T ps tys \<and> accepts c T k (TAll tys)))"
| "accepts c T (OnFetchBlks bs) = (\<lambda>t. t = TAny \<and> list_all (stored c) bs)"
| "accepts c T (EraseFetch h) = (\<lambda>t. True)"
| "accepts c T (EraseDelivery h) = (\<lambda>t. True)"
| "accepts c T (OnBeat cmds) = (\<lambda>t. True)"
| "accepts c T (OnBeatResp x) = (\<lambda>t. True)"
| "accepts c T (ThenClosure p k) = (\<lambda>t. t = TAny \<and> (\<exists>u. T p = Some u \<and> accepts c T k u))"
| "accepts c T AllTrue = (\<lambda>t. False)"
| "accepts c T (MatchHash x) = (\<lambda>t. False)"
| "accepts c T PassProposal = (\<lambda>t. False)"
| "accepts c T PassHqc = (\<lambda>t. False)"
| "accepts c T (Output out) = (\<lambda>t. output_ok c out)"
| "accepts c T HtHqcUpdate = (\<lambda>t. t = TAny)"
| "accepts c T HtProposal = (\<lambda>t. t = TAny)"
| "accepts c T HtReceiveProposal = (\<lambda>t. t = TAny)"
| "accepts c T (WqQcFinish p) = (\<lambda>t. T p = Some TAny)"
| "accepts c T WqProposal = (\<lambda>t. True)"
| "accepts c T WqLock = (\<lambda>t. True)"
| "accepts c T WqUpdateLastProposed = (\<lambda>t. True)"
| "accepts c T RrProposal = (\<lambda>t. True)"
| "accepts c T RrReceiveProposal = (\<lambda>t. True)"
| "accepts c T (RrAwaitManual x b) = (\<lambda>t. True)"
| "accepts c T (RrManual x) = (\<lambda>t. True)"
| "accepts c T RrRotateTimer = (\<lambda>t. True)"
| "accepts c T RrRepropose = (\<lambda>t. True)"

text \<open>The tasks that check the signatures of a certificate.\<close>

definition qc_tasks_of ::
  "replica_config \<Rightarrow> uint256 \<Rightarrow> (replica_id \<rightharpoonup> bytes) \<Rightarrow> nat list \<Rightarrow> veri_task list \<Rightarrow> bool" where
  "qc_tasks_of cfg h sigs is tasks \<longleftrightarrow>
     list_all2 (\<lambda>i t. \<exists>d sg. get_pubkey cfg (word_of_nat i) = Inr (PubKeySecp256k1 d) \<and>
       sigs (word_of_nat i) = Some sg \<and> t = Secp256k1VeriTask h d sg) is tasks"

definition cert_task :: "replica_config \<Rightarrow> vote \<Rightarrow> pm_ty \<Rightarrow> bool" where
  "cert_task cfg x t \<longleftrightarrow>
     (\<exists>cert pk. v_cert x = Some cert \<and> get_pubkey cfg (v_voter x) = Inr pk \<and>
        ((\<exists>h. cert = PartCertDummy h) \<and> t = TTrue \<or>
         (\<exists>sg h d. cert = PartCertSecp256k1 sg h \<and> pk = PubKeySecp256k1 d \<and>
            t = TTask (Secp256k1VeriTask h d sg))))"

fun maps :: "pm_ty \<Rightarrow> closure \<Rightarrow> pm_ty \<Rightarrow> bool" where
  "maps t AllTrue u \<longleftrightarrow>
     (\<exists>cfg h rids sigs tasks. t = TAll (map TTask tasks) \<and> u = TQc cfg (QuorumCertSecp256k1 h rids sigs) \<and>
        nmajority cfg \<le> card (dom sigs) \<and> qc_tasks_of cfg h sigs (set_bits rids) tasks)"
| "maps t (MatchHash x) u \<longleftrightarrow> (\<exists>cfg. u = TVote cfg x \<and> cert_task cfg x t)"
| "maps t PassProposal u \<longleftrightarrow> t = TAny \<and> u = TAny"
| "maps t PassHqc u \<longleftrightarrow> u = TAny"
| "maps t k u \<longleftrightarrow> False"

section \<open>Growing states keep the types\<close>

definition net_le :: "core \<Rightarrow> core \<Rightarrow> bool" where
  "net_le c c' \<longleftrightarrow> core_le c c' \<and> blk_hash (blk c' (c_b0 c)) = blk_hash (blk c (c_b0 c))"

lemma net_le_refl [simp]: "net_le c c"
  by (simp add: net_le_def)

lemma value_ok_mono: "net_le c c' \<Longrightarrow> value_ok c v \<Longrightarrow> value_ok c' v"
  using core_leD(8) [of c c'] by (auto simp: value_ok_def net_le_def)

lemma has_type_mono: "net_le c c' \<Longrightarrow> has_type C c t v \<Longrightarrow> has_type C c' t v"
proof (induction t arbitrary: v)
  case (TAll tys)
  then show ?case
    by (auto intro: list_all2_mono simp: list_all2_conv_all_nth)
next
  case TAny
  then show ?case using value_ok_mono [of c c' v] by simp
next
  case (TDelivered h)
  then show ?case using core_leD(4,8) [of c c'] by (auto simp: net_le_def)
next
  case (TStored h)
  then show ?case using core_leD(4) [of c c'] by (auto simp: net_le_def)
qed simp_all

lemma stored_mono: "net_le c c' \<Longrightarrow> stored c b \<Longrightarrow> stored c' b"
  using core_leD(3) [of c c'] by (simp add: net_le_def stored_def)

lemma stored_kept:
  assumes "net_le c c'" and "stored c b"
  shows "blk_qc (blk c' b) = blk_qc (blk c b)" and "blk_parent_hashes (blk c' b) = blk_parent_hashes (blk c b)"
    and "blk_hash (blk c' b) = blk_hash (blk c b)"
  using assms core_leD(5-7) [of c c' b] by (simp_all add: net_le_def stored_def)

lemma cert_ty_mono: "net_le c c' \<Longrightarrow> cert_ty c b q t \<Longrightarrow> cert_ty c' b q t"
  using core_leD(1,2) [of c c'] by (auto simp: cert_ty_def net_le_def)

lemma parent_tys_mono: "net_le c c' \<Longrightarrow> parent_tys c b hs tys \<Longrightarrow> parent_tys c' b hs tys"
  using stored_mono [of c c' b] stored_kept [of c c' b] cert_ty_mono [of c c' b]
  unfolding parent_tys_def by force

lemma typed_as_mono: "T \<subseteq>\<^sub>m T' \<Longrightarrow> typed_as T ps tys \<Longrightarrow> typed_as T' ps tys"
  by (erule list_all2_mono) (metis domI map_le_def)

lemma map_leD: "T \<subseteq>\<^sub>m T' \<Longrightarrow> T p = Some t \<Longrightarrow> T' p = Some t"
  by (metis domI map_le_def)

lemma accepts_mono:
  assumes le: "net_le c c'" and T: "T \<subseteq>\<^sub>m T'"
  shows "accepts c T k t \<Longrightarrow> accepts c' T' k t"
proof (induction k arbitrary: t)
  case (DeliverParents b r ps hs)
  then obtain hs0 tys where d: "t = TAny" "blk_parent_hashes (blk c b) = hs0 @ hs"
    "parent_tys c b hs0 tys" "typed_as T ps tys" by auto
  then have "stored c b" by (simp add: parent_tys_def)
  with d show ?case
    using stored_kept(2) [OF le] parent_tys_mono [OF le] typed_as_mono [OF T] by (simp; blast)
next
  case (ReadyForDelivery b)
  then obtain tys where d: "t = TAll tys" "parent_tys c b (blk_parent_hashes (blk c b)) tys" by auto
  then have "stored c b" by (simp add: parent_tys_def)
  with d show ?case using stored_kept(2) [OF le] parent_tys_mono [OF le] by auto
next
  case (AllThen ps k)
  then show ?case using typed_as_mono [OF T] by auto
next
  case (ThenClosure p k)
  then show ?case using map_leD [OF T] by auto
next
  case (OnFetchBlks bs)
  then show ?case using stored_mono [OF le] by (auto simp: list_all_iff)
next
  case (DeliveredForProposal p)
  then show ?case using core_leD(4) [of c c'] le by (auto simp: net_le_def)
next
  case (Output out)
  then show ?case using core_leD(8) [of c c'] le by (auto simp: net_le_def output_ok_def)
qed (use map_leD [OF T] core_leD(2) [of c c'] le in \<open>auto simp: net_le_def\<close>)

interpretation net: promise_typing "has_type C" "\<lambda>c T t k. accepts c T k t" maps TAny TAll VAll net_le for C
proof
  show "has_type C s TAny None" for s by (simp add: value_ok_def)
  show "has_type C s (TAll ts) (Some (VAll vs))"
    if "length vs = length ts" "\<And>i. i < length ts \<Longrightarrow> has_type C s (ts ! i) (vs ! i)" for vs ts s
    using that by (auto simp: list_all2_conv_all_nth)
qed (auto intro: has_type_mono accepts_mono)

text \<open>What the types of verified certificates and votes mean.\<close>

lemma all_tasks_verify:
  assumes "qc_tasks_of cfg h sigs is tasks" and "list_all2 (has_type C c) (map TTask tasks) vs"
  shows "(\<forall>w\<in>set vs. \<exists>b. w = Some (VBool b))" and
    "\<forall>w\<in>set vs. w = Some (VBool True) \<Longrightarrow> check_certs C cfg h sigs is = Inr True"
  using assms unfolding qc_tasks_of_def
proof (induction "is" arbitrary: tasks vs)
  case (Cons i "is")
  {
    case 1
    then show ?case using Cons.IH(1) by (auto simp: list_all2_Cons1)
  next
    case 2
    then show ?case using Cons.IH(2) by (auto simp: list_all2_Cons1 check_cert_def)
  }
qed auto

lemma map_typed:
  assumes "has_type C c t v" and "maps t k u" and "run_map k v n = Inr w" and "n_core n = c" and "core_wf c"
  shows "has_type C c u w"
proof (cases k)
  case AllTrue
  with assms(2) obtain cfg h rids sigs tasks where m: "t = TAll (map TTask tasks)"
    "u = TQc cfg (QuorumCertSecp256k1 h rids sigs)" "nmajority cfg \<le> card (dom sigs)"
    "qc_tasks_of cfg h sigs (set_bits rids) tasks" by auto
  with assms(1) obtain vs where vs: "v = Some (VAll vs)" "list_all2 (has_type C c) (map TTask tasks) vs" by auto
  with assms(3) AllTrue have "w = Some (VBool (\<forall>w\<in>set vs. w = Some (VBool True)))"
    by (auto simp: run_map_def split: if_splits)
  with all_tasks_verify(2) [OF m(4) vs(2)] m(2,3) show ?thesis by auto
next
  case (MatchHash x)
  with assms(2) obtain cfg cert pk where m: "u = TVote cfg x" "v_cert x = Some cert"
    "get_pubkey cfg (v_voter x) = Inr pk" "cert_task cfg x t" by (auto simp: cert_task_def)
  from assms(3) MatchHash obtain ok where ok: "v = Some (VBool ok)"
    "w = Some (VBool (ok \<and> map_option part_cert_obj_hash (v_cert x) = Some (v_blk_hash x)))"
    by (auto simp: run_map_def split: option.splits pm_value.splits)
  have "part_cert_verify C cert pk = Inr True" if ok
    using m assms(1) ok(1) that by (auto simp: cert_task_def)
  with m ok(2) show ?thesis by (auto simp: vote_valid_def)
next
  case PassProposal
  with assms show ?thesis by (auto simp: run_map_def split: option.splits pm_value.splits)
next
  case PassHqc
  with assms core_wfD(2) [OF assms(5)] show ?thesis
    by (auto simp: run_map_def get_hqc_def roots_wf_def value_ok_def)
qed (use assms(2) in simp_all)

end
