(* ===== verification/NodeInvariant.thy ===== *)
theory NodeInvariant
  imports NodeTyping
begin

text \<open>
  The invariant of a replica, between any two of the tasks it runs: its core is in a state that
  the documented calls reach, its promises and pending tasks are typed, and so is everything
  that holds a promise. The operations on promises, the verification pool and the calls of the
  core keep it.
\<close>

section \<open>The invariant\<close>

type_synonym types = "pm_ty ghost"

definition pool_ok :: "crypto_ops \<Rightarrow> types \<Rightarrow> veripool \<Rightarrow> bool" where
  "pool_ok C g vp \<longleftrightarrow>
     (\<forall>(i, t)\<in>set (vp_in vp). i < vp_next vp \<and> (\<forall>p. vp_pms vp i = Some p \<longrightarrow> pm_type g p = Some (TTask t))) \<and>
     (\<forall>(i, b)\<in>set (vp_out vp). i < vp_next vp \<and>
        (\<forall>p. vp_pms vp i = Some p \<longrightarrow> (\<exists>t. pm_type g p = Some (TTask t) \<and> veri_task_verify C t = Inr b))) \<and>
     (\<forall>i p. vp_pms vp i = Some p \<longrightarrow> i < vp_next vp)"

definition pace_ok :: "types \<Rightarrow> core \<Rightarrow> pacemaker \<Rightarrow> bool" where
  "pace_ok g c p \<longleftrightarrow>
     delivered (c_storage c) (hqc_tail p) \<and>
     (\<forall>pm\<in>set (pending_beats p). pm_type g pm = Some TAny) \<and>
     pm_type g (pm_qc_finish p) \<noteq> None \<and> pm_type g (pm_wait_propose p) \<noteq> None \<and>
     pm_type g (pm_qc_manual p) \<noteq> None"

definition rest_ok :: "crypto_ops \<Rightarrow> types \<Rightarrow> node \<Rightarrow> bool" where
  "rest_ok C g n \<longleftrightarrow>
     (\<forall>i. pm_type g (CorePm i) = Some TAny) \<and>
     (\<forall>h fc. n_fetch_waiting n h = Some fc \<longrightarrow> pm_type g (fc_pm fc) = Some (TStored h)) \<and>
     (\<forall>h p. n_delivery_waiting n h = Some p \<longrightarrow> pm_type g p = Some (TDelivered h)) \<and>
     pool_ok C g (n_vpool n) \<and> pace_ok g (n_core n) (n_pace n) \<and> set (n_async_calls n) \<subseteq> {RrRepropose}"

definition node_inv :: "net_env \<Rightarrow> types \<Rightarrow> node \<Rightarrow> task list \<Rightarrow> bool" where
  "node_inv N g n ts \<longleftrightarrow>
     core_reachable (ne_env N) (n_core n) \<and> tails_ok (n_core n) \<and>
     net.typed (e_crypto (ne_env N)) (n_core n) g (n_pms n) ts \<and> rest_ok (e_crypto (ne_env N)) g n"

lemma node_invD:
  assumes "node_inv N g n ts"
  shows "core_reachable (ne_env N) (n_core n)" and "tails_ok (n_core n)"
    and "net.typed (e_crypto (ne_env N)) (n_core n) g (n_pms n) ts"
    and "rest_ok (e_crypto (ne_env N)) g n"
    and "pace_ok g (n_core n) (n_pace n)" and "core_wf (n_core n)"
    and "pm_type g (CorePm i) = Some TAny"
  using assms reachable_wf by (auto simp: node_inv_def rest_ok_def)

text \<open>Everything is stable when the ghost state grows.\<close>

lemma pool_ok_ext:
  assumes ext: "extended g g'" and ok: "pool_ok C g vp"
  shows "pool_ok C g' vp"
proof -
  have "\<forall>(i, t)\<in>set (vp_in vp). i < vp_next vp \<and> (\<forall>p. vp_pms vp i = Some p \<longrightarrow> pm_type g' p = Some (TTask t))"
    using ok extended_type [OF ext] by (force simp: pool_ok_def)
  moreover have "\<forall>(i, b)\<in>set (vp_out vp). i < vp_next vp \<and>
      (\<forall>p. vp_pms vp i = Some p \<longrightarrow> (\<exists>t. pm_type g' p = Some (TTask t) \<and> veri_task_verify C t = Inr b))"
    using ok extended_type [OF ext] unfolding pool_ok_def by (fastforce split: prod.splits)
  ultimately show ?thesis using ok by (simp add: pool_ok_def)
qed

lemma extended_not_None: "extended g g' \<Longrightarrow> pm_type g p \<noteq> None \<Longrightarrow> pm_type g' p \<noteq> None"
  by (auto dest: extended_type)

lemma pace_ok_ext: "extended g g' \<Longrightarrow> pace_ok g c p \<Longrightarrow> pace_ok g' c p"
  using extended_type [of g g'] extended_not_None [of g g'] by (simp add: pace_ok_def)

lemma rest_ok_ext: "extended g g' \<Longrightarrow> rest_ok C g n \<Longrightarrow> rest_ok C g' n"
  using extended_type [of g g'] pool_ok_ext [of g g'] pace_ok_ext [of g g'] by (auto simp: rest_ok_def)

text \<open>Changes of the promises alone.\<close>

lemma inv_pms:
  assumes "node_inv N g n ts" and "extended g g'"
    and "net.typed (e_crypto (ne_env N)) (n_core n) g' h ts'"
  shows "node_inv N g' (n\<lparr>n_pms := h\<rparr>) ts'"
proof -
  have "rest_ok (e_crypto (ne_env N)) g' n" using assms(1,2) rest_ok_ext by (simp add: node_inv_def)
  then have "rest_ok (e_crypto (ne_env N)) g' (n\<lparr>n_pms := h\<rparr>)" unfolding rest_ok_def by simp
  with assms(1,3) show ?thesis by (simp add: node_inv_def)
qed

lemma inv_tasks:
  assumes "node_inv N g n ts" and "net.typed (e_crypto (ne_env N)) (n_core n) g (n_pms n) ts'"
  shows "node_inv N g n ts'"
  using assms by (simp add: node_inv_def)

lemma inv_swap: "node_inv N g n (b @ a @ ts) \<Longrightarrow> node_inv N g n ((a @ b) @ ts)"
  by (rule inv_tasks, assumption, rule net.typed_tasks, erule node_invD)
    (auto simp: node_inv_def net.typed_def slots_once_def)

lemma inv_last: "node_inv N g n (a @ ts) \<Longrightarrow> (\<And>t. node_inv N g n (a @ ts) \<Longrightarrow> node_inv N g n (k # a @ ts)) \<Longrightarrow>
    node_inv N g n ((a @ [k]) @ ts)"
  by (rule inv_swap) simp

lemma inv_tl: "node_inv N g n (t # ts) \<Longrightarrow> node_inv N g n ts"
  by (rule inv_tasks, assumption, rule net.typed_tl, erule node_invD)

lemma inv_drop: "node_inv N g n (ts @ ts') \<Longrightarrow> node_inv N g n ts"
  by (rule inv_tasks, assumption, rule net.typed_tasks, erule node_invD)
    (auto simp: node_inv_def net.typed_def slots_once_def)

lemma inv_drop': "node_inv N g n (ts @ ts') \<Longrightarrow> node_inv N g n ts'"
  by (induction ts) (auto dest: inv_tl)

text \<open>A closure without an argument may run next when it accepts anything.\<close>

lemma inv_next:
  assumes "node_inv N g n ts" and "accepts (n_core n) (pm_type g) k TAny"
  shows "node_inv N g n (next_task k # ts)"
proof (rule inv_tasks [OF assms(1)], rule net.typed_Cons)
  show "net.typed (e_crypto (ne_env N)) (n_core n) g (n_pms n) ts" by (rule node_invD [OF assms(1)])
  have "has_type (e_crypto (ne_env N)) (n_core n) TAny None" by (simp add: value_ok_def)
  with assms(2) show "net.task_ok (e_crypto (ne_env N)) (n_core n) g (next_task k)"
    unfolding next_task_def by (auto intro: exI [of _ TAny])
qed (simp add: next_task_def)

lemma inv_next_last:
  "node_inv N g n (a @ ts) \<Longrightarrow> accepts (n_core n) (pm_type g) k TAny \<Longrightarrow>
     node_inv N g n ((a @ [next_task k]) @ ts)"
  by (rule inv_swap) (simp add: inv_next)

text \<open>Fields that hold no promises.\<close>

lemma inv_cong:
  assumes "node_inv N g n ts" and "n_core n' = n_core n" and "n_pms n' = n_pms n"
    and "n_vpool n' = n_vpool n" and "n_pace n' = n_pace n"
    and "n_fetch_waiting n' = n_fetch_waiting n" and "n_delivery_waiting n' = n_delivery_waiting n"
    and "n_async_calls n' = n_async_calls n"
  shows "node_inv N g n' ts"
  using assms by (simp add: node_inv_def rest_ok_def)

lemma inv_tell: "node_inv N g n ts \<Longrightarrow> node_inv N g (tell out n) ts"
  by (erule inv_cong) (simp_all add: tell_def)

lemma inv_pace:
  assumes "node_inv N g n ts" and "pace_ok g (n_core n) (f (n_pace n))"
  shows "node_inv N g (set_pace f n) ts"
  using assms by (simp add: node_inv_def rest_ok_def set_pace_def)

section \<open>Operations on promises\<close>

lemma inv_resolve:
  assumes "node_inv N g n ts" and "pm_type g p = Some t"
    and "has_type (e_crypto (ne_env N)) (n_core n) t v" and "n_resolve p v n = (ts', n')"
  shows "node_inv N g n' (ts' @ ts)" and "n_core n' = n_core n"
proof -
  obtain h where h: "pm_resolve p v (n_pms n) = (ts', h)" "n' = n\<lparr>n_pms := h\<rparr>"
    using assms(4) by (auto simp: n_resolve_def split: prod.splits)
  from net.typed_resolve [OF node_invD(3) [OF assms(1)] assms(2,3) h(1)]
  show "node_inv N g n' (ts' @ ts)" unfolding h(2) by (rule inv_pms [OF assms(1) extended_refl])
  show "n_core n' = n_core n" by (simp add: h(2))
qed

lemma inv_reject:
  assumes "node_inv N g n ts" and "pm_type g p \<noteq> None" and "n_reject p v n = (ts', n')"
  shows "node_inv N g n' (ts' @ ts)" and "n_core n' = n_core n" and "n_pace n' = n_pace n"
proof -
  obtain h where h: "pm_reject p v (n_pms n) = (ts', h)" "n' = n\<lparr>n_pms := h\<rparr>"
    using assms(3) by (auto simp: n_reject_def split: prod.splits)
  from assms(2) obtain t where "pm_type g p = Some t" by blast
  from net.typed_reject [OF node_invD(3) [OF assms(1)] this h(1)]
  show "node_inv N g n' (ts' @ ts)" unfolding h(2) by (rule inv_pms [OF assms(1) extended_refl])
  show "n_core n' = n_core n" "n_pace n' = n_pace n" by (simp_all add: h(2))
qed

lemma inv_new_pm:
  assumes "node_inv N g n ts" and "n_new_pm n = (p, n')"
  shows "\<exists>g'. extended g g' \<and> pm_type g' p = Some t \<and> node_inv N g' n' ts" and "\<exists>h. n' = n\<lparr>n_pms := h\<rparr>"
proof -
  obtain h where h: "alloc_pm (n_pms n) = (p, h)" "n' = n\<lparr>n_pms := h\<rparr>"
    using assms(2) by (auto simp: n_new_pm_def split: prod.splits)
  from net.typed_alloc [OF node_invD(3) [OF assms(1)] h(1), of t] inv_pms [OF assms(1)]
  show "\<exists>g'. extended g g' \<and> pm_type g' p = Some t \<and> node_inv N g' n' ts" unfolding h(2) by blast
qed (use assms in \<open>auto simp: n_new_pm_def split: prod.splits\<close>)

lemma inv_resolved:
  assumes "node_inv N g n ts" and "has_type (e_crypto (ne_env N)) (n_core n) t v"
    and "n_resolved v n = (p, n')"
  shows "\<exists>g'. extended g g' \<and> pm_type g' p = Some t \<and> node_inv N g' n' ts" and "\<exists>h. n' = n\<lparr>n_pms := h\<rparr>"
proof -
  obtain h where h: "resolved_pm v (n_pms n) = (p, h)" "n' = n\<lparr>n_pms := h\<rparr>"
    using assms(3) by (auto simp: n_resolved_def split: prod.splits)
  from net.typed_resolved [OF node_invD(3) [OF assms(1)] assms(2) h(1)] inv_pms [OF assms(1)]
  show "\<exists>g'. extended g g' \<and> pm_type g' p = Some t \<and> node_inv N g' n' ts" unfolding h(2) by blast
qed (use assms in \<open>auto simp: n_resolved_def split: prod.splits\<close>)

lemma inv_then:
  assumes "node_inv N g n ts" and "pm_type g p = Some t" and "accepts (n_core n) (pm_type g) k t"
    and "n_then p k n = (q, ts', n')"
  shows "\<exists>g'. extended g g' \<and> pm_type g' q = Some TAny \<and> node_inv N g' n' (ts' @ ts)" and "\<exists>h. n' = n\<lparr>n_pms := h\<rparr>"
proof -
  obtain h where h: "pm_then p k (n_pms n) = (q, ts', h)" "n' = n\<lparr>n_pms := h\<rparr>"
    using assms(4) by (auto simp: n_then_def split: prod.splits)
  from net.typed_then [OF node_invD(3) [OF assms(1)] assms(2,3) h(1)] inv_pms [OF assms(1)]
  show "\<exists>g'. extended g g' \<and> pm_type g' q = Some TAny \<and> node_inv N g' n' (ts' @ ts)" unfolding h(2) by blast
qed (use assms in \<open>auto simp: n_then_def split: prod.splits\<close>)

lemma inv_then_map:
  assumes "node_inv N g n ts" and "pm_type g p = Some t" and "maps t k u"
    and "n_then_map p k n = (q, ts', n')"
  shows "\<exists>g'. extended g g' \<and> pm_type g' q = Some u \<and> node_inv N g' n' (ts' @ ts)" and "\<exists>h. n' = n\<lparr>n_pms := h\<rparr>"
proof -
  obtain h where h: "pm_then_map p k (n_pms n) = (q, ts', h)" "n' = n\<lparr>n_pms := h\<rparr>"
    using assms(4) by (auto simp: n_then_map_def split: prod.splits)
  from net.typed_then_map [OF node_invD(3) [OF assms(1)] assms(2,3) h(1)] inv_pms [OF assms(1)]
  show "\<exists>g'. extended g g' \<and> pm_type g' q = Some u \<and> node_inv N g' n' (ts' @ ts)" unfolding h(2) by blast
qed (use assms in \<open>auto simp: n_then_map_def split: prod.splits\<close>)

lemma inv_all:
  assumes "node_inv N g n ts" and "typed_as (pm_type g) ps tys" and "n_all ps n = (Inr p, n')"
  shows "\<exists>g'. extended g g' \<and> pm_type g' p = Some (TAll tys) \<and> node_inv N g' n' ts" and "\<exists>h. n' = n\<lparr>n_pms := h\<rparr>"
proof -
  obtain h where h: "pm_all VAll ps (n_pms n) = (Inr p, h)" "n' = n\<lparr>n_pms := h\<rparr>"
    using assms(3) by (auto simp: n_all_def split: prod.splits)
  from net.typed_all [OF node_invD(3) [OF assms(1)] assms(2) h(1)] inv_pms [OF assms(1)]
  show "\<exists>g'. extended g g' \<and> pm_type g' p = Some (TAll tys) \<and> node_inv N g' n' ts" unfolding h(2) by blast
qed (use assms in \<open>auto simp: n_all_def split: prod.splits\<close>)

lemma n_all_error: "n_all ps n = (Inl e, n') \<Longrightarrow> n' = n"
  by (auto simp: n_all_def pm_all_def Let_def split: prod.splits if_splits)

lemma inv_callback:
  assumes "node_inv N g n (RunCallback cb v # ts)" and "run_callback VAll cb v (n_pms n) = (ts', h)"
  shows "\<exists>g'. extended g g' \<and> node_inv N g' (n\<lparr>n_pms := h\<rparr>) (ts' @ ts)"
  using net.typed_callback [OF node_invD(3) [OF assms(1)] assms(2)] inv_pms [OF assms(1)] by blast

section \<open>The verification pool\<close>

text \<open>The state after an operation, with what holds of the new types.\<close>

definition after :: "net_env \<Rightarrow> types \<Rightarrow> task list \<Rightarrow> node \<Rightarrow> (types \<Rightarrow> bool) \<Rightarrow> bool" where
  "after N g ts n P \<longleftrightarrow> (\<exists>g'. extended g g' \<and> node_inv N g' n ts \<and> P g')"

lemma afterI: "extended g g' \<Longrightarrow> node_inv N g' n ts \<Longrightarrow> P g' \<Longrightarrow> after N g ts n P"
  by (auto simp: after_def)

lemma after_refl: "node_inv N g n ts \<Longrightarrow> P g \<Longrightarrow> after N g ts n P"
  by (rule afterI [OF extended_refl])

lemma afterE:
  assumes "after N g ts n P"
  obtains g' where "extended g g'" and "node_inv N g' n ts" and "P g'"
  using assms by (auto simp: after_def)

lemma after_trans:
  assumes "after N g ts n P" and "\<And>g'. extended g g' \<Longrightarrow> node_inv N g' n ts \<Longrightarrow> P g' \<Longrightarrow> after N g' ts' n' Q"
  shows "after N g ts' n' Q"
  using assms unfolding after_def by (meson extended_trans)

lemma after_mono: "after N g ts n P \<Longrightarrow> (\<And>g'. extended g g' \<Longrightarrow> P g' \<Longrightarrow> Q g') \<Longrightarrow> after N g ts n Q"
  by (auto simp: after_def)

lemma vp_verify_inv:
  assumes inv: "node_inv N g n ts" and run: "vp_verify t n = (p, n')"
  shows "after N g ts n' (\<lambda>g'. pm_type g' p = Some (TTask t))" and "n_core n' = n_core n"
proof -
  obtain n1 where n1: "n_new_pm n = (p, n1)" and n': "n' = n1\<lparr>n_vpool := (n_vpool n)
      \<lparr>vp_in := vp_in (n_vpool n) @ [(vp_next (n_vpool n), t)],
       vp_pms := (vp_pms (n_vpool n))(vp_next (n_vpool n) \<mapsto> p), vp_next := Suc (vp_next (n_vpool n))\<rparr>\<rparr>"
    using run by (auto simp: vp_verify_def Let_def n_new_pm_def split: prod.splits)
  from inv_new_pm [OF inv n1] obtain g' h where g': "extended g g'" "pm_type g' p = Some (TTask t)"
    "node_inv N g' n1 ts" "n1 = n\<lparr>n_pms := h\<rparr>" by blast
  then have "pool_ok (e_crypto (ne_env N)) g' (n_vpool n)" by (simp add: node_inv_def rest_ok_def)
  then have "pool_ok (e_crypto (ne_env N)) g' (n_vpool n')"
    using g'(2) unfolding n' pool_ok_def by (fastforce simp: less_Suc_eq)
  then have "node_inv N g' n' ts" using g'(3) n' by (simp add: node_inv_def rest_ok_def)
  with g' show "after N g ts n' (\<lambda>g'. pm_type g' p = Some (TTask t))" by (blast intro: afterI)
  show "n_core n' = n_core n" using n' g'(4) by simp
qed

lemma vp_work_inv:
  assumes inv: "node_inv N g n ts" and run: "vp_work (e_crypto (ne_env N)) k n = (r, n')"
  shows "node_inv N g n' ts"
proof (cases "n' = n")
  case False
  let ?vp = "n_vpool n"
  obtain i t where k: "k < length (vp_in ?vp)" "vp_in ?vp ! k = (i, t)"
    using run False by (cases "vp_in ?vp ! k") (auto simp: vp_work_def Let_def split: if_splits)
  with run False obtain b where b: "veri_task_verify (e_crypto (ne_env N)) t = Inr b"
    "n' = n\<lparr>n_vpool := ?vp\<lparr>vp_in := take k (vp_in ?vp) @ drop (Suc k) (vp_in ?vp),
       vp_out := vp_out ?vp @ [(i, b)]\<rparr>\<rparr>"
    by (auto simp: vp_work_def Let_def split: sum.splits)
  have ok: "pool_ok (e_crypto (ne_env N)) g ?vp" using inv by (simp add: node_inv_def rest_ok_def)
  have mem: "(i, t) \<in> set (vp_in ?vp)" using k nth_mem by fastforce
  have "pool_ok (e_crypto (ne_env N)) g (n_vpool n')"
    unfolding pool_ok_def
  proof (intro conjI)
    show "\<forall>(j, u)\<in>set (vp_in (n_vpool n')). j < vp_next (n_vpool n') \<and>
        (\<forall>p. vp_pms (n_vpool n') j = Some p \<longrightarrow> pm_type g p = Some (TTask u))"
      using ok by (auto simp: b(2) pool_ok_def dest: in_set_takeD in_set_dropD)
    show "\<forall>(j, c)\<in>set (vp_out (n_vpool n')). j < vp_next (n_vpool n') \<and>
        (\<forall>p. vp_pms (n_vpool n') j = Some p \<longrightarrow>
          (\<exists>t. pm_type g p = Some (TTask t) \<and> veri_task_verify (e_crypto (ne_env N)) t = Inr c))"
      using ok mem b(1) by (auto simp: b(2) pool_ok_def)
  qed (use ok in \<open>auto simp: b(2) pool_ok_def\<close>)
  with inv show ?thesis by (simp add: node_inv_def rest_ok_def b(2))
qed (use inv in simp)

lemma vp_handle_inv:
  assumes inv: "node_inv N g n ts" and run: "vp_handle n = (ts', n')"
  shows "node_inv N g n' (ts' @ ts)"
proof (cases "ts' = [] \<and> n' = n")
  case False
  let ?vp = "n_vpool n"
  obtain i b rest where out: "vp_out ?vp = (i, b) # rest"
    using run False by (auto simp: vp_handle_def Let_def split: list.splits)
  with run False obtain p where p: "vp_pms ?vp i = Some p"
    and go: "n_resolve p (Some (VBool b))
        (n\<lparr>n_vpool := ?vp\<lparr>vp_out := rest, vp_pms := (vp_pms ?vp)(i := None)\<rparr>\<rparr>) = (ts', n')"
    by (auto simp: vp_handle_def Let_def split: option.splits)
  have ok: "pool_ok (e_crypto (ne_env N)) g ?vp" using inv by (simp add: node_inv_def rest_ok_def)
  then obtain t where t: "pm_type g p = Some (TTask t)" "veri_task_verify (e_crypto (ne_env N)) t = Inr b"
    using out p by (auto simp: pool_ok_def)
  have "pool_ok (e_crypto (ne_env N)) g (?vp\<lparr>vp_out := rest, vp_pms := (vp_pms ?vp)(i := None)\<rparr>)"
    using ok out unfolding pool_ok_def by (auto split: if_splits)
  then have "node_inv N g (n\<lparr>n_vpool := ?vp\<lparr>vp_out := rest, vp_pms := (vp_pms ?vp)(i := None)\<rparr>\<rparr>) ts"
    using inv by (simp add: node_inv_def rest_ok_def)
  from inv_resolve(1) [OF this t(1) _ go] t(2) show ?thesis by simp
qed (use inv in simp)

section \<open>Verification\<close>

lemma cert_verify_pool_inv:
  assumes inv: "node_inv N g n ts" and x: "v_cert x = Some cert" "get_pubkey cfg (v_voter x) = Inr pk"
    and run: "cert_verify_pool E cert pk n = (r, n')"
  shows "after N g ts n' (\<lambda>g'. \<forall>p. r = Inr p \<longrightarrow> (\<exists>t. pm_type g' p = Some t \<and> cert_task cfg x t))"
    and "n_core n' = n_core n"
proof -
  consider (dummy) h where "cert = PartCertDummy h"
    | (secp) sg h d where "cert = PartCertSecp256k1 sg h" "pk = PubKeySecp256k1 d"
    | (bad) sg h where "cert = PartCertSecp256k1 sg h" "pk = PubKeyDummy"
    by (cases cert; cases pk) auto
  then have "after N g ts n' (\<lambda>g'. \<forall>p. r = Inr p \<longrightarrow> (\<exists>t. pm_type g' p = Some t \<and> cert_task cfg x t)) \<and>
      n_core n' = n_core n"
  proof cases
    case dummy
    with run obtain p where r: "r = Inr p" "n_resolved (Some (VBool True)) n = (p, n')"
      by (auto split: prod.splits)
    from inv_resolved [OF inv _ r(2), of TTrue] show ?thesis
      using x dummy r(1) by (auto simp: value_ok_def cert_task_def after_def)
  next
    case secp
    with run obtain p where r: "r = Inr p" "vp_verify (Secp256k1VeriTask h d sg) n = (p, n')"
      by (auto split: prod.splits)
    from vp_verify_inv [OF inv r(2)] show ?thesis
      using x secp r(1) by (auto simp: cert_task_def after_def)
  next
    case bad
    with run inv show ?thesis by (auto intro: after_refl)
  qed
  then show "after N g ts n' (\<lambda>g'. \<forall>p. r = Inr p \<longrightarrow> (\<exists>t. pm_type g' p = Some t \<and> cert_task cfg x t))"
    and "n_core n' = n_core n" by simp_all
qed

lemma qc_tasks_inv:
  assumes "node_inv N g n ts" and "qc_tasks cfg h sigs is n = (r, n')"
  shows "after N g ts n' (\<lambda>g'. \<forall>ps. r = Inr ps \<longrightarrow>
      (\<exists>tasks. typed_as (pm_type g') ps (map TTask tasks) \<and> qc_tasks_of cfg h sigs is tasks)) \<and>
    n_core n' = n_core n"
  using assms
proof (induction cfg h sigs "is" n arbitrary: g r n' rule: qc_tasks.induct)
  case (1 cfg h sigs n)
  then show ?case by (auto simp: qc_tasks_of_def intro: after_refl)
next
  case (2 cfg h sigs i "is" n)
  show ?case
  proof (cases "\<exists>d sg. get_pubkey cfg (word_of_nat i) = Inr (PubKeySecp256k1 d) \<and> sigs (word_of_nat i) = Some sg")
    case False
    then have "n' = n \<and> (\<exists>e. r = Inl e)"
      using 2(3) by (auto split: sum.splits pub_key.splits option.splits)
    with 2(2) show ?thesis by (auto intro: after_refl)
  next
    case True
    then obtain d sg where k: "get_pubkey cfg (word_of_nat i) = Inr (PubKeySecp256k1 d)"
      "sigs (word_of_nat i) = Some sg" by blast
    obtain p n1 where v: "vp_verify (Secp256k1VeriTask h d sg) n = (p, n1)" by force
    from vp_verify_inv [OF 2(2) v] obtain g1 where g1: "extended g g1" "node_inv N g1 n1 ts"
      "pm_type g1 p = Some (TTask (Secp256k1VeriTask h d sg))" "n_core n1 = n_core n" by (auto elim: afterE)
    obtain r1 n2 where t: "qc_tasks cfg h sigs is n1 = (r1, n2)" by force
    have r: "n' = n2" "r = (case r1 of Inl e \<Rightarrow> Inl e | Inr ps \<Rightarrow> Inr (p # ps))"
      using 2(3) k v t by (cases r1; auto)+
    from 2(1) [OF k(1) refl k(2) v [symmetric] refl g1(2) t] obtain g2 where
      g2: "extended g1 g2" "node_inv N g2 n2 ts" "n_core n2 = n_core n1"
        "\<And>ps. r1 = Inr ps \<Longrightarrow> \<exists>tasks. typed_as (pm_type g2) ps (map TTask tasks) \<and> qc_tasks_of cfg h sigs is tasks"
      by (auto elim: afterE)
    have "\<exists>tasks. typed_as (pm_type g2) ps (map TTask tasks) \<and> qc_tasks_of cfg h sigs (i # is) tasks"
      if ps: "r = Inr ps" for ps
    proof -
      from ps r(2) obtain ps' where ps': "r1 = Inr ps'" "ps = p # ps'" by (auto split: sum.splits)
      from g2(4) [OF this(1)] obtain tasks where "typed_as (pm_type g2) ps' (map TTask tasks)"
        "qc_tasks_of cfg h sigs is tasks" by blast
      with ps'(2) k extended_type [OF g2(1) g1(3)] show ?thesis
        by (intro exI [of _ "Secp256k1VeriTask h d sg # tasks"]) (simp add: qc_tasks_of_def)
    qed
    with extended_trans [OF g1(1) g2(1)] g2(2,3) g1(4) r(1) show ?thesis by (auto intro: afterI)
  qed
qed

lemma qc_verify_promise_inv:
  assumes inv: "node_inv N g n ts" and run: "qc_verify_promise cfg q n = (r, n')"
  shows "after N g ts n' (\<lambda>g'. \<forall>p. r = Inr p \<longrightarrow> pm_type g' p = Some (TQc cfg q)) \<and> n_core n' = n_core n"
proof (cases q)
  case (QuorumCertDummy h)
  with run obtain p where r: "r = Inr p" "n_resolved (Some (VBool True)) n = (p, n')"
    by (auto split: prod.splits)
  have "has_type (e_crypto (ne_env N)) (n_core n) (TQc cfg q) (Some (VBool True))"
    using QuorumCertDummy by (simp; blast)
  from inv_resolved [OF inv this r(2)] show ?thesis using r(1) by (auto simp: after_def)
next
  case (QuorumCertSecp256k1 h rids sigs)
  show ?thesis
  proof (cases "card (dom sigs) < nmajority cfg")
    case True
    with run QuorumCertSecp256k1 obtain p where r: "r = Inr p" "n_resolved (Some (VBool False)) n = (p, n')"
      by (auto split: prod.splits)
    have "has_type (e_crypto (ne_env N)) (n_core n) (TQc cfg q) (Some (VBool False))" by (simp; blast)
    from inv_resolved [OF inv this r(2)] show ?thesis using r(1) by (auto simp: after_def)
  next
    case False
    obtain r1 n1 where t: "qc_tasks cfg h sigs (set_bits rids) n = (r1, n1)" by force
    from qc_tasks_inv [OF inv t] obtain g1 where g1: "extended g g1" "node_inv N g1 n1 ts" "n_core n1 = n_core n"
      "\<And>ps. r1 = Inr ps \<Longrightarrow> \<exists>tasks. typed_as (pm_type g1) ps (map TTask tasks) \<and>
         qc_tasks_of cfg h sigs (set_bits rids) tasks"
      by (auto elim: afterE)
    show ?thesis
    proof (cases r1)
      case (Inl e)
      with run False QuorumCertSecp256k1 t have "r = Inl e" "n' = n1" by simp_all
      with g1 show ?thesis by (auto intro: afterI)
    next
      case (Inr ps)
      from g1(4) [OF this] obtain tasks where tasks: "typed_as (pm_type g1) ps (map TTask tasks)"
        "qc_tasks_of cfg h sigs (set_bits rids) tasks" by blast
      obtain r2 n2 where a: "n_all ps n1 = (r2, n2)" by force
      show ?thesis
      proof (cases r2)
        case (Inl e)
        with n_all_error a have "n2 = n1" by simp
        with run False QuorumCertSecp256k1 t Inr a Inl have "r = Inl e" "n' = n1" by simp_all
        with g1 show ?thesis by (auto intro: afterI)
      next
        case Inr2: (Inr p)
        with inv_all [OF g1(2) tasks(1), of p n2] a obtain g2 where
          g2: "extended g1 g2" "pm_type g2 p = Some (TAll (map TTask tasks))" "node_inv N g2 n2 ts"
            "n_core n2 = n_core n1" by auto
        obtain p' ts' n3 where m: "n_then_map p AllTrue n2 = (p', ts', n3)" by (rule prod_cases3)
        have "maps (TAll (map TTask tasks)) AllTrue (TQc cfg q)"
          using QuorumCertSecp256k1 False tasks(2) by auto
        from inv_then_map [OF g2(3,2) this m] obtain g3 where
          g3: "extended g2 g3" "pm_type g3 p' = Some (TQc cfg q)" "node_inv N g3 n3 (ts' @ ts)"
            "n_core n3 = n_core n2" by auto
        have "r = Inr p'" "n' = n3"
          using run False QuorumCertSecp256k1 t Inr a Inr2 m by simp_all
        with g3 g2(4) g1(3) inv_drop' [OF g3(3)] extended_trans [OF g1(1) extended_trans [OF g2(1) g3(1)]]
        show ?thesis by (auto intro: afterI)
      qed
    qed
  qed
qed

end
