(* ===== verification/NodeSteps.thy ===== *)
theory NodeSteps
  imports NodeInvariant
begin

text \<open>
  The calls of the core and the pace makers keep the invariant of a replica: the core is called
  as include/hotstuff/consensus.h documents it.
\<close>

definition size_ok :: "node \<Rightarrow> bool" where
  "size_ok n \<longleftrightarrow> next_ref (c_storage (n_core n)) < 2 ^ 32"

section \<open>Calls of the core\<close>

lemma core_le_net: "core_wf c \<Longrightarrow> core_le c c' \<Longrightarrow> net_le c c'"
  using store_wfD(2) [OF core_wfD(1), of c] delivered_next
  by (auto simp: net_le_def genesis_wf_def core_le_def)

lemma inv_core:
  assumes inv: "node_inv N g n ts" and "core_reachable (ne_env N) c'" and le: "core_le (n_core n) c'"
    and "tails_ok c'"
  shows "node_inv N g (n\<lparr>n_core := c'\<rparr>) ts"
proof -
  have "net_le (n_core n) c'" using node_invD(6) [OF inv] le by (rule core_le_net)
  then have "net.typed (e_crypto (ne_env N)) c' g (n_pms n) ts"
    using node_invD(3) [OF inv] by (rule net.typed_mono)
  moreover have "pace_ok g c' (n_pace n)"
    using node_invD(5) [OF inv] core_leD(8) [OF le] by (simp add: pace_ok_def)
  ultimately show ?thesis using assms by (simp add: node_inv_def rest_ok_def)
qed

lemma core_call:
  assumes "core_reachable E c" and "next_ref (c_storage c) < 2 ^ 32" and "allowed E a c"
    and "run_call E a c = (r, c')" and "survives r"
  shows "core_reachable E c'"
  using assms core_step.call [OF assms(2-5)] unfolding core_reachable_def
  by (meson rtranclp.rtrancl_into_rtrancl)

lemma outputs_ok:
  assumes "list_all (proposes_only b) outs" and "\<And>x. b = Some x \<Longrightarrow> delivered (c_storage c) x"
  shows "list_all (output_ok c) outs"
  using assms by (auto simp: list_all_iff output_ok_def proposes_only_def)

text \<open>A call of the core, its outputs being the next tasks.\<close>

lemma inv_outputs:
  assumes "node_inv N g n ts" and "list_all (output_ok (n_core n)) outs"
  shows "node_inv N g n (map (\<lambda>out. next_task (Output out)) outs @ ts)"
  using assms(2) by (induction outs) (use assms(1) in \<open>auto intro: inv_next\<close>)

lemma call_core_inv:
  assumes inv: "node_inv N g n ts" and run: "call_core f n = (r, ts', n')"
    and reach: "\<And>x c'. f (n_core n) = (x, c') \<Longrightarrow> core_reachable (ne_env N) c' \<and> core_le (n_core n) c' \<and>
      tails_ok c' \<and> list_all (output_ok c') (new_outs (n_core n) c')"
  shows "node_inv N g n' (ts' @ ts)"
proof -
  obtain c' where c': "f (n_core n) = (r, c')" "n' = n\<lparr>n_core := c'\<rparr>"
    "ts' = map (\<lambda>out. next_task (Output out)) (new_outs (n_core n) c')"
    using run by (auto simp: call_core_def new_outs_def split: prod.splits)
  from reach [OF c'(1)] have "node_inv N g n' ts" "list_all (output_ok (n_core n')) (new_outs (n_core n) c')"
    unfolding c'(2) using inv_core [OF inv] by simp_all
  from inv_outputs [OF this] show ?thesis by (simp add: c'(3))
qed

lemma quiet_call:
  assumes inv: "node_inv N g n ts" and size: "size_ok n" and call: "allowed (ne_env N) a (n_core n)"
    "run_call (ne_env N) a (n_core n) = (r, c')" "survives r"
    and q: "quiet b (n_core n) c'" "\<And>x. b = Some x \<Longrightarrow> delivered (c_storage (n_core n)) x"
  shows "core_reachable (ne_env N) c' \<and> core_le (n_core n) c' \<and> tails_ok c' \<and>
    list_all (output_ok c') (new_outs (n_core n) c')"
  using core_call [OF node_invD(1) [OF inv] _ call] size quiet_le [OF q(1)] quiet_tails [OF q(1) node_invD(2) [OF inv]]
    outputs_ok [OF quiet_outs [OF q(1)], of c'] core_leD(8) [OF quiet_le [OF q(1)]] q(2)
  by (auto simp: size_ok_def)

lemma receive_vote_call:
  assumes inv: "node_inv N g n ts" and size: "size_ok n"
    and run: "call_core (on_receive_vote (ne_env N) v) n = (r, ts', n')" and surv: "survives r"
  shows "node_inv N g n' (ts' @ ts)"
proof (rule call_core_inv [OF inv run])
  fix x c' assume f: "on_receive_vote (ne_env N) v (n_core n) = (x, c')"
  with run have "x = r" by (simp add: call_core_def)
  then show "core_reachable (ne_env N) c' \<and> core_le (n_core n) c' \<and> tails_ok c' \<and>
      list_all (output_ok c') (new_outs (n_core n) c')"
    using f surv quiet_on_receive_vote [OF quiet_refl, of None "n_core n" "ne_env N" v]
    by (intro quiet_call [OF inv size, of "ReceiveVote v" r c' None]) simp_all
qed

lemma receive_slice_call:
  assumes inv: "node_inv N g n ts" and size: "size_ok n"
    and run: "call_core (on_receive_slice (ne_env N) x) n = (r, ts', n')" and surv: "survives r"
  shows "node_inv N g n' (ts' @ ts)"
proof (rule call_core_inv [OF inv run])
  fix y c' assume f: "on_receive_slice (ne_env N) x (n_core n) = (y, c')"
  with run have "y = r" by (simp add: call_core_def)
  then show "core_reachable (ne_env N) c' \<and> core_le (n_core n) c' \<and> tails_ok c' \<and>
      list_all (output_ok c') (new_outs (n_core n) c')"
    using f surv quiet_on_receive_slice [OF quiet_refl, of None "n_core n" "ne_env N" x]
    by (intro quiet_call [OF inv size, of "ReceiveSlice x" r c' None]) simp_all
qed

lemma receive_proposal_call:
  assumes inv: "node_inv N g n ts" and size: "size_ok n"
    and blk: "\<And>b. p_blk p = Some b \<Longrightarrow> delivered (c_storage (n_core n)) b"
    and run: "call_core (on_receive_proposal (ne_env N) p) n = (r, ts', n')" and surv: "survives r"
  shows "node_inv N g n' (ts' @ ts)"
proof (rule call_core_inv [OF inv run])
  fix x c' assume f: "on_receive_proposal (ne_env N) p (n_core n) = (x, c')"
  with run have "x = r" by (simp add: call_core_def)
  then show "core_reachable (ne_env N) c' \<and> core_le (n_core n) c' \<and> tails_ok c' \<and>
      list_all (output_ok c') (new_outs (n_core n) c')"
    using f surv blk delivered_next
      quiet_on_receive_proposal [OF quiet_refl refl, of p "n_core n" "ne_env N"]
    by (intro quiet_call [OF inv size, of "ReceiveProposal p" r c' "p_blk p"]) auto
qed

definition no_collision :: "env \<Rightarrow> uint256 list \<Rightarrow> node \<Rightarrow> bool" where
  "no_collision E cmds n \<longleftrightarrow>
     (\<forall>b r. proposed_blk E cmds (get_parents n) [] (n_core n) = Inr b \<longrightarrow>
        find_blk (c_storage (n_core n)) (blk_hash b) = Some r \<longrightarrow> delivered (c_storage (n_core n)) r \<or>
          blk_parent_hashes (blk (n_core n) r) = blk_parent_hashes b \<and> blk_qc (blk (n_core n) r) = blk_qc b)"

lemma propose_call:
  assumes inv: "node_inv N g n ts" and size: "size_ok n" and hash: "no_collision (ne_env N) cmds n"
    and run: "call_core (on_propose (ne_env N) cmds (get_parents n) []) n = (r, ts', n')" and surv: "survives r"
  shows "node_inv N g n' (ts' @ ts)"
proof (rule call_core_inv [OF inv run])
  fix x c' assume f: "on_propose (ne_env N) cmds (get_parents n) [] (n_core n) = (x, c')"
  with run have x: "x = r" by (simp add: call_core_def)
  have pre: "propose_pre (ne_env N) cmds (get_parents n) [] (n_core n)"
    using hash node_invD(5) [OF inv] by (simp add: propose_pre_def no_collision_def get_parents_def pace_ok_def)
  have "run_call (ne_env N) (Propose cmds (get_parents n) []) (n_core n) =
      (case x of Inl e \<Rightarrow> Inl e | Inr _ \<Rightarrow> Inr (), c')"
    using f by (cases x) (simp_all add: bindS_def)
  moreover have "survives (case x of Inl e \<Rightarrow> Inl e | Inr _ \<Rightarrow> Inr ())"
    using surv unfolding x by (cases r) simp_all
  ultimately have "core_reachable (ne_env N) c'"
    using core_call [OF node_invD(1) [OF inv], of "Propose cmds (get_parents n) []"] size pre
    by (simp add: size_ok_def)
  moreover obtain b where "core_le (n_core n) c'" "tails_ok c'" "list_all (proposes_only b) (new_outs (n_core n) c')"
    "\<forall>n. b = Some n \<longrightarrow> delivered (c_storage c') n"
    using on_propose_kept [OF node_invD(6) [OF inv] _ pre f] size node_invD(2) [OF inv]
    by (auto simp: size_ok_def)
  ultimately show "core_reachable (ne_env N) c' \<and> core_le (n_core n) c' \<and> tails_ok c' \<and>
      list_all (output_ok c') (new_outs (n_core n) c')"
    using outputs_ok [of b _ c'] by blast
qed

text \<open>Delivering a block whose parents are delivered and whose certified block is stored.\<close>

lemma deliver_call:
  assumes inv: "node_inv N g n ts" and size: "size_ok n" and b: "stored (n_core n) b"
    and hs: "list_all (is_blk_delivered (c_storage (n_core n))) (blk_parent_hashes (blk (n_core n) b))"
    and qc: "blk_qc (blk (n_core n) b) = Some q" "is_blk_fetched (c_storage (n_core n)) (qc_obj_hash q)"
    and run: "call_core (on_deliver_blk b) n = (r, ts', n')" and surv: "survives r"
  shows "node_inv N g n' (ts' @ ts)" and "r = Inr True \<Longrightarrow> delivered (c_storage (n_core n')) b"
    and "\<exists>v. r = Inr v"
proof -
  obtain c' where f: "on_deliver_blk b (n_core n) = (r, c')" and n': "n_core n' = c'"
    using run by (auto simp: call_core_def split: prod.splits)
  note kept = on_deliver_blk_kept [OF f]
  have "core_reachable (ne_env N) c' \<and> (r = Inr True \<longrightarrow> delivered (c_storage c') b) \<and> tails_ok c' \<and> (\<exists>v. r = Inr v)"
  proof (cases "blk_delivered (blk (n_core n) b)")
    case True
    with f have "c' = n_core n" "r = Inr False" by (simp_all add: on_deliver_blk_def)
    with node_invD(1,2) [OF inv] show ?thesis by blast
  next
    case False
    have "blk_parent_hashes (blk (n_core n) b) \<noteq> []"
    proof
      assume "blk_parent_hashes (blk (n_core n) b) = []"
      with f False have "r = Inl OutOfBounds" by (auto simp: on_deliver_blk_def set_blk_def upd_blk_def)
      with surv show False by (simp add: fatal_def)
    qed
    then have pre: "deliver_pre b (n_core n)"
      using False b hs qc by (simp add: deliver_pre_def stored_def list_all_iff)
    with on_deliver_blk_pre [OF node_invD(6) [OF inv]] f
    have c': "c' = deliver_state b (n_core n)" "r = Inr True" by simp_all
    have "core_reachable (ne_env N) c'"
      using core_call [OF node_invD(1) [OF inv], of "Deliver b"] size pre f c'(2)
      by (simp add: size_ok_def bindS_def)
    moreover have "delivered (c_storage c') b"
      using deliver_state_wf [OF node_invD(6) [OF inv]] pre size c'(1) by (simp add: size_ok_def)
    moreover from this have "tails_ok c'"
      using tails_ok_le [of "n_core n" c'] kept node_invD(2) [OF inv] by blast
    ultimately show ?thesis using c'(2) by blast
  qed
  moreover have "list_all (output_ok c') (new_outs (n_core n) c')" using kept by (simp add: new_outs_def)
  ultimately show "node_inv N g n' (ts' @ ts)" "r = Inr True \<Longrightarrow> delivered (c_storage (n_core n')) b"
    "\<exists>v. r = Inr v"
    using call_core_inv [OF inv run] f kept n' by auto
qed

section \<open>Storing blocks that arrive\<close>

lemma store_step:
  assumes reach: "core_reachable E c" and size: "next_ref (c_storage c) < 2 ^ 32" and tails: "tails_ok c"
    and b: "get_block_data E s = Inr (b, s')" and add: "add_blk b (c_storage c) = (r, st)"
  defines "c' \<equiv> c\<lparr>c_storage := st\<rparr>"
  shows "core_reachable E c' \<and> core_le c c' \<and> tails_ok c' \<and> stored c' r"
proof -
  have c': "c' = store_blk b c" using add by (simp add: c'_def store_blk_def)
  have wf: "core_wf c" using reach by (rule reachable_wf)
  have "core_reachable E c'"
    using core_call [OF reach size, of "Fetch s" "Inr ()" c'] b by (simp add: c')
  moreover have le: "core_le c c'" unfolding c' using wf by (rule core_le_store)
  moreover have "tails_ok c'"
    using le tails by (rule tails_ok_le) (simp add: c' store_blk_def)
  moreover have "core_wf c'" using calculation(1) by (rule reachable_wf)
  then have "stored c' r"
    using find_blkD(1) [OF core_wfD(1), of c' "blk_hash b" r] add_blk_spec(1) [OF add]
    by (simp add: stored_def c'_def)
  ultimately show ?thesis by simp
qed

lemma core_set_same: "(c :: core)\<lparr>c_storage := c_storage c\<rparr> = c"
  by simp

lemma add_parsed_steps:
  assumes "add_parsed E k s (c_storage c) = (r, st)" and "core_reachable E c" and "tails_ok c"
    and "next_ref st < 2 ^ 32"
  shows "core_reachable E (c\<lparr>c_storage := st\<rparr>) \<and> core_le c (c\<lparr>c_storage := st\<rparr>) \<and> tails_ok (c\<lparr>c_storage := st\<rparr>) \<and>
    (\<forall>bs. r = Inr bs \<longrightarrow> list_all (stored (c\<lparr>c_storage := st\<rparr>)) bs)"
  using assms
proof (induction k arbitrary: s c r)
  case (Suc k)
  show ?case
  proof (cases "get_block_data E s")
    case (Inl e)
    with Suc.prems have "st = c_storage c" "r = Inl e" by simp_all
    then have "c\<lparr>c_storage := st\<rparr> = c" by simp
    with \<open>r = Inl e\<close> Suc.prems(2,3) show ?thesis by simp
  next
    case (Inr bs')
    obtain b s' where b: "get_block_data E s = Inr (b, s')" using Inr by (cases bs') auto
    obtain x st1 where a: "add_blk b (c_storage c) = (x, st1)" by force
    let ?c1 = "c\<lparr>c_storage := st1\<rparr>"
    obtain r1 where go: "add_parsed E k s' st1 = (r1, st)" and
      r: "r = (case r1 of Inl e \<Rightarrow> Inl e | Inr rs \<Rightarrow> Inr (x # rs))"
      using Suc.prems(1) b a by (cases "add_parsed E k s' st1"; cases "fst (add_parsed E k s' st1)") auto
    have mono: "next_ref (c_storage c) \<le> next_ref st1 \<and> next_ref st1 \<le> next_ref st"
    proof -
      have add: "next_ref st1 \<le> next_ref st2" if "add_blk b st1 = (y, st2)" for b st1 y st2
        using that by (auto simp: add_blk_def alloc_blk_def add_blk_ref_def Let_def split: option.splits)
      have "next_ref st1 \<le> next_ref st" if "add_parsed E k s st1 = (r, st)" for k s st1 r
        using that
      proof (induction k arbitrary: s st1 r)
        case (Suc k)
        then show ?case
          by (auto split: sum.splits prod.splits elim!: bindS_snd_cases) (meson add le_trans)+
      qed simp
      with add [OF a] go show ?thesis by blast
    qed
    then have size: "next_ref (c_storage c) < 2 ^ 32" using Suc.prems(4) by linarith
    have step: "core_reachable E ?c1 \<and> core_le c ?c1 \<and> tails_ok ?c1 \<and> stored ?c1 x"
      by (rule store_step [OF Suc.prems(2) size Suc.prems(3) b a])
    have "add_parsed E k s' (c_storage ?c1) = (r1, st)" using go by simp
    from Suc.IH [OF this _ _ Suc.prems(4)] step
    have IH: "core_reachable E (c\<lparr>c_storage := st\<rparr>) \<and> core_le ?c1 (c\<lparr>c_storage := st\<rparr>) \<and>
        tails_ok (c\<lparr>c_storage := st\<rparr>) \<and> (\<forall>bs. r1 = Inr bs \<longrightarrow> list_all (stored (c\<lparr>c_storage := st\<rparr>)) bs)"
      by simp
    then have "stored (c\<lparr>c_storage := st\<rparr>) x"
      using step core_leD(3) [of ?c1 "c\<lparr>c_storage := st\<rparr>"] by (simp add: stored_def)
    with IH step core_le_trans [of c ?c1] r show ?thesis by (auto split: sum.splits)
  qed
next
  case 0
  then have "st = c_storage c" "r = Inr []" by simp_all
  then have "c\<lparr>c_storage := st\<rparr> = c" by simp
  with \<open>r = Inr []\<close> 0(2,3) show ?case by simp
qed

end
