(* ===== verification/NodePace.thy ===== *)
theory NodePace
  imports NodeSteps
begin

text \<open>The methods and closures of the pace makers keep the invariant of a replica.\<close>

section \<open>Sequences of operations\<close>

definition keeps :: "net_env \<Rightarrow> types \<Rightarrow> task list \<Rightarrow> task list \<times> node \<Rightarrow> bool" where
  "keeps N g ts x \<longleftrightarrow> after N g (fst x @ ts) (snd x) (\<lambda>_. True)"

lemma keepsI: "extended g g' \<Longrightarrow> node_inv N g' n (ts' @ ts) \<Longrightarrow> keeps N g ts (ts', n)"
  by (auto simp: keeps_def after_def)

lemma keeps_refl: "node_inv N g n (ts' @ ts) \<Longrightarrow> keeps N g ts (ts', n)"
  by (rule keepsI [OF extended_refl])

lemma keepsE:
  assumes "keeps N g ts x"
  obtains g' where "extended g g'" and "node_inv N g' (snd x) (fst x @ ts)"
  using assms by (auto simp: keeps_def elim: afterE)

lemma keeps_ext: "extended g g' \<Longrightarrow> keeps N g' ts x \<Longrightarrow> keeps N g ts x"
  by (auto simp: keeps_def after_def intro: extended_trans)

text \<open>One operation after the other: the tasks of the first come first.\<close>

lemma keeps_seq:
  assumes "keeps N g ts (t1, n1)"
    and "\<And>g'. extended g g' \<Longrightarrow> node_inv N g' n1 (t1 @ ts) \<Longrightarrow> keeps N g' (t1 @ ts) (t2, n2)"
  shows "keeps N g ts (t1 @ t2, n2)"
proof -
  from assms(1) obtain g1 where g1: "extended g g1" "node_inv N g1 n1 (t1 @ ts)" by (rule keepsE) simp
  from assms(2) [OF this] obtain g2 where g2: "extended g1 g2" "node_inv N g2 n2 (t2 @ t1 @ ts)"
    by (rule keepsE) simp
  from inv_swap [OF g2(2)] show ?thesis by (rule keepsI [OF extended_trans [OF g1(1) g2(1)]])
qed

lemma keeps_next:
  assumes "keeps N g ts (t1, n)" and "\<And>c T. accepts c T k TAny"
  shows "keeps N g ts (t1 @ [next_task k], n)"
  by (rule keeps_seq [OF assms(1)], rule keeps_refl) (simp add: inv_next assms(2))

lemma keeps_reject:
  "node_inv N g n ts \<Longrightarrow> pm_type g p \<noteq> None \<Longrightarrow> n_reject p v n = (ts', n') \<Longrightarrow> keeps N g ts (ts', n')"
  by (auto intro: keeps_refl inv_reject)

lemma pace_set:
  assumes "node_inv N g n ts"
  shows "(\<And>p. hqc_tail (f p) = hqc_tail p \<and> set (pending_beats (f p)) \<subseteq> set (pending_beats p) \<and>
      pm_qc_finish (f p) = pm_qc_finish p \<and> pm_wait_propose (f p) = pm_wait_propose p \<and>
      pm_qc_manual (f p) = pm_qc_manual p) \<Longrightarrow> node_inv N g (set_pace f n) ts"
  using inv_pace [OF assms, of f] node_invD(5) [OF assms] by (auto simp: pace_ok_def)

section \<open>Waiting for the core\<close>

definition waits :: "net_env \<Rightarrow> types \<Rightarrow> task list \<Rightarrow> pid run \<Rightarrow> bool" where
  "waits N g ts x \<longleftrightarrow> (case x of (p, ts', n') \<Rightarrow> after N g (ts' @ ts) n' (\<lambda>g'. pm_type g' p = Some TAny))"

lemma wait_core_inv:
  assumes inv: "node_inv N g n ts" and k: "maps TAny k TAny"
  shows "waits N g ts (n_then_map (CorePm i) k n)"
proof -
  obtain p ts' n' where run: "n_then_map (CorePm i) k n = (p, ts', n')" by (rule prod_cases3)
  from inv_then_map [OF inv node_invD(7) [OF inv] k run] show ?thesis
    by (auto simp: waits_def run after_def)
qed

lemma wait_invs:
  assumes "node_inv N g n ts"
  shows "waits N g ts (wait_proposal n)" and "waits N g ts (wait_receive_proposal n)"
    and "waits N g ts (wait_hqc_update n)"
  using wait_core_inv [OF assms]
  by (simp_all add: wait_proposal_def wait_receive_proposal_def wait_hqc_update_def)

lemma wait_qc_finish_inv:
  assumes inv: "node_inv N g n ts" and size: "size_ok n" and run: "wait_qc_finish b n = (q, n')"
  shows "after N g ts n' (\<lambda>g'. pm_type g' q = Some TAny)"
proof -
  obtain pm c where a: "async_qc_finish b (n_core n) = (pm, c)" by force
  have "core_reachable (ne_env N) c"
    using core_call [OF node_invD(1) [OF inv], of "AsyncQcFinish b" "Inr ()" c] size a
    by (simp add: size_ok_def)
  moreover have "quiet None (n_core n) c" using quiet_async_qc_finish [of None "n_core n" "n_core n" b] a by simp
  ultimately have c: "node_inv N g (n\<lparr>n_core := c\<rparr>) ts"
    using quiet_le quiet_tails node_invD(2) [OF inv] by (intro inv_core [OF inv]) auto
  show ?thesis
  proof (cases pm)
    case None
    with run a have "n_resolved None (n\<lparr>n_core := c\<rparr>) = (q, n')" by (simp add: wait_qc_finish_def)
    from inv_resolved(1) [OF c _ this, of TAny] show ?thesis by (auto simp: after_def value_ok_def)
  next
    case (Some i)
    with run a have "q = CorePm i" "n' = n\<lparr>n_core := c\<rparr>" by (simp_all add: wait_qc_finish_def)
    with c node_invD(7) [OF inv] show ?thesis by (auto intro: after_refl)
  qed
qed

lemma on_wait_inv:
  assumes "waits N g ts (wait n)" and k: "\<And>c T. accepts c T k TAny"
  shows "keeps N g ts (on_wait wait k n)"
proof -
  obtain p t1 n1 where w: "wait n = (p, t1, n1)" by (rule prod_cases3)
  with assms(1) obtain g1 where g1: "extended g g1" "node_inv N g1 n1 (t1 @ ts)" "pm_type g1 p = Some TAny"
    by (auto simp: waits_def elim: afterE)
  obtain q t2 n2 where t: "n_then p k n1 = (q, t2, n2)" by (rule prod_cases3)
  from inv_then(1) [OF g1(2,3) k t] obtain g2 where
    g2: "extended g1 g2" "node_inv N g2 n2 (t2 @ t1 @ ts)" by blast
  have "keeps N g ts (t1 @ t2, n2)"
    by (rule keepsI [OF extended_trans [OF g1(1) g2(1)] inv_swap [OF g2(2)]])
  then show ?thesis by (simp add: on_wait_def w t)
qed

lemma ht_reg_invs:
  assumes "node_inv N g n ts"
  shows "keeps N g ts (ht_reg_hqc_update n)" and "keeps N g ts (ht_reg_proposal n)"
    and "keeps N g ts (ht_reg_receive_proposal n)"
    and "keeps N g ts (rr_reg_proposal n)" and "keeps N g ts (rr_reg_receive_proposal n)"
  unfolding ht_reg_hqc_update_def ht_reg_proposal_def ht_reg_receive_proposal_def
    rr_reg_proposal_def rr_reg_receive_proposal_def
  by (rule on_wait_inv, rule wait_invs [OF assms], simp)+

section \<open>Parent selection\<close>

text \<open>The iterated containers give their elements.\<close>

definition order_ok :: "net_env \<Rightarrow> bool" where
  "order_ok N \<longleftrightarrow> (\<forall>T. finite T \<longrightarrow> set (ne_tails N T) = T) \<and> (\<forall>H. finite H \<longrightarrow> set (ne_hashes N H) = H)"

lemma better_tail_cases: "better_tail hp a t b = Inr x \<Longrightarrow> x = t \<or> x = b"
  by (auto simp: better_tail_def bindE_Inr_iff split: if_splits)

lemma set_tail:
  assumes "node_inv N g n ts" and "delivered (c_storage (n_core n)) t"
  shows "node_inv N g (set_pace (\<lambda>p. p\<lparr>hqc_tail := t\<rparr>) n) ts"
  using inv_pace [OF assms(1)] node_invD(5) [OF assms(1)] assms(2) by (simp add: pace_ok_def)

lemma ht_on_hqc_update_inv:
  assumes inv: "node_inv N g n ts" and N: "order_ok N" and hqc: "delivered (c_storage (n_core n)) hqc"
  shows "keeps N g ts (snd (ht_on_hqc_update N hqc n))"
proof -
  let ?f = "better_tail (heap (c_storage (n_core n))) hqc" and ?l = "ne_tails N (get_tails (n_core n))"
  show ?thesis
  proof (cases "foldE ?f hqc ?l")
    case (Inl e)
    then show ?thesis using inv by (simp add: ht_on_hqc_update_def keeps_refl)
  next
    case (Inr t)
    have "c_tails (n_core n) \<subseteq> delivered_set (c_storage (n_core n))"
      using node_invD(2) [OF inv] by (auto simp: tails_ok_def delivered_set_def)
    then have "finite (c_tails (n_core n))" by (rule finite_subset) simp
    with N node_invD(2) [OF inv] have tails: "\<forall>b\<in>set ?l. delivered (c_storage (n_core n)) b"
      by (simp add: order_ok_def get_tails_def tails_ok_def)
    have "delivered (c_storage (n_core n)) t"
      by (rule foldE_invariant [where P = "delivered (c_storage (n_core n))", OF Inr hqc]) (use tails in \<open>auto dest: better_tail_cases\<close>)
    from ht_reg_invs(1) [OF set_tail [OF inv this]] show ?thesis by (simp add: ht_on_hqc_update_def Inr)
  qed
qed

lemma ht_on_proposal_inv:
  assumes inv: "node_inv N g n ts" and b: "\<And>b. p_blk p = Some b \<Longrightarrow> delivered (c_storage (n_core n)) b"
  shows "keeps N g ts (snd (ht_on_proposal p n))"
proof (cases "p_blk p")
  case (Some b)
  from ht_reg_invs(2) [OF set_tail [OF inv b [OF Some]]] Some show ?thesis by (simp add: ht_on_proposal_def)
qed (use inv in \<open>simp add: ht_on_proposal_def keeps_refl\<close>)

lemma ht_on_receive_proposal_inv:
  assumes inv: "node_inv N g n ts" and b: "\<And>b. p_blk p = Some b \<Longrightarrow> delivered (c_storage (n_core n)) b"
  shows "keeps N g ts (snd (ht_on_receive_proposal p n))"
proof (cases "\<exists>hqc b t. get_hqc (n_core n) = Some hqc \<and> p_blk p = Some b \<and>
    better_tail (heap (c_storage (n_core n))) hqc (hqc_tail (n_pace n)) b = Inr t")
  case True
  then obtain hqc b' t where t: "get_hqc (n_core n) = Some hqc" "p_blk p = Some b'"
    "better_tail (heap (c_storage (n_core n))) hqc (hqc_tail (n_pace n)) b' = Inr t" by blast
  have "delivered (c_storage (n_core n)) t"
    using better_tail_cases [OF t(3)] b [OF t(2)] node_invD(5) [OF inv] by (auto simp: pace_ok_def)
  from ht_reg_invs(3) [OF set_tail [OF inv this]] t show ?thesis by (simp add: ht_on_receive_proposal_def)
next
  case False
  then have "\<exists>e. ht_on_receive_proposal p n = (Inl e, [], n)"
    by (auto simp: ht_on_receive_proposal_def split: option.split sum.split)
  with inv show ?thesis by (auto simp: keeps_refl)
qed

lemma high_tail_init_inv:
  assumes inv: "node_inv N g n ts"
  shows "keeps N g ts (high_tail_init n)"
proof -
  let ?n = "set_pace (\<lambda>p. p\<lparr>hqc_tail := get_genesis (n_core n)\<rparr>) n"
  have "delivered (c_storage (n_core n)) (c_b0 (n_core n))"
    using store_wfD(2) [OF core_wfD(1) [OF node_invD(6) [OF inv]]] by (simp add: genesis_wf_def)
  then have n: "node_inv N g ?n ts" using set_tail [OF inv] by (simp add: get_genesis_def)
  obtain t1 n1 t2 n2 t3 n3 where r: "ht_reg_hqc_update ?n = (t1, n1)" "ht_reg_proposal n1 = (t2, n2)"
    "ht_reg_receive_proposal n2 = (t3, n3)" by (metis surj_pair)
  have "keeps N g ts (t1 @ t2, n2)"
    by (rule keeps_seq [of N g ts t1 n1]) (use ht_reg_invs(1) [OF n] ht_reg_invs(2) [of N _ n1] r in auto)
  then have "keeps N g ts ((t1 @ t2) @ t3, n3)"
    by (rule keeps_seq) (use ht_reg_invs(3) [of N _ n2] r in auto)
  with r show ?thesis by (simp add: high_tail_init_def Let_def)
qed

section \<open>Beats\<close>

lemma set_promise:
  assumes "node_inv N g n ts" and "pm_type g q = Some TAny"
  shows "node_inv N g (set_pace (\<lambda>p. p\<lparr>pm_qc_finish := q\<rparr>) n) ts"
    and "node_inv N g (set_pace (\<lambda>p. p\<lparr>pm_wait_propose := q\<rparr>) n) ts"
    and "node_inv N g (set_pace (\<lambda>p. p\<lparr>pm_qc_manual := q\<rparr>) n) ts"
  using node_invD(5) [OF assms(1)] assms(2) by (auto intro!: inv_pace [OF assms(1)] simp: pace_ok_def)

lemma then_keeps:
  assumes "node_inv N g n ts" and "pm_type g p = Some t" and "accepts (n_core n) (pm_type g) k t"
  shows "keeps N g ts (snd (n_then p k n))"
proof -
  obtain q ts' n' where r: "n_then p k n = (q, ts', n')" by (rule prod_cases3)
  from inv_then(1) [OF assms r] show ?thesis by (auto simp: r intro: keepsI)
qed

lemma set_pace_simps [simp]:
  "n_core (set_pace f n) = n_core n" "n_pace (set_pace f n) = f (n_pace n)" "n_pms (set_pace f n) = n_pms n"
  "size_ok (set_pace f n) = size_ok n"
  by (simp_all add: set_pace_def size_ok_def)

text \<open>Rejecting the last wait, waiting anew for a certificate, and keeping the new promise.\<close>

lemma await_qc_inv:
  assumes inv: "node_inv N g n ts" and size: "size_ok n" and p: "pm_type g p \<noteq> None"
    and rej: "n_reject p None n = (t1, n1)" and wait: "wait_qc_finish b n1 = (q, n2)"
    and set: "\<And>g' m ts. node_inv N g' m ts \<Longrightarrow> pm_type g' q = Some TAny \<Longrightarrow> node_inv N g' (set_pace f m) ts"
    and k: "\<And>c T. pm_type g \<subseteq>\<^sub>m T \<Longrightarrow> accepts c T k TAny"
    and run: "n_then q k (set_pace f n2) = (x, t2, n3)"
  shows "keeps N g ts (t1 @ t2, n3)"
proof (rule keeps_seq [OF keeps_reject [OF inv p rej]])
  fix g' assume g': "extended g g'" "node_inv N g' n1 (t1 @ ts)"
  have "size_ok n1" using inv_reject(2) [OF inv p rej] size by (simp add: size_ok_def)
  from wait_qc_finish_inv [OF g'(2) this wait] obtain g2 where
    g2: "extended g' g2" "node_inv N g2 n2 (t1 @ ts)" "pm_type g2 q = Some TAny"
    unfolding after_def by blast
  have T: "pm_type g \<subseteq>\<^sub>m pm_type g2" using extended_trans [OF g'(1) g2(1)] by (simp add: extended_def)
  have "keeps N g2 (t1 @ ts) (snd (n_then q k (set_pace f n2)))"
    by (rule then_keeps [OF set [OF g2(2,3)] g2(3) k [OF T]])
  then have "keeps N g2 (t1 @ ts) (t2, n3)" by (simp only: run snd_conv)
  then show "keeps N g' (t1 @ ts) (t2, n3)" by (rule keeps_ext [OF g2(1)])
qed

lemma schedule_next_inv:
  assumes inv: "node_inv N g n ts" and size: "size_ok n"
  shows "keeps N g ts (schedule_next n)"
proof (cases "pending_beats (n_pace n) = [] \<or> locked (n_pace n)")
  case True
  with inv show ?thesis by (auto simp: schedule_next_def keeps_refl split: list.split)
next
  case False
  then obtain pm beats where b: "pending_beats (n_pace n) = pm # beats" by (cases "pending_beats (n_pace n)") auto
  define n0 where "n0 = set_pace (\<lambda>p. p\<lparr>pending_beats := beats\<rparr>) n"
  have n0: "node_inv N g n0 ts"
    unfolding n0_def using node_invD(5) [OF inv] b by (intro inv_pace [OF inv]) (auto simp: pace_ok_def)
  have pm: "pm_type g pm = Some TAny" using node_invD(5) [OF inv] b by (simp add: pace_ok_def)
  have qc: "pm_type g (pm_qc_finish (n_pace n0)) \<noteq> None" using node_invD(5) [OF n0] by (simp add: pace_ok_def)
  have s0: "size_ok n0" using size by (simp add: n0_def)
  obtain t1 n1 where r1: "n_reject (pm_qc_finish (n_pace n0)) None n0 = (t1, n1)" by force
  obtain q n2 where r2: "wait_qc_finish (last_proposed (n_pace n1)) n1 = (q, n2)" by force
  obtain x t2 n3 where r3: "n_then q (WqQcFinish pm) (set_pace (\<lambda>p. p\<lparr>pm_qc_finish := q\<rparr>) n2) = (x, t2, n3)"
    by (rule prod_cases3)
  have "keeps N g ts (t1 @ t2, n3)"
    by (rule await_qc_inv [OF n0 s0 qc r1 r2 set_promise(1) _ r3]) (use map_leD pm in auto)
  from keeps_next [OF this, of WqLock] show ?thesis
    using False b r1 r2 r3 by (simp add: schedule_next_def n0_def Let_def)
qed

lemma update_last_proposed_inv:
  assumes inv: "node_inv N g n ts"
  shows "keeps N g ts (update_last_proposed n)"
proof -
  have p: "pm_type g (pm_wait_propose (n_pace n)) \<noteq> None" using node_invD(5) [OF inv] by (simp add: pace_ok_def)
  obtain t1 n1 where r1: "n_reject (pm_wait_propose (n_pace n)) None n = (t1, n1)" by force
  obtain q t2 n2 where r2: "wait_proposal n1 = (q, t2, n2)" by (rule prod_cases3)
  let ?n2 = "set_pace (\<lambda>p. p\<lparr>pm_wait_propose := q\<rparr>) n2"
  obtain x t3 n3 where r3: "n_then q WqProposal ?n2 = (x, t3, n3)" by (rule prod_cases3)
  have "keeps N g ts (t1 @ (t2 @ t3), n3)"
  proof (rule keeps_seq [OF keeps_reject [OF inv p r1]])
    fix g' assume "node_inv N g' n1 (t1 @ ts)"
    from wait_invs(1) [OF this] obtain g2 where
      g2: "extended g' g2" "node_inv N g2 n2 (t2 @ t1 @ ts)" "pm_type g2 q = Some TAny"
      by (auto simp: waits_def r2 elim: afterE)
    have "keeps N g2 (t2 @ t1 @ ts) (t3, n3)"
      using then_keeps [OF set_promise(2) [OF g2(2,3)] g2(3), of WqProposal] by (simp add: r3)
    then obtain g3 where g3: "extended g2 g3" "node_inv N g3 n3 (t3 @ t2 @ t1 @ ts)" by (rule keepsE) simp
    from inv_swap [OF g3(2)] show "keeps N g' (t1 @ ts) (t2 @ t3, n3)"
      by (rule keepsI [OF extended_trans [OF g2(1) g3(1)]])
  qed
  with r1 r2 r3 show ?thesis by (simp add: update_last_proposed_def)
qed

lemma wq_on_proposal_inv:
  assumes inv: "node_inv N g n ts" and size: "size_ok n"
  shows "keeps N g ts (snd (wq_on_proposal p n))"
proof (cases "p_blk p")
  case (Some b)
  let ?n = "set_pace (\<lambda>p. p\<lparr>last_proposed := b, locked := False\<rparr>) n"
  obtain t1 n1 where r: "schedule_next ?n = (t1, n1)" by force
  have "node_inv N g ?n ts" by (rule pace_set [OF inv]) simp
  moreover have "size_ok ?n" using size by simp
  ultimately have "keeps N g ts (schedule_next ?n)" by (rule schedule_next_inv)
  then have "keeps N g ts (t1, n1)" by (simp add: r)
  from keeps_next [OF this, of WqUpdateLastProposed] Some r show ?thesis by (simp add: wq_on_proposal_def)
qed (use inv in \<open>simp add: wq_on_proposal_def keeps_refl\<close>)

lemma wait_qc_init_inv: "node_inv N g n ts \<Longrightarrow> keeps N g ts (wait_qc_init n)"
  unfolding wait_qc_init_def by (rule update_last_proposed_inv, rule pace_set) simp_all

lemma wq_on_qc_finish_inv:
  assumes "node_inv N g n ts" and "pm_type g p = Some TAny"
  shows "keeps N g ts (wq_on_qc_finish p n)"
proof -
  obtain ts' n' where r: "n_resolve p (Some (VRid (get_proposer n))) n = (ts', n')" by force
  from inv_resolve(1) [OF assms _ r] show ?thesis
    by (simp add: wq_on_qc_finish_def r keeps_refl value_ok_def)
qed

lemma rid_resolved:
  assumes "node_inv N g n ts" and "n_resolved (Some (VRid r)) n = (p, n')"
  shows "after N g ts n' (\<lambda>g'. pm_type g' p = Some TAny)" and "n_core n' = n_core n"
  using inv_resolved [OF assms(1) _ assms(2), of TAny] by (auto simp: after_def value_ok_def)

lemma beat_inv:
  assumes inv: "node_inv N g n ts" and size: "size_ok n"
  shows "waits N g ts (beat n)"
proof (cases "pace_kind (n_pace n) = PaceMakerRR \<and>
    (rotating (n_pace n) \<or> pm_proposer (n_pace n) \<noteq> get_id (n_core n))")
  case True
  obtain p n' where r: "n_resolved (Some (VRid (pm_proposer (n_pace n)))) n = (p, n')" by force
  with True rid_resolved(1) [OF inv r] show ?thesis by (simp add: waits_def beat_def)
next
  case False
  obtain p n1 where r: "n_new_pm n = (p, n1)" by force
  let ?n2 = "set_pace (\<lambda>q. q\<lparr>pending_beats := pending_beats q @ [p]\<rparr>) n1"
  obtain ts' n' where s: "schedule_next ?n2 = (ts', n')" by force
  from inv_new_pm(1) [OF inv r, of TAny] inv_new_pm(2) [OF inv r] obtain g1 where
    g1: "extended g g1" "pm_type g1 p = Some TAny" "node_inv N g1 n1 ts" "n_core n1 = n_core n" by auto
  have "node_inv N g1 ?n2 ts"
    using node_invD(5) [OF g1(3)] g1(2) by (intro inv_pace [OF g1(3)]) (auto simp: pace_ok_def)
  moreover have "size_ok ?n2" using size g1(4) by (simp add: size_ok_def)
  ultimately have "keeps N g1 ts (schedule_next ?n2)" by (rule schedule_next_inv)
  then have "keeps N g1 ts (ts', n')" unfolding s .
  then obtain g2 where g2: "extended g1 g2" "node_inv N g2 n' (ts' @ ts)" by (rule keepsE) simp
  have "beat n = (p, ts', n')" using False by (simp only: beat_def r s if_False Let_def prod.case)
  moreover have "pm_type g2 p = Some TAny" by (rule extended_type [OF g2(1) g1(2)])
  ultimately show ?thesis
    by (simp only: waits_def prod.case) (rule afterI [OF extended_trans [OF g1(1) g2(1)] g2(2)])
qed

section \<open>Rotation\<close>

lemma note_proposal_inv: "node_inv N g n ts \<Longrightarrow> node_inv N g (set_pace (note_proposal r p) n) ts"
  by (erule pace_set) (simp add: note_proposal_def)

lemma rr_on_proposal_invs:
  assumes "node_inv N g n ts"
  shows "keeps N g ts (rr_on_proposal p n)" and "keeps N g ts (rr_on_receive_proposal p n)"
  using ht_reg_invs(4,5) [OF note_proposal_inv [OF assms]] note_proposal_inv [OF assms]
  by (simp_all add: rr_on_proposal_def rr_on_receive_proposal_def Let_def keeps_refl)

lemma do_new_consensus_inv:
  assumes inv: "node_inv N g n ts" and size: "size_ok n" and hash: "no_collision (ne_env N) cmds n"
    and run: "do_new_consensus N x cmds n = (r, ts', n')" and surv: "survives r"
  shows "keeps N g ts (ts', n')"
proof -
  obtain y t1 n1 where c: "call_core (on_propose (ne_env N) cmds (get_parents n) []) n = (y, t1, n1)"
    by (rule prod_cases3)
  have "survives y" using run surv c by (cases y) (auto simp: do_new_consensus_def)
  from propose_call [OF inv size hash c this] have k: "keeps N g ts (t1, n1)" by (rule keeps_refl)
  show ?thesis
  proof (cases y)
    case (Inl e)
    with run c k show ?thesis by (simp add: do_new_consensus_def)
  next
    case (Inr b)
    with run c keeps_next [OF k, of "RrAwaitManual x b"] show ?thesis by (auto simp: do_new_consensus_def)
  qed
qed

lemma rr_await_manual_inv:
  assumes inv: "node_inv N g n ts" and size: "size_ok n"
  shows "keeps N g ts (rr_await_manual x b n)"
proof -
  have p: "pm_type g (pm_qc_manual (n_pace n)) \<noteq> None" using node_invD(5) [OF inv] by (simp add: pace_ok_def)
  obtain t1 n1 where r1: "n_reject (pm_qc_manual (n_pace n)) None n = (t1, n1)" by force
  obtain q n2 where r2: "wait_qc_finish b n1 = (q, n2)" by force
  obtain y t2 n3 where r3: "n_then q (RrManual x) (set_pace (\<lambda>p. p\<lparr>pm_qc_manual := q\<rparr>) n2) = (y, t2, n3)"
    by (rule prod_cases3)
  have "keeps N g ts (t1 @ t2, n3)"
    by (rule await_qc_inv [OF inv size p r1 r2 set_promise(3) _ r3]) simp_all
  with r1 r2 r3 show ?thesis by (simp add: rr_await_manual_def)
qed

lemma rr_on_manual_inv:
  assumes "node_inv N g n ts" and "size_ok n" and "no_collision (ne_env N) [] n"
    and "rr_on_manual N x n = (r, ts', n')" and "survives r"
  shows "keeps N g ts (ts', n')"
  using assms do_new_consensus_inv [OF assms(1-3)]
  by (auto simp: rr_on_manual_def keeps_refl split: if_splits)

lemma reject_waits_inv:
  assumes inv: "node_inv N g n ts"
  shows "keeps N g ts (reject_waits n)"
proof -
  obtain t1 n1 where r1: "n_reject (pm_qc_finish (n_pace n)) None n = (t1, n1)" by force
  obtain t2 n2 where r2: "n_reject (pm_wait_propose (n_pace n1)) None n1 = (t2, n2)" by force
  obtain t3 n3 where r3: "n_reject (pm_qc_manual (n_pace n2)) None n2 = (t3, n3)" by force
  have "keeps N g ts (t1, n1)"
    by (rule keeps_reject [OF inv _ r1]) (use node_invD(5) [OF inv] in \<open>simp add: pace_ok_def\<close>)
  then have "keeps N g ts (t1 @ t2, n2)"
    by (rule keeps_seq) (use r2 node_invD(5) in \<open>fastforce simp: pace_ok_def intro: keeps_reject\<close>)
  then have "keeps N g ts ((t1 @ t2) @ t3, n3)"
    by (rule keeps_seq) (use r3 node_invD(5) in \<open>fastforce simp: pace_ok_def intro: keeps_reject\<close>)
  with r1 r2 r3 show ?thesis by (simp add: reject_waits_def)
qed

lemma keeps_pace:
  assumes "keeps N g ts (ts', n)" and "\<And>p. hqc_tail (f p) = hqc_tail p \<and> set (pending_beats (f p)) \<subseteq> set (pending_beats p) \<and>
      pm_qc_finish (f p) = pm_qc_finish p \<and> pm_wait_propose (f p) = pm_wait_propose p \<and>
      pm_qc_manual (f p) = pm_qc_manual p"
  shows "keeps N g ts (ts', set_pace f n)"
proof -
  from assms(1) obtain g' where g': "extended g g'" "node_inv N g' n (ts' @ ts)" by (rule keepsE) simp
  from pace_set [OF g'(2) assms(2)] show ?thesis by (rule keepsI [OF g'(1)])
qed

lemma rotate_pm_inv:
  assumes inv: "node_inv N g n ts"
  shows "keeps N g ts (snd (rotate_pm n))"
proof -
  obtain t1 n1 where r1: "rr_reg_proposal n = (t1, n1)" by force
  obtain t2 n2 where r2: "rr_reg_receive_proposal n1 = (t2, n2)" by force
  have k: "keeps N g ts (t1 @ t2, n2)"
    by (rule keeps_seq [of N g ts t1 n1]) (use ht_reg_invs(4) [OF inv] ht_reg_invs(5) [of N _ n1] r1 r2 in auto)
  let ?n3 = "set_pace (\<lambda>p. p\<lparr>prop_blk := Map.empty, rotating := True,
      pm_proposer := word_of_nat ((unat (pm_proposer p) + 1) mod nreplicas (get_config (n_core n2)))\<rparr>) n2"
  obtain t3 n3 where r3: "reject_waits ?n3 = (t3, n3)" by force
  have "keeps N g ts (t1 @ t2, ?n3)" by (rule keeps_pace [OF k]) simp
  then have "keeps N g ts ((t1 @ t2) @ t3, n3)"
    by (rule keeps_seq) (use reject_waits_inv [of N _ ?n3] r3 in auto)
  then have "keeps N g ts ((t1 @ t2) @ t3, set_pace (\<lambda>p. p\<lparr>timer := Some (ExpTimer, exp_timeout p),
      exp_timeout := 2 * exp_timeout p\<rparr>) n3)"
    by (rule keeps_pace) simp
  with k r1 r2 r3 show ?thesis by (simp add: rotate_pm_def Let_def)
qed

lemma on_exp_timeout_inv:
  assumes inv: "node_inv N g n ts" and "size_ok n" and "no_collision (ne_env N) [] n"
    and run: "on_exp_timeout N n = (r, ts', n')" and "survives r"
  shows "keeps N g ts (ts', n')"
proof (cases "pm_proposer (n_pace n) = get_id (n_core n)")
  case True
  obtain y t1 n1 where d: "do_new_consensus N 0 [] n = (y, t1, n1)" by (rule prod_cases3)
  with run True have "y = r" "ts' = t1 @ [next_task RrRotateTimer]" "n' = n1"
    by (simp_all add: on_exp_timeout_def)
  with keeps_next [OF do_new_consensus_inv [OF inv assms(2,3) d], of RrRotateTimer] assms(5)
  show ?thesis by simp
next
  case False
  with run keeps_next [OF keeps_refl, of N g n "[]" ts RrRotateTimer] inv
  show ?thesis by (auto simp: on_exp_timeout_def)
qed

lemma stop_rotate_inv:
  assumes inv: "node_inv N g n ts"
  shows "keeps N g ts (stop_rotate n)"
proof -
  let ?n0 = "set_pace (\<lambda>p. p\<lparr>timer := None\<rparr>) n"
  have n0: "node_inv N g ?n0 ts" by (rule pace_set [OF inv]) simp
  obtain t1 n1 where r1: "reject_waits ?n0 = (t1, n1)" by force
  let ?n1 = "set_pace (\<lambda>p. p\<lparr>rotating := False, locked := False, last_proposed := get_genesis (n_core n1)\<rparr>) n1"
  obtain t2 n2 where r2: "update_last_proposed ?n1 = (t2, n2)" by force
  have "keeps N g ts (t1, ?n1)" by (rule keeps_pace) (use reject_waits_inv [OF n0] r1 in simp_all)
  then have "keeps N g ts (t1 @ t2, n2)"
    by (rule keeps_seq) (use update_last_proposed_inv [of N _ ?n1] r2 in auto)
  then obtain g' where g': "extended g g'" "node_inv N g' n2 ((t1 @ t2) @ ts)" by (rule keepsE) simp
  have "node_inv N g' ((tell DoElected n2)\<lparr>n_async_calls := n_async_calls n2 @ [RrRepropose]\<rparr>) ((t1 @ t2) @ ts)"
    using g'(2) by (simp add: node_inv_def rest_ok_def tell_def)
  then show ?thesis
    using r1 r2 g' by (auto simp: stop_rotate_def Let_def intro: keepsI)
qed

lemma rr_repropose_inv:
  assumes "node_inv N g n ts" and "size_ok n"
    and "no_collision (ne_env N) (ne_hashes N (dom (n_decision_waiting n))) n"
    and "rr_repropose N n = (r, ts', n')" and "survives r"
  shows "keeps N g ts (ts', n')"
  using assms do_new_consensus_inv [OF assms(1-3)]
  by (auto simp: rr_repropose_def keeps_refl split: if_splits)

lemma pm_on_consensus_inv:
  assumes inv: "node_inv N g n ts"
  shows "keeps N g ts (pm_on_consensus b n)"
proof -
  let ?n = "set_pace (\<lambda>p. p\<lparr>timer := None, exp_timeout := base_timeout p\<rparr>) n"
  have "node_inv N g ?n ts" by (rule pace_set [OF inv]) simp
  with inv stop_rotate_inv [OF this] show ?thesis
    by (simp add: pm_on_consensus_def Let_def keeps_refl)
qed

lemma impeach_inv: "node_inv N g n ts \<Longrightarrow> keeps N g ts (snd (impeach n))"
  using rotate_pm_inv by (simp add: impeach_def keeps_refl)

lemma pm_init_inv:
  assumes inv: "node_inv N g n ts"
  shows "keeps N g ts (pm_init n)"
proof -
  obtain t1 n1 where r1: "high_tail_init n = (t1, n1)" by force
  let ?x = "if pace_kind (n_pace n1) = PaceMakerRR
      then stop_rotate (set_pace (\<lambda>p. p\<lparr>exp_timeout := base_timeout p\<rparr>) n1) else wait_qc_init n1"
  obtain t2 n2 where r2: "?x = (t2, n2)" by (rule prod.exhaust)
  have "keeps N g ts (t1, n1)" using high_tail_init_inv [OF inv] r1 by simp
  then have "keeps N g ts (t1 @ t2, n2)"
  proof (rule keeps_seq)
    fix g' assume g': "node_inv N g' n1 (t1 @ ts)"
    have "node_inv N g' (set_pace (\<lambda>p. p\<lparr>exp_timeout := base_timeout p\<rparr>) n1) (t1 @ ts)"
      by (rule pace_set [OF g']) simp
    from stop_rotate_inv [OF this] wait_qc_init_inv [OF g'] r2
    show "keeps N g' (t1 @ ts) (t2, n2)" by (auto split: if_splits)
  qed
  with r1 r2 show ?thesis by (simp add: pm_init_def Let_def)
qed

end
