(* ===== verification/NodeBase.thy ===== *)
theory NodeBase
  imports NodePace
begin

text \<open>
  The methods and closures of \<open>HotStuffBase\<close> keep the invariant of a replica: fetching and
  delivering blocks, the message handlers, the outputs of the core and the queue of commands.
\<close>

section \<open>Sending\<close>

definition same_state :: "node \<Rightarrow> node \<Rightarrow> bool" where
  "same_state n n' \<longleftrightarrow>
     n_core n' = n_core n \<and> n_pms n' = n_pms n \<and> n_vpool n' = n_vpool n \<and> n_pace n' = n_pace n \<and>
     n_fetch_waiting n' = n_fetch_waiting n \<and> n_delivery_waiting n' = n_delivery_waiting n \<and>
     n_async_calls n' = n_async_calls n"

lemma same_state_inv: "node_inv N g n ts \<Longrightarrow> same_state n n' \<Longrightarrow> node_inv N g n' ts"
  by (erule inv_cong) (simp_all add: same_state_def)

lemma same_state_refl [simp]: "same_state n n"
  by (simp add: same_state_def)

lemma same_state_trans: "same_state a b \<Longrightarrow> same_state b c \<Longrightarrow> same_state a c"
  by (simp add: same_state_def)

lemma same_state_tell [simp]: "same_state n (tell out n)"
  by (simp add: same_state_def tell_def)

lemma send_to_same: "same_state n0 n \<Longrightarrow> same_state n0 (snd (send_to K m peer n))"
  by (auto simp: send_to_def same_state_def tell_def split: sum.split)

lemma fc_send_same: "same_state n0 n \<Longrightarrow> same_state n0 (snd (fc_send E h r n))"
  unfolding fc_send_def by (rule send_to_same) (simp add: same_state_def)

lemma fc_send_all_same: "same_state n0 n \<Longrightarrow> same_state n0 (snd (fc_send_all E h rs n))"
proof (induction rs arbitrary: n)
  case (Cons r rs)
  show ?case unfolding fc_send_all.simps
    by (rule bindS_keeps, rule fc_send_same [OF Cons.prems], rule Cons.IH)
qed simp

lemma fc_timeout_same: "same_state n (snd (fc_timeout N h n))"
  by (simp add: fc_timeout_def fc_send_all_same split: option.split)

lemma send_proposals_same: "same_state n0 n \<Longrightarrow> same_state n0 (snd (send_proposals E props peers n))"
proof (induction peers arbitrary: n)
  case (Cons peer peers)
  have "same_state n0 (snd (bindS (send_to K m peer n) (\<lambda>_ n. send_proposals E props peers n)))" for K m
    by (rule bindS_keeps, rule send_to_same [OF Cons.prems], rule Cons.IH)
  with Cons.prems show ?case by (simp split: sum.split)
qed simp

section \<open>Fetching blocks\<close>

text \<open>The tables of promises.\<close>

lemma set_waiting:
  assumes "node_inv N g n ts"
  shows "pm_type g (fc_pm fc) = Some (TStored h) \<Longrightarrow>
      node_inv N g (n\<lparr>n_fetch_waiting := (n_fetch_waiting n)(h \<mapsto> fc)\<rparr>) ts"
    and "pm_type g p = Some (TDelivered h) \<Longrightarrow>
      node_inv N g (n\<lparr>n_delivery_waiting := (n_delivery_waiting n)(h \<mapsto> p)\<rparr>) ts"
    and "node_inv N g (n\<lparr>n_fetch_waiting := (n_fetch_waiting n)(h := None)\<rparr>) ts"
    and "node_inv N g (n\<lparr>n_delivery_waiting := (n_delivery_waiting n)(h := None)\<rparr>) ts"
  using assms by (auto simp: node_inv_def rest_ok_def)

lemma fc_add_replica_inv:
  assumes inv: "node_inv N g n ts" and run: "fc_add_replica E h r now n = (x, n')"
  shows "node_inv N g n' ts" and "n_core n' = n_core n"
proof -
  have "node_inv N g n' ts \<and> n_core n' = n_core n"
  proof (cases "n_fetch_waiting n h")
    case None
    with run inv show ?thesis by (auto simp: fc_add_replica_def)
  next
    case (Some fc)
    let ?m = "if fc_replicas fc = {} \<and> now then fc_send E h r n else (Inr (), n)"
    let ?upd = "\<lambda>n. n\<lparr>n_fetch_waiting := (n_fetch_waiting n)(h \<mapsto> fc\<lparr>fc_replicas := insert r (fc_replicas fc)\<rparr>)\<rparr>"
    obtain y m where m: "?m = (y, m)" by force
    have "same_state n (snd ?m)" by (simp add: fc_send_same)
    then have same: "same_state n m" by (simp only: m snd_conv)
    then have inv': "node_inv N g m ts" by (rule same_state_inv [OF inv])
    have "pm_type g (fc_pm fc) = Some (TStored h)" using inv Some by (simp add: node_inv_def rest_ok_def)
    then have "node_inv N g (?upd m) ts" by (intro set_waiting(1) [OF inv']) simp
    moreover have "n' = m \<or> n' = ?upd m"
      using run unfolding fc_add_replica_def Some option.case m by (cases y) auto
    ultimately show ?thesis using inv' same by (auto simp: same_state_def)
  qed
  then show "node_inv N g n' ts" "n_core n' = n_core n" by simp_all
qed

lemma async_fetch_blk_inv:
  assumes inv: "node_inv N g n ts" and run: "async_fetch_blk E h replica now n = (r, n')"
  shows "after N g ts n' (\<lambda>g'. \<forall>p. r = Inr p \<longrightarrow> pm_type g' p = Some (TStored h))" and "n_core n' = n_core n"
proof -
  have "after N g ts n' (\<lambda>g'. \<forall>p. r = Inr p \<longrightarrow> pm_type g' p = Some (TStored h)) \<and> n_core n' = n_core n"
  proof (cases "find_blk (c_storage (n_core n)) h")
    case (Some b)
    then obtain p where r: "r = Inr p" "n_resolved (Some (VBlk b)) n = (p, n')"
      using run by (auto simp: async_fetch_blk_def split: prod.splits)
    from inv_resolved [OF inv _ r(2), of "TStored h"] Some r(1) show ?thesis by (auto simp: after_def)
  next
    case None
    define m where "m = (case n_fetch_waiting n h of
        Some fc \<Rightarrow> (fc_pm fc, n)
      | None \<Rightarrow> let (p, n) = n_new_pm n in
          (p, n\<lparr>n_fetch_waiting := (n_fetch_waiting n)(h \<mapsto> \<lparr>fc_pm = p, fc_replicas = {}\<rparr>)\<rparr>))"
    obtain p n1 where m: "m = (p, n1)" by force
    have pn: "after N g ts n1 (\<lambda>g'. pm_type g' p = Some (TStored h)) \<and> n_core n1 = n_core n"
    proof (cases "n_fetch_waiting n h")
      case (Some fc)
      then have "p = fc_pm fc" "n1 = n" using m by (simp_all add: m_def)
      with Some inv show ?thesis by (auto intro!: after_refl simp: node_inv_def rest_ok_def)
    next
      case None
      obtain n0 where n0: "n_new_pm n = (p, n0)"
        "n1 = n0\<lparr>n_fetch_waiting := (n_fetch_waiting n0)(h \<mapsto> \<lparr>fc_pm = p, fc_replicas = {}\<rparr>)\<rparr>"
        using None m by (auto simp: m_def split: prod.splits)
      from inv_new_pm(1) [OF inv n0(1), of "TStored h"] obtain g' where
        g': "extended g g'" "pm_type g' p = Some (TStored h)" "node_inv N g' n0 ts" by blast
      then have "node_inv N g' n1 ts" unfolding n0(2) by (intro set_waiting(1)) simp_all
      with g' inv_new_pm(2) [OF inv n0(1)] n0(2) show ?thesis by (auto intro: afterI)
    qed
    show ?thesis
    proof (cases replica)
      case None2: None
      with run None m have "r = Inr p" "n' = n1" by (auto simp: async_fetch_blk_def m_def [symmetric])
      with pn show ?thesis by simp
    next
      case (Some rep)
      obtain x n2 where a: "fc_add_replica E h rep now n1 = (x, n2)" by force
      with run None m Some have n': "n' = n2" "\<And>q. r = Inr q \<Longrightarrow> q = p"
        by (cases x; auto simp: async_fetch_blk_def m_def [symmetric])+
      from pn obtain g' where g': "extended g g'" "node_inv N g' n1 ts" "pm_type g' p = Some (TStored h)"
        by (auto elim: afterE)
      from fc_add_replica_inv [OF g'(2) a] g' n' pn show ?thesis by (auto intro: afterI)
    qed
  qed
  then show "after N g ts n' (\<lambda>g'. \<forall>p. r = Inr p \<longrightarrow> pm_type g' p = Some (TStored h))" "n_core n' = n_core n"
    by simp_all
qed

text \<open>A stored block is found under its hash.\<close>

lemma stored_found:
  assumes "node_inv N g n ts" and "stored (n_core n) b"
  shows "find_blk (c_storage (n_core n)) (blk_hash (blk (n_core n) b)) = Some b"
  using find_stored [OF core_wfD(1) [OF node_invD(6) [OF assms(1)]]] assms(2) by (simp add: stored_def)

lemma found_stored: "node_inv N g n ts \<Longrightarrow> find_blk (c_storage (n_core n)) h = Some b \<Longrightarrow> stored (n_core n) b"
  using find_blkD(1) [OF core_wfD(1) [OF node_invD(6)]] by (simp add: stored_def)

lemma on_fetch_blk_inv:
  assumes inv: "node_inv N g n ts" and b: "stored (n_core n) b" and run: "on_fetch_blk b n = (ts', n')"
  shows "keeps N g ts (ts', n')" and "n_core n' = n_core n"
proof -
  let ?n = "n\<lparr>n_part_fetched := n_part_fetched n + 1, n_fetched := n_fetched n + 1\<rparr>"
  let ?h = "blk_hash (blk (n_core n) b)"
  have n1: "node_inv N g ?n ts" by (rule same_state_inv [OF inv]) (simp add: same_state_def)
  have "keeps N g ts (ts', n') \<and> n_core n' = n_core n"
  proof (cases "n_fetch_waiting n ?h")
    case None
    with run n1 show ?thesis by (auto simp: on_fetch_blk_def Let_def intro: keeps_refl)
  next
    case (Some fc)
    obtain t n2 where r: "n_resolve (fc_pm fc) (Some (VBlk b)) ?n = (t, n2)" by force
    have "pm_type g (fc_pm fc) = Some (TStored ?h)" using inv Some by (simp add: node_inv_def rest_ok_def)
    from inv_resolve [OF n1 this _ r] stored_found [OF inv b]
    have "node_inv N g n2 (t @ ts)" "n_core n2 = n_core n" by simp_all
    with keeps_next [OF keeps_refl, of N g n2 t ts "EraseFetch ?h"] run Some r
    show ?thesis by (auto simp: on_fetch_blk_def Let_def)
  qed
  then show "keeps N g ts (ts', n')" "n_core n' = n_core n" by simp_all
qed

lemma on_fetch_blks_inv:
  assumes inv: "node_inv N g n ts" and bs: "list_all (stored (n_core n)) bs"
  shows "keeps N g ts (snd (on_fetch_blks bs n))"
proof (cases bs)
  case (Cons b bs')
  obtain t n1 where r: "on_fetch_blk b n = (t, n1)" by force
  from Cons bs have b: "stored (n_core n) b" "list_all (stored (n_core n)) bs'" by simp_all
  note f = on_fetch_blk_inv [OF inv b(1) r]
  from f(1) obtain g' where g': "extended g g'" "node_inv N g' n1 (t @ ts)" by (rule keepsE) simp
  from inv_next_last [OF g'(2), of "OnFetchBlks bs'"] b(2) f(2)
  have "node_inv N g' n1 ((t @ [next_task (OnFetchBlks bs')]) @ ts)" by simp
  from keepsI [OF g'(1) this] show ?thesis by (simp add: on_fetch_blks_def Cons r)
qed (use inv in \<open>simp add: on_fetch_blks_def keeps_refl\<close>)

section \<open>Delivering blocks\<close>

lemma async_deliver_blk_inv:
  assumes inv: "node_inv N g n ts" and run: "async_deliver_blk E h replica n = (r, ts', n')"
  shows "after N g (ts' @ ts) n' (\<lambda>g'. \<forall>p. r = Inr p \<longrightarrow> pm_type g' p = Some (TDelivered h))"
    and "n_core n' = n_core n"
proof -
  let ?st = "c_storage (n_core n)"
  have "after N g (ts' @ ts) n' (\<lambda>g'. \<forall>p. r = Inr p \<longrightarrow> pm_type g' p = Some (TDelivered h)) \<and> n_core n' = n_core n"
  proof (cases "is_blk_delivered ?st h")
    case True
    then obtain b where b: "find_blk ?st h = Some b" "blk_delivered (blk (n_core n) b)"
      by (auto simp: is_blk_delivered_def find_blk_def split: option.splits)
    then have "delivered ?st b" using found_stored [OF inv b(1)] by (simp add: delivered_def stored_def)
    moreover obtain p where "r = Inr p" "ts' = []" "n_resolved (Some (VBlk b)) n = (p, n')"
      using run True b(1) by (auto simp: async_deliver_blk_def split: prod.splits)
    ultimately show ?thesis using inv_resolved [OF inv, of "TDelivered h" "Some (VBlk b)"] b(1)
      by (auto simp: after_def)
  next
    case nd: False
    show ?thesis
    proof (cases "n_delivery_waiting n h")
      case (Some p)
      with run nd have "r = Inr p" "ts' = []" "n' = n" by (simp_all add: async_deliver_blk_def)
      with inv Some show ?thesis by (auto intro!: after_refl simp: node_inv_def rest_ok_def)
    next
      case None
      obtain pm n0 where n0: "n_new_pm n = (pm, n0)" by force
      let ?n1 = "n0\<lparr>n_delivery_waiting := (n_delivery_waiting n0)(h \<mapsto> pm)\<rparr>"
      obtain x n2 where f: "async_fetch_blk E h (Some replica) True ?n1 = (x, n2)" by force
      from inv_new_pm(1) [OF inv n0, of "TDelivered h"] inv_new_pm(2) [OF inv n0] obtain g1 where
        g1: "extended g g1" "pm_type g1 pm = Some (TDelivered h)" "node_inv N g1 n0 ts" "n_core n0 = n_core n"
        by auto
      then have "node_inv N g1 ?n1 ts" by (intro set_waiting(2))
      from async_fetch_blk_inv [OF this f] obtain g2 where
        g2: "extended g1 g2" "node_inv N g2 n2 ts" "n_core n2 = n_core n"
          "\<And>p. x = Inr p \<Longrightarrow> pm_type g2 p = Some (TStored h)"
        using g1(4) by (auto elim: afterE)
      show ?thesis
      proof (cases x)
        case (Inl e)
        with run nd None n0 f have "r = Inl e" "ts' = []" "n' = n2"
          by (simp_all add: async_deliver_blk_def Let_def)
        with g1(4) g2(2,3) afterI [OF extended_trans [OF g1(1) g2(1)]] show ?thesis by simp
      next
        case (Inr p)
        obtain q t n3 where th: "n_then p (FetchedForDelivery replica) n2 = (q, t, n3)" by (rule prod_cases3)
        with run nd None n0 f Inr have r: "r = Inr pm" "ts' = t" "n' = n3"
          by (simp_all add: async_deliver_blk_def Let_def)
        from inv_then [OF g2(2) g2(4) [OF Inr] _ th] obtain g3 where
          "extended g2 g3" "node_inv N g3 n3 (t @ ts)" "n_core n3 = n_core n2" by auto
        with g1 g2 r extended_type [OF extended_trans [of g1 g2 g3]] show ?thesis
          by (auto intro!: afterI [of g g3] intro: extended_trans)
      qed
    qed
  qed
  then show "after N g (ts' @ ts) n' (\<lambda>g'. \<forall>p. r = Inr p \<longrightarrow> pm_type g' p = Some (TDelivered h))"
    and "n_core n' = n_core n" by simp_all
qed

lemma blk_verify_promise_inv:
  assumes inv: "node_inv N g n ts" and q: "blk_qc (blk (n_core n) b) = Some q"
    and run: "blk_verify_promise b n = (r, n')"
  shows "after N g ts n' (\<lambda>g'. \<forall>p. r = Inr p \<longrightarrow> (\<exists>t. cert_ty (n_core n) b q t \<and> pm_type g' p = Some t))"
    and "n_core n' = n_core n"
proof -
  have "after N g ts n' (\<lambda>g'. \<forall>p. r = Inr p \<longrightarrow> (\<exists>t. cert_ty (n_core n) b q t \<and> pm_type g' p = Some t)) \<and>
      n_core n' = n_core n"
  proof (cases "qc_obj_hash q = blk_hash (blk (n_core n) (c_b0 (n_core n)))")
    case True
    with run q obtain p where r: "r = Inr p" "n_resolved (Some (VBool True)) n = (p, n')"
      by (auto simp: blk_verify_promise_def Let_def split: prod.splits)
    from inv_resolved [OF inv _ r(2), of TTrue] True r(1) show ?thesis
      by (auto simp: after_def value_ok_def cert_ty_def)
  next
    case False
    with run q have "qc_verify_promise (c_config (n_core n)) q n = (r, n')"
      by (simp add: blk_verify_promise_def Let_def)
    from qc_verify_promise_inv [OF inv this] show ?thesis by (auto simp: cert_ty_def elim!: after_mono)
  qed
  then show "after N g ts n' (\<lambda>g'. \<forall>p. r = Inr p \<longrightarrow> (\<exists>t. cert_ty (n_core n) b q t \<and> pm_type g' p = Some t))"
    and "n_core n' = n_core n" by simp_all
qed

lemma fetched_for_delivery_inv:
  assumes inv: "node_inv N g n ts" and b: "stored (n_core n) b"
  shows "keeps N g ts (snd (fetched_for_delivery E replica b n))"
proof (cases "blk_qc (blk (n_core n) b)")
  case (Some q)
  define m where "m = (if b = get_genesis (n_core n)
      then let (p, n) = n_resolved (Some (VBool True)) n in (Inr p, n) else blk_verify_promise b n)"
  obtain r1 n1 where m: "m = (r1, n1)" by force
  have "after N g ts n1 (\<lambda>g'. \<forall>p. r1 = Inr p \<longrightarrow> (\<exists>t. cert_ty (n_core n) b q t \<and> pm_type g' p = Some t)) \<and>
      n_core n1 = n_core n"
  proof (cases "b = get_genesis (n_core n)")
    case True
    then obtain p where r: "r1 = Inr p" "n_resolved (Some (VBool True)) n = (p, n1)"
      using m by (auto simp: m_def split: prod.splits)
    from inv_resolved [OF inv _ r(2), of TTrue] True r(1) show ?thesis
      by (auto simp: after_def value_ok_def cert_ty_def get_genesis_def)
  next
    case False
    with m have "blk_verify_promise b n = (r1, n1)" by (simp add: m_def)
    from blk_verify_promise_inv [OF inv Some this] show ?thesis by simp
  qed
  then obtain g1 where g1: "extended g g1" "node_inv N g1 n1 ts" "n_core n1 = n_core n"
    "\<And>p. r1 = Inr p \<Longrightarrow> \<exists>t. cert_ty (n_core n) b q t \<and> pm_type g1 p = Some t" by (auto elim: afterE)
  show ?thesis
  proof (cases r1)
    case (Inl e)
    with Some m g1(1,2) show ?thesis by (simp add: fetched_for_delivery_def m_def [symmetric] keepsI)
  next
    case (Inr p1)
    from g1(4) [OF Inr] obtain t where t: "cert_ty (n_core n) b q t" "pm_type g1 p1 = Some t" by blast
    obtain r2 n2 where f: "async_fetch_blk E (qc_obj_hash q) (Some replica) True n1 = (r2, n2)" by force
    from async_fetch_blk_inv [OF g1(2) f] obtain g2 where g2: "extended g1 g2" "node_inv N g2 n2 ts"
      "n_core n2 = n_core n" "\<And>p. r2 = Inr p \<Longrightarrow> pm_type g2 p = Some (TStored (qc_obj_hash q))"
      using g1(3) by (auto elim: afterE)
    note ext = extended_trans [OF g1(1) g2(1)]
    show ?thesis
    proof (cases r2)
      case (Inl e)
      with Some m Inr f ext g2(2) show ?thesis by (simp add: fetched_for_delivery_def m_def [symmetric] keepsI)
    next
      case Inr2: (Inr p2)
      let ?k = "DeliverParents b replica [p1, p2] (blk_parent_hashes (blk (n_core n2) b))"
      have "parent_tys (n_core n2) b [] [t, TStored (qc_obj_hash q)]"
        using b Some t(1) by (simp add: parent_tys_def g2(3))
      moreover have "typed_as (pm_type g2) [p1, p2] [t, TStored (qc_obj_hash q)]"
        using extended_type [OF g2(1) t(2)] g2(4) [OF Inr2] by simp
      ultimately have "accepts (n_core n2) (pm_type g2) ?k TAny" by auto
      from inv_next [OF g2(2) this] have "keeps N g ts ([next_task ?k], n2)" by (intro keepsI [OF ext]) simp
      with Some m Inr f Inr2 show ?thesis by (simp add: fetched_for_delivery_def m_def [symmetric])
    qed
  qed
qed (use inv in \<open>simp add: fetched_for_delivery_def keeps_refl\<close>)

lemma all_then_inv:
  assumes inv: "node_inv N g n ts" and ps: "typed_as (pm_type g) ps tys"
    and k: "accepts (n_core n) (pm_type g) k (TAll tys)"
  shows "keeps N g ts (snd (all_then ps k n))"
proof -
  obtain r n1 where a: "n_all ps n = (r, n1)" by force
  show ?thesis
  proof (cases r)
    case (Inl e)
    with n_all_error a have "n1 = n" by simp
    with inv a Inl show ?thesis by (simp add: all_then_def keeps_refl)
  next
    case (Inr p)
    with a have "n_all ps n = (Inr p, n1)" by simp
    from inv_all(1) [OF inv ps this] inv_all(2) [OF inv ps this] obtain g1 where
      g1: "extended g g1" "pm_type g1 p = Some (TAll tys)" "node_inv N g1 n1 ts" "n_core n1 = n_core n" by auto
    obtain q t n2 where th: "n_then p k n1 = (q, t, n2)" by (rule prod_cases3)
    have "accepts (n_core n1) (pm_type g1) k (TAll tys)"
      using accepts_mono [OF net_le_refl _ k, of "pm_type g1"] g1(1,4) by (simp add: extended_def)
    from then_keeps [OF g1(3,2) this] have "keeps N g1 ts (t, n2)" by (simp add: th)
    from keeps_ext [OF g1(1) this] a Inr th show ?thesis by (simp add: all_then_def)
  qed
qed

lemma deliver_parents_inv:
  assumes inv: "node_inv N g n ts"
    and hs: "blk_parent_hashes (blk (n_core n) b) = hs0 @ hs" "parent_tys (n_core n) b hs0 tys"
    and ps: "typed_as (pm_type g) ps tys"
  shows "keeps N g ts (snd (deliver_parents E b replica ps hs n))"
proof (cases hs)
  case Nil
  with hs have "accepts (n_core n) (pm_type g) (ReadyForDelivery b) (TAll tys)" by simp
  from all_then_inv [OF inv ps this] Nil show ?thesis by simp
next
  case (Cons h hs')
  obtain r t n1 where a: "async_deliver_blk E h replica n = (r, t, n1)" by (rule prod_cases3)
  from async_deliver_blk_inv [OF inv a] obtain g1 where
    g1: "extended g g1" "node_inv N g1 n1 (t @ ts)" "n_core n1 = n_core n"
      "\<And>p. r = Inr p \<Longrightarrow> pm_type g1 p = Some (TDelivered h)" by (auto elim: afterE)
  show ?thesis
  proof (cases r)
    case (Inl e)
    with Cons a g1(1,2) show ?thesis by (simp add: keepsI)
  next
    case (Inr p)
    let ?k = "DeliverParents b replica (ps @ [p]) hs'"
    have T: "pm_type g \<subseteq>\<^sub>m pm_type g1" using g1(1) by (simp add: extended_def)
    have "typed_as (pm_type g1) (ps @ [p]) (tys @ [TDelivered h])"
      using typed_as_mono [OF T ps] g1(4) [OF Inr] by (simp add: list_all2_appendI)
    moreover have "parent_tys (n_core n1) b (hs0 @ [h]) (tys @ [TDelivered h])"
      using hs(2) by (auto simp: parent_tys_def g1(3))
    moreover have "blk_parent_hashes (blk (n_core n1) b) = (hs0 @ [h]) @ hs'"
      using hs(1) Cons by (simp add: g1(3))
    ultimately have "accepts (n_core n1) (pm_type g1) ?k TAny" by (simp only: accepts.simps) blast
    from inv_next_last [OF g1(2) this] have "keeps N g ts (t @ [next_task ?k], n1)" by (rule keepsI [OF g1(1)])
    with Cons a Inr show ?thesis by simp
  qed
qed

text \<open>
  The block is delivered in the core, and the promise of its delivery settled. The assertion
  holds: the promises of the parents' deliveries are fulfilled.
\<close>

lemma base_on_deliver_blk_inv:
  assumes inv: "node_inv N g n ts" and size: "size_ok n" and b: "stored (n_core n) b"
    and qc: "blk_qc (blk (n_core n) b) = Some q" "is_blk_fetched (c_storage (n_core n)) (qc_obj_hash q)"
    and run: "base_on_deliver_blk b n = (r, ts', n')" and surv: "survives r"
  shows "keeps N g ts (ts', n')"
proof (cases "list_all (is_blk_delivered (c_storage (n_core n))) (blk_parent_hashes (blk (n_core n) b))")
  case hs: True
  let ?h = "blk_hash (blk (n_core n) b)"
  obtain y t n1 where c: "call_core (on_deliver_blk b) n = (y, t, n1)" by (rule prod_cases3)
  have "survives y" using run surv hs c by (cases y) (auto simp: base_on_deliver_blk_def Let_def)
  note D = deliver_call [OF inv size b hs qc c this]
  from D(3) obtain valid where y: "y = Inr valid" by blast
  let ?hs = "blk_parent_hashes (blk (n_core n) b)"
  define n2 where "n2 = (if valid
      then n1\<lparr>n_part_parent_size := n_part_parent_size n1 + word_of_nat (length ?hs),
              n_part_delivered := n_part_delivered n1 + 1, n_delivered := n_delivered n1 + 1\<rparr> else n1)"
  have same: "same_state n1 n2" by (simp add: n2_def same_state_def)
  have inv2: "node_inv N g n2 (t @ ts)" by (rule same_state_inv [OF D(1) same])
  have "core_le (n_core n) (n_core n1)"
    using on_deliver_blk_kept c by (auto simp: call_core_def split: prod.splits)
  then have find: "find_blk (c_storage (n_core n2)) ?h = Some b"
    using core_leD(4) stored_found [OF inv b] same by (simp add: same_state_def)
  show ?thesis
  proof (cases "n_delivery_waiting n2 ?h")
    case None
    with run hs c y have "ts' = t" "n' = n2" by (auto simp: base_on_deliver_blk_def Let_def n2_def)
    with inv2 show ?thesis by (simp add: keeps_refl)
  next
    case (Some pm)
    have pm: "pm_type g pm = Some (TDelivered ?h)" using inv2 Some by (simp add: node_inv_def rest_ok_def)
    obtain t' n3 where s: "(if valid then n_resolve pm (Some (VBlk b)) n2 else n_reject pm (Some (VBlk b)) n2) = (t', n3)"
      by (rule prod.exhaust)
    have "has_type (e_crypto (ne_env N)) (n_core n2) (TDelivered ?h) (Some (VBlk b))" if valid
      using find D(2) same that by (simp add: y same_state_def)
    with inv_resolve(1) [OF inv2 pm] inv_reject(1) [OF inv2, of pm] pm s
    have "node_inv N g n3 (t' @ t @ ts)" by (auto split: if_splits)
    then have "keeps N g ts (t @ t', n3)" by (intro keeps_refl inv_swap)
    from keeps_next [OF this, of "EraseDelivery ?h"] run hs c y Some s
    show ?thesis by (cases valid) (auto simp: base_on_deliver_blk_def Let_def n2_def)
  qed
next
  case False
  with run surv show ?thesis by (auto simp: base_on_deliver_blk_def Let_def fatal_def)
qed

lemma ready_for_delivery_inv:
  assumes inv: "node_inv N g n ts" and size: "size_ok n"
    and acc: "accepts (n_core n) T (ReadyForDelivery b) t" and v: "has_type C (n_core n) t (Some (VAll vs))"
    and run: "ready_for_delivery b vs n = (r, ts', n')" and surv: "survives r"
  shows "keeps N g ts (ts', n')"
proof -
  from acc obtain q t0 where b: "stored (n_core n) b" "blk_qc (blk (n_core n) b) = Some q"
    "t = TAll (t0 # TStored (qc_obj_hash q) # map TDelivered (blk_parent_hashes (blk (n_core n) b)))"
    by (auto simp: parent_tys_def)
  with v have "is_blk_fetched (c_storage (n_core n)) (qc_obj_hash q)"
    by (auto simp: list_all2_Cons1 is_blk_fetched_def find_blk_def)
  from base_on_deliver_blk_inv [OF inv size b(1,2) this] run surv inv show ?thesis
    by (auto simp: ready_for_delivery_def keeps_refl split: list.splits option.splits pm_value.splits if_splits)
qed

section \<open>Message handlers\<close>

lemma propose_handler_inv:
  assumes inv: "node_inv N g n ts" and size: "size_ok n" "size_ok n'"
    and run: "propose_handler (ne_env N) s conn n = (r, ts', n')"
  shows "keeps N g ts (ts', n')"
proof (cases conn)
  case None
  with run inv show ?thesis by (auto simp: propose_handler_def keeps_refl)
next
  case (Some peer)
  let ?c = "n_core n"
  obtain x st where p: "msg_propose_parse (ne_env N) s (c_storage ?c) = (x, st)" by force
  define n1 where "n1 = n\<lparr>n_core := ?c\<lparr>c_storage := st\<rparr>\<rparr>"
  have cs: "call_storage (msg_propose_parse (ne_env N) s) n = (x, n1)"
    using p by (simp add: call_storage_def n1_def)
  have n1: "node_inv N g n1 ts" and st: "\<And>prop b. x = Inr prop \<Longrightarrow> p_blk prop = Some b \<Longrightarrow> stored (n_core n1) b"
  proof -
    have "node_inv N g n1 ts \<and> (\<forall>prop b. x = Inr prop \<longrightarrow> p_blk prop = Some b \<longrightarrow> stored (n_core n1) b)"
    proof (cases "st = c_storage ?c \<and> (\<exists>e. x = Inl e)")
      case True
      then have "?c\<lparr>c_storage := st\<rparr> = ?c" by simp
      then have "n1 = n" by (simp add: n1_def)
      with inv True show ?thesis by auto
    next
      case False
      with p obtain b s' s'' rr where b: "get_block_data (ne_env N) s' = Inr (b, s'')"
        "add_blk b (c_storage ?c) = (rr, st)" "\<And>prop. x = Inr prop \<Longrightarrow> p_blk prop = Some rr"
        by (auto simp: msg_propose_parse_def get_proposal_def Let_def bindE_Inr_iff
            split: sum.splits prod.splits)
      from store_step [OF node_invD(1) [OF inv] _ node_invD(2) [OF inv] b(1,2)] size(1)
      have "core_reachable (ne_env N) (?c\<lparr>c_storage := st\<rparr>) \<and> core_le ?c (?c\<lparr>c_storage := st\<rparr>) \<and>
          tails_ok (?c\<lparr>c_storage := st\<rparr>) \<and> stored (?c\<lparr>c_storage := st\<rparr>) rr" by (simp add: size_ok_def)
      with inv_core [OF inv, of "?c\<lparr>c_storage := st\<rparr>"] b(3) show ?thesis by (auto simp: n1_def)
    qed
    then show "node_inv N g n1 ts" "\<And>prop b. x = Inr prop \<Longrightarrow> p_blk prop = Some b \<Longrightarrow> stored (n_core n1) b"
      by blast+
  qed
  show ?thesis
  proof (cases "\<exists>prop b proposer. x = Inr prop \<and> p_blk prop = Some b \<and>
      get_peer_id (get_config (n_core n1)) (p_proposer prop) = Inr proposer \<and> peer = proposer")
    case False
    then have "ts' = [] \<and> n' = n1"
      using run Some cs unfolding propose_handler_def
      by (auto split: sum.splits option.splits if_splits)
    with n1 show ?thesis by (simp add: keeps_refl)
  next
    case True
    then obtain pr b where x: "x = Inr pr" "p_blk pr = Some b"
      "get_peer_id (get_config (n_core n1)) (p_proposer pr) = Inr peer" by blast
    let ?h = "blk_hash (blk (n_core n1) b)"
    obtain y t n2 where d: "async_deliver_blk (ne_env N) ?h peer n1 = (y, t, n2)" by (rule prod_cases3)
    from async_deliver_blk_inv [OF n1 d] obtain g1 where
      g1: "extended g g1" "node_inv N g1 n2 (t @ ts)" "n_core n2 = n_core n1"
        "\<And>p. y = Inr p \<Longrightarrow> pm_type g1 p = Some (TDelivered ?h)" by (auto elim: afterE)
    show ?thesis
    proof (cases y)
      case (Inl e)
      with run Some cs x d have "ts' = t" "n' = n2" by (simp_all add: propose_handler_def)
      with g1(1,2) show ?thesis by (simp add: keepsI)
    next
      case (Inr p)
      let ?k = "AllThen [p] (DeliveredForProposal pr)"
      have "find_blk (c_storage (n_core n2)) ?h = Some b" using stored_found [OF n1 st [OF x(1,2)]] g1(3) by simp
      then have "accepts (n_core n2) (pm_type g1) ?k TAny" using x(2) g1(4) [OF Inr] by (auto simp: list_all2_Cons1)
      from inv_next_last [OF g1(2) this] have "keeps N g ts (t @ [next_task ?k], n2)" by (rule keepsI [OF g1(1)])
      moreover have "ts' = t @ [next_task ?k]" "n' = n2" using run Some cs x d Inr by (simp_all add: propose_handler_def)
      ultimately show ?thesis by simp
    qed
  qed
qed

lemma vote_handler_inv:
  assumes inv: "node_inv N g n ts"
  shows "keeps N g ts (snd (vote_handler E s conn n))"
proof (cases "\<exists>peer v. conn = Some peer \<and> msg_vote_parse E s = Inr v")
  case False
  then have "\<exists>r. vote_handler E s conn n = (r, [], n)"
    by (auto simp: vote_handler_def split: option.split sum.split)
  with inv show ?thesis by (auto simp: keeps_refl)
next
  case True
  then obtain peer v where v: "conn = Some peer" "msg_vote_parse E s = Inr v" by blast
  obtain y t n1 where d: "async_deliver_blk E (v_blk_hash v) peer n = (y, t, n1)" by (rule prod_cases3)
  from async_deliver_blk_inv [OF inv d] obtain g1 where
    g1: "extended g g1" "node_inv N g1 n1 (t @ ts)"
      "\<And>p. y = Inr p \<Longrightarrow> pm_type g1 p = Some (TDelivered (v_blk_hash v))" by (auto elim: afterE)
  show ?thesis
  proof (cases y)
    case (Inl e)
    with v d g1(1,2) show ?thesis by (simp add: vote_handler_def keepsI)
  next
    case (Inr p)
    from inv_next_last [OF g1(2), of "CheckVote v p"] g1(3) [OF Inr]
    have "keeps N g ts (t @ [next_task (CheckVote v p)], n1)" by (intro keepsI [OF g1(1)]) simp
    with v d Inr show ?thesis by (simp add: vote_handler_def)
  qed
qed

lemma check_vote_inv:
  assumes inv: "node_inv N g n ts" and p: "pm_type g p = Some (TDelivered (v_blk_hash v))"
  shows "keeps N g ts (snd (check_vote E v p n))"
proof (cases "\<exists>cert pk. v_hsc v \<and> v_cert v = Some cert \<and> get_pubkey (get_config (n_core n)) (v_voter v) = Inr pk")
  case False
  then have "\<exists>r. check_vote E v p n = (r, [], n)"
    by (auto simp: check_vote_def split: option.split sum.split)
  with inv show ?thesis by (auto simp: keeps_refl)
next
  case True
  then obtain cert pk where v: "v_hsc v" "v_cert v = Some cert"
    "get_pubkey (get_config (n_core n)) (v_voter v) = Inr pk" by blast
  obtain y n1 where c: "cert_verify_pool E cert pk n = (y, n1)" by force
  from cert_verify_pool_inv [OF inv v(2) v(3) c] obtain g1 where
    g1: "extended g g1" "node_inv N g1 n1 ts" "n_core n1 = n_core n"
      "\<And>q. y = Inr q \<Longrightarrow> \<exists>t. pm_type g1 q = Some t \<and> cert_task (get_config (n_core n)) v t" by (auto elim: afterE)
  show ?thesis
  proof (cases y)
    case (Inl e)
    with v c g1(1,2) show ?thesis by (simp add: check_vote_def keepsI)
  next
    case (Inr q)
    from g1(4) [OF Inr] obtain t where t: "pm_type g1 q = Some t" "cert_task (get_config (n_core n)) v t" by blast
    obtain r ts1 n2 where m: "n_then_map q (MatchHash v) n1 = (r, ts1, n2)" by (rule prod_cases3)
    have "maps t (MatchHash v) (TVote (get_config (n_core n)) v)" using t(2) by simp
    from inv_then_map(1) [OF g1(2) t(1) this m] inv_then_map(2) [OF g1(2) t(1) this m] obtain g2 where
      g2: "extended g1 g2" "pm_type g2 r = Some (TVote (get_config (n_core n)) v)"
        "node_inv N g2 n2 (ts1 @ ts)" "n_core n2 = n_core n1" by auto
    note ext = extended_trans [OF g1(1) g2(1)]
    let ?k = "AllThen [p, r] (CheckedVote v)"
    have "accepts (n_core n2) (pm_type g2) ?k TAny"
      using extended_type [OF ext p] g2(2,4) g1(3) by (auto simp: get_config_def list_all2_Cons1)
    from inv_next_last [OF g2(3) this] have "keeps N g ts (ts1 @ [next_task ?k], n2)" by (rule keepsI [OF ext])
    with v c Inr m show ?thesis by (simp add: check_vote_def)
  qed
qed

lemma checked_vote_inv:
  assumes inv: "node_inv N g n ts" and size: "size_ok n"
    and run: "checked_vote (ne_env N) v vs n = (r, ts', n')" and surv: "survives r"
  shows "keeps N g ts (ts', n')"
proof (cases "\<exists>w. vs = [w, Some (VBool True)]")
  case True
  with run have "call_core (on_receive_vote (ne_env N) v) n = (r, ts', n')" by (auto simp: checked_vote_def)
  from receive_vote_call [OF inv size this surv] show ?thesis by (rule keeps_refl)
next
  case False
  then have "ts' = [] \<and> n' = n"
    using run by (auto simp: checked_vote_def split: list.splits option.splits pm_value.splits if_splits)
  with inv show ?thesis by (simp add: keeps_refl)
qed

lemma fetch_all_inv:
  assumes "node_inv N g n ts" and "fetch_all E hs n = (r, n')"
  shows "after N g ts n' (\<lambda>g'. \<forall>ps. r = Inr ps \<longrightarrow> typed_as (pm_type g') ps (map TStored hs))"
  using assms
proof (induction hs arbitrary: g n r n')
  case Nil
  then show ?case by (auto intro: after_refl)
next
  case (Cons h hs)
  obtain y n1 where f: "async_fetch_blk E h None True n = (y, n1)" by force
  from async_fetch_blk_inv(1) [OF Cons.prems(1) f] obtain g1 where
    g1: "extended g g1" "node_inv N g1 n1 ts" "\<And>p. y = Inr p \<Longrightarrow> pm_type g1 p = Some (TStored h)"
    by (auto elim: afterE)
  show ?case
  proof (cases y)
    case (Inl e)
    with Cons.prems(2) f g1(1,2) show ?thesis by (auto intro: afterI)
  next
    case (Inr p)
    obtain z n2 where z: "fetch_all E hs n1 = (z, n2)" by force
    from Cons.IH [OF g1(2) z] obtain g2 where g2: "extended g1 g2" "node_inv N g2 n2 ts"
      "\<And>ps. z = Inr ps \<Longrightarrow> typed_as (pm_type g2) ps (map TStored hs)" by (auto elim: afterE)
    have "n' = n2" "\<And>ps. r = Inr ps \<Longrightarrow> \<exists>ps'. z = Inr ps' \<and> ps = p # ps'"
      using Cons.prems(2) f Inr z by (cases z; auto)+
    moreover have "typed_as (pm_type g2) ps (map TStored (h # hs))" if "r = Inr ps" for ps
      using calculation(2) [OF that] g2(3) extended_type [OF g2(1) g1(3) [OF Inr]] by auto
    ultimately show ?thesis using g2(2) by (intro afterI [OF extended_trans [OF g1(1) g2(1)]]) auto
  qed
qed

lemma req_blk_handler_inv:
  assumes inv: "node_inv N g n ts"
  shows "keeps N g ts (snd (req_blk_handler E s conn n))"
proof (cases "\<exists>hs replica. msg_req_block_parse (e_stream E) s = Inr hs \<and> conn = Some replica")
  case False
  then have "\<exists>r. req_blk_handler E s conn n = (r, [], n)"
    by (auto simp: req_blk_handler_def split: option.split sum.split)
  with inv show ?thesis by (auto simp: keeps_refl)
next
  case True
  then obtain hs replica where h: "msg_req_block_parse (e_stream E) s = Inr hs" "conn = Some replica" by blast
  obtain y n1 where f: "fetch_all E hs n = (y, n1)" by force
  from fetch_all_inv [OF inv f] obtain g1 where g1: "extended g g1" "node_inv N g1 n1 ts"
    "\<And>ps. y = Inr ps \<Longrightarrow> typed_as (pm_type g1) ps (map TStored hs)" by (auto elim: afterE)
  show ?thesis
  proof (cases y)
    case (Inl e)
    with h f g1(1,2) show ?thesis by (simp add: req_blk_handler_def keepsI)
  next
    case (Inr ps)
    have "keeps N g1 ts (snd (all_then ps (FetchedForRequest replica) n1))"
      by (rule all_then_inv [OF g1(2) g1(3) [OF Inr]]) auto
    from keeps_ext [OF g1(1) this] h f Inr show ?thesis by (simp add: req_blk_handler_def)
  qed
qed

lemma resp_blk_handler_inv:
  assumes inv: "node_inv N g n ts" and size: "size_ok n'"
    and run: "resp_blk_handler (ne_env N) s n = (r, ts', n')"
  shows "keeps N g ts (ts', n')"
proof -
  let ?c = "n_core n"
  obtain x st where p: "msg_resp_block_parse (ne_env N) s (c_storage ?c) = (x, st)" by force
  define n1 where "n1 = n\<lparr>n_core := ?c\<lparr>c_storage := st\<rparr>\<rparr>"
  have cs: "call_storage (msg_resp_block_parse (ne_env N) s) n = (x, n1)"
    using p by (simp add: call_storage_def n1_def)
  then have n': "n' = n1" "ts' = (case x of Inl e \<Rightarrow> [] | Inr bs \<Rightarrow> [next_task (OnFetchBlks bs)])"
    using run by (auto simp: resp_blk_handler_def split: sum.splits)
  have "core_reachable (ne_env N) (?c\<lparr>c_storage := st\<rparr>) \<and> core_le ?c (?c\<lparr>c_storage := st\<rparr>) \<and>
      tails_ok (?c\<lparr>c_storage := st\<rparr>) \<and> (\<forall>bs. x = Inr bs \<longrightarrow> list_all (stored (?c\<lparr>c_storage := st\<rparr>)) bs)"
  proof (cases "get_u32 (e_stream (ne_env N)) s")
    case (Inl e)
    with p have "st = c_storage ?c" "x = Inl e" by (simp_all add: msg_resp_block_parse_def)
    then have "?c\<lparr>c_storage := st\<rparr> = ?c" by simp
    with \<open>x = Inl e\<close> node_invD(1,2) [OF inv] show ?thesis by simp
  next
    case (Inr ks)
    then obtain k s' where "get_u32 (e_stream (ne_env N)) s = Inr (k, s')" by (cases ks) auto
    with p have "add_parsed (ne_env N) (unat (letoh (e_stream (ne_env N)) k)) s' (c_storage ?c) = (x, st)"
      by (simp add: msg_resp_block_parse_def)
    from add_parsed_steps [OF this node_invD(1,2) [OF inv]] size n' show ?thesis
      by (simp add: size_ok_def n1_def)
  qed
  then have "node_inv N g n1 ts" "\<forall>bs. x = Inr bs \<longrightarrow> list_all (stored (n_core n1)) bs"
    using inv_core [OF inv, of "?c\<lparr>c_storage := st\<rparr>"] by (simp_all add: n1_def)
  with inv_next [of N g n1 ts] show ?thesis
    by (cases x) (auto simp: n' intro!: keeps_refl)
qed

lemma slice_handler_inv:
  assumes inv: "node_inv N g n ts" and size: "size_ok n"
    and run: "slice_handler (ne_env N) s conn n = (r, ts', n')" and surv: "survives r"
  shows "keeps N g ts (ts', n')"
proof (cases "ts' = [] \<and> n' = n")
  case False
  then obtain x where "call_core (on_receive_slice (ne_env N) x) n = (r, ts', n')"
    using run by (auto simp: slice_handler_def split: option.splits sum.splits prod.splits if_splits)
  from receive_slice_call [OF inv size this surv] show ?thesis by (rule keeps_refl)
qed (use inv in \<open>simp add: keeps_refl\<close>)

end
