(* ===== verification/NodeReach.thy ===== *)
theory NodeReach
  imports NodeBase
begin

text \<open>
  The reachable states of a replica over the network: it is started, and then the event loop
  handles events one after the other, each with all the callbacks it causes. Whatever messages
  arrive, and in whatever order timers fire and verifications finish, the core is only called as
  include/hotstuff/consensus.h documents it, so all that holds of reachable cores holds.
\<close>

section \<open>Outputs and commands\<close>

lemma do_vote_inv:
  assumes inv: "node_inv N g n ts"
  shows "keeps N g ts (do_vote last_proposer v n)"
proof -
  obtain p n1 where r: "beat_resp last_proposer n = (p, n1)" by force
  then have "\<exists>x. n_resolved (Some (VRid x)) n = (p, n1)" by (auto simp: beat_resp_def)
  then obtain g1 where g1: "extended g g1" "node_inv N g1 n1 ts" "pm_type g1 p = Some TAny"
    using rid_resolved(1) [OF inv] unfolding after_def by blast
  from then_keeps [OF g1(2,3), of "OnBeatResp v"] have "keeps N g1 ts (snd (n_then p (OnBeatResp v) n1))" by simp
  from keeps_ext [OF g1(1) this] r show ?thesis by (auto simp: do_vote_def split: prod.split)
qed

lemma on_beat_resp_inv:
  assumes inv: "node_inv N g n ts" and size: "size_ok n"
    and run: "on_beat_resp (ne_env N) v r n = (x, ts', n')" and surv: "survives x"
  shows "keeps N g ts (ts', n')"
proof (cases "r = get_id (n_core n)")
  case True
  with run have "call_core (on_receive_vote (ne_env N) v) n = (x, ts', n')" by (simp add: on_beat_resp_def)
  from receive_vote_call [OF inv size this surv] show ?thesis by (rule keeps_refl)
next
  case False
  with run have "ts' = [] \<and> same_state n n'" by (auto simp: on_beat_resp_def split: sum.splits)
  with same_state_inv [OF inv] show ?thesis by (simp add: keeps_refl)
qed

lemma do_decide_same: "same_state n (do_decide f n)"
  by (auto simp: do_decide_def Let_def same_state_def tell_def split: option.split)

lemma value_ok_cast: "output_ok c (Resolve i v) \<Longrightarrow> value_ok c (cast_core v)"
  by (cases v) (auto simp: value_ok_def output_ok_def)

lemma handle_output_inv:
  assumes inv: "node_inv N g n ts" and out: "output_ok (n_core n) out"
  shows "keeps N g ts (snd (handle_output E out n))"
proof (cases out)
  case (DoDecide f)
  from same_state_inv [OF inv do_decide_same] DoDecide show ?thesis by (simp add: keeps_refl)
next
  case (DoConsensus b)
  with pm_on_consensus_inv [OF inv, of b] show ?thesis by (simp split: prod.split)
next
  case (DoBroadcastSlice x)
  have "same_state n (snd (do_broadcast_slice E x n))" by (simp add: do_broadcast_slice_def split: sum.split)
  from same_state_inv [OF inv this] DoBroadcastSlice show ?thesis by (auto simp: keeps_refl split: prod.split)
next
  case (DoBroadcastProposals props)
  have "same_state n (snd (do_broadcast_proposal_with_slice E props n))"
    by (simp add: do_broadcast_proposal_with_slice_def send_proposals_same)
  from same_state_inv [OF inv this] DoBroadcastProposals show ?thesis by (auto simp: keeps_refl split: prod.split)
next
  case (DoVote r v)
  with do_vote_inv [OF inv, of r v] show ?thesis by (simp split: prod.split)
next
  case (Resolve i v)
  obtain t n1 where r: "n_resolve (CorePm i) (cast_core v) n = (t, n1)" by force
  have "has_type (e_crypto (ne_env N)) (n_core n) TAny (cast_core v)"
    using out Resolve value_ok_cast by simp
  from inv_resolve(1) [OF inv node_invD(7) [OF inv] this r] Resolve r show ?thesis by (simp add: keeps_refl)
qed

lemma take_command_same: "same_state n (take_command E h cb n)"
  by (auto simp: take_command_def Let_def same_state_def tell_def split: option.split)

lemma propose_commands_inv:
  assumes inv: "node_inv N g n ts" and size: "size_ok n"
  shows "keeps N g ts (propose_commands n)"
proof -
  let ?n = "n\<lparr>n_cmd_pending_buffer := drop (n_blk_size n) (n_cmd_pending_buffer n)\<rparr>"
  let ?k = "OnBeat (take (n_blk_size n) (n_cmd_pending_buffer n))"
  obtain p t n1 where r: "beat ?n = (p, t, n1)" by (rule prod_cases3)
  have "node_inv N g ?n ts" by (rule same_state_inv [OF inv]) (simp add: same_state_def)
  moreover have "size_ok ?n" using size by (simp add: size_ok_def)
  ultimately have "waits N g ts (beat ?n)" by (rule beat_inv)
  then obtain g1 where g1: "extended g g1" "node_inv N g1 n1 (t @ ts)" "pm_type g1 p = Some TAny"
    by (auto simp: waits_def r elim: afterE)
  from inv_next_last [OF g1(2), of "ThenClosure p ?k"] g1(3)
  have "keeps N g ts (t @ [next_task (ThenClosure p ?k)], n1)" by (intro keepsI [OF g1(1)]) simp
  with r show ?thesis by (simp add: propose_commands_def)
qed

lemma cmd_loop_inv:
  assumes "node_inv N g n ts" and "size_ok n"
  shows "keeps N g ts (cmd_loop E q n)"
  using assms
proof (induction E q n rule: cmd_loop.induct)
  case (1 E n)
  have "node_inv N g (n\<lparr>n_cmd_pending := []\<rparr>) ts"
    by (rule same_state_inv [OF 1(1)]) (simp add: same_state_def)
  then show ?case by (simp add: keeps_refl)
next
  case (2 E h cb q n)
  let ?n = "take_command E h cb n"
  have n: "node_inv N g ?n ts" by (rule same_state_inv [OF 2(2) take_command_same])
  have s: "size_ok ?n" using 2(3) take_command_same [of n E h cb] by (simp add: size_ok_def same_state_def)
  have "node_inv N g (?n\<lparr>n_cmd_pending := q\<rparr>) ts"
    by (rule same_state_inv [OF n]) (simp add: same_state_def)
  moreover have "size_ok (?n\<lparr>n_cmd_pending := q\<rparr>)" using s by (simp add: size_ok_def)
  ultimately have "keeps N g ts (propose_commands (?n\<lparr>n_cmd_pending := q\<rparr>))" by (rule propose_commands_inv)
  with 2(1) [OF refl _ n s] show ?case by (auto simp: Let_def)
qed

lemma on_beat_inv:
  assumes inv: "node_inv N g n ts" and size: "size_ok n" and hash: "no_collision (ne_env N) cmds n"
    and run: "on_beat (ne_env N) cmds r n = (x, ts', n')" and surv: "survives x"
  shows "keeps N g ts (ts', n')"
proof (cases "r = get_id (n_core n)")
  case True
  obtain y t n1 where c: "call_core (on_propose (ne_env N) cmds (get_parents n) []) n = (y, t, n1)"
    by (rule prod_cases3)
  with run True have r: "x = (case y of Inl e \<Rightarrow> Inl e | Inr _ \<Rightarrow> Inr ())" "ts' = t" "n' = n1"
    by (auto simp: on_beat_def)
  with surv have "survives y" by (cases y) simp_all
  from propose_call [OF inv size hash c this] r show ?thesis by (simp add: keeps_refl)
next
  case False
  with run inv show ?thesis by (auto simp: on_beat_def keeps_refl)
qed

section \<open>Running tasks and handling events\<close>

text \<open>The commands that a closure, a task or an event may propose, if it proposes at all.\<close>

fun closure_cmds :: "net_env \<Rightarrow> closure \<Rightarrow> node \<Rightarrow> uint256 list option" where
  "closure_cmds N (OnBeat cmds) n = Some cmds"
| "closure_cmds N (RrManual x) n = Some []"
| "closure_cmds N RrRepropose n = Some (ne_hashes N (dom (n_decision_waiting n)))"
| "closure_cmds N k n = None"

fun task_cmds :: "net_env \<Rightarrow> task \<Rightarrow> node \<Rightarrow> uint256 list option" where
  "task_cmds N (RunClosure k v) n = closure_cmds N k n"
| "task_cmds N t n = None"

fun event_cmds :: "event \<Rightarrow> uint256 list option" where
  "event_cmds TimerFires = Some []"
| "event_cmds ev = None"

lemma bad_cast_keeps: "node_inv N g n ts \<Longrightarrow> bad_cast n = (r, ts', n') \<Longrightarrow> keeps N g ts (ts', n')"
  by (auto simp: bad_cast_def keeps_refl)

lemma with_values:
  assumes "node_inv N g n ts"
  shows "with_blk v f n = (r, ts', n') \<Longrightarrow> (\<And>b. v = Some (VBlk b) \<Longrightarrow> f b n = (r, ts', n') \<Longrightarrow> keeps N g ts (ts', n')) \<Longrightarrow>
      keeps N g ts (ts', n')"
    and "with_rid v f1 n = (r, ts', n') \<Longrightarrow> (\<And>b. v = Some (VRid b) \<Longrightarrow> f1 b n = (r, ts', n') \<Longrightarrow> keeps N g ts (ts', n')) \<Longrightarrow>
      keeps N g ts (ts', n')"
    and "with_prop v f2 n = (r, ts', n') \<Longrightarrow> (\<And>b. v = Some (VProp b) \<Longrightarrow> f2 b n = (r, ts', n') \<Longrightarrow> keeps N g ts (ts', n')) \<Longrightarrow>
      keeps N g ts (ts', n')"
    and "with_all v f3 n = (r, ts', n') \<Longrightarrow> (\<And>b. v = Some (VAll b) \<Longrightarrow> f3 b n = (r, ts', n') \<Longrightarrow> keeps N g ts (ts', n')) \<Longrightarrow>
      keeps N g ts (ts', n')"
  using bad_cast_keeps [OF assms]
  by (auto simp: with_blk_def with_rid_def with_prop_def with_all_def split: option.splits pm_value.splits)

text \<open>A lemma of the form \<open>keeps (snd (f n))\<close> at a result of \<open>f\<close>.\<close>

lemma keeps_snd: "f = (r, ts', n') \<Longrightarrow> keeps N g ts (snd f) \<Longrightarrow> keeps N g ts (ts', n')"
  by simp

lemma ok_run_keeps: "ok_run x = (r, ts', n') \<Longrightarrow> keeps N g ts x \<Longrightarrow> keeps N g ts (ts', n')"
  by (simp add: ok_run_def)

lemma no_tasks_keeps:
  "no_tasks x = (r, ts', n') \<Longrightarrow> node_inv N g n ts \<Longrightarrow> same_state n (snd x) \<Longrightarrow> keeps N g ts (ts', n')"
  using same_state_inv by (auto simp: no_tasks_def keeps_refl)

lemma run_closure_inv:
  assumes inv: "node_inv N g n ts" and N: "order_ok N" and size: "size_ok n" "size_ok n'"
    and v: "has_type (e_crypto (ne_env N)) (n_core n) t v" and acc: "accepts (n_core n) (pm_type g) k t"
    and hash: "\<And>cmds. closure_cmds N k n = Some cmds \<Longrightarrow> no_collision (ne_env N) cmds n"
    and run: "run_closure N k v n = (r, ts', n')" and surv: "survives r"
  shows "keeps N g ts (ts', n')"
proof (cases k)
  case (FetchedForDelivery rep)
  with run have "with_blk v (fetched_for_delivery (ne_env N) rep) n = (r, ts', n')" by simp
  then show ?thesis
  proof (rule with_values(1) [OF inv])
    fix b assume b: "v = Some (VBlk b)" and f: "fetched_for_delivery (ne_env N) rep b n = (r, ts', n')"
    have "stored (n_core n) b" using acc v b FetchedForDelivery found_stored [OF inv] by auto
    from keeps_snd [OF f fetched_for_delivery_inv [OF inv this]] show ?thesis .
  qed
next
  case (DeliverParents b rep ps hs)
  with acc obtain hs0 tys where "blk_parent_hashes (blk (n_core n) b) = hs0 @ hs"
    "parent_tys (n_core n) b hs0 tys" "typed_as (pm_type g) ps tys" by auto
  then have "keeps N g ts (snd (deliver_parents (ne_env N) b rep ps hs n))"
    by (rule deliver_parents_inv [OF inv])
  with run DeliverParents show ?thesis by simp
next
  case (ReadyForDelivery b)
  with run have "with_all v (ready_for_delivery b) n = (r, ts', n')" by simp
  then show ?thesis
  proof (rule with_values(4) [OF inv])
    fix vs assume vs: "v = Some (VAll vs)" and f: "ready_for_delivery b vs n = (r, ts', n')"
    have acc': "accepts (n_core n) (pm_type g) (ReadyForDelivery b) t" using acc ReadyForDelivery by (simp only:)
    show "keeps N g ts (ts', n')"
      by (rule ready_for_delivery_inv [OF inv size(1) acc' v [unfolded vs] f surv])
  qed
next
  case (DeliveredForProposal p)
  have "delivered (c_storage (n_core n)) b" if "p_blk p = Some b" for b
    using acc v DeliveredForProposal that by (auto simp: list_all2_Cons1)
  from receive_proposal_call [OF inv size(1) this, of p r ts' n'] run surv DeliveredForProposal
  show ?thesis by (simp add: keeps_refl)
next
  case (CheckVote x p)
  with check_vote_inv [OF inv, of p x "ne_env N"] acc run show ?thesis by simp
next
  case (CheckedVote x)
  with run have "with_all v (checked_vote (ne_env N) x) n = (r, ts', n')" by simp
  then show ?thesis by (rule with_values(4) [OF inv]) (rule checked_vote_inv [OF inv size(1) _ surv])
next
  case (FetchedForRequest rep)
  with run have "with_all v (\<lambda>vs n. no_tasks (fetched_for_request (ne_env N) rep vs n)) n = (r, ts', n')" by simp
  then show ?thesis
  proof (rule with_values(4) [OF inv])
    fix vs assume f: "no_tasks (fetched_for_request (ne_env N) rep vs n) = (r, ts', n')"
    show "keeps N g ts (ts', n')"
      by (rule no_tasks_keeps [OF f inv]) (simp add: fetched_for_request_def send_to_same split: sum.split)
  qed
next
  case (AllThen ps k')
  with acc obtain tys where "typed_as (pm_type g) ps tys" "accepts (n_core n) (pm_type g) k' (TAll tys)" by auto
  from all_then_inv [OF inv this] run AllThen show ?thesis by simp
next
  case (OnFetchBlks bs)
  with on_fetch_blks_inv [OF inv, of bs] acc run show ?thesis by simp
next
  case (EraseFetch h)
  with set_waiting(3) [OF inv, of h] run show ?thesis by (auto simp: keeps_refl)
next
  case (EraseDelivery h)
  with set_waiting(4) [OF inv, of h] run show ?thesis by (auto simp: keeps_refl)
next
  case (OnBeat cmds)
  with run have "with_rid v (on_beat (ne_env N) cmds) n = (r, ts', n')" by simp
  then show ?thesis
    by (rule with_values(2) [OF inv]) (rule on_beat_inv [OF inv size(1) hash _ surv], simp add: OnBeat)
next
  case (OnBeatResp x)
  with run have "with_rid v (on_beat_resp (ne_env N) x) n = (r, ts', n')" by simp
  then show ?thesis by (rule with_values(2) [OF inv]) (rule on_beat_resp_inv [OF inv size(1) _ surv])
next
  case (ThenClosure p k')
  with acc obtain u where "pm_type g p = Some u" "accepts (n_core n) (pm_type g) k' u" by auto
  from then_keeps [OF inv this] run ThenClosure show ?thesis by (simp add: ok_run_def)
next
  case (Output out)
  with handle_output_inv [OF inv, of out "ne_env N"] acc run show ?thesis by simp
next
  case HtHqcUpdate
  with run have "with_blk v (ht_on_hqc_update N) n = (r, ts', n')" by simp
  then show ?thesis
  proof (rule with_values(1) [OF inv])
    fix b assume b: "v = Some (VBlk b)" and f: "ht_on_hqc_update N b n = (r, ts', n')"
    have "delivered (c_storage (n_core n)) b" using acc v b HtHqcUpdate by (simp add: value_ok_def)
    from keeps_snd [OF f ht_on_hqc_update_inv [OF inv N this]] show ?thesis .
  qed
next
  case HtProposal
  with run have "with_prop v ht_on_proposal n = (r, ts', n')" by simp
  then show ?thesis
  proof (rule with_values(3) [OF inv])
    fix p assume p: "v = Some (VProp p)" and f: "ht_on_proposal p n = (r, ts', n')"
    have "delivered (c_storage (n_core n)) b" if "p_blk p = Some b" for b
      using acc v p that HtProposal by (simp add: value_ok_def)
    from keeps_snd [OF f ht_on_proposal_inv [OF inv this]] show ?thesis .
  qed
next
  case HtReceiveProposal
  with run have "with_prop v ht_on_receive_proposal n = (r, ts', n')" by simp
  then show ?thesis
  proof (rule with_values(3) [OF inv])
    fix p assume p: "v = Some (VProp p)" and f: "ht_on_receive_proposal p n = (r, ts', n')"
    have "delivered (c_storage (n_core n)) b" if "p_blk p = Some b" for b
      using acc v p that HtReceiveProposal by (simp add: value_ok_def)
    from keeps_snd [OF f ht_on_receive_proposal_inv [OF inv this]] show ?thesis .
  qed
next
  case (WqQcFinish p)
  with wq_on_qc_finish_inv [OF inv, of p] acc run show ?thesis by (simp add: ok_run_def)
next
  case WqProposal
  with run have "with_prop v wq_on_proposal n = (r, ts', n')" by simp
  then show ?thesis
    by (rule with_values(3) [OF inv]) (rule keeps_snd, assumption, rule wq_on_proposal_inv [OF inv size(1)])
next
  case WqLock
  have "node_inv N g (set_pace (\<lambda>p. p\<lparr>locked := True\<rparr>) n) ts" by (rule pace_set [OF inv]) simp
  with run WqLock show ?thesis by (auto simp: keeps_refl)
next
  case WqUpdateLastProposed
  with update_last_proposed_inv [OF inv] run show ?thesis by (simp add: ok_run_def)
next
  case RrProposal
  with run have "with_prop v (\<lambda>p n. ok_run (rr_on_proposal p n)) n = (r, ts', n')" by simp
  then show ?thesis by (rule with_values(3) [OF inv]) (rule ok_run_keeps, assumption, rule rr_on_proposal_invs(1) [OF inv])
next
  case RrReceiveProposal
  with run have "with_prop v (\<lambda>p n. ok_run (rr_on_receive_proposal p n)) n = (r, ts', n')" by simp
  then show ?thesis by (rule with_values(3) [OF inv]) (rule ok_run_keeps, assumption, rule rr_on_proposal_invs(2) [OF inv])
next
  case (RrAwaitManual x b)
  with rr_await_manual_inv [OF inv size(1), of x b] run show ?thesis by (simp add: ok_run_def)
next
  case (RrManual x)
  with rr_on_manual_inv [OF inv size(1) hash] run surv show ?thesis by simp
next
  case RrRotateTimer
  have "node_inv N g (set_pace (\<lambda>p. p\<lparr>timer := Some (RotateTimer, prop_delay p)\<rparr>) n) ts"
    by (rule pace_set [OF inv]) simp
  with run RrRotateTimer show ?thesis by (auto simp: keeps_refl)
next
  case RrRepropose
  with rr_repropose_inv [OF inv size(1) hash] run surv show ?thesis by simp
qed (use acc in simp_all)

lemma run_task_inv:
  assumes inv: "node_inv N g n (t # ts)" and N: "order_ok N" and size: "size_ok n" "size_ok n'"
    and hash: "\<And>cmds. task_cmds N t n = Some cmds \<Longrightarrow> no_collision (ne_env N) cmds n"
    and run: "run_task N t n = (r, ts', n')" and surv: "survives r"
  shows "keeps N g ts (ts', n')"
proof -
  note tl = inv_tl [OF inv]
  have ok: "net.task_ok (e_crypto (ne_env N)) (n_core n) g t"
    using node_invD(3) [OF inv] by (simp add: net.typed_def)
  show ?thesis
  proof (cases t)
    case (RunCallback cb v)
    obtain ts1 h where c: "run_callback VAll cb v (n_pms n) = (ts1, h)" by force
    from inv_callback [OF inv [unfolded RunCallback] c] run RunCallback c show ?thesis
      by (auto intro: keepsI)
  next
    case (RunClosure k v)
    with ok obtain ty where "has_type (e_crypto (ne_env N)) (n_core n) ty v" "accepts (n_core n) (pm_type g) k ty"
      by auto
    from run_closure_inv [OF tl N size this _ _ surv] hash run RunClosure show ?thesis by simp
  next
    case (RunMap k v p)
    with ok obtain ty u where ty: "has_type (e_crypto (ne_env N)) (n_core n) ty v" "maps ty k u" "pm_type g p = Some u"
      by auto
    show ?thesis
    proof (cases "run_map k v n")
      case (Inl e)
      with run RunMap tl show ?thesis by (auto simp: keeps_refl)
    next
      case (Inr w)
      obtain ts1 n1 where s: "n_resolve p w n = (ts1, n1)" by force
      have "has_type (e_crypto (ne_env N)) (n_core n) u w"
        by (rule map_typed [OF ty(1,2) Inr refl node_invD(6) [OF inv]])
      from inv_resolve(1) [OF tl ty(3) this s] run RunMap Inr s show ?thesis
        by (auto simp: ok_run_def keeps_refl)
    qed
  next
    case (ResolvePm p v)
    with ok obtain ty where ty: "pm_type g p = Some ty" "has_type (e_crypto (ne_env N)) (n_core n) ty v" by auto
    obtain ts1 n1 where s: "n_resolve p v n = (ts1, n1)" by force
    from inv_resolve(1) [OF tl ty s] run ResolvePm s show ?thesis by (auto simp: ok_run_def keeps_refl)
  qed (use ok in simp_all)
qed

lemma fire_timer_inv:
  assumes inv: "node_inv N g n ts" and size: "size_ok n" and hash: "no_collision (ne_env N) [] n"
    and run: "fire_timer N n = (r, ts', n')" and surv: "survives r"
  shows "keeps N g ts (ts', n')"
proof (cases "timer (n_pace n)")
  case None
  with run inv show ?thesis by (auto simp: fire_timer_def keeps_refl)
next
  case (Some x)
  obtain act d where x: "x = (act, d)" by force
  let ?n = "set_pace (\<lambda>p. p\<lparr>timer := None\<rparr>) n"
  have n: "node_inv N g ?n ts" by (rule pace_set [OF inv]) simp
  have h: "no_collision (ne_env N) [] ?n" using hash by (simp add: no_collision_def get_parents_def)
  have s: "size_ok ?n" using size by simp
  show ?thesis
  proof (cases act)
    case RotateTimer
    with run Some x have "rotate_pm ?n = (r, ts', n')" by (simp add: fire_timer_def Let_def)
    from keeps_snd [OF this rotate_pm_inv [OF n]] show ?thesis .
  next
    case ExpTimer
    with run Some x have "on_exp_timeout N ?n = (r, ts', n')" by (simp add: fire_timer_def Let_def)
    from on_exp_timeout_inv [OF n s h this surv] show ?thesis .
  qed
qed

lemma receive_inv:
  assumes inv: "node_inv N g n ts" and size: "size_ok n" "size_ok n'"
    and run: "receive (ne_env N) m conn n = (r, ts', n')" and surv: "survives r"
  shows "keeps N g ts (ts', n')"
proof (cases m)
  case (NetPropose s)
  with run have "propose_handler (ne_env N) s conn n = (r, ts', n')" by simp
  then show ?thesis by (rule propose_handler_inv [OF inv size])
next
  case (NetVote s)
  with run have "vote_handler (ne_env N) s conn n = (r, ts', n')" by simp
  then show ?thesis by (rule keeps_snd) (rule vote_handler_inv [OF inv])
next
  case (NetReqBlock s)
  with run have "req_blk_handler (ne_env N) s conn n = (r, ts', n')" by simp
  then show ?thesis by (rule keeps_snd) (rule req_blk_handler_inv [OF inv])
next
  case (NetRespBlock s)
  with run have "resp_blk_handler (ne_env N) s n = (r, ts', n')" by simp
  then show ?thesis by (rule resp_blk_handler_inv [OF inv size(2)])
next
  case (NetSlice s)
  with run have "slice_handler (ne_env N) s conn n = (r, ts', n')" by simp
  then show ?thesis by (rule slice_handler_inv [OF inv size(1) _ surv])
qed

lemma handle_event_inv:
  assumes inv: "node_inv N g n ts" and size: "size_ok n" "size_ok n'"
    and hash: "\<And>cmds. event_cmds ev = Some cmds \<Longrightarrow> no_collision (ne_env N) cmds n"
    and run: "handle_event N ev n = (r, ts', n')" and surv: "survives r"
  shows "keeps N g ts (ts', n')"
proof (cases ev)
  case (Receive m conn)
  with run have "receive (ne_env N) m conn n = (r, ts', n')" by simp
  then show ?thesis by (rule receive_inv [OF inv size _ surv])
next
  case (FetchTimeout h)
  with run have "no_tasks (fc_timeout N h n) = (r, ts', n')" by simp
  then show ?thesis by (rule no_tasks_keeps [OF _ inv fc_timeout_same])
next
  case (PoolWork k)
  obtain y n1 where w: "vp_work (e_crypto (ne_env N)) k n = (y, n1)" by force
  from vp_work_inv [OF inv w] run PoolWork w show ?thesis by (auto simp: no_tasks_def keeps_refl)
next
  case PoolResult
  obtain t n1 where h: "vp_handle n = (t, n1)" by force
  from vp_handle_inv [OF inv h] run PoolResult h show ?thesis by (auto simp: ok_run_def keeps_refl)
next
  case (ExecCommand h cb)
  have "same_state n (exec_command h cb n)" by (simp add: exec_command_def same_state_def)
  from same_state_inv [OF inv this] run ExecCommand show ?thesis by (auto simp: keeps_refl)
next
  case CmdQueue
  with cmd_loop_inv [OF inv size(1), of "ne_env N" "n_cmd_pending n"] run show ?thesis by (auto simp: ok_run_def cmd_handler_def)
next
  case AsyncCall
  show ?thesis
  proof (cases "n_async_calls n")
    case Nil
    with run AsyncCall inv show ?thesis by (auto simp: keeps_refl)
  next
    case (Cons k ks)
    have "k = RrRepropose" "node_inv N g (n\<lparr>n_async_calls := ks\<rparr>) ts"
      using inv Cons by (auto simp: node_inv_def rest_ok_def)
    with inv_next [of N g "n\<lparr>n_async_calls := ks\<rparr>" ts RrRepropose] run AsyncCall Cons show ?thesis
      by (auto simp: keeps_refl)
  qed
next
  case TimerFires
  with run have "fire_timer N n = (r, ts', n')" by simp
  with fire_timer_inv [OF inv size(1) hash _ surv] show ?thesis by (simp add: TimerFires)
next
  case Impeach
  with run have "impeach n = (r, ts', n')" by simp
  then show ?thesis by (rule keeps_snd) (rule impeach_inv [OF inv])
qed

section \<open>Reachable replicas\<close>

text \<open>
  A step handles an event when nothing is left to run, or runs the next task. When a call throws,
  what it caused before is done and the rest is abandoned. Calls that do not survive end the
  program; the replica holds fewer than \<open>2 ^ 32\<close> blocks; and the hash of a block that is
  proposed does not collide with that of a different stored block.
\<close>

definition next_tasks :: "unit res \<Rightarrow> task list \<Rightarrow> task list \<Rightarrow> task list" where
  "next_tasks r ts' ts = ts' @ (if r = Inr () then ts else [])"

inductive node_step :: "net_env \<Rightarrow> node \<times> task list \<Rightarrow> node \<times> task list \<Rightarrow> bool" for N where
  event: "node_step N (n, []) (n', ts')"
    if "handle_event N ev n = (r, ts', n')" and "survives r" and "size_ok n" and "size_ok n'"
      and "\<And>cmds. event_cmds ev = Some cmds \<Longrightarrow> no_collision (ne_env N) cmds n"
| task: "node_step N (n, t # ts) (n', next_tasks r ts' ts)"
    if "run_task N t n = (r, ts', n')" and "survives r" and "size_ok n" and "size_ok n'"
      and "\<And>cmds. task_cmds N t n = Some cmds \<Longrightarrow> no_collision (ne_env N) cmds n"

inductive_cases node_stepE: "node_step N s s'"

definition node_started :: "net_env \<Rightarrow> node \<times> task list \<Rightarrow> bool" where
  "node_started N s \<longleftrightarrow>
     (\<exists>blk_size rid key addr kind base delay tls replicas n0.
        hotstuff_base (ne_env N) blk_size rid key addr kind base delay tls = Inr n0 \<and>
        start_node N replicas n0 = (snd s, fst s))"

definition node_reachable :: "net_env \<Rightarrow> node \<times> task list \<Rightarrow> bool" where
  "node_reachable N s \<longleftrightarrow> (\<exists>s0. node_started N s0 \<and> (node_step N)\<^sup>*\<^sup>* s0 s)"

definition node_ok :: "net_env \<Rightarrow> node \<times> task list \<Rightarrow> bool" where
  "node_ok N s \<longleftrightarrow> (\<exists>g. node_inv N g (fst s) (snd s))"

lemma keeps_ok: "keeps N g ts (ts', n) \<Longrightarrow> node_ok N (n, ts' @ ts)"
  by (auto simp: keeps_def after_def node_ok_def)

lemma node_step_ok:
  assumes "node_step N s s'" and N: "order_ok N" and "node_ok N s"
  shows "node_ok N s'"
  using assms(1)
proof (cases rule: node_step.cases)
  case (event ev n r ts' n')
  obtain g where "node_inv N g n []" using assms(3) event(1) by (auto simp: node_ok_def)
  from keeps_ok [OF handle_event_inv [OF this event(5,6) event(7) event(3,4)]] event(2)
  show ?thesis by simp
next
  case (task t n r ts' n' ts)
  obtain g where "node_inv N g n (t # ts)" using assms(3) task(1) by (auto simp: node_ok_def)
  from run_task_inv [OF this N task(5,6) task(7) task(3,4)] have k: "keeps N g ts (ts', n')" .
  then obtain g' where "node_inv N g' n' (ts' @ ts)" by (rule keepsE) simp
  with inv_drop [of N g' n' ts' ts] task(2) show ?thesis by (auto simp: node_ok_def next_tasks_def)
qed

text \<open>A replica that was just started: every promise but the core's is unused.\<close>

definition start_types :: types where
  "start_types = \<lparr>pm_type = (\<lambda>p. case p of CorePm i \<Rightarrow> Some TAny | LocalPm m \<Rightarrow> if m < 3 then Some TAny else None),
     cell_types = Map.empty, filled = (\<lambda>_. {})\<rparr>"

lemma new_pacemaker_promises:
  "new_pacemaker kind base delay no_promises = (p, h) \<Longrightarrow>
     h = no_promises\<lparr>next_pm := 3\<rparr> \<and> pending_beats p = [] \<and> hqc_tail p = 0 \<and>
     pm_qc_finish p = LocalPm 0 \<and> pm_wait_propose p = LocalPm 1 \<and> pm_qc_manual p = LocalPm 2"
  by (auto simp: new_pacemaker_def alloc_pm_def set_pm_def no_promises_def Let_def numeral_3_eq_3 numeral_2_eq_2)

lemma add_peers_same: "same_state n0 n \<Longrightarrow> same_state n0 (add_peers N rs n)"
proof (induction N rs n rule: add_peers.induct)
  case (2 N addr pk cert rs n)
  show ?case
    unfolding add_peers.simps Let_def by (rule 2(1) [OF refl refl]) (use 2(2) in \<open>auto simp: same_state_def tell_def\<close>)
qed simp

lemma typed_start: "net.typed C c start_types (no_promises\<lparr>next_pm := 3\<rparr>) []"
  by (auto simp: net.typed_def net.pm_ok_def net.cell_ok_def start_types_def no_promises_def
      new_promise_def slots_once_def pm_slots_def split: pid.splits)

lemma start_node_inv:
  assumes base: "hotstuff_base (ne_env N) blk_size rid key addr kind base delay tls = Inr n0"
    and start: "start_node N replicas n0 = (ts, n)"
  shows "node_ok N (n, ts)"
proof -
  obtain pace h where p: "new_pacemaker kind base delay no_promises = (pace, h)" by force
  then obtain c where c: "hotstuff_core (ne_env N) rid key = Inr c"
    and n0: "n_core n0 = c" "n_pms n0 = h" "n_vpool n0 = veripool_init" "n_pace n0 = pace"
      "n_fetch_waiting n0 = Map.empty" "n_delivery_waiting n0 = Map.empty" "n_async_calls n0 = []"
    using base by (auto simp: hotstuff_base_def bindE_Inr_iff)
  define n1 where "n1 = add_peers N replicas n0"
  define c1 where "c1 = start_core (ne_env N) (map (\<lambda>r. (replica_peer N n1 r, fst (snd r))) replicas)
    (word_of_nat (length (n_peers n1) div 3)) (n_core n1)"
  have same: "same_state n0 n1" unfolding n1_def by (rule add_peers_same) simp
  have init: "pm_init (n1\<lparr>n_core := c1\<rparr>) = (ts, n)"
    using start by (simp add: start_node_def Let_def n1_def [symmetric] c1_def)
  have started: "core_started (ne_env N) c1"
    using c same n0(1) by (simp add: core_started_def c1_def same_state_def) blast
  then have reach: "core_reachable (ne_env N) c1" by (auto simp: core_reachable_def)
  have tails: "c_tails c1 = {0} \<and> c_b0 c1 = 0"
  proof -
    have ct: "c_tails c = {0}" "c_b0 c = 0"
      using c by (auto simp: hotstuff_core_def alloc_blk_def empty_storage_def Let_def bindE_Inr_iff
          split: if_splits prod.splits)
    have "c_tails (add_all_replicas i rs c) = c_tails c \<and> c_b0 (add_all_replicas i rs c) = c_b0 c" for i rs c
      by (induction i rs c rule: add_all_replicas.induct) (simp_all add: add_replica_def set_blk_def)
    then show ?thesis
      using ct same n0(1) by (simp add: c1_def start_core_def on_init_def Let_def set_blk_def same_state_def)
  qed
  have del: "delivered (c_storage c1) 0"
    using store_wfD(2) [OF core_wfD(1) [OF core_started_wf [OF started]]] tails by (simp add: genesis_wf_def)
  have "node_inv N start_types (n1\<lparr>n_core := c1\<rparr>) []"
    using reach del tails n0 same new_pacemaker_promises [OF p] typed_start
    by (auto simp: node_inv_def tails_ok_def rest_ok_def pool_ok_def veripool_init_def pace_ok_def
        same_state_def start_types_def)
  from pm_init_inv [OF this] init show ?thesis using keeps_ok [of N start_types "[]" ts n] by simp
qed

text \<open>Replicas as a monitored machine: the invariant holds in every reachable state.\<close>

interpretation node: monitored_machine "node_started N" "node_step N"
    "\<lambda>s. order_ok N \<longrightarrow> node_ok N s" "\<lambda>_ _. True" for N
proof
  show "order_ok N \<longrightarrow> node_ok N s" if "node_started N s" for s
    using that start_node_inv by (cases s) (auto simp: node_started_def)
  show "order_ok N \<longrightarrow> node_ok N t" if "node_step N s t" "order_ok N \<longrightarrow> node_ok N s" for s t
    using that node_step_ok by blast
qed simp_all

lemma node_reachable_run: "node_reachable N s \<longleftrightarrow> node.run N s"
  by (simp add: node_reachable_def node.run_def)

lemma reachable_node_ok: "node_reachable N s \<Longrightarrow> order_ok N \<Longrightarrow> node_ok N s"
  unfolding node_reachable_run using node.run_inv by blast

text \<open>
  C12: Whatever a replica receives and in whatever order its timers, its verifications and its
  promises' callbacks run, the core is in a state that the documented calls reach; so the
  invariants and the safety of all reachable cores hold in the running replica.
\<close>

theorem replica_calls_core_as_documented:
  assumes "node_reachable N (n, ts)" and "order_ok N"
  shows "core_reachable (ne_env N) (n_core n)"
proof -
  obtain g where "node_inv N g n ts" using reachable_node_ok [OF assms] by (auto simp: node_ok_def)
  then show ?thesis by (rule node_invD(1))
qed

end
