(* ===== verification/NodeSafety.thy ===== *)
theory NodeSafety
  imports NodeReach
begin

text \<open>
  What a running replica guarantees where its parts meet: the values of the promises that the
  handlers of blocks, votes and requests wait for have the types they are cast to, the core is
  handed only blocks and votes that were verified, and only when what they refer to is there.
\<close>

section \<open>The task at hand\<close>

lemma closure_typed:
  assumes "node_reachable N (n, RunClosure k v # ts)" and "order_ok N"
  obtains g t where "node_inv N g n (RunClosure k v # ts)"
    and "has_type (e_crypto (ne_env N)) (n_core n) t v" and "accepts (n_core n) (pm_type g) k t"
proof -
  obtain g where g: "node_inv N g n (RunClosure k v # ts)"
    using reachable_node_ok [OF assms] by (auto simp: node_ok_def)
  then have "net.task_ok (e_crypto (ne_env N)) (n_core n) g (RunClosure k v)"
    using node_invD(3) [OF g] by (simp add: net.typed_def)
  with g that show ?thesis by auto
qed

lemma found_delivered:
  "find_blk (c_storage c) h = Some b \<Longrightarrow> delivered (c_storage c) b \<Longrightarrow> is_blk_delivered (c_storage c) h"
  by (simp add: is_blk_delivered_def find_blk_def delivered_def)

section \<open>Blocks\<close>

text \<open>
  C16: When the promises that \<open>async_deliver_blk\<close> waits for are fulfilled, their values are what
  its callback casts them to, every parent of the block is delivered, and the block its
  certificate is for is stored. If the first value is true, then the certificate verifies under
  the replica's configuration, or it is for the genesis block, or the block is the genesis block:
  of these two \<open>Block::verify\<close> and \<open>async_deliver_blk\<close> accept any certificate without a check.
\<close>

theorem delivered_blocks_verified:
  assumes "node_reachable N (n, RunClosure (ReadyForDelivery b) v # ts)" and "order_ok N"
  shows "\<exists>ok vs q. v = Some (VAll (Some (VBool ok) # vs)) \<and>
    list_all (is_blk_delivered (c_storage (n_core n))) (blk_parent_hashes (blk (n_core n) b)) \<and>
    blk_qc (blk (n_core n) b) = Some q \<and> is_blk_fetched (c_storage (n_core n)) (qc_obj_hash q) \<and>
    (ok \<longrightarrow> qc_verify (e_crypto (ne_env N)) (c_config (n_core n)) q = Inr True \<or>
       qc_obj_hash q = blk_hash (blk (n_core n) (c_b0 (n_core n))) \<or> b = c_b0 (n_core n))"
proof -
  obtain g t where "node_inv N g n (RunClosure (ReadyForDelivery b) v # ts)"
    and v: "has_type (e_crypto (ne_env N)) (n_core n) t v"
    and acc: "accepts (n_core n) (pm_type g) (ReadyForDelivery b) t"
    by (rule closure_typed [OF assms])
  from acc obtain q t0 where q: "blk_qc (blk (n_core n) b) = Some q" "cert_ty (n_core n) b q t0"
    "t = TAll (t0 # TStored (qc_obj_hash q) # map TDelivered (blk_parent_hashes (blk (n_core n) b)))"
    by (auto simp: parent_tys_def)
  with v obtain w0 w1 ws where w: "v = Some (VAll (w0 # w1 # ws))"
    "has_type (e_crypto (ne_env N)) (n_core n) t0 w0"
    "has_type (e_crypto (ne_env N)) (n_core n) (TStored (qc_obj_hash q)) w1"
    "list_all2 (has_type (e_crypto (ne_env N)) (n_core n))
       (map TDelivered (blk_parent_hashes (blk (n_core n) b))) ws"
    by (auto simp: list_all2_Cons1)
  have "list_all (is_blk_delivered (c_storage (n_core n))) (blk_parent_hashes (blk (n_core n) b))"
    using w(4) found_delivered by (fastforce simp: list_all2_conv_all_nth list_all_length)
  moreover have "is_blk_fetched (c_storage (n_core n)) (qc_obj_hash q)"
    using w(3) by (auto simp: is_blk_fetched_def find_blk_def)
  moreover have "\<exists>ok. w0 = Some (VBool ok) \<and> (ok \<longrightarrow> qc_verify (e_crypto (ne_env N)) (c_config (n_core n)) q = Inr True \<or>
       qc_obj_hash q = blk_hash (blk (n_core n) (c_b0 (n_core n))) \<or> b = c_b0 (n_core n))"
    using w(2) q(2) by (auto simp: cert_ty_def)
  ultimately show ?thesis using w(1) q(1) by blast
qed

section \<open>Votes\<close>

text \<open>
  C17: When the promises that the vote handler waits for are fulfilled, the block voted for is
  delivered, so that the core does not refuse the vote; and when the result is positive, the
  vote's certificate is on that block and verifies with the voter's key.
\<close>

theorem checked_votes_valid:
  assumes "node_reachable N (n, RunClosure (CheckedVote x) v # ts)" and "order_ok N"
  shows "\<exists>b ok. v = Some (VAll [Some (VBlk b), Some (VBool ok)]) \<and>
    get_delivered_blk (v_blk_hash x) (n_core n) = Inr b \<and>
    (ok \<longrightarrow> vote_valid (e_crypto (ne_env N)) (c_config (n_core n)) x)"
proof -
  obtain g t where "node_inv N g n (RunClosure (CheckedVote x) v # ts)"
    and v: "has_type (e_crypto (ne_env N)) (n_core n) t v"
    and acc: "accepts (n_core n) (pm_type g) (CheckedVote x) t"
    by (rule closure_typed [OF assms])
  from acc have t: "t = TAll [TDelivered (v_blk_hash x), TVote (c_config (n_core n)) x]" by simp
  with v obtain b ok where w: "v = Some (VAll [Some (VBlk b), Some (VBool ok)])"
    "find_blk (c_storage (n_core n)) (v_blk_hash x) = Some b" "delivered (c_storage (n_core n)) b"
    "ok \<longrightarrow> vote_valid (e_crypto (ne_env N)) (c_config (n_core n)) x"
    by (auto simp: list_all2_Cons1)
  then show ?thesis by (auto simp: get_delivered_blk_def delivered_def)
qed

section \<open>Proposals and requests\<close>

text \<open>
  C26: The callbacks of fetched blocks and of delivered proposals, and those that answer requests
  for blocks, get values of the types they cast them to: a stored block, the block of the
  proposal, which is delivered, and the requested blocks, all of which are stored.
\<close>

theorem network_values_typed:
  assumes "node_reachable N (n, RunClosure k v # ts)" and "order_ok N"
  shows "case k of
      FetchedForDelivery peer \<Rightarrow> \<exists>b. v = Some (VBlk b) \<and> stored (n_core n) b
    | DeliveredForProposal p \<Rightarrow> pred_option (\<lambda>b. v = Some (VAll [Some (VBlk b)]) \<and>
        sanity_check_delivered b (n_core n) = Inr ()) (p_blk p)
    | FetchedForRequest peer \<Rightarrow> \<exists>vs bs. v = Some (VAll vs) \<and> cast_blks vs = Inr bs \<and> list_all (stored (n_core n)) bs
    | _ \<Rightarrow> True"
proof -
  obtain g t where g: "node_inv N g n (RunClosure k v # ts)"
    and v: "has_type (e_crypto (ne_env N)) (n_core n) t v" and acc: "accepts (n_core n) (pm_type g) k t"
    by (rule closure_typed [OF assms])
  note found = found_stored [OF g]
  have casts: "\<exists>bs. cast_blks vs = Inr bs \<and> list_all (stored (n_core n)) bs"
    if "list_all2 (has_type (e_crypto (ne_env N)) (n_core n)) (map TStored hs) vs" for hs vs
    using that
  proof (induction hs arbitrary: vs)
    case (Cons h hs)
    then obtain b ws where "vs = Some (VBlk b) # ws" "find_blk (c_storage (n_core n)) h = Some b"
      "list_all2 (has_type (e_crypto (ne_env N)) (n_core n)) (map TStored hs) ws" by (auto simp: list_all2_Cons1)
    with Cons.IH found show ?case by fastforce
  qed simp
  show ?thesis
  proof (cases k)
    case (FetchedForDelivery peer)
    with acc v found show ?thesis by auto
  next
    case (DeliveredForProposal p)
    with acc v show ?thesis
      by (cases "p_blk p") (auto simp: list_all2_Cons1 sanity_check_delivered_def delivered_def)
  next
    case (FetchedForRequest peer)
    with acc v casts show ?thesis by auto
  qed simp_all
qed

end
