(* ===== verification/PromiseLaws.thy ===== *)
theory PromiseLaws
  imports Promise
begin

text \<open>
  The laws of promises that their users rely on: a promise is settled once, and the promises that
  \<open>all\<close> and \<open>race\<close> make of settled promises are settled like them.
\<close>

section \<open>Settled promises\<close>

definition settled :: "('k, 'v) promise \<Rightarrow> bool" where
  "settled x \<longleftrightarrow> pm_state x \<noteq> Pending"

definition keeps_settled :: "('k, 'v) promises \<Rightarrow> ('k, 'v) promises \<Rightarrow> bool" where
  "keeps_settled h h' \<longleftrightarrow> (\<forall>p. p \<noteq> LocalPm (next_pm h) \<longrightarrow> settled (pms h p) \<longrightarrow> pms h' p = pms h p)"

lemma resolve_settled [simp]: "settled (pms h p) \<Longrightarrow> pm_resolve p v h = ([], h)"
  and reject_settled [simp]: "settled (pms h p) \<Longrightarrow> pm_reject p v h = ([], h)"
  by (simp_all add: settled_def pm_resolve_def pm_reject_def)

lemma settle_keeps:
  "settled (pms h p) \<Longrightarrow> pms (snd (pm_resolve q v h)) p = pms h p"
  "settled (pms h p) \<Longrightarrow> pms (snd (pm_reject q v h)) p = pms h p"
  "settled (pms h p) \<Longrightarrow> pms (snd (add_callbacks q f r h)) p = pms h p"
  "settled (pms h p) \<Longrightarrow> pms (snd (fill_slot pack c i q v h)) p = pms h p"
  by (auto simp: settled_def pm_resolve_def pm_reject_def add_callbacks_def fill_slot_def set_pm_def Let_def
      split: pm_state.split)

lemma callback_keeps: "settled (pms h p) \<Longrightarrow> pms (snd (run_callback pack cb v h)) p = pms h p"
  by (cases cb) (simp_all add: settle_keeps)

lemma all_loop_keeps: "settled (pms h p) \<Longrightarrow> pms (all_loop pack c npm i ps h) p = pms h p"
proof (induction pack c npm i ps h rule: all_loop.induct)
  case (2 pack c npm i q qs h)
  let ?h = "case pm_state (pms h q) of
      Pending \<Rightarrow> snd (add_callbacks q (FillSlot c i npm) (PassReason npm) h)
    | Fulfilled \<Rightarrow> snd (fill_slot pack c i npm (pm_result (pms h q)) h)
    | Rejected \<Rightarrow> snd (pm_reject npm (pm_reason (pms h q)) h)"
  have "pms ?h p = pms h p" using settle_keeps(2-4) [OF 2(2)] by (simp split: pm_state.split)
  with 2 show ?case by simp
qed simp

lemma race_keeps:
  "settled (pms h p) \<Longrightarrow> pms (foldl (\<lambda>h q. case pm_state (pms h q) of
      Pending \<Rightarrow> snd (add_callbacks q (PassResult npm) (PassReason npm) h)
    | Fulfilled \<Rightarrow> snd (pm_resolve npm (pm_result (pms h q)) h)
    | Rejected \<Rightarrow> snd (pm_reject npm (pm_reason (pms h q)) h)) h qs) p = pms h p"
proof (induction qs arbitrary: h)
  case (Cons q qs)
  let ?h = "case pm_state (pms h q) of
      Pending \<Rightarrow> snd (add_callbacks q (PassResult npm) (PassReason npm) h)
    | Fulfilled \<Rightarrow> snd (pm_resolve npm (pm_result (pms h q)) h)
    | Rejected \<Rightarrow> snd (pm_reject npm (pm_reason (pms h q)) h)"
  have "pms ?h p = pms h p" using settle_keeps(1-3) [OF Cons.prems] by (simp split: pm_state.split)
  with Cons.IH [of ?h] Cons.prems show ?case by simp
qed simp

lemma alloc_other: "alloc_pm h = (q, h1) \<Longrightarrow> p \<noteq> LocalPm (next_pm h) \<Longrightarrow> pms h1 p = pms h p"
  by (auto simp: alloc_pm_def set_pm_def)

text \<open>
  C27: A promise is settled at most once: no operation on promises and no callback changes the
  state, the result or the reason of a promise that is fulfilled or rejected.
\<close>

theorem settled_promise_stays:
  assumes "settled (pms h p)" and "p \<noteq> LocalPm (next_pm h)"
  shows "pms (snd (pm_resolve q v h)) p = pms h p \<and> pms (snd (pm_reject q v h)) p = pms h p \<and>
    pms (snd (run_callback pack cb v h)) p = pms h p \<and>
    pms (snd (snd (pm_then q k h))) p = pms h p \<and> pms (snd (snd (pm_then_both q k k' h))) p = pms h p \<and>
    pms (snd (snd (pm_fail q k h))) p = pms h p \<and> pms (snd (snd (pm_then_map q k h))) p = pms h p \<and>
    pms (snd (pm_all pack ps h)) p = pms h p \<and> pms (snd (pm_race ps h)) p = pms h p"
proof -
  obtain npm h1 where a: "alloc_pm h = (npm, h1)" by force
  have h1: "pms h1 p = pms h p" by (rule alloc_other [OF a assms(2)])
  then have s1: "settled (pms h1 p)" using assms(1) by simp
  have "pms (snd (pm_all pack ps h)) p = pms h p"
    using s1 h1 by (simp add: pm_all_def a Let_def all_loop_keeps)
  moreover have "pms (snd (pm_race ps h)) p = pms h p"
    using race_keeps [OF s1] h1 by (simp add: pm_race_def a)
  ultimately show ?thesis
    using settle_keeps(3) [OF s1] h1 settle_keeps(1,2) [OF assms(1)] callback_keeps [OF assms(1)]
    by (simp add: pm_then_def pm_then_both_def pm_fail_def pm_then_map_def a)
qed

lemma settled_promise_stays_witness:
  "pms (snd (pm_reject (LocalPm 0) (Some False)
      (snd (resolved_pm (Some True) (no_promises :: (nat, bool) promises))))) (LocalPm 0) =
   pms (snd (resolved_pm (Some True) no_promises)) (LocalPm 0)"
  using settled_promise_stays [of "snd (resolved_pm (Some True) (no_promises :: (nat, bool) promises))" "LocalPm 0"]
  by (simp add: settled_def resolved_pm_def alloc_pm_def pm_resolve_def set_pm_def new_promise_def
      no_promises_def Let_def)

section \<open>All and race\<close>

definition rejected_first :: "('k, 'v) promises \<Rightarrow> pid list \<Rightarrow> pid option" where
  "rejected_first h ps = find (\<lambda>p. pm_state (pms h p) = Rejected) ps"

lemma rejected_first_in: "rejected_first h ps = Some q \<Longrightarrow> q \<in> set ps"
  unfolding rejected_first_def by (induction ps) (auto split: if_splits)

text \<open>The loop over settled promises; \<open>s\<close> places are still open.\<close>

lemma all_loop_settled:
  assumes "\<forall>p\<in>set ps. settled (pms h p) \<and> p \<noteq> npm" and "cells h c = \<lparr>cell_size = s, cell_results = rs\<rparr>"
    and "length ps \<le> s" and "length rs = i + length ps"
    and "fulfilled_callbacks (pms h npm) = []" and "rejected_callbacks (pms h npm) = []"
  shows "(\<forall>q. q \<noteq> npm \<longrightarrow> pms (all_loop pack c npm i ps h) q = pms h q) \<and>
    (pm_state (pms h npm) = Pending \<longrightarrow>
      (case rejected_first h ps of
         Some q \<Rightarrow> pm_state (pms (all_loop pack c npm i ps h) npm) = Rejected \<and>
           pm_reason (pms (all_loop pack c npm i ps h) npm) = pm_reason (pms h q)
       | None \<Rightarrow> s = length ps \<longrightarrow> ps \<noteq> [] \<longrightarrow>
           pm_state (pms (all_loop pack c npm i ps h) npm) = Fulfilled \<and>
           pm_result (pms (all_loop pack c npm i ps h) npm) =
             Some (pack (take i rs @ map (\<lambda>p. pm_result (pms h p)) ps))))"
  using assms
proof (induction ps arbitrary: h i s rs)
  case Nil
  then show ?case by (simp add: rejected_first_def)
next
  case (Cons p ps)
  note C = Cons.prems
  show ?case
  proof (cases "pm_state (pms h p)")
    case Pending
    with C(1) show ?thesis by (simp add: settled_def)
  next
    case Rejected
    let ?h = "snd (pm_reject npm (pm_reason (pms h p)) h)"
    have other: "\<And>q. q \<noteq> npm \<Longrightarrow> pms ?h q = pms h q" and cells: "cells ?h = cells h"
      and npm: "pm_state (pms h npm) = Pending \<Longrightarrow> pm_state (pms ?h npm) = Rejected \<and>
          pm_reason (pms ?h npm) = pm_reason (pms h p)"
        "fulfilled_callbacks (pms ?h npm) = []" "rejected_callbacks (pms ?h npm) = []"
        "pm_state (pms ?h npm) \<noteq> Pending"
      using C(5,6) by (auto simp: pm_reject_def set_pm_def Let_def)
    have loop: "all_loop pack c npm i (p # ps) h = all_loop pack c npm (Suc i) ps ?h" using Rejected by simp
    have "settled (pms ?h npm)" using npm(4) by (simp add: settled_def)
    then have "pms (all_loop pack c npm (Suc i) ps ?h) npm = pms ?h npm" by (rule all_loop_keeps)
    moreover have "\<forall>q. q \<noteq> npm \<longrightarrow> pms (all_loop pack c npm (Suc i) ps ?h) q = pms ?h q"
      using Cons.IH [of ?h s rs "Suc i"] C other cells npm(2,3) by simp
    ultimately show ?thesis using npm(1) other Rejected unfolding loop by (auto simp: rejected_first_def)
  next
    case Fulfilled
    let ?v = "pm_result (pms h p)"
    let ?h = "snd (fill_slot pack c i npm ?v h)"
    have loop: "all_loop pack c npm i (p # ps) h = all_loop pack c npm (Suc i) ps ?h" using Fulfilled by simp
    have other: "\<And>q. q \<noteq> npm \<Longrightarrow> pms ?h q = pms h q"
      and cells: "cells ?h c = \<lparr>cell_size = s - 1, cell_results = rs[i := ?v]\<rparr>"
      and npm: "fulfilled_callbacks (pms ?h npm) = []" "rejected_callbacks (pms ?h npm) = []"
      using C(2,5,6) by (auto simp: fill_slot_def pm_resolve_def set_pm_def Let_def)
    have take: "take (Suc i) (rs[i := ?v]) = take i rs @ [?v]" using C(4) by (simp add: take_Suc_conv_app_nth)
    have IH: "(\<forall>q. q \<noteq> npm \<longrightarrow> pms (all_loop pack c npm (Suc i) ps ?h) q = pms ?h q) \<and>
      (pm_state (pms ?h npm) = Pending \<longrightarrow>
        (case rejected_first ?h ps of
           Some q \<Rightarrow> pm_state (pms (all_loop pack c npm (Suc i) ps ?h) npm) = Rejected \<and>
             pm_reason (pms (all_loop pack c npm (Suc i) ps ?h) npm) = pm_reason (pms ?h q)
         | None \<Rightarrow> s - 1 = length ps \<longrightarrow> ps \<noteq> [] \<longrightarrow>
             pm_state (pms (all_loop pack c npm (Suc i) ps ?h) npm) = Fulfilled \<and>
             pm_result (pms (all_loop pack c npm (Suc i) ps ?h) npm) =
               Some (pack (take (Suc i) (rs[i := ?v]) @ map (\<lambda>p. pm_result (pms ?h p)) ps))))"
      using C(1,3,4) other cells npm by (intro Cons.IH) auto
    have same: "map (\<lambda>p. pm_result (pms ?h p)) ps = map (\<lambda>p. pm_result (pms h p)) ps"
      using C(1) other by simp
    have rej: "rejected_first ?h ps = rejected_first h (p # ps)"
      using C(1) other Fulfilled by (auto simp: rejected_first_def intro: find_cong)
    have rej_other: "pms ?h q = pms h q" if "rejected_first h (p # ps) = Some q" for q
      using rejected_first_in [OF that] C(1) by (intro other) blast
    show ?thesis
    proof (cases "ps = []")
      case True
      have "pm_state (pms h npm) = Pending \<Longrightarrow> s = 1 \<Longrightarrow> pm_state (pms ?h npm) = Fulfilled \<and>
          pm_result (pms ?h npm) = Some (pack (take i rs @ [?v]))"
        using C(2,4) True by (simp add: fill_slot_def pm_resolve_def set_pm_def Let_def)
          (simp add: list_update_append1 flip: take [unfolded True])
      with IH True Fulfilled other show ?thesis unfolding loop by (simp add: rejected_first_def)
    next
      case False
      then have "s \<noteq> 1" "0 < s" using C(3) by (cases ps; auto)+
      then have pend: "pms ?h npm = pms h npm" using C(2) by (simp add: fill_slot_def Let_def)
      have "s - 1 = length ps \<longleftrightarrow> s = Suc (length ps)" using \<open>0 < s\<close> by linarith
      with IH False other rej rej_other show ?thesis
        unfolding loop pend same take by (auto split: option.splits)
    qed
  qed
qed

lemma all_of_settled:
  assumes ps: "ps \<noteq> []" "\<forall>p\<in>set ps. settled (pms h p) \<and> p \<noteq> LocalPm (next_pm h)"
    and run: "pm_all pack ps h = (r, h')"
  shows "r = Inr (LocalPm (next_pm h)) \<and> (\<forall>q. q \<noteq> LocalPm (next_pm h) \<longrightarrow> pms h' q = pms h q) \<and>
    (case rejected_first h ps of
       Some q \<Rightarrow> pm_state (pms h' (LocalPm (next_pm h))) = Rejected \<and>
         pm_reason (pms h' (LocalPm (next_pm h))) = pm_reason (pms h q)
     | None \<Rightarrow> pm_state (pms h' (LocalPm (next_pm h))) = Fulfilled \<and>
         pm_result (pms h' (LocalPm (next_pm h))) = Some (pack (map (\<lambda>p. pm_result (pms h p)) ps)))"
proof -
  obtain h1 where a: "alloc_pm h = (LocalPm (next_pm h), h1)" "pms h1 (LocalPm (next_pm h)) = new_promise"
    by (simp add: alloc_pm_def set_pm_def)
  let ?c = "next_cell h1" and ?p = "LocalPm (next_pm h)"
  let ?h2 = "h1\<lparr>cells := (cells h1)(?c := \<lparr>cell_size = length ps, cell_results = replicate (length ps) None\<rparr>),
    next_cell := Suc ?c\<rparr>"
  have h': "r = Inr ?p" "h' = all_loop pack ?c ?p 0 ps ?h2"
    using run ps(1) a(1) by (auto simp: pm_all_def Let_def)
  have same: "pms ?h2 q = pms h q" if "q \<noteq> ?p" for q using alloc_other [OF a(1) that] by simp
  then have ps2: "\<forall>p\<in>set ps. settled (pms ?h2 p) \<and> p \<noteq> ?p" using ps(2) by simp
  have find: "rejected_first ?h2 ps = rejected_first h ps"
    and reason: "\<And>q. rejected_first h ps = Some q \<Longrightarrow> pms ?h2 q = pms h q"
    and vals: "map (\<lambda>p. pm_result (pms ?h2 p)) ps = map (\<lambda>p. pm_result (pms h p)) ps"
    using ps(2) same
    by (auto simp: rejected_first_def find_Some_iff intro!: find_cong)
  have "(\<forall>q. q \<noteq> ?p \<longrightarrow> pms h' q = pms ?h2 q) \<and> (pm_state (pms ?h2 ?p) = Pending \<longrightarrow>
      (case rejected_first ?h2 ps of
         Some q \<Rightarrow> pm_state (pms h' ?p) = Rejected \<and> pm_reason (pms h' ?p) = pm_reason (pms ?h2 q)
       | None \<Rightarrow> length ps = length ps \<longrightarrow> ps \<noteq> [] \<longrightarrow> pm_state (pms h' ?p) = Fulfilled \<and>
           pm_result (pms h' ?p) = Some (pack (take 0 (replicate (length ps) None) @ map (\<lambda>p. pm_result (pms ?h2 p)) ps))))"
    unfolding h'(2) by (rule all_loop_settled [OF ps2]) (use a(2) in \<open>simp_all add: new_promise_def\<close>)
  then show ?thesis
    unfolding find vals using ps(1) a(2) same reason h'(1)
    by (auto simp: new_promise_def split: option.splits)
qed

lemma race_of_settled:
  assumes ps: "ps \<noteq> []" "\<forall>p\<in>set ps. settled (pms h p) \<and> p \<noteq> LocalPm (next_pm h)"
    and run: "pm_race ps h = (q, h')"
  shows "q = LocalPm (next_pm h) \<and> pm_state (pms h' q) = pm_state (pms h (hd ps)) \<and>
    pm_result (pms h' q) = (if pm_state (pms h (hd ps)) = Fulfilled then pm_result (pms h (hd ps)) else None) \<and>
    pm_reason (pms h' q) = (if pm_state (pms h (hd ps)) = Rejected then pm_reason (pms h (hd ps)) else None)"
proof -
  obtain h1 where a: "alloc_pm h = (LocalPm (next_pm h), h1)" "pms h1 (LocalPm (next_pm h)) = new_promise"
    by (simp add: alloc_pm_def set_pm_def)
  let ?p = "LocalPm (next_pm h)"
  obtain p ps' where p: "ps = p # ps'" using ps(1) by (cases ps) auto
  have same: "pms h1 p = pms h p" using alloc_other [OF a(1)] ps(2) p by simp
  let ?h2 = "case pm_state (pms h1 p) of
      Pending \<Rightarrow> snd (add_callbacks p (PassResult ?p) (PassReason ?p) h1)
    | Fulfilled \<Rightarrow> snd (pm_resolve ?p (pm_result (pms h1 p)) h1)
    | Rejected \<Rightarrow> snd (pm_reject ?p (pm_reason (pms h1 p)) h1)"
  have st: "pm_state (pms h1 p) \<noteq> Pending" using ps(2) p same by (simp add: settled_def)
  then have h2: "pms ?h2 ?p = (if pm_state (pms h p) = Fulfilled
      then new_promise\<lparr>pm_result := pm_result (pms h p), pm_state := Fulfilled\<rparr>
      else new_promise\<lparr>pm_reason := pm_reason (pms h p), pm_state := Rejected\<rparr>)"
    using a(2) same
    by (cases "pm_state (pms h1 p)")
      (simp_all add: pm_resolve_def pm_reject_def set_pm_def new_promise_def)
  then have "settled (pms ?h2 ?p)" by (simp add: settled_def)
  from race_keeps [OF this] have "pms h' ?p = pms ?h2 ?p" "q = ?p"
    using run by (auto simp: pm_race_def a(1) p)
  with h2 st same p show ?thesis
    by (cases "pm_state (pms h p)") (simp_all add: new_promise_def)
qed

text \<open>
  C28: Waiting for promises that are settled already gives a promise that is settled at once:
  \<open>all\<close> is rejected with the reason of the first of them that is rejected, and otherwise
  fulfilled with all the results in the order of the promises; \<open>race\<close> is settled like the first.
\<close>

theorem all_and_race_of_settled:
  assumes "ps \<noteq> []" and "\<forall>p\<in>set ps. settled (pms h p) \<and> p \<noteq> LocalPm (next_pm h)"
  shows "\<exists>p ha hr. pm_all pack ps h = (Inr p, ha) \<and> pm_race ps h = (p, hr) \<and>
    (case rejected_first h ps of
       Some q \<Rightarrow> pm_state (pms ha p) = Rejected \<and> pm_reason (pms ha p) = pm_reason (pms h q)
     | None \<Rightarrow> pm_state (pms ha p) = Fulfilled \<and>
         pm_result (pms ha p) = Some (pack (map (\<lambda>p. pm_result (pms h p)) ps))) \<and>
    pm_state (pms hr p) = pm_state (pms h (hd ps)) \<and>
    pm_result (pms hr p) = (if pm_state (pms h (hd ps)) = Fulfilled then pm_result (pms h (hd ps)) else None) \<and>
    pm_reason (pms hr p) = (if pm_state (pms h (hd ps)) = Rejected then pm_reason (pms h (hd ps)) else None)"
proof -
  obtain r ha where a: "pm_all pack ps h = (r, ha)" by force
  obtain q hr where b: "pm_race ps h = (q, hr)" by force
  note A = all_of_settled [OF assms a] and B = race_of_settled [OF assms b]
  from A B have "r = Inr q" by simp
  with A B a b show ?thesis by (intro exI [of _ q] exI [of _ ha] exI [of _ hr]) auto
qed

lemma all_and_race_of_settled_witness:
  "\<exists>p ha. pm_all (\<lambda>vs. vs = [Some True, Some False]) [LocalPm 0, LocalPm 1]
      (snd (resolved_pm (Some False) (snd (resolved_pm (Some True) (no_promises :: (nat, bool) promises))))) = (Inr p, ha) \<and>
    pm_state (pms ha p) = Fulfilled \<and> pm_result (pms ha p) = Some True"
proof -
  let ?h = "snd (resolved_pm (Some False) (snd (resolved_pm (Some True) (no_promises :: (nat, bool) promises))))"
  have h: "pm_state (pms ?h (LocalPm 0)) = Fulfilled" "pm_state (pms ?h (LocalPm 1)) = Fulfilled"
    "pm_result (pms ?h (LocalPm 0)) = Some True" "pm_result (pms ?h (LocalPm 1)) = Some False" "next_pm ?h = 2"
    by (simp_all add: resolved_pm_def alloc_pm_def pm_resolve_def set_pm_def new_promise_def no_promises_def Let_def)
  show ?thesis
    using all_and_race_of_settled [of "[LocalPm 0, LocalPm 1]" ?h "\<lambda>vs. vs = [Some True, Some False]"] h
    by (auto simp: settled_def rejected_first_def)
qed

end
