(* ===== verification/PromiseRuns.thy ===== *)
theory PromiseRuns
  imports NodeSafety PromiseLaws
begin

text \<open>
  How the replica's machine runs what promises leave to do: a settled promise runs a closure that
  is attached to it at once, and nothing but the promises changes meanwhile.
\<close>

section \<open>Promises that are settled\<close>

definition settled_with :: "node \<Rightarrow> pid \<Rightarrow> pm_value option \<Rightarrow> bool" where
  "settled_with n p v \<longleftrightarrow>
     pm_state (pms (n_pms n) p) = Fulfilled \<and> pm_result (pms (n_pms n) p) = v \<and>
     (\<forall>m. p = LocalPm m \<longrightarrow> m < next_pm (n_pms n))"

text \<open>Nothing but promises has changed, and those that were settled are as they were.\<close>

definition pms_only :: "node \<Rightarrow> node \<Rightarrow> bool" where
  "pms_only n n' \<longleftrightarrow>
     (\<exists>h. n' = n\<lparr>n_pms := h\<rparr>) \<and> (\<forall>q w. settled_with n q w \<longrightarrow> settled_with n' q w)"

lemma pms_only_trans: "pms_only a b \<Longrightarrow> pms_only b c \<Longrightarrow> pms_only a c"
  by (auto simp: pms_only_def)

lemma pms_onlyD: "pms_only n n' \<Longrightarrow> settled_with n q w \<Longrightarrow> settled_with n' q w"
  by (simp add: pms_only_def)

lemma pms_only_same:
  "pms_only n n' \<Longrightarrow> n_core n' = n_core n \<and> n_delivery_waiting n' = n_delivery_waiting n \<and>
     n_fetch_waiting n' = n_fetch_waiting n"
  by (auto simp: pms_only_def)

lemma settled_cong: "n_pms n' = n_pms n \<Longrightarrow> settled_with n' p v = settled_with n p v"
  by (simp add: settled_with_def)

lemmas promise_run = alloc_pm_def set_pm_def resolved_pm_def pm_resolve_def add_callbacks_def
  pm_then_def pm_then_map_def new_promise_def
lemmas node_run = n_resolve_def n_resolved_def n_then_def n_then_map_def

text \<open>The states after the operations on settled promises, written out.\<close>

abbreviation new_pid :: "node \<Rightarrow> pid" where
  "new_pid n \<equiv> LocalPm (next_pm (n_pms n))"

lemma resolved_state:
  "n_resolved v n = (new_pid n, n\<lparr>n_pms := (set_pm (new_pid n)
     (new_promise\<lparr>pm_result := v, pm_state := Fulfilled, fulfilled_callbacks := []\<rparr>) (n_pms n))
       \<lparr>next_pm := Suc (next_pm (n_pms n))\<rparr>\<rparr>)"
  by (simp add: n_resolved_def resolved_pm_def alloc_pm_def pm_resolve_def set_pm_def Let_def)
     (simp add: new_promise_def)

lemma then_state:
  assumes "settled_with n p v"
  shows "n_then p k n = (new_pid n, [RunCallback (Call k (new_pid n)) v], n\<lparr>n_pms := snd (alloc_pm (n_pms n))\<rparr>)"
    and "n_then_map p k n =
      (new_pid n, [RunCallback (CallMap k (new_pid n)) v], n\<lparr>n_pms := snd (alloc_pm (n_pms n))\<rparr>)"
proof -
  have "p \<noteq> new_pid n" using assms by (auto simp: settled_with_def)
  with assms show "n_then p k n = (new_pid n, [RunCallback (Call k (new_pid n)) v], n\<lparr>n_pms := snd (alloc_pm (n_pms n))\<rparr>)"
    "n_then_map p k n =
      (new_pid n, [RunCallback (CallMap k (new_pid n)) v], n\<lparr>n_pms := snd (alloc_pm (n_pms n))\<rparr>)"
    by (simp_all add: n_then_def n_then_map_def promise_run settled_with_def Let_def)
qed

lemma resolved_run:
  "\<exists>p n'. n_resolved v n = (p, n') \<and> settled_with n' p v \<and> pms_only n n'"
  unfolding resolved_state by (auto simp: settled_with_def set_pm_def pms_only_def)

lemma alloc_run: "pms_only n (n\<lparr>n_pms := snd (alloc_pm (n_pms n))\<rparr>)"
  by (auto simp: pms_only_def settled_with_def alloc_pm_def set_pm_def)

lemma then_run:
  assumes "settled_with n p v"
  shows "\<exists>q n'. n_then p k n = (q, [RunCallback (Call k q) v], n') \<and> pms_only n n'"
  using then_state(1) [OF assms] alloc_run by simp

text \<open>A promise that was just made, and that nobody waits for.\<close>

definition unused :: "node \<Rightarrow> pid \<Rightarrow> bool" where
  "unused n p \<longleftrightarrow> pms (n_pms n) p = new_promise \<and> (\<forall>m. p = LocalPm m \<longrightarrow> m < next_pm (n_pms n))"

lemma then_map_run:
  assumes "settled_with n p v"
  shows "\<exists>q n'. n_then_map p k n = (q, [RunCallback (CallMap k q) v], n') \<and> unused n' q \<and> pms_only n n'"
  using then_state(2) [OF assms] alloc_run by (simp add: unused_def alloc_pm_def set_pm_def)

text \<open>What is unused stays so.\<close>

lemma unused_resolved: "unused n q \<Longrightarrow> n_resolved v n = (p, n') \<Longrightarrow> unused n' q"
  by (auto simp: resolved_state unused_def set_pm_def)

lemma unused_then:
  assumes "unused n q" and "settled_with n p v" and "n_then p k n = (x, ts, n')"
  shows "unused n' q" and "unused n' x" and "x \<noteq> q"
  using assms(1,3) by (auto simp: then_state(1) [OF assms(2)] unused_def alloc_pm_def set_pm_def)

lemma unused_resolve: "unused n q \<Longrightarrow> n_resolve p v n = (ts, n') \<Longrightarrow> p \<noteq> q \<Longrightarrow> unused n' q"
  by (auto simp: n_resolve_def pm_resolve_def set_pm_def unused_def Let_def split: if_splits)

lemma unused_new: "\<exists>p n'. n_new_pm n = (p, n') \<and> unused n' p \<and> (\<exists>h. n' = n\<lparr>n_pms := h\<rparr>) \<and>
    (\<forall>q. (\<forall>m. q = LocalPm m \<longrightarrow> m < next_pm (n_pms n)) \<longrightarrow> q \<noteq> p \<and> pms (n_pms n') q = pms (n_pms n) q)"
  by (auto simp: n_new_pm_def alloc_pm_def set_pm_def unused_def)

lemma resolve_run:
  assumes "unused n q"
  shows "\<exists>n'. n_resolve q v n = ([], n') \<and> settled_with n' q v \<and> pms_only n n'"
proof -
  let ?h = "set_pm q (new_promise\<lparr>pm_result := v, pm_state := Fulfilled, fulfilled_callbacks := []\<rparr>) (n_pms n)"
  have "n_resolve q v n = ([], n\<lparr>n_pms := ?h\<rparr>)"
    using assms by (simp add: unused_def n_resolve_def pm_resolve_def new_promise_def Let_def)
  moreover have "settled_with (n\<lparr>n_pms := ?h\<rparr>) q v"
    using assms by (simp add: settled_with_def unused_def set_pm_def)
  moreover have "pms_only n (n\<lparr>n_pms := ?h\<rparr>)"
    using assms by (auto simp: pms_only_def settled_with_def unused_def set_pm_def new_promise_def)
  ultimately show ?thesis by blast
qed

lemma all_loop_next: "next_pm (all_loop pk c q i ps h) = next_pm h"
proof -
  have step: "next_pm (snd (add_callbacks p f g h)) = next_pm h"
    "next_pm (snd (fill_slot pk c i q v h)) = next_pm h" "next_pm (snd (pm_reject q v h)) = next_pm h"
    for p f g h pk c i q v
    by (auto simp: add_callbacks_def fill_slot_def pm_resolve_def pm_reject_def set_pm_def Let_def split: pm_state.split)
  show ?thesis
    by (induction pk c q i ps h rule: all_loop.induct) (auto simp: step split: pm_state.split)
qed

lemma all_run:
  assumes "list_all2 (settled_with n) ps vs" and "ps \<noteq> []"
  shows "\<exists>q n'. all_then ps k n = (Inr (), [RunCallback (Call k q) (Some (VAll vs))], n') \<and> pms_only n n'"
proof -
  let ?h = "n_pms n" and ?p = "LocalPm (next_pm (n_pms n))"
  obtain r h where a: "pm_all VAll ps ?h = (r, h)" by force
  have each: "settled_with n (ps ! i) (vs ! i)" if "i < length ps" for i
    using assms(1) that by (simp add: list_all2_conv_all_nth)
  have new: "\<not> settled_with n ?p v" for v by (simp add: settled_with_def)
  have "settled_with n p v \<Longrightarrow> settled (pms ?h p) \<and> p \<noteq> ?p" for p v
    using new by (auto simp: settled_def settled_with_def)
  then have ps: "\<forall>p\<in>set ps. settled (pms ?h p) \<and> p \<noteq> ?p"
    using each by (metis in_set_conv_nth)
  have none: "rejected_first ?h ps = None"
    using each by (auto simp: rejected_first_def find_None_iff in_set_conv_nth settled_with_def)
  have vs: "map (\<lambda>p. pm_result (pms ?h p)) ps = vs"
    using each assms(1) by (intro nth_equalityI) (simp_all add: settled_with_def list_all2_lengthD)
  note A = all_of_settled [OF assms(2) ps a]
  have next_pm: "next_pm h = Suc (next_pm ?h)"
    using a assms(2) by (auto simp: pm_all_def alloc_pm_def set_pm_def Let_def all_loop_next)
  let ?n = "n\<lparr>n_pms := h\<rparr>"
  have set: "settled_with ?n ?p (Some (VAll vs))"
    using A none vs next_pm by (auto simp: settled_with_def)
  have only: "pms_only n ?n" using A next_pm by (force simp: pms_only_def settled_with_def)
  obtain q n' where "n_then ?p k ?n = (q, [RunCallback (Call k q) (Some (VAll vs))], n')" "pms_only ?n n'"
    using then_run [OF set] by blast
  with a A pms_only_trans [OF only] show ?thesis by (auto simp: all_then_def n_all_def)
qed

section \<open>Steps\<close>

lemma run_event:
  assumes "node_reachable N (n, [])" and "handle_event N ev n = (Inr (), ts, n')"
    and "size_ok n" and "size_ok n'" and "event_cmds ev = None"
  shows "node_reachable N (n', ts)"
proof -
  have "node_step N (n, []) (n', ts)"
    by (rule node_step.event [OF assms(2) _ assms(3,4)]) (simp_all add: assms(5))
  then show ?thesis using assms(1) unfolding node_reachable_def by (blast intro: rtranclp.rtrancl_into_rtrancl)
qed

lemma task_step:
  assumes "run_task N t n = (Inr (), ts', n')" and "size_ok n" and "size_ok n'" and "task_cmds N t n = None"
  shows "node_step N (n, t # ts) (n', ts' @ ts)"
proof -
  have "node_step N (n, t # ts) (n', next_tasks (Inr ()) ts' ts)"
    by (rule node_step.task [OF assms(1) _ assms(2,3)]) (simp_all add: assms(4))
  then show ?thesis by (simp add: next_tasks_def)
qed

lemma run_one:
  assumes "node_reachable N (n, t # ts)" and "run_task N t n = (Inr (), ts', n')"
    and "size_ok n" and "size_ok n'" and "task_cmds N t n = None"
  shows "node_reachable N (n', ts' @ ts)"
  using assms(1) task_step [OF assms(2-5)] unfolding node_reachable_def
  by (blast intro: rtranclp.rtrancl_into_rtrancl)

lemma run_call:
  assumes "node_reachable N (n, RunCallback (Call k q) v # ts)" and "size_ok n"
  shows "node_reachable N (n, RunClosure k v # ResolvePm q None # ts)"
  using run_one [OF assms(1) _ assms(2)] assms(2) by simp

lemma run_call_map:
  assumes "node_reachable N (n, RunCallback (CallMap k q) v # ts)" and "size_ok n"
  shows "node_reachable N (n, RunMap k v q # ts)"
  using run_one [OF assms(1) _ assms(2)] assms(2) by simp

text \<open>The promise of \<open>all\<close> over settled promises runs its closure at once.\<close>

lemma run_all:
  assumes "node_reachable N (n, RunClosure (AllThen ps k) w # ts)" and "size_ok n"
    and "list_all2 (settled_with n) ps vs" and "ps \<noteq> []"
  shows "\<exists>n' ts'. node_reachable N (n', RunClosure k (Some (VAll vs)) # ts') \<and> n_core n' = n_core n"
proof -
  obtain q n' where r: "all_then ps k n = (Inr (), [RunCallback (Call k q) (Some (VAll vs))], n')"
    and n': "pms_only n n'" using all_run [OF assms(3,4)] by blast
  have "size_ok n'" using assms(2) pms_only_same [OF n'] by (simp add: size_ok_def)
  with run_one [OF assms(1) _ assms(2) this] r
  have "node_reachable N (n', RunCallback (Call k q) (Some (VAll vs)) # ts)" by simp
  from run_call [OF this \<open>size_ok n'\<close>] show ?thesis using pms_only_same [OF n'] by blast
qed

end
