(* ===== verification/Callbacks.thy ===== *)
theory Callbacks
  imports Base
begin

text \<open>
  The commit callbacks of the application (\<open>HotStuffBase::exec_command\<close>): a callback waits in the
  queue of commands, then under the hash of its command, and is called when the command is
  decided or turns out to be waited for already. No other part of a replica touches it.
\<close>

section \<open>What only the queue of commands and the decisions change\<close>

text \<open>The calls of the application.\<close>

definition to_app :: "net_output \<Rightarrow> bool" where
  "to_app out = (case out of CommitCallback cb fin \<Rightarrow> True | StateMachineExecute fin \<Rightarrow> True | _ \<Rightarrow> False)"

definition app_calls :: "node \<Rightarrow> net_output list" where
  "app_calls n = filter to_app (n_net n)"

definition book ::
  "node \<Rightarrow> (uint256 \<times> nat) list \<times> (uint256 \<rightharpoonup> nat) \<times> net_output list" where
  "book n = (n_cmd_pending n, n_decision_waiting n, app_calls n)"



lemma book_fields [simp]:
  "book (n\<lparr>n_core := c\<rparr>) = book n" "book (n\<lparr>n_pms := h\<rparr>) = book n" "book (n\<lparr>n_vpool := vp\<rparr>) = book n"
  "book (n\<lparr>n_pace := p\<rparr>) = book n" "book (n\<lparr>n_fetch_waiting := fw\<rparr>) = book n"
  "book (n\<lparr>n_delivery_waiting := dw\<rparr>) = book n" "book (n\<lparr>n_async_calls := ac\<rparr>) = book n"
  "book (n\<lparr>n_fetched := x\<rparr>) = book n" "book (n\<lparr>n_delivered := x\<rparr>) = book n"
  "book (n\<lparr>n_part_parent_size := u\<rparr>) = book n" "book (n\<lparr>n_part_fetched := u\<rparr>) = book n"
  "book (n\<lparr>n_part_delivered := u\<rparr>) = book n" "book (n\<lparr>n_part_decided := u\<rparr>) = book n"
  "book (n\<lparr>n_part_fetched_replica := r\<rparr>) = book n" "book (n\<lparr>n_cmd_pending_buffer := b\<rparr>) = book n"
  "book (set_pace f n) = book n"
  by (simp_all add: book_def set_pace_def app_calls_def)

lemma book_tell [simp]:
  "book (tell (SendMsg m p) n) = book n" "book (tell (MulticastMsg m ps) n) = book n"
  "book (tell (ConnectPeer p a) n) = book n" "book (tell DoElected n) = book n"
  by (simp_all add: book_def tell_def app_calls_def to_app_def)

lemma book_bindS:
  assumes "book (snd m) = book n" and "\<And>x s. book s = book n \<Longrightarrow> book (snd (k x s)) = book n"
  shows "book (snd (bindS m k)) = book n"
  using assms by (auto simp: bindS_def split: sum.split prod.splits)

section \<open>The node's building blocks\<close>

lemma book_node [simp]:
  "book (snd (snd (call_core f n))) = book n"
  "book (snd (n_resolve p v n)) = book n" "book (snd (n_reject p v n)) = book n"
  "book (snd (n_new_pm n)) = book n" "book (snd (n_resolved v n)) = book n"
  "book (snd (snd (n_then p k n))) = book n" "book (snd (snd (n_then_map p k n))) = book n"
  "book (snd (n_all ps n)) = book n"
  by (simp_all add: call_core_def n_resolve_def n_reject_def n_new_pm_def n_resolved_def n_then_def
      n_then_map_def n_all_def case_prod_beta Let_def)

lemmas unfold_tuples = Let_def case_prod_beta

lemma book_pool [simp]:
  "book (snd (vp_verify t n)) = book n" "book (snd (vp_work C k n)) = book n" "book (snd (vp_handle n)) = book n"
  "book (snd (cert_verify_pool E cert pk n)) = book n"
  by (simp_all add: vp_verify_def vp_work_def vp_handle_def unfold_tuples split: sum.split list.split option.split)
     (induction E cert pk n rule: cert_verify_pool.induct; simp add: vp_verify_def unfold_tuples)

lemma book_qc_tasks [simp]: "book (snd (qc_tasks cfg h sigs is n)) = book n"
  by (induction "is" arbitrary: n)
     (auto simp: unfold_tuples intro!: book_bindS split: sum.split pub_key.split option.split)

lemma book_verify [simp]:
  "book (snd (qc_verify_promise cfg q n)) = book n" "book (snd (blk_verify_promise b n)) = book n"
proof -
  show qc: "book (snd (qc_verify_promise cfg q n)) = book n" for cfg q n
    by (cases q) (auto simp: unfold_tuples intro!: book_bindS)
  show "book (snd (blk_verify_promise b n)) = book n"
    by (simp add: blk_verify_promise_def qc unfold_tuples split: option.split)
qed

section \<open>The pace makers\<close>

lemma book_waits [simp]:
  "book (snd (snd (wait_proposal n))) = book n" "book (snd (snd (wait_receive_proposal n))) = book n"
  "book (snd (snd (wait_hqc_update n))) = book n" "book (snd (wait_qc_finish b n)) = book n"
  by (simp_all add: wait_proposal_def wait_receive_proposal_def wait_hqc_update_def wait_qc_finish_def
      unfold_tuples split: option.split)

lemma book_on_wait: "(\<And>n. book (snd (snd (wait n))) = book n) \<Longrightarrow> book (snd (on_wait wait k n)) = book n"
  by (simp add: on_wait_def unfold_tuples)

lemma book_registers [simp]:
  "book (snd (ht_reg_hqc_update n)) = book n" "book (snd (ht_reg_proposal n)) = book n"
  "book (snd (ht_reg_receive_proposal n)) = book n" "book (snd (rr_reg_proposal n)) = book n"
  "book (snd (rr_reg_receive_proposal n)) = book n"
  by (simp_all add: ht_reg_hqc_update_def ht_reg_proposal_def ht_reg_receive_proposal_def rr_reg_proposal_def
      rr_reg_receive_proposal_def book_on_wait)

lemma book_high_tail [simp]:
  "book (snd (snd (ht_on_hqc_update N b n))) = book n" "book (snd (snd (ht_on_proposal prop n))) = book n"
  "book (snd (snd (ht_on_receive_proposal prop n))) = book n" "book (snd (high_tail_init n)) = book n"
  by (simp_all add: ht_on_hqc_update_def ht_on_proposal_def ht_on_receive_proposal_def high_tail_init_def
      unfold_tuples split: sum.split option.split)

lemma book_wait_qc [simp]:
  "book (snd (schedule_next n)) = book n" "book (snd (wq_on_qc_finish p n)) = book n"
  "book (snd (update_last_proposed n)) = book n"
  by (simp_all add: schedule_next_def wq_on_qc_finish_def update_last_proposed_def unfold_tuples split: list.split)

lemma book_beats [simp]:
  "book (snd (snd (wq_on_proposal prop n))) = book n" "book (snd (wait_qc_init n)) = book n"
  "book (snd (snd (beat n))) = book n" "book (snd (beat_resp r n)) = book n"
  by (simp_all add: wq_on_proposal_def wait_qc_init_def beat_def beat_resp_def unfold_tuples split: option.split)

lemma book_rotation [simp]:
  "book (snd (rr_on_proposal prop n)) = book n" "book (snd (rr_on_receive_proposal prop n)) = book n"
  "book (snd (snd (do_new_consensus N x cmds n))) = book n" "book (snd (rr_await_manual x b n)) = book n"
  "book (snd (reject_waits n)) = book n"
  by (simp_all add: rr_on_proposal_def rr_on_receive_proposal_def do_new_consensus_def rr_await_manual_def
      reject_waits_def unfold_tuples split: sum.split)

lemma book_rotating [simp]:
  "book (snd (snd (rr_on_manual N x n))) = book n" "book (snd (snd (rotate_pm n))) = book n"
  "book (snd (snd (on_exp_timeout N n))) = book n" "book (snd (stop_rotate n)) = book n"
  "book (snd (snd (rr_repropose N n))) = book n"
  by (simp_all add: rr_on_manual_def rotate_pm_def on_exp_timeout_def stop_rotate_def rr_repropose_def
      unfold_tuples)

lemma book_pace [simp]:
  "book (snd (pm_on_consensus b n)) = book n" "book (snd (snd (impeach n))) = book n" "book (snd (pm_init n)) = book n"
  by (simp_all add: pm_on_consensus_def impeach_def pm_init_def unfold_tuples)

section \<open>Fetching, delivering and the handlers\<close>

lemma book_sends [simp]:
  "book (snd (send_to K m p n)) = book n" "book (snd (do_broadcast_slice E x n)) = book n"
  "book (snd (do_broadcast_proposal E prop n)) = book n"
  by (simp_all add: send_to_def do_broadcast_slice_def do_broadcast_proposal_def split: sum.split)

lemma book_send_proposals [simp]: "book (snd (send_proposals E props ps n)) = book n"
  by (induction E props ps n rule: send_proposals.induct) (auto intro!: book_bindS split: sum.split)

lemma book_fetch [simp]:
  "book (snd (fc_send E h r n)) = book n" "book (snd (fc_add_replica E h r b n)) = book n"
  by (auto simp: fc_send_def fc_add_replica_def intro!: book_bindS split: option.split)

lemma book_fc_send_all [simp]: "book (snd (fc_send_all E h rs n)) = book n"
  by (induction rs arbitrary: n) (auto intro!: book_bindS)

lemma book_async_fetch_blk [simp]: "book (snd (async_fetch_blk E h r b n)) = book n"
  by (auto simp: async_fetch_blk_def unfold_tuples intro!: book_bindS split: option.split)

lemma book_fetch_all [simp]: "book (snd (fetch_all E hs n)) = book n"
  by (induction hs arbitrary: n) (auto intro!: book_bindS)

lemma book_fetched [simp]:
  "book (snd (fc_timeout N h n)) = book n" "book (snd (on_fetch_blk b n)) = book n"
  "book (snd (snd (async_deliver_blk E h r n))) = book n"
  "book (snd (snd (fetched_for_delivery E r b n))) = book n" "book (snd (snd (all_then ps k n))) = book n"
  by (simp_all add: fc_timeout_def on_fetch_blk_def async_deliver_blk_def fetched_for_delivery_def all_then_def
      unfold_tuples split: sum.split option.split)

lemma book_deliver [simp]:
  "book (snd (snd (deliver_parents E b r ps hs n))) = book n" "book (snd (snd (base_on_deliver_blk b n))) = book n"
  by (cases hs; simp add: unfold_tuples split: sum.split)
     (simp add: base_on_deliver_blk_def unfold_tuples split: sum.split option.split)

lemma book_ready [simp]: "book (snd (snd (ready_for_delivery b vs n))) = book n"
  by (simp add: ready_for_delivery_def split: list.split option.split pm_value.split)

lemma book_call_storage [simp]: "book (snd (call_storage f n)) = book n"
  by (simp add: call_storage_def unfold_tuples)

lemma book_handlers [simp]:
  "book (snd (snd (propose_handler E s conn n))) = book n" "book (snd (snd (vote_handler E s conn n))) = book n"
  "book (snd (snd (req_blk_handler E s conn n))) = book n" "book (snd (snd (resp_blk_handler E s n))) = book n"
  "book (snd (snd (slice_handler E s conn n))) = book n"
  by (simp_all add: propose_handler_def vote_handler_def req_blk_handler_def resp_blk_handler_def slice_handler_def
      unfold_tuples split: sum.split option.split)

lemma book_votes [simp]:
  "book (snd (snd (check_vote E v p n))) = book n" "book (snd (snd (checked_vote E v vs n))) = book n"
  "book (snd (fetched_for_request E r vs n)) = book n" "book (snd (do_vote lp v n)) = book n"
  "book (snd (snd (on_beat_resp E v rid n))) = book n" "book (snd (snd (on_beat E cmds rid n))) = book n"
  by (simp_all add: check_vote_def checked_vote_def fetched_for_request_def do_vote_def on_beat_resp_def on_beat_def
      unfold_tuples split: sum.split option.split list.split pm_value.split)

lemma book_small [simp]:
  "book (snd (snd (bad_cast n))) = book n" "book (snd (snd (ok_run x))) = book (snd x)"
  "book (snd (snd (no_tasks y))) = book (snd y)" "book (snd (snd (on_fetch_blks bs n))) = book n"
  by (simp_all add: bad_cast_def ok_run_def no_tasks_def on_fetch_blks_def unfold_tuples split: list.split)

lemma book_with [simp]:
  "(\<And>b n. book (snd (snd (f b n))) = book n) \<Longrightarrow> book (snd (snd (with_blk v f n))) = book n"
  "(\<And>r n. book (snd (snd (g r n))) = book n) \<Longrightarrow> book (snd (snd (with_rid v g n))) = book n"
  "(\<And>p n. book (snd (snd (k p n))) = book n) \<Longrightarrow> book (snd (snd (with_prop v k n))) = book n"
  "(\<And>vs n. book (snd (snd (l vs n))) = book n) \<Longrightarrow> book (snd (snd (with_all v l n))) = book n"
  by (simp_all add: with_blk_def with_rid_def with_prop_def with_all_def split: option.split pm_value.split)

lemma book_fire_timer [simp]: "book (snd (snd (fire_timer N n))) = book n"
  by (simp add: fire_timer_def unfold_tuples split: option.split timer_action.split)

section \<open>Tasks and events\<close>

fun task_decides :: "task \<Rightarrow> finality option" where
  "task_decides (RunClosure (Output (DoDecide fin)) v) = Some fin"
| "task_decides t = None"

lemma book_closure: "task_decides (RunClosure k v) = None \<Longrightarrow> book (snd (snd (run_closure N k v n))) = book n"
proof (cases k)
  case (Output out)
  then show "task_decides (RunClosure k v) = None \<Longrightarrow> book (snd (snd (run_closure N k v n))) = book n"
    by (cases out) (simp_all add: do_broadcast_proposal_with_slice_def unfold_tuples)
qed simp_all

lemma book_task: "task_decides t = None \<Longrightarrow> book (snd (snd (run_task N t n))) = book n"
proof (cases t)
  case (RunClosure k v)
  then show "task_decides t = None \<Longrightarrow> book (snd (snd (run_task N t n))) = book n"
    using book_closure by simp
qed (simp_all add: unfold_tuples split: sum.split)

lemma book_event:
  assumes "\<And>h cb. ev \<noteq> ExecCommand h cb" and "ev \<noteq> CmdQueue"
  shows "book (snd (snd (handle_event N ev n))) = book n"
proof (cases ev)
  case (Receive m conn)
  then show ?thesis by (cases m) simp_all
qed (use assms in \<open>simp_all split: list.split\<close>)

section \<open>Every callback is called at most once\<close>

text \<open>
  How often a callback was called for a command; and how often it is registered for it: in the
  queue, under the command's hash, or called already.
\<close>

definition is_call_of :: "uint256 \<Rightarrow> nat \<Rightarrow> net_output \<Rightarrow> bool" where
  "is_call_of h cb out = (case out of CommitCallback cb' fin \<Rightarrow> cb' = cb \<and> f_cmd_hash fin = h | _ \<Rightarrow> False)"

definition called :: "uint256 \<Rightarrow> nat \<Rightarrow> node \<Rightarrow> nat" where
  "called h cb n = length (filter (is_call_of h cb) (n_net n))"

definition taken :: "uint256 \<Rightarrow> nat \<Rightarrow> node \<Rightarrow> nat" where
  "taken h cb n = (if n_decision_waiting n h = Some cb then 1 else 0) + called h cb n"

definition queued :: "uint256 \<Rightarrow> nat \<Rightarrow> (uint256 \<times> nat) list \<Rightarrow> nat" where
  "queued h cb q = length (filter ((=) (h, cb)) q)"

definition registered :: "uint256 \<Rightarrow> nat \<Rightarrow> node \<Rightarrow> nat" where
  "registered h cb n = queued h cb (n_cmd_pending n) + taken h cb n"

lemma called_calls: "called h cb n = length (filter (is_call_of h cb) (app_calls n))"
proof -
  have "filter (is_call_of h cb) outs = filter (is_call_of h cb) (filter to_app outs)" for outs
    by (induction outs) (auto simp: to_app_def is_call_of_def split: net_output.split)
  then show ?thesis by (metis called_def app_calls_def)
qed

lemma called_book: "book n' = book n \<Longrightarrow> called h cb n' = called h cb n"
  by (simp add: called_calls book_def)

lemma taken_book: "book n' = book n \<Longrightarrow> taken h cb n' = taken h cb n"
  using called_book [of n' n h cb] by (simp add: taken_def book_def)

lemma registered_book: "book n' = book n \<Longrightarrow> registered h cb n' = registered h cb n"
  using taken_book [of n' n h cb] by (simp add: registered_def book_def)

lemma called_tell [simp]: "called h cb (tell out n) = called h cb n + (if is_call_of h cb out then 1 else 0)"
  by (simp add: called_def tell_def)

lemma tell_fields [simp]:
  "n_decision_waiting (tell out n) = n_decision_waiting n" "n_cmd_pending (tell out n) = n_cmd_pending n"
  by (simp_all add: tell_def)

lemma called_fields [simp]:
  "called h cb (n\<lparr>n_decision_waiting := w\<rparr>) = called h cb n" "called h cb (n\<lparr>n_part_decided := u\<rparr>) = called h cb n"
  "called h cb (n\<lparr>n_cmd_pending := q\<rparr>) = called h cb n"
  "called h cb (n\<lparr>n_cmd_pending_buffer := b\<rparr>) = called h cb n"
  by (simp_all add: called_def)

lemma do_decide_callbacks:
  "n_cmd_pending (do_decide fin n) = n_cmd_pending n \<and> taken h cb (do_decide fin n) = taken h cb n \<and>
   called h cb n \<le> called h cb (do_decide fin n)"
proof (cases "n_decision_waiting n (f_cmd_hash fin)")
  case None
  then show ?thesis by (simp add: do_decide_def taken_def is_call_of_def)
next
  case (Some cb')
  then show ?thesis by (simp add: do_decide_def taken_def is_call_of_def)
qed

text \<open>A command leaves the queue: its callback waits, or is called when another one waits.\<close>

lemma take_command_callbacks:
  "taken h cb (take_command E h' cb' n) = taken h cb n + (if (h, cb) = (h', cb') then 1 else 0) \<and>
   called h cb n \<le> called h cb (take_command E h' cb' n)"
  by (cases "n_decision_waiting n h'")
     (auto simp: take_command_def taken_def is_call_of_def Let_def)

lemma propose_commands_book: "book (snd (propose_commands n)) = book n"
  by (simp add: propose_commands_def unfold_tuples)

lemma cmd_loop_callbacks:
  "registered h cb (snd (cmd_loop E q n)) = queued h cb q + taken h cb n \<and>
   called h cb n \<le> called h cb (snd (cmd_loop E q n))"
proof (induction E q n rule: cmd_loop.induct)
  case (1 E n)
  then show ?case by (simp add: registered_def queued_def taken_def)
next
  case (2 E h' cb' q n)
  let ?n = "take_command E h' cb' n"
  note take = take_command_callbacks [of h cb E h' cb' n]
  have queue: "queued h cb ((h', cb') # q) = queued h cb q + (if (h, cb) = (h', cb') then 1 else 0)"
    by (simp add: queued_def)
  show ?case
  proof (cases "get_proposer n = get_id (n_core n) \<and> n_blk_size n \<le> length (n_cmd_pending_buffer ?n)")
    case True
    have "registered h cb (snd (propose_commands (?n\<lparr>n_cmd_pending := q\<rparr>))) = queued h cb q + taken h cb ?n"
      using registered_book [OF propose_commands_book] by (simp add: registered_def taken_def)
    moreover have "called h cb (snd (propose_commands (?n\<lparr>n_cmd_pending := q\<rparr>))) = called h cb ?n"
      using called_book [OF propose_commands_book] by simp
    ultimately show ?thesis using True take queue by (simp add: Let_def)
  next
    case False
    then have "cmd_loop E ((h', cb') # q) n = cmd_loop E q ?n" by (simp only: cmd_loop.simps Let_def if_False)
    then show ?thesis using 2 [OF refl False] take queue by simp
  qed
qed

lemma cmd_handler_callbacks:
  "registered h cb (snd (cmd_handler E n)) = registered h cb n \<and> called h cb n \<le> called h cb (snd (cmd_handler E n))"
  using cmd_loop_callbacks [of h cb E "n_cmd_pending n" n] by (simp add: cmd_handler_def registered_def)

lemma task_callbacks:
  "registered h cb (snd (snd (run_task N t n))) = registered h cb n \<and>
   called h cb n \<le> called h cb (snd (snd (run_task N t n)))"
proof (cases "task_decides t")
  case None
  note same = book_task [OF this, of N n]
  show ?thesis using registered_book [OF same, of h cb] called_book [OF same, of h cb] by simp
next
  case (Some fin)
  then obtain v where "t = RunClosure (Output (DoDecide fin)) v"
    by (cases t rule: task_decides.cases) auto
  then show ?thesis using do_decide_callbacks [of fin n h cb] by (simp add: registered_def)
qed

lemma event_callbacks:
  "registered h cb (snd (snd (handle_event N ev n))) = registered h cb n + (if ev = ExecCommand h cb then 1 else 0) \<and>
   called h cb n \<le> called h cb (snd (snd (handle_event N ev n)))"
proof -
  consider (exec) h' cb' where "ev = ExecCommand h' cb'" | (queue) "ev = CmdQueue"
    | (other) "\<And>h cb. ev \<noteq> ExecCommand h cb" "ev \<noteq> CmdQueue" by blast
  then show ?thesis
  proof cases
    case exec
    then show ?thesis by (auto simp: exec_command_def registered_def queued_def taken_def called_def)
  next
    case queue
    then show ?thesis using cmd_handler_callbacks [of h cb "ne_env N" n] by (simp add: ok_run_def)
  next
    case other
    note same = book_event [OF other, of N n]
    show ?thesis
      using registered_book [OF same, of h cb] called_book [OF same, of h cb] other(1) [of h cb] by simp
  qed
qed

text \<open>The calls are made in the order in which they are logged.\<close>

lemma book_calls: "book n' = book n \<Longrightarrow> app_calls n' = app_calls n @ []"
  by (simp add: book_def)

lemma calls_fields [simp]:
  "app_calls (n\<lparr>n_decision_waiting := w\<rparr>) = app_calls n" "app_calls (n\<lparr>n_part_decided := u\<rparr>) = app_calls n"
  "app_calls (n\<lparr>n_cmd_pending := q\<rparr>) = app_calls n" "app_calls (n\<lparr>n_cmd_pending_buffer := b\<rparr>) = app_calls n"
  "app_calls (tell out n) = app_calls n @ (if to_app out then [out] else [])"
  by (simp_all add: app_calls_def tell_def)

lemma take_command_calls: "\<exists>outs. app_calls (take_command E h cb n) = app_calls n @ outs"
  by (cases "n_decision_waiting n h") (auto simp: take_command_def Let_def)

lemma cmd_loop_calls: "\<exists>outs. app_calls (snd (cmd_loop E q n)) = app_calls n @ outs"
proof (induction E q n rule: cmd_loop.induct)
  case (2 E h cb q n)
  let ?n = "take_command E h cb n"
  obtain outs where outs: "app_calls ?n = app_calls n @ outs" using take_command_calls by blast
  show ?case
  proof (cases "get_proposer n = get_id (n_core n) \<and> n_blk_size n \<le> length (n_cmd_pending_buffer ?n)")
    case True
    then have "snd (cmd_loop E ((h, cb) # q) n) = snd (propose_commands (?n\<lparr>n_cmd_pending := q\<rparr>))"
      by (simp add: Let_def)
    then show ?thesis using book_calls [OF propose_commands_book] outs by simp
  next
    case False
    then have "cmd_loop E ((h, cb) # q) n = cmd_loop E q ?n" by (simp only: cmd_loop.simps Let_def if_False)
    then show ?thesis using 2 [OF refl False] outs by auto
  qed
qed simp

lemma task_calls: "\<exists>outs. app_calls (snd (snd (run_task N t n))) = app_calls n @ outs"
proof (cases "task_decides t")
  case None
  from book_calls [OF book_task [OF this]] show ?thesis by blast
next
  case (Some fin)
  then obtain v where "t = RunClosure (Output (DoDecide fin)) v"
    by (cases t rule: task_decides.cases) auto
  then show ?thesis by (simp add: do_decide_def Let_def split: option.split)
qed

lemma event_calls: "\<exists>outs. app_calls (snd (snd (handle_event N ev n))) = app_calls n @ outs"
proof -
  consider (exec) h' cb' where "ev = ExecCommand h' cb'" | (queue) "ev = CmdQueue"
    | (other) "\<And>h cb. ev \<noteq> ExecCommand h cb" "ev \<noteq> CmdQueue" by blast
  then show ?thesis
  proof cases
    case exec
    then show ?thesis by (simp add: exec_command_def)
  next
    case queue
    then show ?thesis using cmd_loop_calls by (simp add: cmd_handler_def ok_run_def)
  next
    case other
    from book_calls [OF book_event [OF other]] show ?thesis by blast
  qed
qed

text \<open>
  C8: A commit callback is never lost and never called twice: handling an event or running a
  task leaves the number of its places in the queue of commands, under its command's hash and
  among the calls made as it was, except that \<open>exec_command\<close> adds it once; and calls are not
  taken back. It is only called with a decision on the command it was registered for.
\<close>

theorem commit_callbacks_conserved:
  "registered h cb (snd (snd (handle_event N ev n))) = registered h cb n + (if ev = ExecCommand h cb then 1 else 0) \<and>
   registered h cb (snd (snd (run_task N t n))) = registered h cb n \<and>
   called h cb n \<le> called h cb (snd (snd (handle_event N ev n))) \<and>
   called h cb n \<le> called h cb (snd (snd (run_task N t n)))"
  using event_callbacks task_callbacks by blast

end
