(* ===== verification/Client.thy ===== *)
theory Client
  imports Messages
begin

text \<open>
  The messages between a client and the replicas (include/hotstuff/client.h) and the client
  program (src/examples/hotstuff_client.cpp): it keeps a number of commands outstanding, sends
  each to all replicas, and drops a command when enough responses have come. Timing and the
  set-up in \<open>main\<close> are left out, but for its first round of sending.
\<close>

section \<open>Commands\<close>

text \<open>
  \<open>CommandDummy\<close>, with the payload of \<open>HOTSTUFF_CMD_REQSIZE\<close> bytes, which the code never writes
  but reads and sends.
\<close>

record command_dummy =
  cd_cid :: u32
  cd_n :: u32
  cd_hash :: uint256
  cd_payload :: bytes

definition put_command :: "stream_ops \<Rightarrow> command_dummy \<Rightarrow> bytes" where
  "put_command S c =
     put_u32 S (cd_cid c) @ put_u32 S (cd_n c) @ (if cd_payload c = [] then [] else put_data S (cd_payload c))"

definition command_dummy :: "env \<Rightarrow> bytes \<Rightarrow> u32 \<Rightarrow> u32 \<Rightarrow> command_dummy" where
  "command_dummy E payload cid n =
     (let c = \<lparr>cd_cid = cid, cd_n = n, cd_hash = e_uint256_default E, cd_payload = payload\<rparr> in
      c\<lparr>cd_hash := e_get_hash E (put_command (e_stream E) c)\<rparr>)"

definition get_command :: "env \<Rightarrow> nat \<Rightarrow> bytes \<Rightarrow> (command_dummy \<times> bytes) res" where
  "get_command E reqsize s =
     (let S = e_stream E in
      bindE (get_u32 S s) (\<lambda>(cid, s1). bindE (get_u32 S s1) (\<lambda>(n, s2).
      bindE (if reqsize = 0 then Inr ([], s2) else get_data S reqsize s2) (\<lambda>(payload, s3).
        Inr (command_dummy E payload cid n, s3)))))"

definition command_verify :: "command_dummy \<Rightarrow> bool" where
  "command_verify c = True"

text \<open>\<open>MsgReqCmd\<close>, which the application parses, and \<open>MsgRespCmd\<close>.\<close>

definition msg_req_cmd :: "env \<Rightarrow> command_dummy \<Rightarrow> bytes" where
  "msg_req_cmd E c = put_command (e_stream E) c"

definition msg_resp_cmd :: "env \<Rightarrow> bytes \<Rightarrow> finality \<Rightarrow> bytes res" where
  "msg_resp_cmd E payload fin =
     cat (put_finality (e_stream E) fin) (Inr (if payload = [] then [] else put_data (e_stream E) payload))"

definition msg_resp_cmd_parse :: "env \<Rightarrow> bytes \<Rightarrow> finality res" where
  "msg_resp_cmd_parse E s =
     bindE (get_finality (e_stream E) (e_uint256_default E) s) (\<lambda>(fin, _). Inr fin)"

lemma command_read:
  assumes "stream_ok (e_stream E)"
  shows "get_command E (length req) (msg_req_cmd E (command_dummy E req cid n) @ r) = Inr (command_dummy E req cid n, r)"
proof -
  have S: "stream (e_stream E)" using assms by unfold_locales
  show ?thesis
    by (simp add: get_command_def msg_req_cmd_def put_command_def command_dummy_def Let_def
        stream.u32 [OF S] stream.data [OF S])
qed

text \<open>
  C34: A command that a client sends is read by the replica with its client, its number and its
  payload and gets the same hash, and the response carries the decision back to the client,
  whatever the two payloads are.
\<close>

theorem client_roundtrip:
  assumes "stream_ok (e_stream E)" and "f_decision fin = 1 \<or> f_blk_hash fin = e_uint256_default E"
  shows "get_command E (length req) (msg_req_cmd E (command_dummy E req cid n) @ r) = Inr (command_dummy E req cid n, r) \<and>
    (\<exists>m. msg_resp_cmd E resp fin = Inr m \<and> msg_resp_cmd_parse E m = Inr fin)"
proof
  have S: "stream (e_stream E)" using assms(1) by unfold_locales
  show "get_command E (length req) (msg_req_cmd E (command_dummy E req cid n) @ r) = Inr (command_dummy E req cid n, r)"
    by (rule command_read [OF assms(1)])
  note codec = stream.finality_codec [OF S, of "e_uint256_default E"]
  obtain b where b: "put_finality (e_stream E) fin = Inr b" using codec.enc_total [OF codec assms(2)] by blast
  show "\<exists>m. msg_resp_cmd E resp fin = Inr m \<and> msg_resp_cmd_parse E m = Inr fin"
    using codec.dec_enc [OF codec assms(2) b] by (simp add: msg_resp_cmd_def msg_resp_cmd_parse_def b)
qed

section \<open>The client\<close>

text \<open>
  The globals of the program. \<open>waiting\<close> holds how often a command was confirmed. What is sent
  is logged with the connection, a number of \<open>conns\<close>.
\<close>

record client =
  cl_conns :: "replica_id list"
  cl_max_async :: nat
  cl_max_iter :: int
  cl_cid :: u32
  cl_cnt :: u32
  cl_nfaulty :: u32
  cl_waiting :: "uint256 \<rightharpoonup> nat"
  cl_sent :: "(bytes \<times> replica_id) list"

text \<open>
  \<open>main\<close>: the client of \<open>n\<close> replicas, and \<open>connect_all\<close>. The iterations and the outstanding
  commands are options of type \<open>int\<close>.
\<close>

definition new_client :: "nat \<Rightarrow> int \<Rightarrow> int \<Rightarrow> u32 \<Rightarrow> client" where
  "new_client n iter max_async cid =
     \<lparr>cl_conns = remdups (map word_of_nat [0..<n]), cl_max_async = nat (max_async mod 2 ^ 64), cl_max_iter = iter,
      cl_cid = cid, cl_cnt = 0, cl_nfaulty = word_of_int ((int n - 1) mod 2 ^ 64 div 3), cl_waiting = Map.empty,
      cl_sent = []\<rparr>"

definition try_send :: "env \<Rightarrow> (u32 \<Rightarrow> bytes) \<Rightarrow> bool \<Rightarrow> client \<Rightarrow> bool \<times> client" where
  "try_send E payload check c =
     (if (\<not> check \<or> card (dom (cl_waiting c)) < cl_max_async c) \<and> cl_max_iter c \<noteq> 0
      then let cmd = command_dummy E (payload (cl_cnt c)) (cl_cid c) (cl_cnt c);
               w = cl_waiting c in
        (True, c\<lparr>cl_cnt := cl_cnt c + 1,
                 cl_sent := cl_sent c @ map (\<lambda>p. (msg_req_cmd E cmd, p)) (cl_conns c),
                 cl_waiting := (if w (cd_hash cmd) = None then w(cd_hash cmd \<mapsto> 0) else w),
                 cl_max_iter := (if cl_max_iter c > 0 then cl_max_iter c - 1 else cl_max_iter c)\<rparr>)
      else (False, c))"

text \<open>\<open>while (try_send());\<close> need not end when \<open>max_iter_num\<close> is negative.\<close>

partial_function (option) send_loop :: "env \<Rightarrow> (u32 \<Rightarrow> bytes) \<Rightarrow> client \<Rightarrow> client option" where
  "send_loop E payload c =
     (let (sent, c) = try_send E payload True c in if sent then send_loop E payload c else Some c)"

text \<open>A response for a command that is not waiting: the code has by then dereferenced \<open>end()\<close>.\<close>

definition client_resp_cmd_handler ::
  "env \<Rightarrow> (u32 \<Rightarrow> bytes) \<Rightarrow> finality \<Rightarrow> replica_id \<Rightarrow> client \<Rightarrow> client option" where
  "client_resp_cmd_handler E payload fin conn c =
     (case cl_waiting c (f_cmd_hash fin) of
        None \<Rightarrow> Some c
      | Some k \<Rightarrow>
          let k = k + 1 in
          if k \<le> unat (cl_nfaulty c) then Some (c\<lparr>cl_waiting := (cl_waiting c)(f_cmd_hash fin \<mapsto> k)\<rparr>)
          else send_loop E payload (c\<lparr>cl_waiting := (cl_waiting c)(f_cmd_hash fin := None)\<rparr>))"

fun responses ::
  "env \<Rightarrow> (u32 \<Rightarrow> bytes) \<Rightarrow> (finality \<times> replica_id) list \<Rightarrow> client \<Rightarrow> client option" where
  "responses E payload [] c = Some c"
| "responses E payload ((fin, conn) # rs) c =
     Option.bind (client_resp_cmd_handler E payload fin conn c) (responses E payload rs)"

section \<open>Sending returns\<close>

definition client_ok :: "client \<Rightarrow> bool" where
  "client_ok c \<longleftrightarrow> finite (dom (cl_waiting c)) \<and> (\<forall>k \<in> ran (cl_waiting c). k \<le> unat (cl_nfaulty c))"

lemma try_send_ok: "client_ok c \<Longrightarrow> client_ok (snd (try_send E payload check c))"
  by (auto simp: client_ok_def try_send_def Let_def ran_def split: if_splits)

lemma try_send_sent:
  "try_send E payload True c = (True, c') \<Longrightarrow>
     card (dom (cl_waiting c)) < cl_max_async c \<and> cl_max_iter c \<noteq> 0 \<and> cl_cnt c' = cl_cnt c + 1 \<and>
     cl_max_iter c' = (if cl_max_iter c > 0 then cl_max_iter c - 1 else cl_max_iter c) \<and>
     cl_max_async c' = cl_max_async c \<and> cl_nfaulty c' = cl_nfaulty c \<and> cl_conns c' = cl_conns c \<and>
     length (cl_sent c') = length (cl_sent c) + length (cl_conns c) \<and> cl_waiting c \<subseteq>\<^sub>m cl_waiting c' \<and>
     card (dom (cl_waiting c')) \<le> Suc (card (dom (cl_waiting c)))"
  by (auto simp: try_send_def Let_def map_le_def card_insert_le_m1 intro: card_insert_le_m1 split: if_splits)

text \<open>The hash of the command \<open>i\<close> numbers on, and commands whose hashes are new.\<close>

definition command_hash :: "env \<Rightarrow> (u32 \<Rightarrow> bytes) \<Rightarrow> client \<Rightarrow> nat \<Rightarrow> uint256" where
  "command_hash E payload c i =
     (let n = cl_cnt c + word_of_nat i in cd_hash (command_dummy E (payload n) (cl_cid c) n))"

definition fresh_commands :: "env \<Rightarrow> (u32 \<Rightarrow> bytes) \<Rightarrow> client \<Rightarrow> nat \<Rightarrow> bool" where
  "fresh_commands E payload c m \<longleftrightarrow>
     (\<forall>i<m. cl_waiting c (command_hash E payload c i) = None) \<and> inj_on (command_hash E payload c) {..<m}"

lemma try_send_new:
  assumes "try_send E payload True c = (True, c')"
  shows "command_hash E payload c' i = command_hash E payload c (Suc i)"
    and "cl_waiting c' = (if cl_waiting c (command_hash E payload c 0) = None
      then (cl_waiting c)(command_hash E payload c 0 \<mapsto> 0) else cl_waiting c)"
  using assms by (auto simp: try_send_def command_hash_def Let_def algebra_simps split: if_splits)

lemma fresh_step:
  assumes "try_send E payload True c = (True, c')" and "fresh_commands E payload c (Suc m)"
  shows "fresh_commands E payload c' m" and "card (dom (cl_waiting c)) = n \<Longrightarrow> finite (dom (cl_waiting c)) \<Longrightarrow>
    card (dom (cl_waiting c')) = Suc n"
proof -
  let ?h = "command_hash E payload c"
  have w: "cl_waiting c' = (cl_waiting c)(?h 0 \<mapsto> 0)"
    using try_send_new(2) [OF assms(1)] assms(2) by (simp add: fresh_commands_def)
  have "?h (Suc i) \<noteq> ?h 0" if "i < m" for i
    using assms(2) that by (auto simp: fresh_commands_def dest: inj_onD [where x = "Suc i" and y = 0])
  moreover have "inj_on (\<lambda>i. ?h (Suc i)) {..<m}"
    using assms(2) by (auto simp: fresh_commands_def intro!: inj_onI dest: inj_onD)
  ultimately show "fresh_commands E payload c' m"
    using assms(2) w try_send_new(1) [OF assms(1)] by (simp add: fresh_commands_def inj_on_def)
  show "card (dom (cl_waiting c)) = n \<Longrightarrow> finite (dom (cl_waiting c)) \<Longrightarrow> card (dom (cl_waiting c')) = Suc n"
    using w assms(2) by (subst w) (simp add: fresh_commands_def domIff)
qed

text \<open>The loop from a state that sends, and from one that does not.\<close>

lemma send_loop_step:
  "try_send E payload True c = (True, c') \<Longrightarrow> send_loop E payload c = send_loop E payload c'"
  "try_send E payload True c = (False, c') \<Longrightarrow> send_loop E payload c = Some c"
  by (subst send_loop.simps, simp) (subst send_loop.simps, auto simp: try_send_def Let_def split: if_splits)

lemma not_sent: "try_send E payload True c = (False, c') \<Longrightarrow>
    c' = c \<and> (cl_max_iter c = 0 \<or> cl_max_async c \<le> card (dom (cl_waiting c)))"
  by (auto simp: try_send_def Let_def split: if_splits)

definition sends_end :: "env \<Rightarrow> (u32 \<Rightarrow> bytes) \<Rightarrow> client \<Rightarrow> client \<Rightarrow> bool" where
  "sends_end E payload c c' \<longleftrightarrow> send_loop E payload c = Some c' \<and> cl_waiting c \<subseteq>\<^sub>m cl_waiting c' \<and>
     (cl_max_iter c' = 0 \<or> cl_max_async c \<le> card (dom (cl_waiting c'))) \<and>
     (0 \<le> cl_max_iter c \<longrightarrow> 0 \<le> cl_max_iter c' \<and> cl_max_iter c' \<le> cl_max_iter c \<and>
        length (cl_sent c') = length (cl_sent c) + nat (cl_max_iter c - cl_max_iter c') * length (cl_conns c))"

lemma sends_end_stop: "try_send E payload True c = (False, c') \<Longrightarrow> sends_end E payload c c"
  using not_sent [of E payload c c'] send_loop_step(2) [of E payload c c'] by (auto simp: sends_end_def)

lemma sends_end_step:
  assumes sent: "try_send E payload True c = (True, c1)" and c': "sends_end E payload c1 c'"
  shows "sends_end E payload c c'"
proof -
  note step = try_send_sent [OF sent]
  have "length (cl_sent c') = length (cl_sent c) + nat (cl_max_iter c - cl_max_iter c') * length (cl_conns c) \<and>
      0 \<le> cl_max_iter c' \<and> cl_max_iter c' \<le> cl_max_iter c" if "0 \<le> cl_max_iter c"
  proof -
    have "cl_max_iter c1 = cl_max_iter c - 1" "0 < cl_max_iter c" using step that by auto
    then have "nat (cl_max_iter c - cl_max_iter c') = Suc (nat (cl_max_iter c1 - cl_max_iter c'))"
      "0 \<le> cl_max_iter c1"
      using c' by (auto simp: sends_end_def)
    then show ?thesis
      using c' step \<open>cl_max_iter c1 = cl_max_iter c - 1\<close> by (auto simp: sends_end_def)
  qed
  moreover have "cl_waiting c \<subseteq>\<^sub>m cl_waiting c'" using c' step by (auto simp: sends_end_def intro: map_le_trans)
  ultimately show ?thesis using c' step send_loop_step(1) [OF sent] by (simp add: sends_end_def)
qed

lemma bounded_sends_end:
  "0 \<le> cl_max_iter c \<Longrightarrow> \<exists>c'. sends_end E payload c c'"
proof (induction "nat (cl_max_iter c)" arbitrary: c)
  case 0
  then have "try_send E payload True c = (False, c)" by (simp add: try_send_def)
  then show ?case using sends_end_stop by blast
next
  case (Suc m)
  obtain b c1 where t: "try_send E payload True c = (b, c1)" by force
  show ?case
  proof (cases b)
    case True
    with t have t: "try_send E payload True c = (True, c1)" by simp
    then have "cl_max_iter c1 = cl_max_iter c - 1" using try_send_sent [of E payload c c1] Suc.hyps(2) by simp
    with Suc.hyps(2) have "m = nat (cl_max_iter c1)" "0 \<le> cl_max_iter c1" by simp_all
    from Suc.hyps(1) [OF this] show ?thesis using sends_end_step [OF t] by blast
  next
    case False
    with t have "try_send E payload True c = (False, c1)" by simp
    from sends_end_stop [OF this] show ?thesis by blast
  qed
qed

lemma fresh_sends_end:
  assumes "fresh_commands E payload c (cl_max_async c - card (dom (cl_waiting c)))" and "finite (dom (cl_waiting c))"
  shows "\<exists>c'. sends_end E payload c c'"
  using assms
proof (induction "cl_max_async c - card (dom (cl_waiting c))" arbitrary: c)
  case 0
  then have "try_send E payload True c = (False, c)" by (simp add: try_send_def)
  then show ?case using sends_end_stop by blast
next
  case (Suc m)
  obtain b c1 where t: "try_send E payload True c = (b, c1)" by force
  show ?case
  proof (cases b)
    case True
    with t have t: "try_send E payload True c = (True, c1)" by simp
    have fresh: "fresh_commands E payload c (Suc m)" using Suc.prems(1) Suc.hyps(2) by simp
    note step = fresh_step [OF t fresh]
    have "cl_max_async c1 = cl_max_async c" using try_send_sent [OF t] by simp
    then have m: "m = cl_max_async c1 - card (dom (cl_waiting c1))"
      using step(2) [OF refl Suc.prems(2)] Suc.hyps(2) by simp
    have "finite (dom (cl_waiting c1))"
      using try_send_new(2) [OF t] Suc.prems(2) by simp
    from Suc.hyps(1) [OF m _ this] step(1) m show ?thesis using sends_end_step [OF t] by blast
  next
    case False
    with t have "try_send E payload True c = (False, c1)" by simp
    from sends_end_stop [OF this] show ?thesis by blast
  qed
qed

text \<open>
  C25: The client's loop of sending returns when the number of iterations is bounded, or the
  hashes of the next commands differ from each other and from those waiting. It then has sent
  all commands or has as many outstanding as it may; no command stops waiting; and each of a
  bounded number of commands was sent once over every connection.
\<close>

theorem sending_returns:
  assumes "0 \<le> cl_max_iter c \<or> fresh_commands E payload c (cl_max_async c - card (dom (cl_waiting c)))"
    and "client_ok c"
  shows "\<exists>c'. send_loop E payload c = Some c' \<and> cl_waiting c \<subseteq>\<^sub>m cl_waiting c' \<and>
    (cl_max_iter c' = 0 \<or> cl_max_async c \<le> card (dom (cl_waiting c'))) \<and>
    (0 \<le> cl_max_iter c \<longrightarrow> length (cl_sent c') =
       length (cl_sent c) + nat (cl_max_iter c - cl_max_iter c') * length (cl_conns c))"
proof -
  have "\<exists>c'. sends_end E payload c c'"
    using assms bounded_sends_end fresh_sends_end unfolding client_ok_def by blast
  then show ?thesis unfolding sends_end_def by blast
qed

lemma sending_returns_witness:
  "\<exists>c'. send_loop (toy_env NoSig) (\<lambda>_. []) (new_client 4 3 1 7) = Some c' \<and>
     (cl_max_iter c' = 0 \<or> 1 \<le> card (dom (cl_waiting c'))) \<and> length (cl_sent c') = nat (3 - cl_max_iter c') * 4"
proof -
  let ?c = "new_client 4 3 1 7"
  have c: "0 \<le> cl_max_iter ?c" "client_ok ?c" "cl_max_async ?c = 1" "cl_sent ?c = []" "length (cl_conns ?c) = 4"
    "cl_max_iter ?c = 3"
    by (simp_all add: new_client_def client_ok_def upt_conv_Cons)
  from sending_returns [OF disjI1 [OF c(1)] c(2), of "toy_env NoSig" "\<lambda>_. []"] show ?thesis
    by (auto simp only: c list.size add_0)
qed

lemma client_roundtrip_witness:
  "get_command (toy_env NoSig) 2 (msg_req_cmd (toy_env NoSig) (command_dummy (toy_env NoSig) [1, 2] 7 3) @ [9]) =
     Inr (command_dummy (toy_env NoSig) [1, 2] 7 3, [9]) \<and>
   (\<exists>m. msg_resp_cmd (toy_env NoSig) [] \<lparr>f_rid = 1, f_decision = 1, f_cmd_idx = 0, f_cmd_height = 3,
       f_cmd_hash = 4, f_blk_hash = 5\<rparr> = Inr m)"
  using client_roundtrip [of "toy_env NoSig" "\<lparr>f_rid = 1, f_decision = 1, f_cmd_idx = 0, f_cmd_height = 3,
       f_cmd_hash = 4, f_blk_hash = 5\<rparr>" "[1, 2]" 7 3 "[9]" "[]"] le.laws
  by (auto simp: numeral_2_eq_2)

section \<open>Responses\<close>

definition responses_for :: "uint256 \<Rightarrow> (finality \<times> replica_id) list \<Rightarrow> nat" where
  "responses_for h rs = length (filter (\<lambda>(fin, conn). f_cmd_hash fin = h) rs)"

definition count_response :: "nat \<Rightarrow> nat option \<Rightarrow> nat \<Rightarrow> nat option" where
  "count_response f w m = (case w of None \<Rightarrow> None | Some k \<Rightarrow> if k + m \<le> f then Some (k + m) else None)"

lemma handler_done:
  assumes "cl_max_iter c = 0"
  shows "\<exists>c'. client_resp_cmd_handler E payload fin conn c = Some c' \<and> cl_max_iter c' = 0 \<and>
    cl_nfaulty c' = cl_nfaulty c \<and> (client_ok c \<longrightarrow> client_ok c') \<and> (client_ok c \<longrightarrow> (\<forall>h. cl_waiting c' h =
      count_response (unat (cl_nfaulty c)) (cl_waiting c h) (if f_cmd_hash fin = h then 1 else 0)))"
proof -
  have stop: "send_loop E payload c = Some c" if "cl_max_iter c = 0" for c
    using send_loop_step(2) [of E payload c c] that by (simp add: try_send_def)
  have le: "client_ok c \<Longrightarrow> cl_waiting c h = Some k \<Longrightarrow> k \<le> unat (cl_nfaulty c)" for h k
    by (auto simp: client_ok_def ran_def)
  show ?thesis
  proof (cases "cl_waiting c (f_cmd_hash fin)")
    case None
    then show ?thesis
      using assms le by (auto simp: client_resp_cmd_handler_def count_response_def split: option.split)
  next
    case (Some k)
    then show ?thesis
      using assms le stop by (auto simp: client_resp_cmd_handler_def count_response_def client_ok_def ran_def
          split: option.split if_splits)
  qed
qed

text \<open>
  C24: Once all commands are sent, a waiting command is dropped exactly when \<open>nfaulty + 1\<close>
  responses for it have come, counted from its last state; it does not matter over which
  connections they came or what they decide, so one replica that repeats itself is enough. All
  other commands keep their counts.
\<close>

theorem client_counts_responses:
  assumes "client_ok c" and "cl_max_iter c = 0"
  shows "\<exists>c'. responses E payload rs c = Some c' \<and> (\<forall>h. cl_waiting c' h =
    count_response (unat (cl_nfaulty c)) (cl_waiting c h) (responses_for h rs))"
  using assms
proof (induction rs arbitrary: c)
  case Nil
  have "k \<le> unat (cl_nfaulty c)" if "cl_waiting c h = Some k" for h k
    using Nil that by (auto simp: client_ok_def ran_def)
  then show ?case by (auto simp: count_response_def responses_for_def split: option.split)
next
  case (Cons r rs)
  obtain fin conn where r: "r = (fin, conn)" by force
  obtain c1 where c1: "client_resp_cmd_handler E payload fin conn c = Some c1" "cl_max_iter c1 = 0" "client_ok c1"
    "cl_nfaulty c1 = cl_nfaulty c"
    "\<forall>h. cl_waiting c1 h = count_response (unat (cl_nfaulty c)) (cl_waiting c h) (if f_cmd_hash fin = h then 1 else 0)"
    using handler_done [OF Cons.prems(2), of E payload fin conn] Cons.prems(1) by blast
  obtain c' where c': "responses E payload rs c1 = Some c'"
    "\<forall>h. cl_waiting c' h = count_response (unat (cl_nfaulty c1)) (cl_waiting c1 h) (responses_for h rs)"
    using Cons.IH [OF c1(3,2)] by blast
  have "responses E payload (r # rs) c = Some c'" using c1(1) c'(1) by (simp add: r)
  moreover have "cl_waiting c' h =
      count_response (unat (cl_nfaulty c)) (cl_waiting c h) (responses_for h (r # rs))" for h
    using c'(2) c1(4,5) by (auto simp: count_response_def responses_for_def r split: option.split)
  ultimately show ?case by blast
qed

text \<open>The command 5 was confirmed by one replica twice.\<close>

definition sample_client :: client where
  "sample_client = (new_client 4 0 1 7)\<lparr>cl_waiting := [5 \<mapsto> 0, 6 \<mapsto> 0]\<rparr>"

definition sample_response :: finality where
  "sample_response = \<lparr>f_rid = 2, f_decision = 0, f_cmd_idx = 0, f_cmd_height = 0, f_cmd_hash = 5, f_blk_hash = 0\<rparr>"

lemma client_counts_responses_witness:
  "\<exists>c'. responses (toy_env NoSig) (\<lambda>_. []) [(sample_response, 2), (sample_response, 2)] sample_client = Some c' \<and>
     cl_waiting c' 5 = None \<and> cl_waiting c' 6 = Some 0"
proof -
  have n: "unat (cl_nfaulty sample_client) = 1" by (simp add: sample_client_def new_client_def)
  have ok: "client_ok sample_client" "cl_max_iter sample_client = 0"
    by (auto simp: client_ok_def sample_client_def new_client_def ran_def split: if_splits)
  from client_counts_responses [OF ok, of "toy_env NoSig" "\<lambda>_. []" "[(sample_response, 2), (sample_response, 2)]"]
  obtain c' where c': "responses (toy_env NoSig) (\<lambda>_. []) [(sample_response, 2), (sample_response, 2)] sample_client = Some c'"
    "\<forall>h. cl_waiting c' h = count_response 1 (cl_waiting sample_client h)
       (responses_for h [(sample_response, 2), (sample_response, 2)])"
    unfolding n by blast
  then show ?thesis
    by (intro exI [of _ c'])
       (simp add: count_response_def responses_for_def sample_response_def sample_client_def)
qed

end
