(* ===== verification/App.thy ===== *)
theory App
  imports Callbacks Client
begin

text \<open>
  The application around a replica (src/examples/hotstuff_app.cpp): it takes the commands of
  clients, runs the replica's event loop, and answers a client when its command is decided. The
  threads for requests and responses are events; options and statistics are left out.
\<close>

section \<open>State\<close>

text \<open>
  The closure that \<open>exec_command\<close> gets captures the client's address: \<open>a_clients\<close> maps the number
  of a callback to it. What was sent is logged as the response's decision and its address.
\<close>

record app =
  a_node :: node
  a_tasks :: "task list"
  a_clients :: "nat \<Rightarrow> net_addr"
  a_next_cb :: nat
  a_resp_queue :: "(finality \<times> net_addr) list"
  a_impeach_timeout :: real
  a_impeach_timer :: "real option"
  a_sent :: "(finality \<times> net_addr) list"

text \<open>The constructor and \<open>start\<close>, after which the event loop runs.\<close>

definition app_start ::
  "net_env \<Rightarrow> (net_addr \<times> pub_key \<times> uint256) list \<Rightarrow> real \<Rightarrow> node \<Rightarrow> app" where
  "app_start N replicas timeout n =
     (let (ts, n) = start_node N replicas n in
      \<lparr>a_node = n, a_tasks = ts, a_clients = (\<lambda>_. 0), a_next_cb = 0, a_resp_queue = [],
       a_impeach_timeout = timeout, a_impeach_timer = Some timeout, a_sent = []\<rparr>)"

section \<open>Operations\<close>

definition reset_imp_timer :: "app \<Rightarrow> app" where
  "reset_imp_timer a = a\<lparr>a_impeach_timer := Some (a_impeach_timeout a)\<rparr>"

text \<open>\<open>state_machine_execute\<close>, and the callback that \<open>client_request_cmd_handler\<close> registers.\<close>

fun app_output :: "app \<Rightarrow> net_output \<Rightarrow> app" where
  "app_output a (StateMachineExecute fin) = reset_imp_timer a"
| "app_output a (CommitCallback cb fin) = a\<lparr>a_resp_queue := a_resp_queue a @ [(fin, a_clients a cb)]\<rparr>"
| "app_output a _ = a"

text \<open>A step of the replica: its tasks, and the calls of the application that it makes.\<close>

definition replica_step :: "task list \<Rightarrow> unit res run \<Rightarrow> app \<Rightarrow> unit res \<times> app" where
  "replica_step rest x a =
     (case x of (r, ts, n) \<Rightarrow>
        let outs = drop (length (app_calls (a_node a))) (app_calls n) in
        (r, foldl app_output (a\<lparr>a_node := n, a_tasks := ts @ (if r = Inr () then rest else [])\<rparr>) outs))"

definition parse_cmd :: "env \<Rightarrow> nat \<Rightarrow> bytes \<Rightarrow> command_dummy res" where
  "parse_cmd E reqsize s = bindE (get_command E reqsize s) (\<lambda>(cmd, _). Inr cmd)"

definition client_request_cmd_handler ::
  "net_env \<Rightarrow> nat \<Rightarrow> bytes \<Rightarrow> net_addr \<Rightarrow> app \<Rightarrow> unit res \<times> app" where
  "client_request_cmd_handler N reqsize s addr a =
     (case parse_cmd (ne_env N) reqsize s of
        Inl e \<Rightarrow> (Inl e, a)
      | Inr cmd \<Rightarrow>
          let cb = a_next_cb a in
          (Inr (), a\<lparr>a_node := exec_command (cd_hash cmd) cb (a_node a), a_next_cb := Suc cb,
                    a_clients := (a_clients a)(cb := addr)\<rparr>))"

text \<open>The thread for responses takes what is queued.\<close>

definition send_responses :: "app \<Rightarrow> app" where
  "send_responses a = a\<lparr>a_sent := a_sent a @ a_resp_queue a, a_resp_queue := []\<rparr>"

definition on_impeach_timer :: "net_env \<Rightarrow> app \<Rightarrow> unit res \<times> app" where
  "on_impeach_timer N a =
     (let a = a\<lparr>a_impeach_timer := None\<rparr>;
          (r, a) = (if dom (n_decision_waiting (a_node a)) \<noteq> {}
                    then replica_step (a_tasks a) (handle_event N Impeach (a_node a)) a else (Inr (), a)) in
      (r, if r = Inr () then reset_imp_timer a else a))"

datatype app_event =
    ClientRequest bytes net_addr
  | ReplicaEvent event
  | ReplicaTask
  | SendResponses
  | ImpeachTimer
  | StatTimer "peer_id \<Rightarrow> bool"

text \<open>
  Requests and responses are handled in threads of their own, at any time; the events of the
  replica wait until its tasks have run. Only the application calls \<open>exec_command\<close> and \<open>impeach\<close>.
\<close>

fun app_handle :: "net_env \<Rightarrow> nat \<Rightarrow> app_event \<Rightarrow> app \<Rightarrow> unit res \<times> app" where
  "app_handle N reqsize (ClientRequest s addr) a = client_request_cmd_handler N reqsize s addr a"
| "app_handle N reqsize (ReplicaEvent (ExecCommand h cb)) a = (Inr (), a)"
| "app_handle N reqsize (ReplicaEvent Impeach) a = (Inr (), a)"
| "app_handle N reqsize (ReplicaEvent ev) a =
     (if a_tasks a \<noteq> [] then (Inr (), a) else replica_step [] (handle_event N ev (a_node a)) a)"
| "app_handle N reqsize ReplicaTask a =
     (case a_tasks a of [] \<Rightarrow> (Inr (), a) | t # ts \<Rightarrow> replica_step ts (run_task N t (a_node a)) a)"
| "app_handle N reqsize SendResponses a = (Inr (), send_responses a)"
| "app_handle N reqsize ImpeachTimer a =
     (if a_tasks a \<noteq> [] \<or> a_impeach_timer a = None then (Inr (), a) else on_impeach_timer N a)"
| "app_handle N reqsize (StatTimer conn_up) a =
     (Inr (), if a_tasks a \<noteq> [] then a else a\<lparr>a_node := print_stat conn_up (a_node a)\<rparr>)"

definition app_run :: "net_env \<Rightarrow> nat \<Rightarrow> app_event list \<Rightarrow> app \<Rightarrow> app" where
  "app_run N reqsize evs a = foldl (\<lambda>a ev. snd (app_handle N reqsize ev a)) a evs"

section \<open>Every response answers a request\<close>

definition requests :: "net_env \<Rightarrow> nat \<Rightarrow> uint256 \<Rightarrow> net_addr \<Rightarrow> app_event list \<Rightarrow> nat" where
  "requests N reqsize h addr evs = length (filter (\<lambda>ev. case ev of
     ClientRequest s a \<Rightarrow> a = addr \<and> (case parse_cmd (ne_env N) reqsize s of Inl e \<Rightarrow> False | Inr cmd \<Rightarrow> cd_hash cmd = h)
   | _ \<Rightarrow> False) evs)"

definition responses_to :: "uint256 \<Rightarrow> net_addr \<Rightarrow> (finality \<times> net_addr) list \<Rightarrow> nat" where
  "responses_to h addr xs = length (filter (\<lambda>(fin, a). a = addr \<and> f_cmd_hash fin = h) xs)"

definition callbacks_of :: "net_addr \<Rightarrow> app \<Rightarrow> nat set" where
  "callbacks_of addr a = {cb. cb < a_next_cb a \<and> a_clients a cb = addr}"

text \<open>
  The callbacks with a number that was not given yet are not registered; those of a client are as
  many as its requests, and as many of them were called as responses were made.
\<close>

definition app_inv :: "(uint256 \<Rightarrow> net_addr \<Rightarrow> nat) \<Rightarrow> app \<Rightarrow> bool" where
  "app_inv reqs a \<longleftrightarrow>
     (\<forall>h cb. a_next_cb a \<le> cb \<longrightarrow> registered h cb (a_node a) = 0) \<and>
     (\<forall>h addr. (\<Sum>cb\<in>callbacks_of addr a. registered h cb (a_node a)) = reqs h addr) \<and>
     (\<forall>h addr. responses_to h addr (a_resp_queue a) + responses_to h addr (a_sent a) =
        (\<Sum>cb\<in>callbacks_of addr a. called h cb (a_node a)))"

definition calls_of :: "uint256 \<Rightarrow> nat \<Rightarrow> net_output list \<Rightarrow> nat" where
  "calls_of h cb outs = length (filter (is_call_of h cb) outs)"

text \<open>What the calls queue for a client.\<close>

lemma outputs_keep:
  "a_node (foldl app_output a outs) = a_node a \<and> a_clients (foldl app_output a outs) = a_clients a \<and>
   a_next_cb (foldl app_output a outs) = a_next_cb a \<and> a_sent (foldl app_output a outs) = a_sent a"
proof (induction outs arbitrary: a)
  case (Cons out outs)
  then show ?case by (cases out) (simp_all add: reset_imp_timer_def)
qed simp

lemma outputs_queue:
  assumes "\<forall>cb h. a_next_cb a \<le> cb \<longrightarrow> calls_of h cb outs = 0"
  shows "responses_to h addr (a_resp_queue (foldl app_output a outs)) =
    responses_to h addr (a_resp_queue a) + (\<Sum>cb\<in>callbacks_of addr a. calls_of h cb outs)"
  using assms
proof (induction outs arbitrary: a)
  case Nil
  then show ?case by (simp add: calls_of_def)
next
  case (Cons out outs)
  have split: "calls_of h cb (out # outs) = (if is_call_of h cb out then 1 else 0) + calls_of h cb outs" for h cb
    by (simp add: calls_of_def)
  have IH: "responses_to h addr (a_resp_queue (foldl app_output (app_output a out) outs)) =
      responses_to h addr (a_resp_queue (app_output a out)) + (\<Sum>cb\<in>callbacks_of addr (app_output a out). calls_of h cb outs)"
  proof (rule Cons.IH)
    show "\<forall>cb h. a_next_cb (app_output a out) \<le> cb \<longrightarrow> calls_of h cb outs = 0"
      using Cons.prems outputs_keep [of a "[out]"] by (simp add: split)
  qed
  have same: "callbacks_of addr (app_output a out) = callbacks_of addr a"
    using outputs_keep [of a "[out]"] by (simp add: callbacks_of_def)
  have "responses_to h addr (a_resp_queue (app_output a out)) =
      responses_to h addr (a_resp_queue a) + (\<Sum>cb\<in>callbacks_of addr a. if is_call_of h cb out then 1 else 0)"
  proof (cases out)
    case (CommitCallback cb fin)
    have "calls_of (f_cmd_hash fin) cb (out # outs) \<noteq> 0" by (simp add: calls_of_def CommitCallback is_call_of_def)
    then have "cb < a_next_cb a" using Cons.prems by (meson not_le_imp_less)
    moreover have "finite (callbacks_of addr a)" by (simp add: callbacks_of_def)
    ultimately show ?thesis
      by (auto simp: CommitCallback is_call_of_def responses_to_def callbacks_of_def sum.delta)
  qed (simp_all add: is_call_of_def reset_imp_timer_def)
  with IH same show ?case by (simp add: split sum.distrib)
qed

lemma replica_step_inv:
  assumes inv: "app_inv reqs a" and step: "replica_step rest (r, ts, n) a = (r', a')"
    and calls: "app_calls n = app_calls (a_node a) @ outs"
    and reg: "\<And>h cb. registered h cb n = registered h cb (a_node a)"
  shows "app_inv reqs a'"
proof -
  let ?a = "a\<lparr>a_node := n, a_tasks := ts @ (if r = Inr () then rest else [])\<rparr>"
  have a': "a' = foldl app_output ?a outs"
    using step calls by (auto simp: replica_step_def)
  have called: "called h cb n = called h cb (a_node a) + calls_of h cb outs" for h cb
    by (simp add: called_calls calls calls_of_def)
  have "calls_of h cb outs = 0" if "a_next_cb a \<le> cb" for h cb
  proof -
    have "registered h cb n = 0" using inv reg that by (simp add: app_inv_def)
    then show ?thesis using called [of h cb] by (simp add: registered_def taken_def)
  qed
  then have fresh: "\<forall>cb h. a_next_cb ?a \<le> cb \<longrightarrow> calls_of h cb outs = 0" by simp
  note keep = outputs_keep [of ?a outs] and queue = outputs_queue [OF fresh]
  have cbs: "callbacks_of addr ?a = callbacks_of addr a" "callbacks_of addr a' = callbacks_of addr a" for addr
    using keep by (simp_all add: callbacks_of_def a')
  show ?thesis
    using inv keep queue by (simp add: app_inv_def a' [symmetric] reg called cbs sum.distrib)
qed

lemma step_inv:
  assumes "app_inv reqs a" and "replica_step rest x a = (r', a')"
    and "\<exists>outs. app_calls (snd (snd x)) = app_calls (a_node a) @ outs"
    and "\<And>h cb. registered h cb (snd (snd x)) = registered h cb (a_node a)"
  shows "app_inv reqs a'"
  using assms by (cases x) (auto intro: replica_step_inv)

lemma event_inv:
  assumes "app_inv reqs a" and "replica_step rest (handle_event N ev (a_node a)) a = (r', a')"
    and "\<And>h cb. ev \<noteq> ExecCommand h cb"
  shows "app_inv reqs a'"
proof (rule step_inv [OF assms(1,2)])
  show "registered h cb (snd (snd (handle_event N ev (a_node a)))) = registered h cb (a_node a)" for h cb
    using event_callbacks [of h cb N ev "a_node a"] assms(3) by simp
qed (rule event_calls)

lemma task_inv:
  assumes "app_inv reqs a" and "replica_step rest (run_task N t (a_node a)) a = (r', a')"
  shows "app_inv reqs a'"
proof (rule step_inv [OF assms])
  show "registered h cb (snd (snd (run_task N t (a_node a)))) = registered h cb (a_node a)" for h cb
    using task_callbacks [of h cb N t "a_node a"] by simp
qed (rule task_calls)

lemma fields_inv [simp]:
  "app_inv reqs (a\<lparr>a_impeach_timer := t\<rparr>) = app_inv reqs a" "app_inv reqs (reset_imp_timer a) = app_inv reqs a"
  "app_inv reqs (send_responses a) = app_inv reqs a"
  by (auto simp: app_inv_def callbacks_of_def reset_imp_timer_def send_responses_def responses_to_def add.commute)

lemma print_stat_book: "book (print_stat conn_up n) = book n"
  by (simp add: print_stat_def book_def app_calls_def)

lemma stat_timer_inv: "app_inv reqs a \<Longrightarrow> app_inv reqs (a\<lparr>a_node := print_stat conn_up (a_node a)\<rparr>)"
  by (simp add: app_inv_def callbacks_of_def registered_book [OF print_stat_book] called_book [OF print_stat_book])

lemma impeach_timer_inv:
  assumes "app_inv reqs a"
  shows "app_inv reqs (snd (on_impeach_timer N a))"
proof -
  let ?a = "a\<lparr>a_impeach_timer := None\<rparr>"
  obtain r a' where "replica_step (a_tasks ?a) (handle_event N Impeach (a_node ?a)) ?a = (r, a')" by force
  moreover from event_inv [OF _ this] have "app_inv reqs a'" using assms by simp
  ultimately show ?thesis using assms by (simp add: on_impeach_timer_def Let_def)
qed

lemma request_inv:
  assumes "app_inv reqs a"
  shows "app_inv (\<lambda>h addr. reqs h addr + requests N reqsize h addr [ClientRequest s c])
    (snd (client_request_cmd_handler N reqsize s c a))"
proof (cases "parse_cmd (ne_env N) reqsize s")
  case (Inl e)
  then show ?thesis using assms by (simp add: client_request_cmd_handler_def requests_def)
next
  case (Inr cmd)
  let ?cb = "a_next_cb a"
  let ?a = "snd (client_request_cmd_handler N reqsize s c a)"
  have a: "?a = a\<lparr>a_node := exec_command (cd_hash cmd) ?cb (a_node a), a_next_cb := Suc ?cb,
      a_clients := (a_clients a)(?cb := c)\<rparr>"
    by (simp add: client_request_cmd_handler_def Inr Let_def)
  have reg: "registered h cb (a_node ?a) = registered h cb (a_node a) + (if (h, cb) = (cd_hash cmd, ?cb) then 1 else 0)"
    and called: "called h cb (a_node ?a) = called h cb (a_node a)" for h cb
    by (auto simp: a exec_command_def registered_def queued_def taken_def called_def)
  have cbs: "callbacks_of addr ?a = callbacks_of addr a \<union> (if addr = c then {?cb} else {})" for addr
    by (auto simp: callbacks_of_def a less_Suc_eq)
  have new: "?cb \<notin> callbacks_of addr a" "finite (callbacks_of addr a)" for addr by (simp_all add: callbacks_of_def)
  have none: "registered h ?cb (a_node a) = 0" "called h ?cb (a_node a) = 0" for h
    using assms by (auto simp: app_inv_def registered_def taken_def)
  have reg_sum: "(\<Sum>cb\<in>callbacks_of addr ?a. registered h cb (a_node ?a)) =
      (\<Sum>cb\<in>callbacks_of addr a. registered h cb (a_node a)) + requests N reqsize h addr [ClientRequest s c]" for h addr
  proof -
    have "(\<Sum>cb\<in>callbacks_of addr a. registered h cb (a_node ?a)) = (\<Sum>cb\<in>callbacks_of addr a. registered h cb (a_node a))"
      using new(1) [of addr] by (intro sum.cong) (auto simp: reg)
    then show ?thesis using new [of addr] none by (auto simp: cbs reg requests_def Inr)
  qed
  have call_sum: "(\<Sum>cb\<in>callbacks_of addr ?a. called h cb (a_node ?a)) =
      (\<Sum>cb\<in>callbacks_of addr a. called h cb (a_node a))" for h addr
    using new [of addr] none by (auto simp: cbs called)
  have "registered h cb (a_node ?a) = 0" if "a_next_cb ?a \<le> cb" for h cb
  proof -
    have "a_next_cb a < cb" using that by (simp add: a)
    then have "registered h cb (a_node a) = 0" using assms by (simp add: app_inv_def)
    then show ?thesis using \<open>a_next_cb a < cb\<close> by (simp only: reg) simp
  qed
  moreover have "a_resp_queue ?a = a_resp_queue a" "a_sent ?a = a_sent a" by (simp_all add: a)
  ultimately show ?thesis using assms reg_sum call_sum by (simp add: app_inv_def)
qed

lemma app_handle_inv:
  assumes "app_inv reqs a"
  shows "app_inv (\<lambda>h addr. reqs h addr + requests N reqsize h addr [ev]) (snd (app_handle N reqsize ev a))"
proof (cases ev)
  case (ClientRequest s c)
  then show ?thesis using request_inv [OF assms] by simp
next
  case (ReplicaEvent e)
  have r: "requests N reqsize h addr [ReplicaEvent e] = 0" for h addr by (simp add: requests_def)
  obtain r' a' where step: "replica_step [] (handle_event N e (a_node a)) a = (r', a')" by force
  have other: "app_inv reqs a'" if "\<And>h cb. e \<noteq> ExecCommand h cb" using event_inv [OF assms step that] .
  show ?thesis unfolding ReplicaEvent r add_0_right by (cases e; use assms step other in simp)
next
  case ReplicaTask
  have r: "requests N reqsize h addr [ReplicaTask] = 0" for h addr by (simp add: requests_def)
  show ?thesis unfolding ReplicaTask r add_0_right using assms task_inv [OF assms surjective_pairing]
    by (simp split: list.split)
next
  case SendResponses
  then show ?thesis using assms by (simp add: requests_def)
next
  case ImpeachTimer
  then show ?thesis using assms impeach_timer_inv [OF assms] by (simp add: requests_def)
next
  case (StatTimer conn_up)
  then show ?thesis using assms stat_timer_inv [OF assms] by (simp add: requests_def)
qed

lemma app_run_inv:
  "app_inv reqs a \<Longrightarrow> app_inv (\<lambda>h addr. reqs h addr + requests N reqsize h addr evs) (app_run N reqsize evs a)"
proof (induction evs arbitrary: a reqs)
  case Nil
  then show ?case by (simp add: app_run_def requests_def)
next
  case (Cons ev evs)
  have "requests N reqsize h addr (ev # evs) = requests N reqsize h addr [ev] + requests N reqsize h addr evs" for h addr
    by (simp add: requests_def)
  then show ?case using Cons.IH [OF app_handle_inv [OF Cons.prems, of N reqsize ev]]
    by (simp add: app_run_def add.assoc)
qed

text \<open>A replica that is started has no callbacks.\<close>

lemma app_start_inv:
  assumes "hotstuff_base (ne_env N) blk_size rid key addr kind base delay tls = Inr n0"
  shows "app_inv (\<lambda>_ _. 0) (app_start N replicas timeout n0)"
proof -
  obtain ts n where s: "start_node N replicas n0 = (ts, n)" by force
  have peers: "book (add_peers N replicas n0) = book n0" for n0
  proof (induction replicas arbitrary: n0)
    case (Cons x xs)
    have "book (n0\<lparr>n_valid_tls_certs := t\<rparr>) = book n0" "book (n0\<lparr>n_peers := ps\<rparr>) = book n0" for n0 :: node and t ps
      by (simp_all add: book_def app_calls_def)
    then show ?case using Cons by (cases x) (simp add: Let_def)
  qed simp
  have "book n = book n0"
    using s peers by (auto simp: start_node_def Let_def dest: arg_cong [where f = "\<lambda>x. book (snd x)"])
  moreover have "book n0 = ([], Map.empty, [])"
    using assms
    by (cases "new_pacemaker kind base delay no_promises")
       (auto simp: hotstuff_base_def bindE_Inr_iff book_def app_calls_def)
  ultimately have none: "registered h cb n = 0" "called h cb n = 0" for h cb
    by (auto simp: registered_def taken_def queued_def called_calls book_def)
  then show ?thesis by (simp add: app_inv_def app_start_def s callbacks_of_def responses_to_def)
qed

text \<open>
  C9: Whatever clients, replicas, timers and threads do, in whatever order, a replica queues and
  sends a client at most as many responses for a command as the client made requests for it, and
  none to a client that did not ask.
\<close>

theorem responses_answer_requests:
  assumes "hotstuff_base (ne_env N) blk_size rid key addr kind base delay tls = Inr n0"
    and "a = app_run N reqsize evs (app_start N replicas timeout n0)"
  shows "responses_to h client (a_resp_queue a) + responses_to h client (a_sent a) \<le> requests N reqsize h client evs"
proof -
  have inv: "app_inv (\<lambda>h addr. requests N reqsize h addr evs) a"
    using app_run_inv [OF app_start_inv [OF assms(1)], of N reqsize evs] assms(2) by simp
  then have "responses_to h client (a_resp_queue a) + responses_to h client (a_sent a) =
      (\<Sum>cb\<in>callbacks_of client a. called h cb (a_node a))" by (simp add: app_inv_def)
  also have "\<dots> \<le> (\<Sum>cb\<in>callbacks_of client a. registered h cb (a_node a))"
    by (rule sum_mono) (simp add: registered_def taken_def)
  also have "\<dots> = requests N reqsize h client evs" using inv by (simp add: app_inv_def)
  finally show ?thesis .
qed

end
