(* ===== verification/NodeExample.thy ===== *)
theory NodeExample
  imports PromiseRuns CoreExample App
begin

text \<open>
  Runs of a replica over the network, for the concrete instances of the properties: one of four
  replicas starts, answers a request for the genesis block, counts a vote, and fetches, verifies
  and delivers a block that another replica votes for.
\<close>

section \<open>The start\<close>

definition sample_net :: net_env where
  "sample_net = \<lparr>ne_env = sample_env, ne_addr_peer = (\<lambda>a. word_of_nat a), ne_tails = sorted_list_of_set,
     ne_hashes = sorted_list_of_set\<rparr>"

lemma sample_net_simps [simp]: "ne_env sample_net = sample_env" "order_ok sample_net"
  by (simp_all add: sample_net_def order_ok_def)

definition sample_replicas :: "(net_addr \<times> pub_key \<times> uint256) list" where
  "sample_replicas = [(10, PubKeyDummy, 1), (11, PubKeyDummy, 2), (12, PubKeyDummy, 3), (13, PubKeyDummy, 4)]"

definition sample_node :: "task list \<times> node" where
  "sample_node = start_node sample_net sample_replicas
     (projr (hotstuff_base sample_env 1 0 PrivKeyDummy 10 PaceMakerDummy 1 1 True))"

text \<open>
  Nothing waits for the promises when the pace maker is initialised: its registrations run no
  callback, and only the promises and the pace maker change.
\<close>

definition calm :: "node \<Rightarrow> bool" where
  "calm n \<longleftrightarrow> (\<forall>i. pm_state (pms (n_pms n) (CorePm i)) = Pending) \<and>
     (\<forall>m \<ge> next_pm (n_pms n). pms (n_pms n) (LocalPm m) = new_promise)"

definition start_frame :: "node \<Rightarrow> node \<Rightarrow> bool" where
  "start_frame n n' \<longleftrightarrow>
     n_core n' = n_core n \<and> n_delivery_waiting n' = n_delivery_waiting n \<and>
     n_fetch_waiting n' = n_fetch_waiting n \<and> pace_kind (n_pace n') = pace_kind (n_pace n)"

definition unused_wait :: "node \<Rightarrow> bool" where
  "unused_wait n \<longleftrightarrow> (case pm_wait_propose (n_pace n) of
     CorePm i \<Rightarrow> False
   | LocalPm m \<Rightarrow> m < next_pm (n_pms n) \<and> pms (n_pms n) (LocalPm m) = new_promise)"

definition start_step :: "node \<Rightarrow> node \<Rightarrow> bool" where
  "start_step n n' \<longleftrightarrow> calm n' \<and> start_frame n n' \<and> (unused_wait n \<longrightarrow> unused_wait n')"

lemma start_step_trans: "start_step a b \<Longrightarrow> start_step b c \<Longrightarrow> start_step a c"
  by (simp add: start_step_def start_frame_def)

lemma register_heap:
  assumes "pm_state (pms h p) = Pending"
  shows "\<exists>x. add_callbacks p f g (snd (alloc_pm h)) = ([], set_pm p x (snd (alloc_pm h))) \<and> pm_state x = Pending"
proof -
  have "pm_state (pms (snd (alloc_pm h)) p) = Pending"
    using assms by (simp add: alloc_pm_def set_pm_def new_promise_def)
  then show ?thesis by (auto simp: add_callbacks_def Let_def)
qed

lemma registered:
  assumes "calm n" and "pm_state x = Pending" and "\<And>m. p = LocalPm m \<Longrightarrow> m < next_pm (n_pms n)"
    and "pm_wait_propose (n_pace n) \<noteq> p \<or> p = CorePm i"
  shows "start_step n (n\<lparr>n_pms := set_pm p x (snd (alloc_pm (n_pms n)))\<rparr>)"
  using assms
  by (auto simp: start_step_def calm_def start_frame_def unused_wait_def alloc_pm_def set_pm_def less_Suc_eq
      split: pid.splits)

text \<open>The promise that \<open>then\<close> returns is new, and the one it is called on is pending.\<close>

lemma calm_then:
  assumes "calm n" and "pm_state (pms (n_pms n) p) = Pending" and "\<And>m. p = LocalPm m \<Longrightarrow> m < next_pm (n_pms n)"
    and "pm_wait_propose (n_pace n) \<noteq> p \<or> p = CorePm i"
  shows "\<exists>n'. n_then p k n = (LocalPm (next_pm (n_pms n)), [], n') \<and> start_step n n' \<and> n_pace n' = n_pace n"
    and "\<exists>n'. n_then_map p k n = (LocalPm (next_pm (n_pms n)), [], n') \<and> start_step n n' \<and>
      n_pace n' = n_pace n \<and> next_pm (n_pms n') = Suc (next_pm (n_pms n)) \<and>
      pm_state (pms (n_pms n') (LocalPm (next_pm (n_pms n)))) = Pending"
proof -
  let ?q = "LocalPm (next_pm (n_pms n))" and ?h = "snd (alloc_pm (n_pms n))"
  obtain x where x: "add_callbacks p (Call k ?q) (PassReason ?q) ?h = ([], set_pm p x ?h)" "pm_state x = Pending"
    using register_heap [OF assms(2)] by blast
  then have "n_then p k n = (?q, [], n\<lparr>n_pms := set_pm p x ?h\<rparr>)"
    by (simp add: n_then_def pm_then_def alloc_pm_def Let_def)
  then show "\<exists>n'. n_then p k n = (LocalPm (next_pm (n_pms n)), [], n') \<and> start_step n n' \<and> n_pace n' = n_pace n"
    using registered [OF assms(1) x(2) assms(3,4)] by simp
  obtain y where y: "add_callbacks p (CallMap k ?q) (PassReason ?q) ?h = ([], set_pm p y ?h)" "pm_state y = Pending"
    using register_heap [OF assms(2)] by blast
  then have run: "n_then_map p k n = (?q, [], n\<lparr>n_pms := set_pm p y ?h\<rparr>)"
    by (simp add: n_then_map_def pm_then_map_def alloc_pm_def Let_def)
  have "pm_state (pms (set_pm p y ?h) ?q) = Pending"
    using y(2) by (simp add: set_pm_def alloc_pm_def new_promise_def)
  with run registered [OF assms(1) y(2) assms(3,4)]
  show "\<exists>n'. n_then_map p k n = (LocalPm (next_pm (n_pms n)), [], n') \<and> start_step n n' \<and>
      n_pace n' = n_pace n \<and> next_pm (n_pms n') = Suc (next_pm (n_pms n)) \<and>
      pm_state (pms (n_pms n') (LocalPm (next_pm (n_pms n)))) = Pending"
    by (simp add: set_pm_def alloc_pm_def)
qed

lemma calm_wait:
  assumes "calm n" and "unused_wait n" and "wait n = n_then_map (CorePm i) k n"
  shows "\<exists>n'. on_wait wait k' n = ([], n') \<and> start_step n n'"
proof -
  let ?q = "LocalPm (next_pm (n_pms n))"
  have "pm_state (pms (n_pms n) (CorePm i)) = Pending" using assms(1) by (simp add: calm_def)
  from calm_then(2) [OF assms(1) this, of i k] obtain n1 where
    1: "wait n = (?q, [], n1)" "start_step n n1" "n_pace n1 = n_pace n"
      "next_pm (n_pms n1) = Suc (next_pm (n_pms n))" "pm_state (pms (n_pms n1) ?q) = Pending"
    using assms(3) by auto
  have "pm_wait_propose (n_pace n1) \<noteq> ?q" using assms(2) 1(3) by (auto simp: unused_wait_def split: pid.splits)
  with calm_then(1) [of n1 ?q 0 k'] 1 obtain q n2 where "n_then ?q k' n1 = (q, [], n2)" "start_step n1 n2"
    by (auto simp: start_step_def)
  with 1 start_step_trans [OF 1(2)] show ?thesis by (simp add: on_wait_def)
qed

lemma calm_pace:
  assumes "calm n" and "unused_wait n" and "\<And>p. pace_kind (f p) = pace_kind p"
    and "\<And>p. pm_wait_propose (f p) = pm_wait_propose p"
  shows "start_step n (set_pace f n)"
  using assms by (simp add: start_step_def calm_def start_frame_def unused_wait_def set_pace_def split: pid.splits)

lemma calm_update_last_proposed:
  assumes "calm n" and "unused_wait n"
  shows "\<exists>n'. update_last_proposed n = ([], n') \<and> start_frame n n'"
proof -
  obtain m where m: "m < next_pm (n_pms n)" "pm_wait_propose (n_pace n) = LocalPm m"
    "pms (n_pms n) (LocalPm m) = new_promise"
    using assms(2) by (auto simp: unused_wait_def split: pid.splits)
  let ?h = "set_pm (LocalPm m) (new_promise\<lparr>pm_reason := None, pm_state := Rejected, rejected_callbacks := []\<rparr>) (n_pms n)"
  let ?n1 = "n\<lparr>n_pms := ?h\<rparr>" and ?i = "async_wait_proposal (n_core n)"
  have 1: "n_reject (pm_wait_propose (n_pace n)) None n = ([], ?n1)"
    using m by (simp add: n_reject_def pm_reject_def new_promise_def Let_def)
  have c1: "calm ?n1" using assms(1) m(1) by (auto simp: calm_def set_pm_def)
  have q: "next_pm (n_pms ?n1) = next_pm (n_pms n)" by (simp add: set_pm_def)
  have "pm_state (pms (n_pms ?n1) (CorePm ?i)) = Pending" using c1 by (simp only: calm_def)
  from calm_then(2) [OF c1 this, of ?i PassProposal] q obtain n2 where
    2: "wait_proposal ?n1 = (LocalPm (next_pm (n_pms n)), [], n2)" "start_step ?n1 n2"
      "next_pm (n_pms n2) = Suc (next_pm (n_pms n))" "n_pace n2 = n_pace n"
      "pm_state (pms (n_pms n2) (LocalPm (next_pm (n_pms n)))) = Pending"
    by (auto simp: wait_proposal_def)
  let ?q = "LocalPm (next_pm (n_pms n))"
  let ?n2 = "set_pace (\<lambda>p. p\<lparr>pm_wait_propose := ?q\<rparr>) n2"
  have state: "calm ?n2" "pm_state (pms (n_pms ?n2) ?q) = Pending"
    using 2 by (simp_all add: start_step_def calm_def set_pace_def)
  obtain x where x: "add_callbacks ?q (Call WqProposal (LocalPm (next_pm (n_pms ?n2))))
      (PassReason (LocalPm (next_pm (n_pms ?n2)))) (snd (alloc_pm (n_pms ?n2))) =
      ([], set_pm ?q x (snd (alloc_pm (n_pms ?n2))))"
    using register_heap [OF state(2)] by blast
  then have 3: "n_then ?q WqProposal ?n2 = (LocalPm (next_pm (n_pms ?n2)), [],
      ?n2\<lparr>n_pms := set_pm ?q x (snd (alloc_pm (n_pms ?n2)))\<rparr>)"
    by (simp add: n_then_def pm_then_def alloc_pm_def Let_def)
  have "start_frame n ?n1" by (simp add: start_frame_def)
  moreover have "start_frame ?n1 n2" using 2(2) by (simp add: start_step_def)
  ultimately have "start_frame n (?n2\<lparr>n_pms := h\<rparr>)" for h
    by (simp add: start_frame_def set_pace_def)
  with 1 2(1) 3 show ?thesis by (simp add: update_last_proposed_def)
qed

lemma calm_pm_init:
  assumes n: "calm n" "unused_wait n" and "pace_kind (n_pace n) = PaceMakerDummy"
  shows "\<exists>n'. pm_init n = ([], n') \<and> start_frame n n'"
proof -
  let ?n0 = "set_pace (\<lambda>p. p\<lparr>hqc_tail := get_genesis (n_core n)\<rparr>) n"
  have s0: "start_step n ?n0" by (rule calm_pace [OF n]) simp_all
  have step: "calm m' \<and> unused_wait m'" if "start_step m m'" "unused_wait m" for m m'
    using that by (simp add: start_step_def)
  note n0 = step [OF s0 n(2)]
  obtain n1 where 1: "ht_reg_hqc_update ?n0 = ([], n1)" "start_step ?n0 n1"
    using calm_wait [of "?n0" wait_hqc_update "async_hqc_update (n_core (?n0))" PassHqc HtHqcUpdate] n0 wait_hqc_update_def [of "?n0"] by (auto simp: ht_reg_hqc_update_def)
  note n1 = step [OF 1(2) conjunct2 [OF n0]]
  obtain n2 where 2: "ht_reg_proposal n1 = ([], n2)" "start_step n1 n2"
    using calm_wait [of "n1" wait_proposal "async_wait_proposal (n_core (n1))" PassProposal HtProposal] n1 wait_proposal_def [of "n1"] by (auto simp: ht_reg_proposal_def)
  note n2 = step [OF 2(2) conjunct2 [OF n1]]
  obtain n3 where 3: "ht_reg_receive_proposal n2 = ([], n3)" "start_step n2 n3"
    using calm_wait [of "n2" wait_receive_proposal "async_wait_receive_proposal (n_core (n2))" PassProposal HtReceiveProposal] n2 wait_receive_proposal_def [of "n2"]
    by (auto simp: ht_reg_receive_proposal_def)
  note n3 = step [OF 3(2) conjunct2 [OF n2]]
  let ?n4 = "set_pace (\<lambda>p. p\<lparr>last_proposed := get_genesis (n_core n3), locked := False\<rparr>) n3"
  have s4: "start_step n3 ?n4" by (rule calm_pace [OF conjunct1 [OF n3] conjunct2 [OF n3]]) simp_all
  note n4 = step [OF s4 conjunct2 [OF n3]]
  obtain n5 where 5: "update_last_proposed ?n4 = ([], n5)" "start_frame ?n4 n5"
    using calm_update_last_proposed [OF conjunct1 [OF n4] conjunct2 [OF n4]] by blast
  have all: "start_step n n3" using s0 1(2) 2(2) 3(2) by (meson start_step_trans)
  then have "start_frame n n5" "pace_kind (n_pace n3) = PaceMakerDummy"
    using s4 5(2) assms(3) by (simp_all add: start_step_def start_frame_def)
  then show ?thesis
    by (simp add: pm_init_def high_tail_init_def wait_qc_init_def Let_def 1(1) 2(1) 3(1) 5(1))
qed

lemma sample_node:
  "n_core (snd sample_node) = sample_start" "n_delivery_waiting (snd sample_node) = Map.empty"
  "n_fetch_waiting (snd sample_node) = Map.empty" "fst sample_node = []"
proof -
  obtain c where c: "hotstuff_core sample_env 0 PrivKeyDummy = Inr c" using sample_core by blast
  obtain pace h where p: "new_pacemaker PaceMakerDummy 1 1 no_promises = (pace, h)" by force
  then have kind: "pace_kind pace = PaceMakerDummy" by (auto simp: new_pacemaker_def Let_def split: prod.splits)
  define n0 where "n0 = projr (hotstuff_base sample_env 1 0 PrivKeyDummy 10 PaceMakerDummy 1 1 True)"
  have n0: "n_core n0 = c" "n_delivery_waiting n0 = Map.empty" "n_fetch_waiting n0 = Map.empty"
    "n_pace n0 = pace" "n_tls n0" "n_peers n0 = []" "n_listen_addr n0 = 10" "n_pms n0 = h"
    using p by (simp_all add: n0_def hotstuff_base_def c)
  define n1 where "n1 = add_peers sample_net sample_replicas n0"
  have n1: "n_core n1 = c" "n_delivery_waiting n1 = Map.empty" "n_fetch_waiting n1 = Map.empty"
    "pace_kind (n_pace n1) = PaceMakerDummy" "n_tls n1" "length (n_peers n1) = 3" "n_pms n1 = h" "n_pace n1 = pace"
    using n0 kind by (simp_all add: n1_def sample_replicas_def Let_def tell_def replica_peer_def)
  define c1 where "c1 = start_core sample_env (map (\<lambda>r. (replica_peer sample_net n1 r, fst (snd r))) sample_replicas)
    (word_of_nat (length (n_peers n1) div 3)) (n_core n1)"
  have core: "c1 = sample_start"
    unfolding c1_def sample_start_def c n1 using n1(5) by (simp add: sample_replicas_def replica_peer_def)
  have "sample_node = pm_init (n1\<lparr>n_core := c1\<rparr>)"
    unfolding sample_node_def n0_def [symmetric] start_node_def n1_def [symmetric] c1_def Let_def
    by (simp only: sample_net_simps)
  moreover have "\<exists>n'. pm_init (n1\<lparr>n_core := c1\<rparr>) = ([], n') \<and> start_frame (n1\<lparr>n_core := c1\<rparr>) n'"
    using n1(4,7,8) new_pacemaker_promises [OF p]
    by (intro calm_pm_init) (simp_all add: calm_def unused_wait_def no_promises_def new_promise_def)
  ultimately obtain n' where "sample_node = ([], n')" "start_frame (n1\<lparr>n_core := c1\<rparr>) n'" by metis
  then have "fst sample_node = []" "start_frame (n1\<lparr>n_core := c1\<rparr>) (snd sample_node)" by (metis fst_conv, metis snd_conv)
  then show "n_core (snd sample_node) = sample_start" "n_delivery_waiting (snd sample_node) = Map.empty"
    "n_fetch_waiting (snd sample_node) = Map.empty" "fst sample_node = []"
    using n1(2,3) core by (simp_all add: start_frame_def)
qed

lemma sample_node_started: "node_started sample_net (snd sample_node, [])"
proof -
  obtain c where "hotstuff_core sample_env 0 PrivKeyDummy = Inr c" using sample_core by blast
  then have "\<exists>n0. hotstuff_base sample_env 1 0 PrivKeyDummy 10 PaceMakerDummy 1 1 True = Inr n0"
    by (simp add: hotstuff_base_def Let_def split: prod.split)
  then obtain n0 where "hotstuff_base sample_env 1 0 PrivKeyDummy 10 PaceMakerDummy 1 1 True = Inr n0" by blast
  moreover from this have "start_node sample_net sample_replicas n0 = ([], snd sample_node)"
    using sample_node(4) by (simp add: sample_node_def prod_eq_iff)
  ultimately show ?thesis unfolding node_started_def fst_conv snd_conv sample_net_simps by blast
qed

section \<open>Steps of the run\<close>

lemma sample_size [simp]: "n_core n = sample_start \<Longrightarrow> size_ok n"
  by (simp add: size_ok_def sample_start(7))

lemma sample_reachable: "node_reachable sample_net (snd sample_node, [])"
  using sample_node_started unfolding node_reachable_def by blast

section \<open>A request for the genesis block\<close>

lemma request_run:
  "\<exists>n ts. node_reachable sample_net (n, RunClosure (FetchedForRequest 2) (Some (VAll [Some (VBlk 0)])) # ts)"
proof -
  let ?n = "snd sample_node"
  obtain m where m: "msg_req_block le_stream [48] = Inr m"
    using le.hashes_total [of "[48]"] by (auto simp: msg_req_block_def)
  have parse: "msg_req_block_parse le_stream m = Inr [48]"
    using le.hashes_read [of "[48]" m "[]"] m by (simp add: msg_req_block_def msg_req_block_parse_def)
  have found: "find_blk (c_storage (n_core ?n)) 48 = Some 0" by (simp add: sample_node(1) find_blk_def sample_start(8))
  obtain p n1 where 1: "n_resolved (Some (VBlk 0)) ?n = (p, n1)" "settled_with n1 p (Some (VBlk 0))" "pms_only ?n n1"
    using resolved_run by blast
  obtain q n2 where 2: "all_then [p] (FetchedForRequest 2) n1 =
      (Inr (), [RunCallback (Call (FetchedForRequest 2) q) (Some (VAll [Some (VBlk 0)]))], n2)" "pms_only n1 n2"
    using all_run [of n1 "[p]" "[Some (VBlk 0)]" "FetchedForRequest 2"] 1(2) by auto
  have core: "n_core n2 = sample_start"
    using pms_only_same [OF 1(3)] pms_only_same [OF 2(2)] by (simp add: sample_node(1))
  have "handle_event sample_net (Receive (NetReqBlock m) (Some 2)) ?n =
      (Inr (), [RunCallback (Call (FetchedForRequest 2) q) (Some (VAll [Some (VBlk 0)]))], n2)"
    using parse found 1(1) 2(1) by (simp add: req_blk_handler_def async_fetch_blk_def bindS_def)
  from run_event [OF sample_reachable this] have
    "node_reachable sample_net (n2, [RunCallback (Call (FetchedForRequest 2) q) (Some (VAll [Some (VBlk 0)]))])"
    by (simp add: sample_node(1) core)
  from run_call [OF this] show ?thesis using core by auto
qed

lemma network_values_typed_witness:
  "\<exists>n ts bs. node_reachable sample_net (n, RunClosure (FetchedForRequest 2) (Some (VAll [Some (VBlk 0)])) # ts) \<and>
     cast_blks [Some (VBlk 0)] = Inr bs \<and> list_all (stored (n_core n)) bs"
proof -
  obtain n ts where n: "node_reachable sample_net (n, RunClosure (FetchedForRequest 2) (Some (VAll [Some (VBlk 0)])) # ts)"
    using request_run by blast
  from network_values_typed [OF n] n show ?thesis by auto
qed

section \<open>A vote for the genesis block\<close>

definition vote_on :: "uint256 \<Rightarrow> vote" where
  "vote_on h = \<lparr>v_voter = 1, v_blk_hash = h, v_cert = Some (PartCertDummy h), v_hsc = True\<rparr>"

lemma vote_parsed: "\<exists>m. msg_vote_parse sample_env m = Inr (vote_on h)"
proof -
  let ?c = "PartCertDummy h"
  note codec = le.part_cert_codec [of toy_crypto NoSig]
  have ok: "part_cert_ok toy_crypto NoSig ?c" by simp
  obtain cs where cs: "put_part_cert le_stream toy_crypto ?c = Inr cs" using codec.enc_total [OF codec ok] by blast
  have "get_vote sample_env True ((put_u16 le_stream 1 @ put_u256 le_stream h @ cs) @ []) = Inr (vote_on h, [])"
    using codec.dec_enc [OF codec ok cs, of "[]"] by (simp add: get_vote_def vote_on_def)
  then show ?thesis
    by (intro exI [of _ "put_u16 le_stream 1 @ put_u256 le_stream h @ cs"]) (simp add: msg_vote_parse_def)
qed

lemma sample_pubkey: "get_pubkey (c_config sample_start) 1 = Inr PubKeyDummy"
proof -
  obtain c where c: "hotstuff_core sample_env 0 PrivKeyDummy = Inr c" "c_config c = empty_config"
    using sample_core by blast
  show ?thesis
    by (simp add: c sample_start_def start_core_def on_init_def Let_def add_replica_def set_blk_def
        set_majority_def cfg_add_replica_def empty_config_def get_pubkey_def get_info_def
        map_insert_apply)
qed

lemma vote_run:
  "\<exists>n ts. node_reachable sample_net (n, RunClosure (CheckedVote (vote_on 48))
     (Some (VAll [Some (VBlk 0), Some (VBool True)])) # ts)"
proof -
  let ?n = "snd sample_node" and ?v = "vote_on 48"
  obtain m where m: "msg_vote_parse sample_env m = Inr ?v" using vote_parsed by blast
  have found: "find_blk (c_storage (n_core ?n)) 48 = Some 0" "is_blk_delivered (c_storage (n_core ?n)) 48"
    using sample_start(14) by (simp_all add: sample_node(1) find_blk_def sample_start(8) is_blk_delivered_def)
  obtain p n1 where 1: "n_resolved (Some (VBlk 0)) ?n = (p, n1)" "settled_with n1 p (Some (VBlk 0))" "pms_only ?n n1"
    using resolved_run by blast
  have c1: "n_core n1 = sample_start" using pms_only_same [OF 1(3)] by (simp add: sample_node(1))
  have "handle_event sample_net (Receive (NetVote m) (Some 2)) ?n = (Inr (), [next_task (CheckVote ?v p)], n1)"
    using m found 1(1) by (simp add: vote_handler_def async_deliver_blk_def vote_on_def)
  from run_event [OF sample_reachable this] have
    r1: "node_reachable sample_net (n1, [next_task (CheckVote ?v p)])" by (simp add: sample_node(1) c1)
  obtain q n2 where 2: "n_resolved (Some (VBool True)) n1 = (q, n2)" "settled_with n2 q (Some (VBool True))" "pms_only n1 n2"
    using resolved_run by blast
  obtain r n3 where 3: "n_then_map q (MatchHash ?v) n2 = (r, [RunCallback (CallMap (MatchHash ?v) r) (Some (VBool True))], n3)"
    "unused n3 r" "pms_only n2 n3" using then_map_run [OF 2(2)] by blast
  have c3: "n_core n3 = sample_start" using pms_only_same [OF 2(3)] pms_only_same [OF 3(3)] c1 by simp
  have "check_vote sample_env ?v p n1 = (Inr (), [RunCallback (CallMap (MatchHash ?v) r) (Some (VBool True)),
      next_task (AllThen [p, r] (CheckedVote ?v))], n3)"
    using 2(1) 3(1) sample_pubkey c1 by (simp add: check_vote_def vote_on_def get_config_def)
  then have "run_task sample_net (next_task (CheckVote ?v p)) n1 = (Inr (),
      [RunCallback (CallMap (MatchHash ?v) r) (Some (VBool True)), next_task (AllThen [p, r] (CheckedVote ?v))], n3)"
    by (simp add: next_task_def)
  from run_one [OF r1 this] have "node_reachable sample_net (n3, RunCallback (CallMap (MatchHash ?v) r) (Some (VBool True)) #
      [next_task (AllThen [p, r] (CheckedVote ?v))])" by (simp add: c1 c3 next_task_def)
  from run_call_map [OF this] have r3: "node_reachable sample_net (n3, RunMap (MatchHash ?v) (Some (VBool True)) r #
      [next_task (AllThen [p, r] (CheckedVote ?v))])" by (simp add: c3)
  obtain n4 where 4: "n_resolve r (Some (VBool True)) n3 = ([], n4)" "settled_with n4 r (Some (VBool True))" "pms_only n3 n4"
    using resolve_run [OF 3(2)] by blast
  have c4: "n_core n4 = sample_start" using pms_only_same [OF 4(3)] c3 by simp
  have "run_task sample_net (RunMap (MatchHash ?v) (Some (VBool True)) r) n3 = (Inr (), [], n4)"
    using 4(1) by (simp add: run_map_def vote_on_def ok_run_def)
  from run_one [OF r3 this] have r4: "node_reachable sample_net (n4, [RunClosure (AllThen [p, r] (CheckedVote ?v)) None])"
    by (simp add: c3 c4 next_task_def)
  have "settled_with n4 p (Some (VBlk 0))"
    using 1(2) 2(3) 3(3) 4(3) by (blast intro: pms_onlyD)
  with 4(2) run_all [OF r4, of "[Some (VBlk 0), Some (VBool True)]"] c4 show ?thesis by auto
qed

lemma checked_votes_valid_witness:
  "\<exists>n ts. node_reachable sample_net (n, RunClosure (CheckedVote (vote_on 48))
     (Some (VAll [Some (VBlk 0), Some (VBool True)])) # ts) \<and>
   get_delivered_blk 48 (n_core n) = Inr 0 \<and> vote_valid toy_crypto (c_config (n_core n)) (vote_on 48)"
proof -
  obtain n ts where n: "node_reachable sample_net (n, RunClosure (CheckedVote (vote_on 48))
     (Some (VAll [Some (VBlk 0), Some (VBool True)])) # ts)"
    using vote_run by blast
  from checked_votes_valid [OF n] n show ?thesis by (auto simp: vote_on_def)
qed

section \<open>A vote for a block that was fetched\<close>

lemma child_stored:
  "\<exists>n. node_reachable sample_net (n, []) \<and> n_core n = sample_fetched \<and> n_delivery_waiting n = Map.empty"
proof -
  let ?n = "snd sample_node"
  define m where "m = put_u32 le_stream (htole le_stream 1) @ sample_bytes"
  have "unat (letoh le_stream (htole le_stream 1)) = 1" using le.size_prefix [of 1] by simp
  then have parse: "msg_resp_block_parse sample_env m st =
      (let (r, st) = add_blk sample_child st in (Inr [r], st))" for st
    using sample_parse by (simp add: m_def msg_resp_block_parse_def bindS_def split: prod.split)
  have store: "add_blk sample_child (c_storage sample_start) = (1, c_storage sample_fetched)"
    using sample_start(7,8)
    by (simp add: sample_fetched_def store_blk_def add_blk_def alloc_blk_def add_blk_ref_def sample_child_def Let_def)
  have core: "sample_start\<lparr>c_storage := c_storage sample_fetched\<rparr> = sample_fetched"
    by (simp add: sample_fetched_def store_blk_def)
  define n1 where "n1 = ?n\<lparr>n_core := sample_fetched\<rparr>"
  have "call_storage (msg_resp_block_parse sample_env m) ?n = (Inr [1], n1)"
    by (simp add: call_storage_def parse sample_node(1) n1_def store core)
  then have handle: "handle_event sample_net (Receive (NetRespBlock m) None) ?n = (Inr (), [next_task (OnFetchBlks [1])], n1)"
    by (simp add: resp_blk_handler_def)
  have size: "n_core n = sample_fetched \<Longrightarrow> size_ok n" for n by (simp add: size_ok_def sample_fetched)
  from run_event [OF sample_reachable handle] have r1: "node_reachable sample_net (n1, [next_task (OnFetchBlks [1])])"
    by (simp add: sample_node(1) n1_def size)
  define n2 where "n2 = n1\<lparr>n_part_fetched := n_part_fetched n1 + 1, n_fetched := n_fetched n1 + 1\<rparr>"
  have "run_task sample_net (next_task (OnFetchBlks [1])) n1 = (Inr (), [next_task (OnFetchBlks [])], n2)"
    by (simp add: next_task_def on_fetch_blks_def on_fetch_blk_def n2_def n1_def sample_node(3))
  from run_one [OF r1 this] have r2: "node_reachable sample_net (n2, [next_task (OnFetchBlks [])])"
    by (simp add: size n1_def n2_def next_task_def)
  have "run_task sample_net (next_task (OnFetchBlks [])) n2 = (Inr (), [], n2)"
    by (simp add: next_task_def on_fetch_blks_def)
  from run_one [OF r2 this] have "node_reachable sample_net (n2, [])"
    by (simp add: size n1_def n2_def next_task_def)
  then show ?thesis by (intro exI [of _ n2]) (simp add: n1_def n2_def sample_node(2))
qed

lemma fetched_blocks:
  "find_blk (c_storage sample_fetched) 48 = Some 0" "find_blk (c_storage sample_fetched) 80 = Some 1"
  "is_blk_delivered (c_storage sample_fetched) 48" "\<not> is_blk_delivered (c_storage sample_fetched) 80"
  "blk sample_fetched 1 = sample_child" "blk sample_fetched 0 = blk sample_start 0" "c_b0 sample_fetched = 0"
  using sample_start(4,14)
  by (simp_all add: find_blk_def is_blk_delivered_def sample_fetched sample_child_def block_default_def)
     (simp_all add: sample_fetched_def store_blk_def)

text \<open>The certificate and the parent of the block are checked, and the closure of both runs.\<close>

lemma deliver_run:
  assumes "node_reachable sample_net (n, RunClosure (FetchedForDelivery 2) (Some (VBlk 1)) # ts)"
    and c: "n_core n = sample_fetched"
  shows "\<exists>n' ts'. n_core n' = sample_fetched \<and> node_reachable sample_net (n', RunClosure (ReadyForDelivery 1)
    (Some (VAll [Some (VBool True), Some (VBlk 0), Some (VBlk 0)])) # ts')"
proof -
  have size: "n_core n = sample_fetched \<Longrightarrow> size_ok n" for n by (simp add: size_ok_def sample_fetched)
  obtain p1 n1 where 1: "n_resolved (Some (VBool True)) n = (p1, n1)" "settled_with n1 p1 (Some (VBool True))" "pms_only n n1"
    using resolved_run by blast
  have c1: "n_core n1 = sample_fetched" using pms_only_same [OF 1(3)] c by simp
  obtain p2 n2 where 2: "n_resolved (Some (VBlk 0)) n1 = (p2, n2)" "settled_with n2 p2 (Some (VBlk 0))" "pms_only n1 n2"
    using resolved_run by blast
  have c2: "n_core n2 = sample_fetched" using pms_only_same [OF 2(3)] c1 by simp
  have child: "blk_qc sample_child = Some (QuorumCertDummy 48)" "blk_parent_hashes sample_child = [48]"
    "blk_hash (blk sample_start 0) = 48" by (simp_all add: sample_child_def sample_start(3))
  have "fetched_for_delivery sample_env 2 1 n = (Inr (), [next_task (DeliverParents 1 2 [p1, p2] [48])], n2)"
    using 1(1) 2(1) child
    by (simp add: c c1 c2 fetched_blocks(1,5-7) fetched_for_delivery_def blk_verify_promise_def async_fetch_blk_def
        get_genesis_def del: One_nat_def)
  then have "run_task sample_net (RunClosure (FetchedForDelivery 2) (Some (VBlk 1))) n =
      (Inr (), [next_task (DeliverParents 1 2 [p1, p2] [48])], n2)"
    by (simp add: with_blk_def)
  from run_one [OF assms(1) this] have r2:
    "node_reachable sample_net (n2, RunClosure (DeliverParents 1 2 [p1, p2] [48]) None # ts)"
    by (simp add: size c c2 next_task_def)
  obtain p3 n3 where 3: "n_resolved (Some (VBlk 0)) n2 = (p3, n3)" "settled_with n3 p3 (Some (VBlk 0))" "pms_only n2 n3"
    using resolved_run by blast
  have c3: "n_core n3 = sample_fetched" using pms_only_same [OF 3(3)] c2 by simp
  have "run_task sample_net (RunClosure (DeliverParents 1 2 [p1, p2] [48]) None) n2 =
      (Inr (), [next_task (DeliverParents 1 2 [p1, p2, p3] [])], n3)"
    using 3(1) by (simp add: c2 fetched_blocks(1,3) async_deliver_blk_def del: One_nat_def)
  from run_one [OF r2 this] have r3:
    "node_reachable sample_net (n3, RunClosure (DeliverParents 1 2 [p1, p2, p3] []) None # ts)"
    by (simp add: size c2 c3 next_task_def)
  let ?vs = "[Some (VBool True), Some (VBlk 0), Some (VBlk 0)]"
  have "list_all2 (settled_with n3) [p1, p2, p3] ?vs"
    using pms_onlyD [OF 3(3) pms_onlyD [OF 2(3) 1(2)]] pms_onlyD [OF 3(3) 2(2)] 3(2) by simp
  from all_run [OF this, of "ReadyForDelivery 1"] obtain q n4 where 4: "all_then [p1, p2, p3] (ReadyForDelivery 1) n3 =
      (Inr (), [RunCallback (Call (ReadyForDelivery 1) q) (Some (VAll ?vs))], n4)" "pms_only n3 n4"
    by auto
  have c4: "n_core n4 = sample_fetched" using pms_only_same [OF 4(2)] c3 by simp
  have "run_task sample_net (RunClosure (DeliverParents 1 2 [p1, p2, p3] []) None) n3 =
      (Inr (), [RunCallback (Call (ReadyForDelivery 1) q) (Some (VAll ?vs))], n4)"
    using 4(1) by simp
  from run_one [OF r3 this] have
    "node_reachable sample_net (n4, RunCallback (Call (ReadyForDelivery 1) q) (Some (VAll ?vs)) # ts)"
    by (simp add: size c3 c4)
  from run_call [OF this size [OF c4]] c4 show ?thesis by blast
qed

lemma delivery_run:
  "\<exists>n ts. n_core n = sample_fetched \<and> node_reachable sample_net (n, RunClosure (ReadyForDelivery 1)
    (Some (VAll [Some (VBool True), Some (VBlk 0), Some (VBlk 0)])) # ts)"
proof -
  let ?v = "vote_on 80"
  have size: "n_core n = sample_fetched \<Longrightarrow> size_ok n" for n by (simp add: size_ok_def sample_fetched)
  obtain n where n: "node_reachable sample_net (n, [])" "n_core n = sample_fetched" "n_delivery_waiting n = Map.empty"
    using child_stored by blast
  obtain m where m: "msg_vote_parse sample_env m = Inr ?v" using vote_parsed by blast
  obtain pm n1 where 1: "n_new_pm n = (pm, n1)" by force
  define n2 where "n2 = n1\<lparr>n_delivery_waiting := (n_delivery_waiting n1)(80 \<mapsto> pm)\<rparr>"
  have c1: "n_core n1 = sample_fetched" using 1 n(2) by (auto simp: n_new_pm_def split: prod.splits)
  then have c2: "n_core n2 = sample_fetched" by (simp add: n2_def)
  obtain p n3 where 3: "n_resolved (Some (VBlk 1)) n2 = (p, n3)" "settled_with n3 p (Some (VBlk 1))" "pms_only n2 n3"
    using resolved_run by blast
  obtain q n4 where 4: "n_then p (FetchedForDelivery 2) n3 = (q, [RunCallback (Call (FetchedForDelivery 2) q) (Some (VBlk 1))], n4)"
    "pms_only n3 n4" using then_run [OF 3(2)] by blast
  have c4: "n_core n4 = sample_fetched" using pms_only_same [OF 3(3)] pms_only_same [OF 4(2)] c2 by simp
  have "async_deliver_blk sample_env 80 2 n = (Inr pm, [RunCallback (Call (FetchedForDelivery 2) q) (Some (VBlk 1))], n4)"
    using 1 3(1) 4(1) n c1 c2 fetched_blocks(2,4)
    by (simp add: async_deliver_blk_def async_fetch_blk_def n2_def [symmetric] del: One_nat_def)
  then have "handle_event sample_net (Receive (NetVote m) (Some 2)) n = (Inr (),
      [RunCallback (Call (FetchedForDelivery 2) q) (Some (VBlk 1)), next_task (CheckVote ?v pm)], n4)"
    using m by (simp add: vote_handler_def vote_on_def)
  from run_event [OF n(1) this] have "node_reachable sample_net (n4,
      RunCallback (Call (FetchedForDelivery 2) q) (Some (VBlk 1)) # [next_task (CheckVote ?v pm)])"
    by (simp add: size n(2) c4)
  from run_call [OF this size [OF c4]] show ?thesis using deliver_run c4 by blast
qed

lemma delivered_blocks_verified_witness:
  "\<exists>n ts. node_reachable sample_net (n, RunClosure (ReadyForDelivery 1)
     (Some (VAll [Some (VBool True), Some (VBlk 0), Some (VBlk 0)])) # ts) \<and>
   is_blk_delivered (c_storage (n_core n)) 48 \<and> is_blk_fetched (c_storage (n_core n)) 48 \<and>
   (qc_verify toy_crypto (c_config (n_core n)) (QuorumCertDummy 48) = Inr True \<or>
    48 = blk_hash (blk (n_core n) (c_b0 (n_core n))) \<or> 1 = c_b0 (n_core n))"
proof -
  obtain n ts where c: "n_core n = sample_fetched" and n: "node_reachable sample_net (n, RunClosure (ReadyForDelivery 1)
     (Some (VAll [Some (VBool True), Some (VBlk 0), Some (VBlk 0)])) # ts)"
    using delivery_run by blast
  from delivered_blocks_verified [OF n] n c show ?thesis
    by (auto simp: fetched_blocks(5) sample_child_def simp del: One_nat_def)
qed

lemma replica_calls_core_as_documented_witness:
  "\<exists>n ts. node_reachable sample_net (n, RunClosure (ReadyForDelivery 1)
     (Some (VAll [Some (VBool True), Some (VBlk 0), Some (VBlk 0)])) # ts) \<and>
   core_reachable sample_env (n_core n)"
proof -
  obtain n ts where n: "node_reachable sample_net (n, RunClosure (ReadyForDelivery 1)
     (Some (VAll [Some (VBool True), Some (VBlk 0), Some (VBlk 0)])) # ts)"
    using delivery_run by blast
  from replica_calls_core_as_documented [OF n] n show ?thesis by auto
qed

section \<open>A client's request\<close>

definition sample_command :: command_dummy where
  "sample_command = command_dummy sample_env [] 7 3"

definition sample_requests :: "app_event list" where
  "sample_requests = [ClientRequest (msg_req_cmd sample_env sample_command) 100, SendResponses]"

lemma sample_requests:
  "requests sample_net 0 (cd_hash sample_command) 100 sample_requests = 1"
  "requests sample_net 0 (cd_hash sample_command) 200 sample_requests = 0"
  using command_read [of sample_env "[]" 7 3 "[]"] le.laws
  by (simp_all add: sample_requests_def requests_def parse_cmd_def sample_command_def)

lemma responses_answer_requests_witness:
  "\<exists>n0 a. hotstuff_base sample_env 1 0 PrivKeyDummy 10 PaceMakerDummy 1 1 True = Inr n0 \<and>
     a = app_run sample_net 0 sample_requests (app_start sample_net sample_replicas 11 n0) \<and>
     responses_to (cd_hash sample_command) 100 (a_resp_queue a) + responses_to (cd_hash sample_command) 100 (a_sent a) \<le> 1 \<and>
     responses_to (cd_hash sample_command) 200 (a_resp_queue a) + responses_to (cd_hash sample_command) 200 (a_sent a) \<le> 0"
proof -
  obtain c where "hotstuff_core sample_env 0 PrivKeyDummy = Inr c" using sample_core by blast
  then have "\<exists>n0. hotstuff_base sample_env 1 0 PrivKeyDummy 10 PaceMakerDummy 1 1 True = Inr n0"
    by (simp add: hotstuff_base_def Let_def split: prod.split)
  then obtain n0 where n0: "hotstuff_base (ne_env sample_net) 1 0 PrivKeyDummy 10 PaceMakerDummy 1 1 True = Inr n0"
    by auto
  from responses_answer_requests [OF n0 refl, of "cd_hash sample_command" 100 0 sample_requests sample_replicas 11]
    responses_answer_requests [OF n0 refl, of "cd_hash sample_command" 200 0 sample_requests sample_replicas 11] n0
  show ?thesis unfolding sample_requests by simp
qed

end
