(* ===== verification/Selection.thy ===== *)
theory Selection
  imports NodeExample
begin

text \<open>
  The parents that \<open>PMHighTail\<close> selects for the next block (include/hotstuff/liveness.h): the
  highest tail that follows the highest certified block.
\<close>

lemma check_ancestry_correct:
  assumes wf: "store_wf b0 st" and "delivered st a" and b: "delivered st b"
  shows "check_ancestry (heap st) a b = Inr (on_branch st a b)"
proof (cases "blk_height (heap st a) \<le> blk_height (heap st b)")
  case True
  then have "unat (blk_height (heap st a)) \<le> height_of st b" by (simp add: height_of_def word_le_nat_alt)
  with walk_reaches [OF wf b, of a "blk_height (heap st a)"] show ?thesis
    by (auto simp: check_ancestry_def height_of_def)
next
  case False
  then have low: "height_of st b < height_of st a" by (simp add: height_of_def word_le_nat_alt)
  then have "\<not> on_branch st a b" using on_branch_height [OF wf] b by fastforce
  moreover have "walk (heap st) (blk_height (heap st a)) b = Inr ([], b)"
    using False by (intro walk_simps(1)) simp
  moreover have "b \<noteq> a" using low by auto
  ultimately show ?thesis by (simp add: check_ancestry_def)
qed

lemma better_tail_correct:
  assumes "store_wf b0 st" and "delivered st a" and "delivered st b"
  shows "better_tail (heap st) a t b = Inr (if on_branch st a b \<and> height_of st t < height_of st b then b else t)"
  by (simp add: better_tail_def check_ancestry_correct [OF assms] height_of_def word_less_nat_alt)

text \<open>The loop over the tails keeps the highest one.\<close>

lemma best_tail:
  assumes wf: "store_wf b0 st" and a: "delivered st a" and "\<forall>b\<in>set bs. delivered st b" and "on_branch st a t"
  shows "\<exists>t'. foldE (better_tail (heap st) a) t bs = Inr t' \<and> t' \<in> insert t (set bs) \<and> on_branch st a t' \<and>
    height_of st t \<le> height_of st t' \<and> (\<forall>b\<in>set bs. on_branch st a b \<longrightarrow> height_of st b \<le> height_of st t')"
  using assms(3,4)
proof (induction bs arbitrary: t)
  case (Cons b bs)
  let ?t = "if on_branch st a b \<and> height_of st t < height_of st b then b else t"
  have "foldE (better_tail (heap st) a) t (b # bs) = foldE (better_tail (heap st) a) ?t bs"
    using better_tail_correct [OF wf a, of b t] Cons.prems(1) by simp
  moreover have "on_branch st a ?t" using Cons.prems(2) by simp
  ultimately show ?case using Cons.IH [of ?t] Cons.prems(1) by (auto split: if_splits)
qed simp

lemma parents_after_wait:
  "(\<And>n. n_pace (snd (snd (wait n))) = n_pace n) \<Longrightarrow> get_parents (snd (on_wait wait k n)) = get_parents n"
  by (simp add: on_wait_def get_parents_def n_then_def case_prod_beta Let_def)

lemma parents_after_register [simp]:
  "get_parents (snd (ht_reg_hqc_update n)) = get_parents n"
  "get_parents (snd (ht_reg_receive_proposal n)) = get_parents n"
  by (simp_all add: ht_reg_hqc_update_def ht_reg_receive_proposal_def parents_after_wait wait_hqc_update_def
      wait_receive_proposal_def n_then_map_def case_prod_beta Let_def)

text \<open>
  C11: When the highest certified block changes, the pace maker selects as the parent of the next
  block a highest one among that block and the tails that follow it; a proposal that is received
  becomes the parent when it follows the highest certified block and is higher than the parent
  selected so far. The walks up the parents return and never leave the delivered blocks.
\<close>

theorem highest_tail_selected:
  assumes "core_wf (n_core n)" and "tails_ok (n_core n)" and "order_ok N"
    and "delivered (c_storage (n_core n)) hqc" and "get_hqc (n_core n) = Some hqc"
    and "p_blk prop = Some b" and "delivered (c_storage (n_core n)) b"
  shows "(\<exists>t. fst (ht_on_hqc_update N hqc n) = Inr () \<and> get_parents (snd (snd (ht_on_hqc_update N hqc n))) = [t] \<and>
      t \<in> insert hqc (c_tails (n_core n)) \<and> on_branch (c_storage (n_core n)) hqc t \<and>
      (\<forall>x\<in>c_tails (n_core n). on_branch (c_storage (n_core n)) hqc x \<longrightarrow>
         height_of (c_storage (n_core n)) x \<le> height_of (c_storage (n_core n)) t)) \<and>
    fst (ht_on_receive_proposal prop n) = Inr () \<and>
    get_parents (snd (snd (ht_on_receive_proposal prop n))) =
      (if on_branch (c_storage (n_core n)) hqc b \<and>
          height_of (c_storage (n_core n)) (hqc_tail (n_pace n)) < height_of (c_storage (n_core n)) b
       then [b] else get_parents n)"
proof
  let ?st = "c_storage (n_core n)" and ?l = "ne_tails N (get_tails (n_core n))"
  note wf = core_wfD(1) [OF assms(1)]
  have "c_tails (n_core n) \<subseteq> delivered_set ?st" using assms(2) by (auto simp: tails_ok_def delivered_set_def)
  then have "finite (c_tails (n_core n))" by (rule finite_subset) simp
  then have l: "set ?l = c_tails (n_core n)" using assms(3) by (simp add: order_ok_def get_tails_def)
  then have "\<forall>x\<in>set ?l. delivered ?st x" using assms(2) by (simp add: tails_ok_def)
  from best_tail [OF wf assms(4) this on_branch_refl] obtain t where
    t: "foldE (better_tail (heap ?st) hqc) hqc ?l = Inr t" "t \<in> insert hqc (set ?l)" "on_branch ?st hqc t"
      "\<forall>x\<in>set ?l. on_branch ?st hqc x \<longrightarrow> height_of ?st x \<le> height_of ?st t" by blast
  have set_tail: "get_parents (set_pace (\<lambda>p. p\<lparr>hqc_tail := t\<rparr>) n) = [t]" for t
    by (simp add: get_parents_def set_pace_def)
  have "ht_on_hqc_update N hqc n = (Inr (), ht_reg_hqc_update (set_pace (\<lambda>p. p\<lparr>hqc_tail := t\<rparr>) n))"
    by (simp add: ht_on_hqc_update_def t(1))
  then show "\<exists>t. fst (ht_on_hqc_update N hqc n) = Inr () \<and> get_parents (snd (snd (ht_on_hqc_update N hqc n))) = [t] \<and>
      t \<in> insert hqc (c_tails (n_core n)) \<and> on_branch ?st hqc t \<and>
      (\<forall>x\<in>c_tails (n_core n). on_branch ?st hqc x \<longrightarrow> height_of ?st x \<le> height_of ?st t)"
    using t(2-4) l by (intro exI [of _ t]) (simp add: set_tail)
  show "fst (ht_on_receive_proposal prop n) = Inr () \<and> get_parents (snd (snd (ht_on_receive_proposal prop n))) =
      (if on_branch ?st hqc b \<and> height_of ?st (hqc_tail (n_pace n)) < height_of ?st b then [b] else get_parents n)"
    by (simp add: ht_on_receive_proposal_def assms(5,6) better_tail_correct [OF wf assms(4,7)])
       (simp add: get_parents_def set_pace_def)
qed

text \<open>A block over genesis was delivered, and genesis is the highest certified block.\<close>

lemma sample_tails: "c_tails sample_delivered = {1}" "get_hqc sample_delivered = Some 0"
proof -
  obtain c where c: "hotstuff_core sample_env 0 PrivKeyDummy = Inr c" using sample_core by blast
  have ct: "c_tails c = {0}" "c_b0 c = 0"
    using c by (auto simp: hotstuff_core_def alloc_blk_def empty_storage_def Let_def bindE_Inr_iff
        split: if_splits prod.splits)
  have "c_tails sample_start = {0} \<and> get_hqc sample_start = Some 0"
    using ct by (simp add: sample_start_def c add_replica_def start_core_def on_init_def Let_def set_blk_def get_hqc_def)
  then have fetched: "c_tails sample_fetched = {0}" "get_hqc sample_fetched = Some 0"
    by (simp_all add: sample_fetched_def store_blk_def get_hqc_def)
  have child: "blk_parent_hashes sample_child = [48]" by (simp add: sample_child_def)
  show "c_tails sample_delivered = {1}" "get_hqc sample_delivered = Some 0"
    using fetched
    by (simp_all add: sample_delivered_def deliver_state_def fetched_blocks(1,5) child set_blk_def get_hqc_def Let_def
        del: One_nat_def)
qed

lemma sample_delivered_blocks:
  "delivered (c_storage sample_delivered) 0" "delivered (c_storage sample_delivered) 1"
  "height_of (c_storage sample_delivered) 0 = 0" "height_of (c_storage sample_delivered) 1 = 1"
  "on_branch (c_storage sample_delivered) 0 1"
proof -
  show "delivered (c_storage sample_delivered) 0" "height_of (c_storage sample_delivered) 0 = 0"
    by (simp_all add: delivered_def height_of_def sample_delivered(6,7) sample_start(14,15))
  show "delivered (c_storage sample_delivered) 1" "height_of (c_storage sample_delivered) 1 = 1"
    by (simp_all add: delivered_def height_of_def sample_delivered(1,2,7) del: One_nat_def)
  have "parent_link (c_storage sample_delivered) 0 1"
    by (simp add: parent_link_def sample_delivered(3) del: One_nat_def)
  then show "on_branch (c_storage sample_delivered) 0 1" unfolding on_branch_def by (rule r_into_rtranclp)
qed

lemma highest_tail_selected_witness:
  "\<exists>n. n_core n = sample_delivered \<and> fst (ht_on_hqc_update sample_net 0 n) = Inr () \<and>
     get_parents (snd (snd (ht_on_hqc_update sample_net 0 n))) = [1]"
proof -
  define n where "n = (snd sample_node)\<lparr>n_core := sample_delivered\<rparr>"
  have core: "n_core n = sample_delivered" by (simp add: n_def)
  have wf: "core_wf (n_core n)" unfolding core by (rule reachable_wf [OF sample_reaches])
  have tails: "tails_ok (n_core n)" by (simp add: core tails_ok_def sample_tails(1) sample_delivered_blocks(2)
      del: One_nat_def)
  have d: "delivered (c_storage (n_core n)) 0" "delivered (c_storage (n_core n)) 1"
    unfolding core by (rule sample_delivered_blocks)+
  have hqc: "get_hqc (n_core n) = Some 0" unfolding core by (rule sample_tails)
  note sel = highest_tail_selected [OF wf tails sample_net_simps(2) d(1) hqc sample_proposal(2) d(2)]
  from conjunct1 [OF sel] obtain t where t: "fst (ht_on_hqc_update sample_net 0 n) = Inr ()"
    "get_parents (snd (snd (ht_on_hqc_update sample_net 0 n))) = [t]" "t \<in> insert 0 (c_tails (n_core n))"
    "\<forall>x\<in>c_tails (n_core n). on_branch (c_storage (n_core n)) 0 x \<longrightarrow>
       height_of (c_storage (n_core n)) x \<le> height_of (c_storage (n_core n)) t" by (elim exE conjE)
  have "t = 0 \<or> t = 1" using t(3) unfolding core sample_tails(1) by blast
  moreover have "1 \<le> height_of (c_storage sample_delivered) t"
    using t(4) sample_delivered_blocks(4,5) unfolding core sample_tails(1) by (metis singletonI)
  ultimately have "t = 1" using sample_delivered_blocks(3) by force
  with t(1,2) core show ?thesis by blast
qed

end
