(* ===== verification/CoreLocks.thy ===== *)
theory CoreLocks
  imports CoreGrowth CoreVotes
begin

text \<open>
  The history of a single replica that its safety towards the others rests on: the locked block
  is certified by a delivered block, the executed block is the tail of a three-chain, and when a
  vote is cast, the lock is at least as high as the block that the voted block's certificate
  certifies in turn.
\<close>

section \<open>Growing trees\<close>

definition grows :: "core \<Rightarrow> core \<Rightarrow> bool" where
  "grows c c' \<longleftrightarrow> core_wf c \<and> core_wf c' \<and> extends c c' \<and> core_le c c'"

lemma growsD:
  assumes "grows c c'"
  shows "core_wf c" "core_wf c'" "extends c c'" "core_le c c'"
  using assms by (simp_all add: grows_def)

lemma grows_refl: "core_wf c \<Longrightarrow> grows c c"
  by (simp add: grows_def)

lemma grows_trans: "grows a b \<Longrightarrow> grows b c \<Longrightarrow> grows a c"
  unfolding grows_def using extends_trans core_le_trans by blast

lemma grows_delivered:
  assumes "grows c c'" and "delivered (c_storage c) b"
  shows "delivered (c_storage c') b" "height_of (c_storage c') b = height_of (c_storage c) b"
    "blk_parents (blk c' b) = blk_parents (blk c b)" "blk_hash (blk c' b) = blk_hash (blk c b)"
  using growsD(3) [OF assms(1)] assms(2) delivered_next [OF assms(2)] by (simp_all add: extends_def)

lemma grows_roots:
  assumes "grows c c'"
  shows "c_b0 c' = c_b0 c" "c_id c' = c_id c"
    "height_of (c_storage c) (c_b_lock c) \<le> height_of (c_storage c') (c_b_lock c')"
  using growsD(3) [OF assms] by (simp_all add: extends_def)

lemma grows_link:
  "grows c c' \<Longrightarrow> delivered (c_storage c) b \<Longrightarrow>
     parent_link (c_storage c') p b = parent_link (c_storage c) p b"
  by (simp add: parent_link_def grows_delivered)

lemma grows_branch:
  assumes "grows c c'" and "delivered (c_storage c) b"
  shows "on_branch (c_storage c') a b = on_branch (c_storage c) a b"
proof
  assume "on_branch (c_storage c') a b"
  then show "on_branch (c_storage c) a b"
    using assms(2) unfolding on_branch_def
  proof (induction rule: rtranclp_induct)
    case (step p d)
    have link: "parent_link (c_storage c) p d" using step.hyps(2) grows_link [OF assms(1) step.prems] by simp
    with parent_link_delivered(1) [OF core_wfD(1) [OF growsD(1) [OF assms(1)]] this step.prems] step.IH
    show ?case by (simp add: rtranclp.rtrancl_into_rtrancl)
  qed simp
next
  assume "on_branch (c_storage c) a b"
  then show "on_branch (c_storage c') a b"
    using assms(2) unfolding on_branch_def
  proof (induction rule: rtranclp_induct)
    case (step p d)
    with parent_link_delivered(1) [OF core_wfD(1) [OF growsD(1) [OF assms(1)]] step.hyps(2) step.prems]
      grows_link [OF assms(1) step.prems]
    show ?case by (simp add: rtranclp.rtrancl_into_rtrancl)
  qed simp
qed

text \<open>A delivered block keeps the block that its certificate is for.\<close>

lemma grows_qc_ref:
  assumes g: "grows c c'" and b: "delivered (c_storage c) b"
  shows "blk_qc_ref (blk c' b) = blk_qc_ref (blk c b)"
proof (cases "b = c_b0 c")
  case True
  with store_wfD(2) [OF core_wfD(1) [OF growsD(1) [OF g]]] store_wfD(2) [OF core_wfD(1) [OF growsD(2) [OF g]]]
    grows_roots(1) [OF g] show ?thesis by (simp add: genesis_wf_def)
next
  case False
  have W: "store_wf (c_b0 c) (c_storage c)" "store_wf (c_b0 c) (c_storage c')"
    using core_wfD(1) [OF growsD(1) [OF g]] core_wfD(1) [OF growsD(2) [OF g]] grows_roots(1) [OF g] by simp_all
  obtain x q where x: "blk_qc_ref (blk c b) = Some x" "x < next_ref (c_storage c)" "blk_qc (blk c b) = Some q"
    "blk_hash (blk c x) = qc_obj_hash q"
    using store_wfD(3) [OF W(1) b False] by (auto simp: delivered_wf_def)
  obtain y r where y: "blk_qc_ref (blk c' b) = Some y" "y < next_ref (c_storage c')" "blk_qc (blk c' b) = Some r"
    "blk_hash (blk c' y) = qc_obj_hash r"
    using store_wfD(3) [OF W(2) grows_delivered(1) [OF g b] False] by (auto simp: delivered_wf_def)
  note le = core_leD(3,5,7) [OF growsD(4) [OF g]]
  have "blk_hash (blk c' y) = blk_hash (blk c' x)"
    using le(2) [OF x(2)] le(3) [OF delivered_next [OF b]] x(3,4) y(3,4) by simp
  then have "y = x" using hash_inj [OF W(2) y(2)] x(2) le(1) by simp
  with x(1) y(1) show ?thesis by simp
qed

lemma certified_next:
  assumes "core_wf c" and "delivered (c_storage c) b" and "blk_qc_ref (blk c b) = Some x"
  shows "x < next_ref (c_storage c)"
  using qc_refD(1) [OF core_wfD(1) [OF assms(1)] delivered_next [OF assms(2)] assms(3)] .

section \<open>Certified and committed blocks\<close>

text \<open>The certificates of delivered blocks are for ancestors of them.\<close>

definition certs_on_branch :: "core \<Rightarrow> bool" where
  "certs_on_branch c \<longleftrightarrow>
     (\<forall>b x. delivered (c_storage c) b \<longrightarrow> blk_qc_ref (blk c b) = Some x \<longrightarrow> on_branch (c_storage c) x b)"

definition certified_ref :: "core \<Rightarrow> block_ref \<Rightarrow> bool" where
  "certified_ref c x \<longleftrightarrow> x = c_b0 c \<or>
     (\<exists>b. delivered (c_storage c) b \<and> b \<noteq> c_b0 c \<and> blk_qc_ref (blk c b) = Some x)"

text \<open>The tail of a three-chain, as \<open>three_chain\<close> without what was decided when it was complete.\<close>

definition committed_ref :: "core \<Rightarrow> block_ref \<Rightarrow> bool" where
  "committed_ref c x \<longleftrightarrow> x = c_b0 c \<or>
     (\<exists>nblk blk2 blk1. delivered (c_storage c) nblk \<and> nblk \<noteq> c_b0 c \<and> delivered (c_storage c) blk2 \<and>
        delivered (c_storage c) blk1 \<and> blk_qc_ref (blk c nblk) = Some blk2 \<and>
        blk_qc_ref (blk c blk2) = Some blk1 \<and> blk_qc_ref (blk c blk1) = Some x \<and>
        parent_link (c_storage c) blk1 blk2 \<and> parent_link (c_storage c) x blk1)"

text \<open>The lock is not below the block two certificates away from \<open>b\<close>.\<close>

definition locked_above :: "core \<Rightarrow> block_ref \<Rightarrow> bool" where
  "locked_above c b \<longleftrightarrow>
     (\<forall>x y. blk_qc_ref (blk c b) = Some x \<longrightarrow> blk_qc_ref (blk c x) = Some y \<longrightarrow>
        height_of (c_storage c) y \<le> height_of (c_storage c) (c_b_lock c))"

lemma grows_certs_on_branch:
  assumes "grows c c'" and "certs_on_branch c'"
  shows "certs_on_branch c"
  unfolding certs_on_branch_def
proof (intro allI impI)
  fix b x
  assume b: "delivered (c_storage c) b" and x: "blk_qc_ref (blk c b) = Some x"
  then have "on_branch (c_storage c') x b"
    using assms(2) grows_delivered(1) [OF assms(1) b] grows_qc_ref [OF assms(1) b]
    by (simp add: certs_on_branch_def)
  then show "on_branch (c_storage c) x b" using grows_branch [OF assms(1) b] by simp
qed

lemma grows_certified: "grows c c' \<Longrightarrow> certified_ref c x \<Longrightarrow> certified_ref c' x"
  unfolding certified_ref_def using grows_delivered(1) grows_qc_ref grows_roots(1) by metis

lemma grows_committed:
  assumes g: "grows c c'" and "committed_ref c x"
  shows "committed_ref c' x"
  using assms(2) unfolding committed_ref_def
proof (elim disjE exE conjE)
  fix nblk blk2 blk1
  assume "delivered (c_storage c) nblk" "nblk \<noteq> c_b0 c" "delivered (c_storage c) blk2"
    "delivered (c_storage c) blk1" "blk_qc_ref (blk c nblk) = Some blk2"
    "blk_qc_ref (blk c blk2) = Some blk1" "blk_qc_ref (blk c blk1) = Some x"
    "parent_link (c_storage c) blk1 blk2" "parent_link (c_storage c) x blk1"
  then show "x = c_b0 c' \<or> (\<exists>nblk blk2 blk1. delivered (c_storage c') nblk \<and> nblk \<noteq> c_b0 c' \<and>
      delivered (c_storage c') blk2 \<and> delivered (c_storage c') blk1 \<and> blk_qc_ref (blk c' nblk) = Some blk2 \<and>
      blk_qc_ref (blk c' blk2) = Some blk1 \<and> blk_qc_ref (blk c' blk1) = Some x \<and>
      parent_link (c_storage c') blk1 blk2 \<and> parent_link (c_storage c') x blk1)"
    using grows_delivered(1) [OF g] grows_qc_ref [OF g] grows_link [OF g] grows_roots(1) [OF g]
    by (intro disjI2 exI [of _ nblk] exI [of _ blk2] exI [of _ blk1]) simp
qed (use grows_roots(1) [OF g] in simp)

lemma grows_locked_above:
  assumes g: "grows c c'" and br: "certs_on_branch c'" and b: "delivered (c_storage c) b"
    and locked: "locked_above c b"
  shows "locked_above c' b"
  unfolding locked_above_def
proof (intro allI impI)
  fix x y
  assume x: "blk_qc_ref (blk c' b) = Some x" and y: "blk_qc_ref (blk c' x) = Some y"
  note wf = growsD(1) [OF g]
  have W: "store_wf (c_b0 c) (c_storage c)" using core_wfD(1) [OF wf] .
  have xc: "blk_qc_ref (blk c b) = Some x" using x grows_qc_ref [OF g b] by simp
  then have "on_branch (c_storage c) x b"
    using grows_certs_on_branch [OF g br] b by (simp add: certs_on_branch_def)
  then have dx: "delivered (c_storage c) x" using on_branch_height [OF W _ b] by blast
  have yc: "blk_qc_ref (blk c x) = Some y" using y grows_qc_ref [OF g dx] by simp
  then have "on_branch (c_storage c) y x"
    using grows_certs_on_branch [OF g br] dx by (simp add: certs_on_branch_def)
  then have dy: "delivered (c_storage c) y" using on_branch_height [OF W _ dx] by blast
  have "height_of (c_storage c) y \<le> height_of (c_storage c) (c_b_lock c)"
    using locked xc yc by (simp add: locked_above_def)
  then show "height_of (c_storage c') y \<le> height_of (c_storage c') (c_b_lock c')"
    using grows_delivered(2) [OF g dy] grows_roots(3) [OF g] by simp
qed

section \<open>What a step does to the roots and the votes\<close>

definition roots_move :: "core \<Rightarrow> core \<Rightarrow> bool" where
  "roots_move c c' \<longleftrightarrow>
     grows c c' \<and> (c_b_lock c' = c_b_lock c \<or> certified_ref c' (c_b_lock c')) \<and>
     (c_b_exec c' = c_b_exec c \<or> committed_ref c' (c_b_exec c'))"

definition moves :: "core \<Rightarrow> core \<Rightarrow> bool" where
  "moves c c' \<longleftrightarrow> roots_move c c' \<and> votes_of (c_outs c') = votes_of (c_outs c)"

text \<open>A vote for \<open>b\<close> is cast; the voting rule holds with the lock that the step ends with.\<close>

definition casts :: "core \<Rightarrow> core \<Rightarrow> block_ref \<Rightarrow> bool" where
  "casts c c' b \<longleftrightarrow>
     roots_move c c' \<and> delivered (c_storage c') b \<and>
     (\<exists>v. votes_of (c_outs c') = votes_of (c_outs c) @ [v] \<and> v_blk_hash v = blk_hash (blk c' b)) \<and>
     (on_branch (c_storage c') (c_b_lock c') b \<or>
      (\<exists>r. blk_qc_ref (blk c' b) = Some r \<and>
         height_of (c_storage c') (c_b_lock c') < height_of (c_storage c') r)) \<and>
     (certs_on_branch c' \<longrightarrow> locked_above c' b)"

lemma roots_move_trans:
  assumes "roots_move a b" and "roots_move b c"
  shows "roots_move a c"
  using assms grows_trans [of a b c] grows_certified [of b c] grows_committed [of b c]
  unfolding roots_move_def by metis

lemma moves_trans: "moves a b \<Longrightarrow> moves b c \<Longrightarrow> moves a c"
  unfolding moves_def using roots_move_trans by metis

lemma moves_casts: "moves a b \<Longrightarrow> casts b c x \<Longrightarrow> casts a c x"
  unfolding casts_def moves_def using roots_move_trans by metis

lemma moves_same:
  assumes "grows c c'" and "c_b_lock c' = c_b_lock c" and "c_b_exec c' = c_b_exec c"
    and "votes_of (c_outs c') = votes_of (c_outs c)"
  shows "moves c c'"
  using assms by (simp add: moves_def roots_move_def)

lemma moves_refl: "core_wf c \<Longrightarrow> moves c c"
  by (rule moves_same) (simp_all add: grows_refl)

lemma moves_cong:
  assumes "moves a c" and "same_roots c c'" and "futures_wf c'"
  shows "moves a c'"
proof (rule moves_trans [OF assms(1)], rule moves_same)
  have "core_wf c" using assms(1) by (simp add: moves_def roots_move_def grows_def)
  then show "grows c c'"
    using same_roots_wf [OF assms(2) _ assms(3)] assms(2) by (simp add: grows_def same_roots_def core_le_same)
qed (use assms(2) in \<open>simp_all add: same_roots_def\<close>)

section \<open>Updating the chain\<close>

lemma commit_blk_roots:
  "c_b_lock (snd (commit_blk E b c)) = c_b_lock c \<and> c_b_exec (snd (commit_blk E b c)) = c_b_exec c"
proof -
  have "c_b_lock (foldl (\<lambda>c i. emit (DoDecide (g c i)) c) c js) = c_b_lock c \<and>
      c_b_exec (foldl (\<lambda>c i. emit (DoDecide (g c i)) c) c js) = c_b_exec c" for c js and g :: "core \<Rightarrow> nat \<Rightarrow> finality"
    by (induction js arbitrary: c) (simp_all add: emit_def)
  then show ?thesis
    by (simp add: commit_blk_def Let_def emit_def set_blk_def split: option.split sum.split)
qed

lemma commit_all_roots:
  "c_b_lock (snd (commit_all E bs c)) = c_b_lock c \<and> c_b_exec (snd (commit_all E bs c)) = c_b_exec c"
proof (induction bs arbitrary: c)
  case (Cons b bs)
  show ?case
    unfolding commit_all.simps by (rule bindS_keeps) (use Cons commit_blk_roots in \<open>auto simp: prod_eq_iff\<close>)
qed simp

lemma commit_roots:
  "c_b_lock (snd (commit E b c)) = c_b_lock c \<and> c_b_exec (snd (commit E b c)) \<in> {c_b_exec c, b}"
proof -
  have "c_b_lock (snd (bindS (commit_all E bs c) (\<lambda>_ c. (Inr (), c\<lparr>c_b_exec := b\<rparr>)))) = c_b_lock c \<and>
      c_b_exec (snd (bindS (commit_all E bs c) (\<lambda>_ c. (Inr (), c\<lparr>c_b_exec := b\<rparr>)))) \<in> {c_b_exec c, b}" for bs
    by (rule bindS_keeps) (use commit_all_roots in auto)
  then show ?thesis by (simp add: commit_def split: sum.split prod.split)
qed

lemma update_hqc_lock: "c_b_lock (snd (update_hqc b q c)) = c_b_lock c \<and> c_storage (snd (update_hqc b q c)) = c_storage c"
  by (simp add: update_hqc_def on_hqc_update_def emit_def split: option.split)

text \<open>The block that \<open>update\<close> leaves locked.\<close>

lemma update_lock:
  assumes wf: "core_wf c" and b: "nblk < next_ref (c_storage c)" and run: "update E nblk c = (r, c')"
  shows "c_b_lock c' =
    (case blk_qc_ref (blk c nblk) of None \<Rightarrow> c_b_lock c
     | Some blk2 \<Rightarrow> if blk_decision (blk c blk2) \<noteq> 0 then c_b_lock c
       else case blk_qc_ref (blk c blk2) of None \<Rightarrow> c_b_lock c
         | Some blk1 \<Rightarrow> if blk_decision (blk c blk1) \<noteq> 0 then c_b_lock c
           else if blk_height (blk c blk1) > blk_height (blk c (c_b_lock c)) then blk1 else c_b_lock c)"
proof (cases "\<exists>blk2. blk_qc_ref (blk c nblk) = Some blk2 \<and> blk_decision (blk c blk2) = 0")
  case False
  with run show ?thesis by (auto simp: update_def split: option.splits)
next
  case True
  then obtain blk2 where blk2: "blk_qc_ref (blk c nblk) = Some blk2" "blk_decision (blk c blk2) = 0" by blast
  obtain s where up: "update_hqc blk2 (blk_qc (blk c nblk)) c = (Inr (), s)"
    using update_hqc_ok [OF wf b] by blast
  have s: "c_b_lock s = c_b_lock c" "c_storage s = c_storage c"
    using update_hqc_lock [of blk2 "blk_qc (blk c nblk)" c] up by simp_all
  have sd: "c_b_lock (start_decode E y s) = c_b_lock c" "c_storage (start_decode E y s) = c_storage c" for y
    using s by (simp_all add: start_decode_def Let_def split: prod.split)
  have lk: "c_b_lock (lock_blk y (start_decode E y s)) =
      (if blk_height (blk c y) > blk_height (blk c (c_b_lock c)) then y else c_b_lock c)" for y
    by (simp add: lock_blk_def sd)
  define T where "T y d = (case blk_qc_ref (blk d y) of
          None \<Rightarrow> (Inr (), d)
        | Some b \<Rightarrow> if blk_decision (blk d b) \<noteq> 0 then (Inr (), d)
            else case direct_parents blk2 y b d of
                Inl e \<Rightarrow> (Inl e, d) | Inr False \<Rightarrow> (Inr (), d) | Inr True \<Rightarrow> commit E b d)" for y d
  have T: "c_b_lock (snd (T y d)) = c_b_lock d" for y d
    using commit_roots by (auto simp: T_def split: option.split sum.split bool.split)
  have "update E nblk c = (case blk_qc_ref (blk s blk2) of None \<Rightarrow> (Inr (), s)
      | Some y \<Rightarrow> if blk_decision (blk s y) \<noteq> 0 then (Inr (), s)
        else T y (lock_blk y (start_decode E y s)))"
    using blk2 up unfolding update_def T_def Let_def by simp
  then have "c_b_lock (snd (update E nblk c)) = (case blk_qc_ref (blk c blk2) of None \<Rightarrow> c_b_lock c
      | Some y \<Rightarrow> if blk_decision (blk c y) \<noteq> 0 then c_b_lock c
        else if blk_height (blk c y) > blk_height (blk c (c_b_lock c)) then y else c_b_lock c)"
    using s lk T by (simp split: option.split)
  then show ?thesis using run blk2 by simp
qed

text \<open>Decided blocks are not above the executed one.\<close>

lemma decided_height:
  assumes wf: "core_wf c" and "r < next_ref (c_storage c)" and "blk_decision (blk c r) \<noteq> 0"
  shows "height_of (c_storage c) r \<le> height_of (c_storage c) (c_b_exec c)"
proof -
  let ?bs = "c_b0 c # consensus_of (c_outs c)"
  have ex: "successively (parent_link (c_storage c)) ?bs" "last ?bs = c_b_exec c" "r \<in> set ?bs"
    using core_wfD(3) [OF wf] assms(2,3) unfolding exec_wf_def Let_def by blast+
  obtain xs ys where split: "?bs = xs @ r # ys" using ex(3) by (meson split_list)
  then have "successively (parent_link (c_storage c)) (r # ys)" "last (r # ys) = c_b_exec c"
    using ex(1,2) by (simp_all add: successively_append_iff)
  then have "on_branch (c_storage c) r (c_b_exec c)" using on_branch_path by metis
  moreover have "delivered (c_storage c) (c_b_exec c)" using core_wfD(2) [OF wf] by (simp add: roots_wf_def)
  ultimately show ?thesis using on_branch_height [OF core_wfD(1) [OF wf]] by blast
qed

lemma update_grows:
  assumes "core_wf c" and "nblk < next_ref (c_storage c)" and "update E nblk c = (r, c')" and "survives r"
  shows "grows c c'"
  using update_wf [OF assms] quiet_le [OF quiet_update [OF quiet_refl, of "Some nblk" c E nblk]] assms(1,3)
  by (simp add: grows_def)

lemma update_shape:
  "update E nblk c = (r, c') \<Longrightarrow> same_shape (c_storage c) (c_storage c')"
  using quiet_update [OF quiet_refl, of "Some nblk" c E nblk] by (simp add: quiet_def)

lemma update_moves:
  assumes wf: "core_wf c" and b: "nblk < next_ref (c_storage c)" and run: "update E nblk c = (r, c')"
    and surv: "survives r"
  shows "moves c c'"
proof -
  have g: "grows c c'" using update_grows [OF assms] .
  note W = core_wfD(1) [OF wf]
  have sh: "blk_qc_ref (blk c' x) = blk_qc_ref (blk c x)" "parent_link (c_storage c') = parent_link (c_storage c)"
    "delivered (c_storage c') = delivered (c_storage c)" for x
    using same_shape_fields(7) [OF update_shape [OF run]] same_shape_views [OF update_shape [OF run]] by simp_all
  have "certified_ref c' (c_b_lock c')" if new: "c_b_lock c' \<noteq> c_b_lock c"
  proof -
    obtain blk2 where blk2: "blk_qc_ref (blk c nblk) = Some blk2" "blk_decision (blk c blk2) = 0"
      "blk_qc_ref (blk c blk2) = Some (c_b_lock c')"
      using update_lock [OF wf b run] new by (auto split: option.splits if_splits)
    have n2: "blk2 < next_ref (c_storage c)" using qc_refD(1) [OF W b blk2(1)] .
    have "blk2 \<noteq> c_b0 c" using wf blk2(2) by (rule undecided_not_genesis)
    moreover have "delivered (c_storage c) blk2" using qc_refD(3) [OF W n2 blk2(3)] .
    ultimately show ?thesis
      using blk2(3) sh grows_roots(1) [OF g] unfolding certified_ref_def by metis
  qed
  moreover have "committed_ref c' (c_b_exec c')" if new: "c_b_exec c' \<noteq> c_b_exec c"
    using wf b run
  proof (cases rule: update_cases)
    case quiet
    then show ?thesis using new by (simp add: before_commit_def)
  next
    case (commit d s)
    have "c_b_exec c' \<in> {c_b_exec s, d}" using commit_roots [of E d s] commit(6) by simp
    then have exec: "c_b_exec c' = d" using new commit(2) by (simp add: before_commit_def)
    obtain blk2 blk1 where ch: "blk_qc_ref (blk c nblk) = Some blk2" "blk_qc_ref (blk c blk2) = Some blk1"
      "blk_qc_ref (blk c blk1) = Some d" "parent_link (c_storage c) blk1 blk2" "parent_link (c_storage c) d blk1"
      "blk_decision (blk c blk2) = 0"
      using commit(1) by (auto simp: three_chain_def)
    have n2: "blk2 < next_ref (c_storage c)" using qc_refD(1) [OF W b ch(1)] .
    have n1: "blk1 < next_ref (c_storage c)" using qc_refD(1) [OF W n2 ch(2)] .
    have "blk2 \<noteq> c_b0 c" using wf ch(6) by (rule undecided_not_genesis)
    then have "nblk \<noteq> c_b0 c" using qc_refD(2) [OF W b ch(1)] by blast
    then show ?thesis
      unfolding committed_ref_def exec sh grows_roots(1) [OF g]
      using qc_refD(3) [OF W b ch(1)] qc_refD(3) [OF W n2 ch(2)] qc_refD(3) [OF W n1 ch(3)] ch(1-5) by blast
  qed
  ultimately show ?thesis
    using g update_votes [of c E nblk] run by (auto simp: moves_def roots_move_def same_votes_def)
qed

text \<open>After \<open>update\<close> the lock is high enough for a vote.\<close>

lemma update_locked_above:
  assumes wf: "core_wf c" and b: "delivered (c_storage c) nblk" and run: "update E nblk c = (r, c')"
    and surv: "survives r" and br: "certs_on_branch c'"
  shows "locked_above c' nblk"
  unfolding locked_above_def
proof (intro allI impI)
  fix x y
  assume x: "blk_qc_ref (blk c' nblk) = Some x" and y: "blk_qc_ref (blk c' x) = Some y"
  note g = update_grows [OF wf delivered_next [OF b] run surv]
  note W = core_wfD(1) [OF wf]
  have brc: "certs_on_branch c" using grows_certs_on_branch [OF g br] .
  have xy: "blk_qc_ref (blk c nblk) = Some x" "blk_qc_ref (blk c x) = Some y"
    using x y same_shape_fields(7) [OF update_shape [OF run]] by simp_all
  have dx: "delivered (c_storage c) x" and nx: "on_branch (c_storage c) x nblk"
    using brc b xy(1) on_branch_height [OF W _ b] by (auto simp: certs_on_branch_def)
  have yx: "on_branch (c_storage c) y x" using brc dx xy(2) by (simp add: certs_on_branch_def)
  then have dy: "delivered (c_storage c) y" "height_of (c_storage c) y \<le> height_of (c_storage c) x"
    using on_branch_height [OF W _ dx] by blast+
  have hl: "height_of (c_storage c) (c_b_lock c) \<le> height_of (c_storage c') (c_b_lock c')"
    using grows_roots(3) [OF g] .
  have low: "height_of (c_storage c) (c_b_exec c) \<le> height_of (c_storage c) (c_b_lock c)"
    using core_wfD(2) [OF wf] by (simp add: roots_wf_def)
  have "height_of (c_storage c) y \<le> height_of (c_storage c') (c_b_lock c')"
  proof (cases "blk_decision (blk c x) = 0 \<and> blk_decision (blk c y) = 0")
    case True
    then have "c_b_lock c' = (if blk_height (blk c y) > blk_height (blk c (c_b_lock c)) then y else c_b_lock c)"
      using update_lock [OF wf delivered_next [OF b] run] xy by simp
    then show ?thesis
      using hl grows_delivered(2) [OF g dy(1)] by (auto simp: height_of_def word_less_nat_alt split: if_splits)
  next
    case False
    then show ?thesis
      using decided_height [OF wf delivered_next [OF dx]] decided_height [OF wf delivered_next [OF dy(1)]]
        dy(2) low hl by linarith
  qed
  then show "height_of (c_storage c') y \<le> height_of (c_storage c') (c_b_lock c')"
    using grows_delivered(2) [OF g dy(1)] by simp
qed

section \<open>Proposals\<close>

lemma finish_roots:
  "c_b_lock (snd (finish_proposal E p b s)) = c_b_lock s \<and> c_b_exec (snd (finish_proposal E p b s)) = c_b_exec s \<and>
   c_storage (snd (finish_proposal E p b s)) = c_storage s"
proof -
  have qf: "c_b_lock (on_qc_finish r d) = c_b_lock d \<and> c_b_exec (on_qc_finish r d) = c_b_exec d \<and>
      c_storage (on_qc_finish r d) = c_storage d" for r d
    by (simp add: on_qc_finish_def emit_def split: option.split)
  show ?thesis
    by (simp add: finish_proposal_def Let_def on_receive_proposal_fin_def emit_def qf
        split: sum.split option.split)
qed

lemma locked_above_cong:
  "c_storage c' = c_storage c \<Longrightarrow> c_b_lock c' = c_b_lock c \<Longrightarrow> locked_above c' b = locked_above c b"
  by (simp add: locked_above_def)

lemma certs_on_branch_cong: "c_storage c' = c_storage c \<Longrightarrow> certs_on_branch c' = certs_on_branch c"
  by (simp add: certs_on_branch_def)

lemma finish_step:
  assumes wf: "core_wf s" and b: "b < next_ref (c_storage s)"
    and run: "finish_proposal E p b s = (r, c')" and surv: "survives r"
    and locked: "certs_on_branch s \<longrightarrow> locked_above s b"
  shows "moves s c' \<or> casts s c' b"
proof -
  have same: "c_b_lock c' = c_b_lock s" "c_b_exec c' = c_b_exec s" "c_storage c' = c_storage s"
    using finish_roots [of E p b s] run by simp_all
  have ext: "core_wf c'" "extends s c'" using finish_proposal_wf [OF wf b run] by simp_all
  then have g: "grows s c'" using wf same(3) by (simp add: grows_def core_le_same extends_def)
  then have rm: "roots_move s c'" using same by (simp add: roots_move_def)
  show ?thesis
  proof (cases "votes_of (c_outs c') = votes_of (c_outs s)")
    case True
    then show ?thesis using g same by (simp add: moves_same)
  next
    case False
    with finish_votes [OF wf b run] obtain v where v: "vote_rule s b"
      "votes_of (c_outs c') = votes_of (c_outs s) @ [v]" "v_blk_hash v = blk_hash (blk s b)"
      by (cases rule: voting_cases) auto
    have "delivered (c_storage s) b"
      using higher_delivered(1) [OF core_wfD(1) [OF wf] b] v(1) by (simp add: vote_rule_def)
    then show ?thesis
      using v rm locked same locked_above_cong [OF same(3,1)] certs_on_branch_cong [OF same(3)]
      by (auto simp: casts_def vote_rule_def)
  qed
qed

lemma on_receive_proposal_step:
  assumes wf: "core_wf c" and blk: "\<forall>b. p_blk p = Some b \<longrightarrow> b < next_ref (c_storage c)"
    and run: "on_receive_proposal E p c = (r, c')" and surv: "survives r"
    and own: "\<forall>b. p_blk p = Some b \<longrightarrow> p_proposer p = c_id c \<longrightarrow> certs_on_branch c \<longrightarrow> locked_above c b"
  shows "moves c c' \<or> (\<exists>b. p_blk p = Some b \<and> casts c c' b)"
proof (cases "slice_get_hash E (p_slice p) = Inr (p_s_hash p) \<and> validate (e_sha_hex E) (p_slice p)")
  case False
  with run have "c' = c" by (auto simp: on_receive_proposal_def split: sum.splits if_splits)
  then show ?thesis using wf by (simp add: moves_refl)
next
  case True
  obtain x c1 where slice: "on_receive_slice E (p_slice p) c = (x, c1)" by force
  have sr: "same_roots c c1" "c_futures c1 = c_futures c"
    using slice by (auto simp: on_receive_slice_def same_roots_def Let_def split: if_splits prod.splits)
  define c2 where "c2 = emit (DoBroadcastSlice (p_slice p)) c1"
  have sr2: "same_roots c c2" "c_futures c2 = c_futures c"
    using same_roots_trans [OF sr(1) emit_same_roots [of "DoBroadcastSlice (p_slice p)"]] sr(2) by (simp_all add: c2_def)
  have m1: "moves c c1" and m2: "moves c c2"
    using moves_cong [OF moves_refl [OF wf]] sr sr2 core_wfD(5) [OF wf] futures_wf_cong by blast+
  have c2: "core_wf c2" "c_storage c2 = c_storage c" "c_b_lock c2 = c_b_lock c" "c_id c2 = c_id c"
    using m2 sr2(1) by (simp_all add: moves_def roots_move_def grows_def same_roots_def)
  consider (refused) "c' = c1" | (null) "c' = c2"
    | (go) b where "p_blk p = Some b" "bindS (if p_proposer p = c_id c2 then (Inr (), c2)
        else case sanity_check_delivered b c2 of Inl e \<Rightarrow> (Inl e, c2) | Inr _ \<Rightarrow> update E b c2)
      (\<lambda>_ c. finish_proposal E p b c) = (r, c')"
  proof -
    have "bindS (x, c1) (\<lambda>_ c. let c = emit (DoBroadcastSlice (p_slice p)) c in
        case p_blk p of
          None \<Rightarrow> (Inl NullDeref, c)
        | Some bnew \<Rightarrow>
            bindS (if p_proposer p = c_id c then (Inr (), c)
                   else case sanity_check_delivered bnew c of Inl e \<Rightarrow> (Inl e, c) | Inr _ \<Rightarrow> update E bnew c)
              (\<lambda>_ c. finish_proposal E p bnew c)) = (r, c')"
      using run True unfolding slice [symmetric] by (simp add: on_receive_proposal_def)
    then show ?thesis
      using refused null go unfolding c2_def Let_def by (cases x; cases "p_blk p") simp_all
  qed
  then show ?thesis
  proof cases
    case (go b)
    have b: "b < next_ref (c_storage c2)" using blk go(1) c2(2) by simp
    define up where "up = (if p_proposer p = c_id c2 then (Inr (), c2)
        else case sanity_check_delivered b c2 of Inl e \<Rightarrow> (Inl e, c2) | Inr _ \<Rightarrow> update E b c2)"
    have up: "moves c2 s" "certs_on_branch s \<longrightarrow> y = Inr () \<longrightarrow> locked_above s b"
      if "up = (y, s)" "survives y" for y s
    proof -
      have "moves c2 s \<and> (certs_on_branch s \<longrightarrow> y = Inr () \<longrightarrow> locked_above s b)"
      proof (cases "p_proposer p = c_id c2")
        case True
        then show ?thesis
          using that moves_refl [OF c2(1)] own go(1) c2(2-4) locked_above_cong [OF c2(2,3)]
            certs_on_branch_cong [OF c2(2)] by (auto simp: up_def)
      next
        case False
        show ?thesis
        proof (cases "blk_delivered (blk c2 b)")
          case True
          then have "update E b c2 = (y, s)" "delivered (c_storage c2) b"
            using that(1) False b by (simp_all add: up_def sanity_check_delivered_def delivered_def)
          then show ?thesis
            using update_moves [OF c2(1) b _ that(2)] update_locked_above [OF c2(1) _ _ that(2)] by blast
        qed (use that False moves_refl [OF c2(1)] in \<open>auto simp: up_def sanity_check_delivered_def\<close>)
      qed
      then show "moves c2 s" "certs_on_branch s \<longrightarrow> y = Inr () \<longrightarrow> locked_above s b" by blast+
    qed
    have "bindS up (\<lambda>_ c. finish_proposal E p b c) = (r, c')" using go(2) by (simp only: up_def)
    then show ?thesis
    proof (cases rule: bindS_snd_cases)
      case (err e)
      then show ?thesis using up(1) [OF err(1)] surv moves_trans [OF m2] by auto
    next
      case (ok y s)
      note m = up(1) [OF ok(1)]
      have "core_wf s" "next_ref (c_storage c2) \<le> next_ref (c_storage s)"
        using m by (simp_all add: moves_def roots_move_def grows_def extends_def)
      then have "moves s c' \<or> casts s c' b"
        using finish_step [OF _ _ ok(2) surv] b up(2) [OF ok(1)] by simp
      then show ?thesis
        using m m2 go(1) moves_trans moves_casts survives_simps by metis
    qed
  qed (use m1 m2 in simp_all)
qed

section \<open>Every call\<close>

lemma casts_cong:
  assumes "casts a c b" and "same_roots c c'" and "futures_wf c'"
  shows "casts a c' b"
proof -
  have wf: "core_wf c" using assms(1) by (simp add: casts_def roots_move_def grows_def)
  have m: "moves c c'" using moves_cong [OF moves_refl [OF wf] assms(2,3)] .
  then have "roots_move a c'" using assms(1) roots_move_trans [of a c c'] by (simp add: casts_def moves_def)
  moreover have same: "c_storage c' = c_storage c" "c_b_lock c' = c_b_lock c"
    "votes_of (c_outs c') = votes_of (c_outs c)" using assms(2) by (simp_all add: same_roots_def)
  ultimately show ?thesis
    using assms(1) locked_above_cong [OF same(1,2)] certs_on_branch_cong [OF same(1)]
    by (simp add: casts_def)
qed

lemma push_parents_roots:
  "c_b_lock (snd (push_parents b hs c)) = c_b_lock c \<and> c_b_exec (snd (push_parents b hs c)) = c_b_exec c"
  by (induction hs arbitrary: c) (auto split: sum.split)

lemma on_deliver_blk_roots:
  "c_b_lock (snd (on_deliver_blk b c)) = c_b_lock c \<and> c_b_exec (snd (on_deliver_blk b c)) = c_b_exec c"
  unfolding on_deliver_blk_def Let_def
  by (auto split: option.split intro!: bindS_keeps [where P = "\<lambda>d. c_b_lock d = c_b_lock c \<and> c_b_exec d = c_b_exec c"]
      simp: push_parents_roots)

lemma collect_vote_roots:
  "c_b_lock (snd (on_receive_vote E v c)) = c_b_lock c \<and> c_b_exec (snd (on_receive_vote E v c)) = c_b_exec c \<and>
   votes_of (c_outs (snd (on_receive_vote E v c))) = votes_of (c_outs c)"
proof -
  let ?P = "\<lambda>d. c_b_lock d = c_b_lock c \<and> c_b_exec d = c_b_exec c \<and> votes_of (c_outs d) = votes_of (c_outs c)"
  have fin: "?P d \<Longrightarrow> ?P (on_qc_finish b d)" for b d
    by (simp add: on_qc_finish_def emit_def split: option.split)
  have hqc: "?P d \<Longrightarrow> ?P (snd (update_hqc b q d))" for b q d
    by (simp add: update_hqc_def on_hqc_update_def emit_def split: option.split)
  have "?P d \<Longrightarrow> ?P (snd (collect_vote E b voter cert n d))" for b voter cert n d
    unfolding collect_vote_def Let_def
    by (auto split: sum.split intro!: bindS_keeps [where P = ?P] hqc fin [THEN conjunct1]
        fin [THEN conjunct2, THEN conjunct1] fin [THEN conjunct2, THEN conjunct2])
  then show ?thesis
    by (auto simp: on_receive_vote_def Let_def split: sum.split option.split)
qed

lemma on_propose_step:
  assumes wf: "core_wf c" and size: "next_ref (c_storage c) < 2 ^ 32"
    and pre: "propose_pre E cmds parents extra c"
    and run: "on_propose E cmds parents extra c = (r, c')" and surv: "survives r"
  shows "moves c c' \<or> (\<exists>b. casts c c' b)"
proof (cases "parents = []")
  case True
  with run wf show ?thesis by (simp add: on_propose_def moves_refl)
next
  case False
  define c1 where "c1 = c\<lparr>c_tails := c_tails c - set parents\<rparr>"
  have c1: "core_wf c1 \<and> extends c c1" unfolding c1_def using wf by (rule tails_wf)
  have st1: "c_storage c1 = c_storage c" by (simp add: c1_def)
  have m1: "moves c c1"
    by (rule moves_same) (use wf c1 in \<open>simp_all add: grows_def c1_def core_le_same\<close>)
  have prop1: "proposed_blk E cmds parents extra c1 = proposed_blk E cmds parents extra c"
    unfolding c1_def by (rule proposed_blk_tails)
  show ?thesis
  proof (cases "proposed_blk E cmds parents extra c1")
    case (Inl e)
    with run False have "c' = c1" by (simp add: on_propose_def c1_def [symmetric] Let_def)
    with m1 show ?thesis by simp
  next
    case (Inr b)
    obtain n st where add: "add_blk b (c_storage c1) = (n, st)" by force
    define c2 where "c2 = c1\<lparr>c_storage := st\<rparr>"
    define c3 where "c3 = set_blk n (\<lambda>x. x\<lparr>blk_self_qc :=
      Some (create_quorum_cert (e_kind E) (c_config c2) (blk_hash (blk c2 n)))\<rparr>) c2"
    have pre1: "propose_pre E cmds parents extra c1" using pre by (simp add: propose_pre_def prop1 st1)
    obtain x d where d: "on_deliver_blk n c3 = (Inr x, d)" "core_wf d" "extends c1 d" "delivered (c_storage d) n"
      using propose_deliver [OF _ _ Inr False pre1 add] c1 size
      unfolding c3_def c2_def st1 by blast
    have "core_le c1 c2" using core_le_store [of c1 b] c1 add by (simp add: c2_def store_blk_def)
    moreover have "core_le c2 c3" unfolding c3_def by (rule core_le_set_blk) simp_all
    ultimately have "core_le c1 d" using on_deliver_blk_kept [OF d(1)] core_le_trans by blast
    then have "grows c1 d" using c1 d(2,3) by (simp add: grows_def)
    then have m2: "moves c1 d"
      using on_deliver_blk_roots [of n c3] on_deliver_blk_kept [OF d(1)] d(1)
      by (intro moves_same) (simp_all add: c3_def c2_def)
    define fin where "fin c = (case encode_proposals E (c_rse c) (c_id c) n (blk_hash (blk c2 n)) cmds of
            Inl e \<Rightarrow> (Inl e, c)
          | Inr props \<Rightarrow>
              if blk_height (blk c n) \<le> c_vheight c
              then (Inl (RuntimeError ''new block should be higher than vheight''), c)
              else if length props \<le> unat (c_id c) then (Inl OutOfBounds, c)
              else let pr = props ! unat (c_id c) in
                bindS (on_receive_proposal E pr c) (\<lambda>_ c.
                  (Inr n, emit (DoBroadcastProposals props) (on_propose_fin pr c))))" for c
    have "bindS (update E n d) (\<lambda>_ c. fin c) = (r, c')"
      using run False Inr add d(1)
      by (simp add: on_propose_def c1_def [symmetric] Let_def c2_def c3_def fin_def)
    then have "moves d c' \<or> (\<exists>b. casts d c' b)"
    proof (cases rule: bindS_snd_cases)
      case (err e)
      then show ?thesis using update_moves [OF d(2) delivered_next [OF d(4)] err(1)] surv by simp
    next
      case (ok y s)
      have ms: "moves d s" using update_moves [OF d(2) delivered_next [OF d(4)] ok(1)] by simp
      have ls: "certs_on_branch s \<Longrightarrow> locked_above s n"
        using update_locked_above [OF d(2,4) ok(1)] by simp
      have gs: "core_wf s" "n < next_ref (c_storage s)"
        using ms delivered_next [OF grows_delivered(1) [OF _ d(4)]]
        by (simp_all add: moves_def roots_move_def grows_def)
      from ok(2) consider "c' = s" | props where
        "bindS (on_receive_proposal E (props ! unat (c_id s)) s) (\<lambda>_ c.
           (Inr n, emit (DoBroadcastProposals props) (on_propose_fin (props ! unat (c_id s)) c))) = (r, c')"
        "p_blk (props ! unat (c_id s)) = Some n"
        using encode_proposals_blk by (auto simp: fin_def Let_def split: sum.splits if_splits)
      then show ?thesis
      proof cases
        case 2
        let ?pr = "props ! unat (c_id s)"
        have step: "moves d t \<or> casts d t n" if "on_receive_proposal E ?pr s = (z, t)" "survives z" for z t
        proof -
          have "moves s t \<or> casts s t n"
            using on_receive_proposal_step [OF gs(1) _ that] 2(2) gs(2) ls by simp
          then show ?thesis using moves_trans [OF ms] moves_casts [OF ms] by blast
        qed
        from 2(1) show ?thesis
        proof (cases rule: bindS_snd_cases)
          case (err e)
          then show ?thesis using step surv by auto
        next
          case (ok z t)
          then have c': "c' = emit (DoBroadcastProposals props) (on_propose_fin ?pr t)" by simp
          have "same_roots t c'"
            unfolding c' by (rule same_roots_trans [OF promises_same_roots(1) emit_same_roots])
              (simp_all add: consensus_of_def votes_of_def)
          moreover have "core_wf t"
            using step [OF ok(1)] by (auto simp: moves_def casts_def roots_move_def grows_def)
          then have "futures_wf c'" using core_wfD(5) by (simp add: futures_wf_def c')
          ultimately show ?thesis using step [OF ok(1)] moves_cong casts_cong by fastforce
        qed
      qed (use ms in simp)
    qed
    then show ?thesis using moves_trans [OF moves_trans [OF m1 m2]] moves_casts [OF moves_trans [OF m1 m2]] by blast
  qed
qed

text \<open>A replica receives the proposals of others; its own it makes by \<open>on_propose\<close>.\<close>

definition foreign :: "core \<Rightarrow> core_call \<Rightarrow> bool" where
  "foreign c a \<longleftrightarrow> (\<forall>p. a = ReceiveProposal p \<longrightarrow> p_proposer p \<noteq> c_id c)"

lemma run_call_step:
  assumes wf: "core_wf c" and size: "next_ref (c_storage c) < 2 ^ 32" and pre: "allowed E a c"
    and run: "run_call E a c = (r, c')" and surv: "survives r" and other: "foreign c a"
  shows "moves c c' \<or> (\<exists>b. casts c c' b)"
proof -
  have ext: "core_wf c'" "extends c c'" using run_call_wf [OF wf size pre run surv] by simp_all
  show ?thesis
  proof (cases a)
    case (Fetch s)
    then consider "c' = c" | b where "c' = store_blk b c" using run by (auto split: sum.splits)
    then show ?thesis
    proof cases
      case 2
      then have "grows c c'" using ext wf core_le_store [OF wf] by (simp add: grows_def)
      then have "moves c c'" using 2 by (intro moves_same) (simp_all add: store_blk_def)
      then show ?thesis by simp
    qed (use moves_refl wf in simp)
  next
    case (Deliver b)
    then have "c' = snd (on_deliver_blk b c)"
      using run by (cases "on_deliver_blk b c"; cases "fst (on_deliver_blk b c)") (auto simp: bindS_def)
    then obtain y where y: "on_deliver_blk b c = (y, c')" by (cases "on_deliver_blk b c") simp
    then have "moves c c'"
      using on_deliver_blk_kept [OF y] on_deliver_blk_roots [of b c] ext wf
      by (intro moves_same) (simp_all add: grows_def)
    then show ?thesis by simp
  next
    case (ReceiveProposal p)
    then show ?thesis
      using on_receive_proposal_step [OF wf _ _ surv, of p E c'] run pre other by (auto simp: foreign_def)
  next
    case (ReceiveVote v)
    then have c': "c' = snd (on_receive_vote E v c)" using run by simp
    have "core_le c c'" unfolding c' by (rule quiet_le [OF quiet_on_receive_vote [OF quiet_refl]])
    then have "moves c c'"
      using collect_vote_roots [of E v c] ext wf c' by (intro moves_same) (simp_all add: grows_def)
    then show ?thesis by simp
  next
    case (ReceiveSlice x)
    then have "same_roots c c'" "c_futures c' = c_futures c"
      using run by (auto simp: on_receive_slice_def same_roots_def Let_def split: if_splits prod.splits)
    then show ?thesis using moves_cong [OF moves_refl [OF wf]] core_wfD(5) [OF ext(1)] by blast
  next
    case (Propose cmds parents extra)
    then obtain y where "on_propose E cmds parents extra c = (y, c')" "survives y"
      using run surv by (cases "on_propose E cmds parents extra c"; cases "fst (on_propose E cmds parents extra c)")
        (auto simp: bindS_def)
    then show ?thesis using Propose pre on_propose_step [OF wf size] by simp
  next
    case (AsyncQcFinish b)
    then have "c' = snd (async_qc_finish b c)" using run by simp
    then show ?thesis
      using moves_cong [OF moves_refl [OF wf] promises_same_roots(4) core_wfD(5), of b] ext(1) by simp
  next
    case (SetVoteDisabled f)
    then have "same_roots c c'" using run by (auto simp: same_roots_def set_vote_disabled_def)
    then show ?thesis using moves_cong [OF moves_refl [OF wf]] core_wfD(5) [OF ext(1)] by blast
  qed
qed

section \<open>The history of a replica\<close>

definition voted :: "core \<Rightarrow> uint256 \<Rightarrow> bool" where
  "voted c h \<longleftrightarrow> h \<in> v_blk_hash ` set (votes_of (c_outs c))"

definition history_wf :: "core \<Rightarrow> bool" where
  "history_wf c \<longleftrightarrow>
     core_wf c \<and> certified_ref c (c_b_lock c) \<and> committed_ref c (c_b_exec c) \<and>
     (certs_on_branch c \<longrightarrow>
       (\<forall>b. delivered (c_storage c) b \<longrightarrow> voted c (blk_hash (blk c b)) \<longrightarrow> locked_above c b))"

lemma roots_move_history:
  assumes "history_wf c" and "roots_move c c'"
  shows "core_wf c' \<and> certified_ref c' (c_b_lock c') \<and> committed_ref c' (c_b_exec c')"
  using assms grows_certified [of c c'] grows_committed [of c c']
  unfolding history_wf_def roots_move_def grows_def by metis

text \<open>The block of a vote is delivered.\<close>

lemma voted_delivered:
  assumes "core_wf c" and "voted c h"
  obtains b where "delivered (c_storage c) b" "blk_hash (blk c b) = h"
proof -
  obtain bs where bs: "map (\<lambda>b. blk_hash (blk c b)) bs = map v_blk_hash (votes_of (c_outs c))"
    "\<forall>b\<in>set bs. delivered (c_storage c) b"
    using core_wfD(4) [OF assms(1)] by (auto simp: votes_wf_def)
  have "h \<in> set (map (\<lambda>b. blk_hash (blk c b)) bs)" using assms(2) unfolding bs(1) by (simp add: voted_def)
  with bs(2) that show ?thesis by auto
qed

lemma kept_votes_locked:
  assumes hist: "history_wf c" and g: "grows c c'" and br: "certs_on_branch c'"
    and b: "delivered (c_storage c') b" and v: "voted c (blk_hash (blk c' b))"
  shows "locked_above c' b"
proof -
  have wf: "core_wf c" using g by (rule growsD)
  obtain d where d: "delivered (c_storage c) d" "blk_hash (blk c d) = blk_hash (blk c' b)"
    using voted_delivered [OF wf v] by blast
  have "b = d"
    using hash_inj [OF core_wfD(1) [OF growsD(2) [OF g]] delivered_next [OF b]
        delivered_next [OF grows_delivered(1) [OF g d(1)]]] grows_delivered(4) [OF g d(1)] d(2) by simp
  then show ?thesis
    using hist d v grows_certs_on_branch [OF g br] grows_locked_above [OF g br d(1)]
    by (simp add: history_wf_def)
qed

lemma moves_history:
  assumes "history_wf c" and m: "moves c c'"
  shows "history_wf c'"
proof -
  have g: "grows c c'" and v: "voted c' = voted c"
    using m by (simp_all add: moves_def roots_move_def voted_def fun_eq_iff)
  show ?thesis
    unfolding history_wf_def v
    using roots_move_history [OF assms(1)] m kept_votes_locked [OF assms(1) g] by (simp add: moves_def)
qed

lemma casts_history:
  assumes "history_wf c" and m: "casts c c' b"
  shows "history_wf c'"
proof -
  have g: "grows c c'" and b: "delivered (c_storage c') b"
    and v: "voted c' h \<longleftrightarrow> voted c h \<or> h = blk_hash (blk c' b)" for h
    using m by (auto simp: casts_def roots_move_def voted_def)
  have "locked_above c' d" if br: "certs_on_branch c'" and d: "delivered (c_storage c') d"
    and vd: "voted c' (blk_hash (blk c' d))" for d
  proof (cases "voted c (blk_hash (blk c' d))")
    case True
    then show ?thesis using kept_votes_locked [OF assms(1) g br d] by simp
  next
    case False
    then have "blk_hash (blk c' d) = blk_hash (blk c' b)" using vd v by simp
    then have "d = b"
      using hash_inj [OF core_wfD(1) [OF growsD(2) [OF g]] delivered_next [OF d] delivered_next [OF b]] by simp
    then show ?thesis using m br by (simp add: casts_def)
  qed
  then show ?thesis
    using roots_move_history [OF assms(1)] m by (auto simp: casts_def history_wf_def)
qed

text \<open>Votes are cast in the order of heights: what is below a block voted for was voted for before it.\<close>

lemma voted_before:
  assumes wf: "core_wf c'" and app: "votes_of (c_outs c') = votes_of (c_outs c) @ new"
    and a: "delivered (c_storage c') a" "voted c' (blk_hash (blk c' a))"
    and b: "delivered (c_storage c') b" "voted c (blk_hash (blk c' b))"
    and low: "height_of (c_storage c') a < height_of (c_storage c') b"
  shows "voted c (blk_hash (blk c' a))"
proof -
  obtain bs where bs: "map (\<lambda>b. blk_hash (blk c' b)) bs = map v_blk_hash (votes_of (c_outs c'))"
    "sorted_wrt (<) (map (height_of (c_storage c')) bs)" "\<forall>b\<in>set bs. delivered (c_storage c') b"
    using core_wfD(4) [OF wf] by (auto simp: votes_wf_def)
  let ?vs = "votes_of (c_outs c')" and ?n = "length (votes_of (c_outs c))"
  have len: "length bs = length ?vs" using arg_cong [OF bs(1), of length] by simp
  have nth: "blk_hash (blk c' (bs ! i)) = v_blk_hash (?vs ! i)" if "i < length ?vs" for i
    using arg_cong [OF bs(1), of "\<lambda>x. x ! i"] that len by simp
  have at: "bs ! i = d" if "i < length ?vs" "v_blk_hash (?vs ! i) = blk_hash (blk c' d)"
    "delivered (c_storage c') d" for i d
    using hash_inj [OF core_wfD(1) [OF wf] _ delivered_next [OF that(3)], of "bs ! i"] nth [OF that(1)]
      that(1,2) bs(3) len by (simp add: delivered_next)
  obtain i where i: "i < length ?vs" "v_blk_hash (?vs ! i) = blk_hash (blk c' a)"
    using a(2) by (auto simp: voted_def in_set_conv_nth)
  obtain j where j: "j < ?n" "v_blk_hash (votes_of (c_outs c) ! j) = blk_hash (blk c' b)"
    using b(2) by (auto simp: voted_def in_set_conv_nth)
  then have j': "j < length ?vs" "v_blk_hash (?vs ! j) = blk_hash (blk c' b)" by (simp_all add: app nth_append)
  have "i < ?n"
  proof (rule ccontr)
    assume "\<not> i < ?n"
    then have "height_of (c_storage c') (bs ! j) < height_of (c_storage c') (bs ! i)"
      using bs(2) i(1) j(1) len by (simp add: sorted_wrt_iff_nth_less)
    then show False using at [OF i a(1)] at [OF j' b(1)] low by simp
  qed
  then have "votes_of (c_outs c) ! i \<in> set (votes_of (c_outs c))"
    "v_blk_hash (votes_of (c_outs c) ! i) = blk_hash (blk c' a)"
    using i(2) by (simp_all add: app nth_append)
  then show ?thesis by (simp add: voted_def rev_image_eqI)
qed

text \<open>Two blocks of one height that were voted for are the same.\<close>

lemma voted_unique:
  assumes wf: "core_wf c"
    and a: "delivered (c_storage c) a" "voted c (blk_hash (blk c a))"
    and b: "delivered (c_storage c) b" "voted c (blk_hash (blk c b))"
    and same: "height_of (c_storage c) a = height_of (c_storage c) b"
  shows "a = b"
proof -
  obtain bs where bs: "map (\<lambda>b. blk_hash (blk c b)) bs = map v_blk_hash (votes_of (c_outs c))"
    "sorted_wrt (<) (map (height_of (c_storage c)) bs)" "\<forall>b\<in>set bs. delivered (c_storage c) b"
    using core_wfD(4) [OF wf] by (auto simp: votes_wf_def)
  have "d \<in> set bs" if "delivered (c_storage c) d" "voted c (blk_hash (blk c d))" for d
  proof -
    have "blk_hash (blk c d) \<in> set (map (\<lambda>b. blk_hash (blk c b)) bs)"
      using that(2) unfolding bs(1) by (simp add: voted_def)
    then obtain e where "e \<in> set bs" "blk_hash (blk c e) = blk_hash (blk c d)" by auto
    then show ?thesis
      using hash_inj [OF core_wfD(1) [OF wf], of e d] bs(3) that(1) by (simp add: delivered_next)
  qed
  then have "a \<in> set bs" "b \<in> set bs" using a b by simp_all
  moreover have "inj_on (height_of (c_storage c)) (set bs)"
    using strict_sorted_imp_sorted strict_sorted_iff [of "map (height_of (c_storage c)) bs"] bs(2)
    by (simp add: distinct_map)
  ultimately show ?thesis using same by (simp add: inj_on_def)
qed

end
