(* ===== verification/Proposing.thy ===== *)
theory Proposing
  imports Dissemination CoreLocks
begin

text \<open>
  What \<open>on_propose\<close> has done when it returns: the block is delivered, its commands are encoded and
  the proposals are handed out to be broadcast; and a run of it.
\<close>

section \<open>A proposal that was made\<close>

lemma push_parents_votes: "same_votes c (snd (push_parents b hs c))"
proof (induction hs arbitrary: c)
  case (Cons h hs)
  have "same_votes c (set_blk b f c)" for f by (simp add: same_votes_def set_blk_def)
  with Cons.IH show ?case by (auto intro: same_votes_trans split: sum.split)
qed simp

lemma on_deliver_blk_votes: "same_votes c (snd (on_deliver_blk b c))"
proof -
  have upd: "same_votes c (set_blk b f c)" for f b c by (simp add: same_votes_def set_blk_def)
  have tails: "same_votes c (c\<lparr>c_tails := t\<rparr>)" for t c by (simp add: same_votes_def)
  show ?thesis
    unfolding on_deliver_blk_def Let_def
    by (auto split: option.split intro!: bindS_votes same_votes_trans [OF upd push_parents_votes]
        same_votes_trans [OF tails upd] same_votes_trans [OF upd tails] upd)
qed

lemma on_propose_done:
  assumes wf: "core_wf c" and size: "next_ref (c_storage c) < 2 ^ 32"
    and pre: "propose_pre E cmds parents extra c"
    and run: "on_propose E cmds parents extra c = (Inr n, c')"
  obtains b props where "proposed_blk E cmds parents extra c = Inr b"
    "delivered (c_storage c') n" "blk_hash (blk c' n) = blk_hash b"
    "encode_proposals E (c_rse c) (c_id c) n (blk_hash b) cmds = Inr props"
    "DoBroadcastProposals props \<in> set (drop (length (c_outs c)) (c_outs c'))"
proof -
  have ne: "parents \<noteq> []" using run by (auto simp: on_propose_def)
  define c1 where "c1 = c\<lparr>c_tails := c_tails c - set parents\<rparr>"
  have c1: "core_wf c1" "extends c c1" unfolding c1_def using tails_wf [OF wf] by blast+
  have st1: "c_storage c1 = c_storage c" by (simp add: c1_def)
  have v1: "same_votes c c1" by (simp add: c1_def same_votes_def)
  have prop1: "proposed_blk E cmds parents extra c1 = proposed_blk E cmds parents extra c"
    unfolding c1_def by (rule proposed_blk_tails)
  obtain b where b: "proposed_blk E cmds parents extra c = Inr b"
    using run ne prop1 by (cases "proposed_blk E cmds parents extra c") (simp_all add: on_propose_def c1_def)
  obtain m st where add: "add_blk b (c_storage c1) = (m, st)" by force
  define c2 where "c2 = c1\<lparr>c_storage := st\<rparr>"
  define c3 where "c3 = set_blk m (\<lambda>x. x\<lparr>blk_self_qc :=
    Some (create_quorum_cert (e_kind E) (c_config c2) (blk_hash (blk c2 m)))\<rparr>) c2"
  have pre1: "propose_pre E cmds parents extra c1" using pre by (simp add: propose_pre_def prop1 st1)
  have hash: "m < next_ref (c_storage c2) \<and> blk_hash (blk c2 m) = blk_hash b"
  proof (cases "find_blk (c_storage c) (blk_hash b)")
    case None
    then show ?thesis using add by (auto simp: c2_def st1 add_blk_new)
  next
    case (Some r)
    then show ?thesis
      using add find_blkD [OF core_wfD(1) [OF wf] Some] by (auto simp: c2_def st1 add_blk_known)
  qed
  note hash = hash [THEN conjunct1] hash [THEN conjunct2]
  obtain x d where d: "on_deliver_blk m c3 = (Inr x, d)" "core_wf d" "extends c1 d" "delivered (c_storage d) m"
    using propose_deliver [OF c1(1) size [folded st1] b [folded prop1] ne pre1 add, of "e_kind E" "c_config c2"]
    unfolding c3_def c2_def by blast
  have "same_votes c c3" using v1 by (simp add: c3_def c2_def same_votes_def set_blk_def)
  then have vd: "same_votes c d" using on_deliver_blk_votes [of c3 m] d(1) same_votes_trans by auto
  define fin where "fin c = (case encode_proposals E (c_rse c) (c_id c) m (blk_hash (blk c2 m)) cmds of
            Inl e \<Rightarrow> (Inl e, c)
          | Inr props \<Rightarrow>
              if blk_height (blk c m) \<le> c_vheight c
              then (Inl (RuntimeError ''new block should be higher than vheight''), c)
              else if length props \<le> unat (c_id c) then (Inl OutOfBounds, c)
              else let pr = props ! unat (c_id c) in
                bindS (on_receive_proposal E pr c) (\<lambda>_ c.
                  (Inr m, emit (DoBroadcastProposals props) (on_propose_fin pr c))))" for c
  have "bindS (update E m d) (\<lambda>_ c. fin c) = (Inr n, c')"
    using run ne b [folded prop1] add d(1)
    by (simp add: on_propose_def c1_def [symmetric] Let_def c2_def c3_def fin_def)
  then obtain y s where up: "update E m d = (Inr y, s)" and fin: "fin s = (Inr n, c')"
    by (cases rule: bindS_snd_cases) auto
  have s: "core_wf s" "extends d s" using update_wf [OF d(2) delivered_next [OF d(4)] up] by simp_all
  have "same_votes d s" using update_votes [of d E m] up by simp
  then have same: "c_rse s = c_rse c" "c_id s = c_id c"
    using vd s(2) d(3) c1(2) by (simp_all add: same_votes_def extends_def)
  obtain props where props: "encode_proposals E (c_rse s) (c_id s) m (blk_hash b) cmds = Inr props"
    "unat (c_id s) < length props"
    "bindS (on_receive_proposal E (props ! unat (c_id s)) s) (\<lambda>_ c.
       (Inr m, emit (DoBroadcastProposals props) (on_propose_fin (props ! unat (c_id s)) c))) = (Inr n, c')"
    using fin by (auto simp: fin_def hash(2) Let_def split: sum.splits if_splits)
  let ?pr = "props ! unat (c_id s)"
  from props(3) obtain z t where t: "on_receive_proposal E ?pr s = (Inr z, t)" "n = m"
    "c' = emit (DoBroadcastProposals props) (on_propose_fin ?pr t)"
    by (cases rule: bindS_snd_cases) auto
  have ms: "m < next_ref (c_storage s)" "delivered (c_storage s) m"
    using d(4) delivered_next [OF d(4)] s(2) by (auto simp: extends_def)
  have "p_blk ?pr = Some m" using encode_proposals_blk [OF props(1)] props(2) by simp
  then have "extends s t" using on_receive_proposal_wf [OF s(1) _ t(1)] ms(1) by simp
  then have "extends c t" using extends_trans [OF extends_trans [OF c1(2) d(3)] extends_trans [OF s(2)]] by blast
  moreover have keep: "c_storage c' = c_storage t" and "c_outs c' = c_outs t @ [Resolve (c_propose_waiting t) (VProposal ?pr), DoBroadcastProposals props]"
    by (simp_all add: t(3) on_propose_fin_def emit_def)
  ultimately have "DoBroadcastProposals props \<in> set (drop (length (c_outs c)) (c_outs c'))"
    by (auto simp: extends_def)
  moreover have "delivered (c_storage c') n" "blk_hash (blk c' n) = blk_hash b"
  proof -
    show "delivered (c_storage c') n" using \<open>extends s t\<close> ms(2) by (simp add: t(2) keep extends_def)
    have "blk_hash (blk d m) = blk_hash b"
      using on_deliver_blk_kept [OF d(1)] hash by (simp add: core_le_def c3_def)
    then show "blk_hash (blk c' n) = blk_hash b"
      using \<open>extends s t\<close> s(2) delivered_next [OF d(4)] ms(1) by (simp add: t(2) keep extends_def)
  qed
  ultimately show ?thesis using that b props(1) t(2) unfolding same by blast
qed

section \<open>A run\<close>

text \<open>The proposals carry the hashes of their slices.\<close>

lemma slice_proposals_hash:
  "slice_proposals E rid b h ps = Inr props \<Longrightarrow> p \<in> set props \<Longrightarrow> slice_get_hash E (p_slice p) = Inr (p_s_hash p)"
  by (induction ps arbitrary: props) (auto simp: bindE_Inr_iff new_proposal_def)

lemma encode_proposals_hash:
  "encode_proposals E r rid b h cmds = Inr props \<Longrightarrow> p \<in> set props \<Longrightarrow> slice_get_hash E (p_slice p) = Inr (p_s_hash p)"
  by (auto simp: encode_proposals_def bindE_Inr_iff intro: slice_proposals_hash split: if_splits)

lemma sample_start_hqc:
  "c_hqc sample_start = Some (0, QuorumCertDummy 48)" "blk_decision (blk sample_start 0) = 1"
  "c_rse sample_start = rse_set_params 4"
proof -
  obtain c where c: "hotstuff_core sample_env 0 PrivKeyDummy = Inr c" "blk_hash (blk c 0) = 48"
    using sample_core by blast
  note pre = hotstuff_core_pre_init [OF c(1), unfolded pre_init_def]
  show "c_hqc sample_start = Some (0, QuorumCertDummy 48)" "blk_decision (blk sample_start 0) = 1"
    "c_rse sample_start = rse_set_params 4"
    using c pre by (simp_all add: sample_start_def c(1) start_core_def Let_def on_init_def add_replica_def
        set_blk_def upd_blk_def qc_compute_def)
qed

text \<open>The block that the replica proposes over the genesis block, before and after its delivery.\<close>

definition sample_offer :: block where
  "sample_offer = (block_default sample_env)\<lparr>blk_parent_hashes := [48], blk_cmds := [36],
     blk_qc := Some (QuorumCertDummy 48), blk_hash := 112, blk_parents := [0], blk_qc_ref := Some 0,
     blk_height := 1\<rparr>"

lemma sample_offer: "proposed_blk sample_env [5] [0] [] sample_start = Inr sample_offer"
  using sample_start(3,15)
  by (simp add: proposed_blk_def sample_start_hqc(1) put_commands_def put_vec_def le_stream_def new_Block_def
      block_get_hash_def put_block_def put_blob_def block_default_def sample_offer_def Let_def)

lemma set_blk_fields:
  "c_rse (set_blk b f c) = c_rse c" "c_vote_disabled (set_blk b f c) = c_vote_disabled c"
  "c_priv_key (set_blk b f c) = c_priv_key c"
  by (simp_all add: set_blk_def)

definition sample_stored :: core where
  "sample_stored = set_blk 1 (\<lambda>x. x\<lparr>blk_self_qc := Some (QuorumCertDummy 112)\<rparr>)
     (store_blk sample_offer (sample_start\<lparr>c_tails := c_tails sample_start - {0}\<rparr>))"

lemma sample_stored:
  "blk sample_stored 1 = sample_offer\<lparr>blk_self_qc := Some (QuorumCertDummy 112)\<rparr>" "next_ref (c_storage sample_stored) = 2"
  "blk_cache (c_storage sample_stored) = [48 \<mapsto> 0, 112 \<mapsto> 1]" "blk sample_stored 0 = blk sample_start 0"
  using sample_start(7,8)
  by (simp_all add: sample_stored_def store_blk_def add_blk_def alloc_blk_def add_blk_ref_def sample_offer_def Let_def)

definition sample_made :: core where
  "sample_made = snd (on_deliver_blk 1 sample_stored)"

lemma sample_stored_keeps:
  "c_id sample_stored = 0" "c_vheight sample_stored = 0" "c_rse sample_stored = rse_set_params 4"
  "c_sc sample_stored = set_pramas 4 sc_default" "c_b_lock sample_stored = 0" "c_vote_disabled sample_stored = False"
  "c_priv_key sample_stored = PrivKeyDummy"
  using sample_start(5,9-13) sample_start_hqc(3) by (simp_all add: sample_stored_def store_blk_def set_blk_fields)

lemma sample_made:
  "on_deliver_blk 1 sample_stored = (Inr True, sample_made)" "blk_height (blk sample_made 1) = 1"
  "blk_qc_ref (blk sample_made 1) = Some 0" "blk_hash (blk sample_made 1) = 112" "blk_parents (blk sample_made 1) = [0]"
  "blk sample_made 0 = blk sample_start 0" "next_ref (c_storage sample_made) = 2" "c_id sample_made = 0"
  "c_vheight sample_made = 0" "c_rse sample_made = rse_set_params 4" "c_sc sample_made = set_pramas 4 sc_default"
  "c_b_lock sample_made = 0" "c_vote_disabled sample_made = False" "c_priv_key sample_made = PrivKeyDummy"
  using sample_start(14,15) sample_stored sample_stored_keeps
  by (simp_all add: sample_made_def on_deliver_blk_def sample_offer_def block_default_def find_blk_def
      get_delivered_blk_def bindS_def set_blk_fields Let_def del: One_nat_def)

lemma sample_pre_propose: "propose_pre sample_env [5] [0] [] sample_start"
  using sample_start(7,8,14)
  by (simp add: propose_pre_def sample_offer delivered_def find_blk_def sample_offer_def)

lemma sample_made_wf: "core_wf sample_made"
proof -
  let ?c = "sample_start\<lparr>c_tails := c_tails sample_start - {0}\<rparr>"
  have new: "find_blk (c_storage ?c) (blk_hash sample_offer) = None"
    using sample_start(8) by (simp add: find_blk_def sample_offer_def)
  have pre: "propose_pre sample_env [5] [0] [] ?c"
    using sample_pre_propose by (simp add: propose_pre_def proposed_blk_tails)
  have blk: "proposed_blk sample_env [5] [0] [] ?c = Inr sample_offer"
    using sample_offer by (simp add: proposed_blk_tails)
  obtain m st where add: "add_blk sample_offer (c_storage ?c) = (m, st)" by force
  have m: "m = 1" using add new sample_start(7) by (simp add: add_blk_new)
  have wf: "core_wf ?c" using tails_wf [OF sample_start(2)] by blast
  have size: "next_ref (c_storage ?c) < 2 ^ 32" by (simp add: sample_start(7))
  have "blk_hash (blk (?c\<lparr>c_storage := st\<rparr>) m) = 112" using add [unfolded add_blk_new [OF new]] by (auto simp: sample_offer_def)
  moreover have "sample_stored = set_blk m (\<lambda>x. x\<lparr>blk_self_qc := Some (QuorumCertDummy 112)\<rparr>) (?c\<lparr>c_storage := st\<rparr>)"
    using add by (simp add: m sample_stored_def store_blk_def)
  ultimately have "\<exists>x d. on_deliver_blk 1 sample_stored = (Inr x, d) \<and> core_wf d"
    using propose_deliver [OF wf size blk _ pre add, of NoSig "c_config ?c"] m by auto
  then show ?thesis using sample_made(1) by (simp del: One_nat_def)
qed

text \<open>The slices of its command.\<close>

lemma sample_encoded:
  "\<exists>props. encode_proposals sample_env (rse_set_params 4) 0 1 112 [5] = Inr props \<and> length props = 4 \<and>
     (let p = props ! 0 in p_proposer p = 0 \<and> p_blk p = Some 1 \<and> slice_get_hash sample_env (p_slice p) = Inr (p_s_hash p) \<and>
        validate (e_sha_hex sample_env) (p_slice p) \<and> m_index (p_slice p) = 0)"
proof -
  have leo: "leo_ok (e_leo sample_env) (m_original_count (rse_set_params 4)) (m_recovery_count (rse_set_params 4))"
    using parity_leo_ok by (simp add: rse_set_params_def)
  have k: "unat (m_original_count (rse_set_params 4)) = 3" "unat (m_recovery_count (rse_set_params 4)) = 1"
    by (simp_all add: rse_set_params_def)
  have len: "length (concat (map (e_to_bytes sample_env) [5])) = 32" by (simp add: sample_env_def toy_env_def)
  obtain shards where shards: "rse_encode (e_leo sample_env) (rse_set_params 4) (concat (map (e_to_bytes sample_env) [5])) [] = Inr (0, shards)"
    "encoded (e_leo sample_env) (rse_set_params 4) (concat (map (e_to_bytes sample_env) [5])) shards"
    using rse_encode_encoded [OF leo, of "concat (map (e_to_bytes sample_env) [5])"] unfolding len k
    by (auto simp: slice_bytes_def)
  have n: "length shards = 4" using encoded_shards(1) [OF shards(2)] k by simp
  then have ne: "shards \<noteq> []" by auto
  obtain props where props: "encode_proposals sample_env (rse_set_params 4) 0 1 112 [5] = Inr props"
    using encode_proposals_total [OF shards(1) ne, of 0 1 112] n by (auto simp: sample_env_def toy_env_def)
  note P = encode_proposals_slices [OF props shards(1) ne]
  have "length props = 4" using P(1) n by simp
  then have "props ! 0 \<in> set props" by simp
  then have "slice_get_hash sample_env (p_slice (props ! 0)) = Inr (p_s_hash (props ! 0))"
    by (rule encode_proposals_hash [OF props])
  moreover have "m_index (p_slice (props ! 0)) = 0" using P(2) [of 0] n by (simp add: word_unat_eq_iff)
  ultimately show ?thesis
    using props P n by (intro exI [of _ props]) (simp add: Let_def)
qed

text \<open>A replica that has just started proposes a block over the genesis block.\<close>

lemma sample_proposes:
  "\<exists>c. on_propose sample_env [5] [0] [] sample_start = (Inr 1, c) \<and> next_ref (c_storage c) = 2"
proof -
  obtain props where props: "encode_proposals sample_env (rse_set_params 4) 0 1 112 [5] = Inr props" "length props = 4"
    "p_proposer (props ! 0) = 0" "p_blk (props ! 0) = Some 1"
    "slice_get_hash sample_env (p_slice (props ! 0)) = Inr (p_s_hash (props ! 0))"
    "validate (e_sha_hex sample_env) (p_slice (props ! 0))" "m_index (p_slice (props ! 0)) = 0"
    using sample_encoded by (auto simp: Let_def)
  let ?p = "props ! 0"
  obtain x c1 where slice: "on_receive_slice sample_env (p_slice ?p) sample_made = (x, c1)" by force
  have c1: "x = Inr ()" "c_storage c1 = c_storage sample_made"
    using slice props(6,7) sample_made(11)
    by (auto simp: on_receive_slice_def insert_shard_def new_block_def sc_entry_def set_pramas_def sc_default_def
        map_insert_apply Let_def split: prod.splits)
  define s where "s = emit (DoBroadcastSlice (p_slice ?p)) c1"
  have s: "c_storage s = c_storage sample_made" "c_priv_key s = PrivKeyDummy"
    using c1(2) on_receive_slice_votes [of sample_made sample_env "p_slice ?p"] slice sample_made(14)
    by (simp_all add: s_def emit_def same_votes_def)
  have wfs: "core_wf s"
  proof -
    have "core_wf c1" using on_receive_slice_wf [OF sample_made_wf slice] by blast
    moreover have "same_roots c1 s" by (simp add: s_def emit_same_roots)
    moreover have "futures_wf s" using core_wfD(5) [OF \<open>core_wf c1\<close>] by (simp add: s_def futures_wf_def)
    ultimately show ?thesis using same_roots_wf by blast
  qed
  have id: "c_id s = 0"
    using on_receive_slice_wf [OF sample_made_wf slice] sample_made(8) by (simp add: extends_def s_def emit_def)
  obtain z c' where fin: "finish_proposal sample_env ?p 1 s = (z, c')" by force
  have "voting sample_env ?p 1 s z c'" using finish_votes [OF wfs _ fin] s(1) sample_made(7) by simp
  then have z: "z = Inr ()" using s(2) by (auto simp: voting_def Let_def split: if_splits)
  have st: "c_storage c' = c_storage sample_made" using finish_roots [of sample_env ?p 1 s] fin s(1) by simp
  have run: "on_receive_proposal sample_env ?p sample_made = (Inr (), c')"
    using slice c1(1) fin z props(3-6) id
    by (simp add: on_receive_proposal_def bindS_def Let_def s_def [symmetric])
  have up: "update sample_env 1 sample_made = (Inr (), sample_made)"
    using sample_made(3,6) sample_start_hqc(2) by (simp add: update_def del: One_nat_def)
  let ?c = "sample_start\<lparr>c_tails := c_tails sample_start - {0}\<rparr>"
  have blk: "proposed_blk sample_env [5] [0] [] ?c = Inr sample_offer" using sample_offer by (simp add: proposed_blk_tails)
  obtain m st where add: "add_blk sample_offer (c_storage ?c) = (m, st)" by force
  have new: "find_blk (c_storage ?c) (blk_hash sample_offer) = None"
    using sample_start(8) by (simp add: find_blk_def sample_offer_def)
  have m: "m = 1" and hash: "blk_hash (heap st 1) = 112"
    using add [unfolded add_blk_new [OF new]] sample_start(7) by (auto simp: sample_offer_def)
  have "sample_stored = set_blk 1 (\<lambda>x. x\<lparr>blk_self_qc := Some (QuorumCertDummy 112)\<rparr>) (?c\<lparr>c_storage := st\<rparr>)"
    using add by (simp add: m sample_stored_def store_blk_def)
  then have "on_propose sample_env [5] [0] [] sample_start =
      (Inr 1, emit (DoBroadcastProposals props) (on_propose_fin ?p c'))"
    using blk add m hash sample_made up props(1,2) run
    by (simp add: on_propose_def Let_def bindS_def del: One_nat_def)
  then show ?thesis using st sample_made(7) by (auto simp: on_propose_fin_def emit_def)
qed

end
