(* ===== verification/Progress.thy ===== *)
theory Progress
  imports NodeExample Proposing
begin

text \<open>
  Progress of a proposer (\<open>PMWaitQC\<close> in include/hotstuff/liveness.h and the queue of commands in
  src/hotstuff.cpp): when the block it proposed last has its certificate, the next batch of
  commands is proposed without waiting for anything else.
\<close>

section \<open>A beat of an idle pace maker\<close>

text \<open>
  It may beat, no beat waits, the last block proposed has votes of a majority, and nothing runs
  when the promise of an earlier certificate is rejected.
\<close>

definition idle :: "node \<Rightarrow> bool" where
  "idle n \<longleftrightarrow>
     \<not> (pace_kind (n_pace n) = PaceMakerRR \<and>
        (rotating (n_pace n) \<or> pm_proposer (n_pace n) \<noteq> get_id (n_core n))) \<and>
     pending_beats (n_pace n) = [] \<and> \<not> locked (n_pace n) \<and>
     nmajority (c_config (n_core n)) \<le> card (blk_voted (blk (n_core n) (last_proposed (n_pace n)))) \<and>
     (\<forall>m. pm_qc_finish (n_pace n) = LocalPm m \<longrightarrow> m < next_pm (n_pms n)) \<and>
     fst (n_reject (pm_qc_finish (n_pace n)) None n) = []"

lemma idle_schedule:
  assumes idle: "idle n"
  shows "\<exists>pm x n'. beat n = (pm, [RunCallback (Call (WqQcFinish pm) x) None, next_task WqLock], n') \<and>
    unused n' pm \<and> unused n' x \<and> x \<noteq> pm \<and> n_core n' = n_core n \<and> get_proposer n' = get_proposer n \<and>
    get_parents n' = get_parents n \<and> n_cmd_pending_buffer n' = n_cmd_pending_buffer n"
proof -
  obtain pm n1 where 1: "n_new_pm n = (pm, n1)" "unused n1 pm" "\<exists>h. n1 = n\<lparr>n_pms := h\<rparr>"
    "\<forall>q. (\<forall>m. q = LocalPm m \<longrightarrow> m < next_pm (n_pms n)) \<longrightarrow> q \<noteq> pm \<and> pms (n_pms n1) q = pms (n_pms n) q"
    using unused_new by blast
  let ?old = "pm_qc_finish (n_pace n)"
  have old: "?old \<noteq> pm" "pms (n_pms n1) ?old = pms (n_pms n) ?old" using idle 1(4) by (auto simp: idle_def)
  let ?n2 = "set_pace (\<lambda>p. p\<lparr>pending_beats := pending_beats p @ [pm]\<rparr>) n1"
  let ?n3 = "set_pace (\<lambda>p. p\<lparr>pending_beats := []\<rparr>) ?n2"
  obtain t4 n4 where 4: "n_reject ?old None ?n3 = (t4, n4)" by force
  have t4: "t4 = []" "unused n4 pm" "n_pace n4 = n_pace ?n3" "n_core n4 = n_core ?n3"
    "n_cmd_pending_buffer n4 = n_cmd_pending_buffer ?n3"
    using 4 idle old 1(2) by (auto simp: idle_def n_reject_def pm_reject_def set_pace_def set_pm_def unused_def Let_def
        split: if_splits)
  obtain q n5 where 5: "n_resolved None n4 = (q, n5)" "settled_with n5 q None" "pms_only n4 n5"
    using resolved_run by blast
  let ?n6 = "set_pace (\<lambda>p. p\<lparr>pm_qc_finish := q\<rparr>) n5"
  have q6: "settled_with ?n6 q None" using 5(2) by (simp add: settled_with_def set_pace_def)
  have u6: "unused ?n6 pm" using unused_resolved [OF t4(2) 5(1)] by (simp add: unused_def set_pace_def)
  obtain x n7 where 7: "n_then q (WqQcFinish pm) ?n6 = (x, [RunCallback (Call (WqQcFinish pm) x) None], n7)"
    "pms_only ?n6 n7" using then_run [OF q6] by blast
  have state: "n_pace n4 = (n_pace n)\<lparr>pending_beats := []\<rparr>" "n_core n4 = n_core n"
    "n_cmd_pending_buffer n4 = n_cmd_pending_buffer n"
    using t4(3-5) 1(3) by (auto simp: set_pace_def)
  have state7: "n_core n7 = n_core n" "n_pace n7 = (n_pace n)\<lparr>pending_beats := [], pm_qc_finish := q\<rparr>"
    "n_cmd_pending_buffer n7 = n_cmd_pending_buffer n"
    using state 5(3) 7(2) by (auto simp: pms_only_def set_pace_def)
  have votes: "async_qc_finish (last_proposed (n_pace n)) (n_core n) = (None, n_core n)"
    using idle by (simp add: idle_def async_qc_finish_def)
  have pend: "pending_beats (n_pace ?n2) = [pm]" "\<not> locked (n_pace ?n2)" "pm_qc_finish (n_pace ?n3) = ?old"
    using idle 1(3) by (auto simp: idle_def set_pace_def)
  have "wait_qc_finish (last_proposed (n_pace n4)) n4 = (q, n5)"
  proof -
    have same: "n4\<lparr>n_core := n_core n\<rparr> = n4" unfolding state(2) [symmetric] by simp
    have "wait_qc_finish (last_proposed (n_pace n4)) n4 = n_resolved None (n4\<lparr>n_core := n_core n\<rparr>)"
      using votes state(1,2) by (simp add: wait_qc_finish_def)
    then show ?thesis by (simp only: same 5(1))
  qed
  then have "schedule_next ?n2 = ([RunCallback (Call (WqQcFinish pm) x) None, next_task WqLock], n7)"
    using pend 4 t4(1) 7(1) by (simp add: schedule_next_def)
  then have "beat n = (pm, [RunCallback (Call (WqQcFinish pm) x) None, next_task WqLock], n7)"
    using idle 1(1) by (auto simp: beat_def idle_def)
  moreover have "get_proposer n7 = get_proposer n"
    using state7 by (simp add: get_proposer_def split: pace_kind.split)
  moreover have "get_parents n7 = get_parents n" using state7 by (simp add: get_parents_def)
  ultimately show ?thesis using unused_then [OF u6 q6 7(1)] state7 by blast
qed

text \<open>The replica runs a task: events are handled only when none is left.\<close>

definition task_only :: "net_env \<Rightarrow> node \<times> task list \<Rightarrow> node \<times> task list \<Rightarrow> bool" where
  "task_only N s s' \<longleftrightarrow> node_step N s s' \<and> snd s \<noteq> []"

text \<open>One more step of a chain.\<close>

lemma chain:
  assumes "(task_only N)\<^sup>*\<^sup>* s (n, t # ts)" and "run_task N t n = (Inr (), ts', n')"
    and "n_core n = c" and "n_core n' = c" and "next_ref (c_storage c) < 2 ^ 32" and "task_cmds N t n = None"
  shows "(task_only N)\<^sup>*\<^sup>* s (n', ts' @ ts)"
proof -
  have "size_ok n" "size_ok n'" using assms(3-5) by (simp_all add: size_ok_def)
  from task_step [OF assms(2) this assms(6)] have "task_only N (n, t # ts) (n', ts' @ ts)"
    by (simp add: task_only_def)
  then show ?thesis
    by (rule rtranclp.rtrancl_into_rtrancl [OF assms(1)])
qed

text \<open>
  By tasks that leave the core alone, the closure that proposes the commands taken is run with the
  replica that may propose.
\<close>

lemma idle_beat_runs:
  assumes "idle n" and "size_ok n"
  shows "\<exists>n' ts. (task_only N)\<^sup>*\<^sup>* (snd (propose_commands n), fst (propose_commands n))
      (n', RunClosure (OnBeat (take (n_blk_size n) (n_cmd_pending_buffer n))) (Some (VRid (get_proposer n))) # ts) \<and>
    n_core n' = n_core n \<and> locked (n_pace n') \<and> get_parents n' = get_parents n \<and>
    n_cmd_pending_buffer n' = drop (n_blk_size n) (n_cmd_pending_buffer n)"
proof -
  let ?c = "n_core n" and ?cmds = "take (n_blk_size n) (n_cmd_pending_buffer n)"
  let ?n = "n\<lparr>n_cmd_pending_buffer := drop (n_blk_size n) (n_cmd_pending_buffer n)\<rparr>"
  let ?k = "OnBeat ?cmds" and ?v = "Some (VRid (get_proposer n))"
  have size: "next_ref (c_storage ?c) < 2 ^ 32" using assms(2) by (simp add: size_ok_def)
  have proposer: "get_proposer ?n = get_proposer n" by (simp add: get_proposer_def split: pace_kind.split)
  have parents: "get_parents ?n = get_parents n" by (simp add: get_parents_def)
  have "idle ?n" using assms(1) by (simp add: idle_def n_reject_def case_prod_beta)
  then obtain pm x n1 where 1: "beat ?n = (pm, [RunCallback (Call (WqQcFinish pm) x) None, next_task WqLock], n1)"
    "unused n1 pm" "unused n1 x" "x \<noteq> pm" "n_core n1 = ?c" "get_proposer n1 = get_proposer n" "get_parents n1 = get_parents n"
    "n_cmd_pending_buffer n1 = drop (n_blk_size n) (n_cmd_pending_buffer n)"
    using idle_schedule [of ?n] proposer parents by auto
  let ?tail = "[next_task WqLock, next_task (ThenClosure pm ?k)]"
  let ?R = "(task_only N)\<^sup>*\<^sup>* (snd (propose_commands n), fst (propose_commands n))"
  have "propose_commands n = (RunCallback (Call (WqQcFinish pm) x) None # ?tail, n1)"
    using 1(1) by (simp add: propose_commands_def)
  then have r0: "?R (n1, RunCallback (Call (WqQcFinish pm) x) None # ?tail)" by simp
  have r1: "?R (n1, RunClosure (WqQcFinish pm) None # ResolvePm x None # ?tail)"
    using chain [OF r0 _ 1(5,5) size] by simp
  obtain n2 where 2: "n_resolve pm ?v n1 = ([], n2)" "settled_with n2 pm ?v" "pms_only n1 n2"
    using resolve_run [OF 1(2)] by blast
  note s2 = pms_only_same [OF 2(3)]
  have run2: "run_task N (RunClosure (WqQcFinish pm) None) n1 = (Inr (), [], n2)"
    using 2(1) 1(6) by (simp add: wq_on_qc_finish_def ok_run_def)
  have c2: "n_core n2 = ?c" using s2 1(5) by simp
  have r2: "?R (n2, ResolvePm x None # ?tail)" using chain [OF r1 run2 1(5) c2 size] by simp
  have "unused n2 x" using unused_resolve [OF 1(3) 2(1)] 1(4) by blast
  then obtain n3 where 3: "n_resolve x None n2 = ([], n3)" "pms_only n2 n3" using resolve_run by blast
  have run3: "run_task N (ResolvePm x None) n2 = (Inr (), [], n3)" using 3(1) by (simp add: ok_run_def)
  have c3: "n_core n3 = ?c" using pms_only_same [OF 3(2)] c2 by simp
  have r3: "?R (n3, RunClosure WqLock None # [next_task (ThenClosure pm ?k)])"
    using chain [OF r2 run3 c2 c3 size] by (simp add: next_task_def)
  let ?n4 = "set_pace (\<lambda>p. p\<lparr>locked := True\<rparr>) n3"
  have run4: "run_task N (RunClosure WqLock None) n3 = (Inr (), [], ?n4)" by simp
  have c4: "n_core ?n4 = ?c" using c3 by (simp add: set_pace_def)
  have r4: "?R (?n4, RunClosure (ThenClosure pm ?k) None # [])"
    using chain [OF r3 run4 c3 c4 size] by (simp add: next_task_def)
  have "settled_with n3 pm ?v" by (rule pms_onlyD [OF 3(2) 2(2)])
  then have "settled_with ?n4 pm ?v" by (simp add: settled_with_def set_pace_def)
  then obtain y n5 where 5: "n_then pm ?k ?n4 = (y, [RunCallback (Call ?k y) ?v], n5)" "pms_only ?n4 n5"
    using then_run by blast
  have run5: "run_task N (RunClosure (ThenClosure pm ?k) None) ?n4 = (Inr (), [RunCallback (Call ?k y) ?v], n5)"
    using 5(1) by (simp add: ok_run_def)
  have c5: "n_core n5 = ?c" using pms_only_same [OF 5(2)] c4 by simp
  have r5: "?R (n5, RunCallback (Call ?k y) ?v # [])" using chain [OF r4 run5 c4 c5 size] by simp
  have "?R (n5, RunClosure ?k ?v # [ResolvePm y None])" using chain [OF r5 _ c5 c5 size] by simp
  moreover have "locked (n_pace n5)" "get_parents n5 = get_parents n" "n_cmd_pending_buffer n5 = drop (n_blk_size n) (n_cmd_pending_buffer n)"
    using 5(2) 3(2) 2(3) 1(7,8) by (auto simp: pms_only_def set_pace_def get_parents_def)
  ultimately show ?thesis using c5 by blast
qed

text \<open>The step in which the commands are proposed.\<close>

lemma on_beat_step:
  assumes run: "on_propose (ne_env N) cmds (get_parents n) [] (n_core n) = (r, c')" and surv: "survives r"
    and size: "next_ref (c_storage (n_core n)) < 2 ^ 32" "next_ref (c_storage c') < 2 ^ 32"
    and hash: "no_collision (ne_env N) cmds n"
  shows "\<exists>ts'. task_only N (n, RunClosure (OnBeat cmds) (Some (VRid (get_id (n_core n)))) # ts) (n\<lparr>n_core := c'\<rparr>, ts') \<and>
    (\<forall>out\<in>set (drop (length (c_outs (n_core n))) (c_outs c')). next_task (Output out) \<in> set ts')"
proof -
  let ?x = "case r of Inl e \<Rightarrow> Inl e | Inr _ \<Rightarrow> Inr ()"
  let ?outs = "map (\<lambda>out. next_task (Output out)) (drop (length (c_outs (n_core n))) (c_outs c'))"
  have "run_task N (RunClosure (OnBeat cmds) (Some (VRid (get_id (n_core n))))) n = (?x, ?outs, n\<lparr>n_core := c'\<rparr>)"
    using run by (simp add: with_rid_def on_beat_def call_core_def)
  moreover have "survives ?x" using surv by (cases r) simp_all
  moreover have "size_ok n" "size_ok (n\<lparr>n_core := c'\<rparr>)" using size by (simp_all add: size_ok_def)
  ultimately have "node_step N (n, RunClosure (OnBeat cmds) (Some (VRid (get_id (n_core n)))) # ts)
      (n\<lparr>n_core := c'\<rparr>, next_tasks ?x ?outs ts)"
    by (rule node_step.task) (use hash in simp)
  then have "task_only N (n, RunClosure (OnBeat cmds) (Some (VRid (get_id (n_core n)))) # ts)
      (n\<lparr>n_core := c'\<rparr>, next_tasks ?x ?outs ts)" by (simp add: task_only_def)
  then show ?thesis by (intro exI conjI) (auto simp: next_tasks_def)
qed

text \<open>
  C10: When the pace maker is idle, the replica is the one that may propose, and the block it
  proposed last has the votes of a majority, the commands taken for a block reach the core by
  running only what is left to do, without any further event: \<open>on_propose\<close> is called with these
  commands on the selected parent. Unless it throws, the block of the commands is then delivered,
  and the broadcast of the proposals that carry the encoded commands is among the tasks to run;
  the pace maker is locked when it is.
\<close>

theorem idle_beat_proposes:
  assumes "idle n" and "size_ok n" and "get_proposer n = get_id (n_core n)"
    and "core_wf (n_core n)" and "delivered (c_storage (n_core n)) (hqc_tail (n_pace n))"
    and "on_propose (ne_env N) (take (n_blk_size n) (n_cmd_pending_buffer n)) (get_parents n) [] (n_core n) = (r, c')"
    and "survives r" and "next_ref (c_storage c') < 2 ^ 32"
    and "no_collision (ne_env N) (take (n_blk_size n) (n_cmd_pending_buffer n)) n"
  shows "\<exists>n' ts. (task_only N)\<^sup>*\<^sup>* (snd (propose_commands n), fst (propose_commands n)) (n', ts) \<and>
    n_core n' = c' \<and> locked (n_pace n') \<and> n_cmd_pending_buffer n' = drop (n_blk_size n) (n_cmd_pending_buffer n) \<and>
    (\<forall>b. r = Inr b \<longrightarrow> (\<exists>x props.
       proposed_blk (ne_env N) (take (n_blk_size n) (n_cmd_pending_buffer n)) (get_parents n) [] (n_core n) = Inr x \<and>
       delivered (c_storage c') b \<and> blk_hash (blk c' b) = blk_hash x \<and>
       encode_proposals (ne_env N) (c_rse (n_core n)) (get_id (n_core n)) b (blk_hash x)
         (take (n_blk_size n) (n_cmd_pending_buffer n)) = Inr props \<and>
       next_task (Output (DoBroadcastProposals props)) \<in> set ts))"
proof -
  let ?c = "n_core n" and ?cmds = "take (n_blk_size n) (n_cmd_pending_buffer n)"
  obtain n1 ts where 1: "(task_only N)\<^sup>*\<^sup>* (snd (propose_commands n), fst (propose_commands n))
      (n1, RunClosure (OnBeat ?cmds) (Some (VRid (get_proposer n))) # ts)"
    "n_core n1 = ?c" "locked (n_pace n1)" "get_parents n1 = get_parents n"
    "n_cmd_pending_buffer n1 = drop (n_blk_size n) (n_cmd_pending_buffer n)"
    using idle_beat_runs [OF assms(1,2), of N] by blast
  have size: "next_ref (c_storage ?c) < 2 ^ 32" using assms(2) by (simp add: size_ok_def)
  have "no_collision (ne_env N) ?cmds n1" using assms(9) 1(2,4) by (simp add: no_collision_def)
  with on_beat_step [of N ?cmds n1 r c' ts] assms(6-8) size 1(2,4) obtain ts' where
    step: "task_only N (n1, RunClosure (OnBeat ?cmds) (Some (VRid (get_id ?c))) # ts) (n1\<lparr>n_core := c'\<rparr>, ts')"
    and outs: "\<forall>out\<in>set (drop (length (c_outs ?c)) (c_outs c')). next_task (Output out) \<in> set ts'"
    by auto
  have reach: "(task_only N)\<^sup>*\<^sup>* (snd (propose_commands n), fst (propose_commands n)) (n1\<lparr>n_core := c'\<rparr>, ts')"
    using 1(1) step unfolding assms(3) by (rule rtranclp.rtrancl_into_rtrancl)
  have pre: "propose_pre (ne_env N) ?cmds (get_parents n) [] ?c"
    using assms(5,9) by (simp add: propose_pre_def no_collision_def get_parents_def)
  have "\<exists>x props. proposed_blk (ne_env N) ?cmds (get_parents n) [] ?c = Inr x \<and>
      delivered (c_storage c') b \<and> blk_hash (blk c' b) = blk_hash x \<and>
      encode_proposals (ne_env N) (c_rse ?c) (get_id ?c) b (blk_hash x) ?cmds = Inr props \<and>
      next_task (Output (DoBroadcastProposals props)) \<in> set ts'" if "r = Inr b" for b
    using on_propose_done [OF assms(4) size pre assms(6) [unfolded that]] outs unfolding get_id_def by metis
  then show ?thesis using reach 1(3,5) by (intro exI [of _ "n1\<lparr>n_core := c'\<rparr>"] exI [of _ ts']) simp
qed

text \<open>A replica that has just started, with two commands and blocks of one.\<close>

definition sample_idle :: node where
  "sample_idle = (projr (hotstuff_base sample_env 1 0 PrivKeyDummy 10 PaceMakerDummy 1 1 True))
     \<lparr>n_core := sample_start, n_cmd_pending_buffer := [5, 6]\<rparr>"

lemma sample_genesis_votes: "card (blk_voted (blk sample_start 0)) = 4"
proof -
  obtain c where c: "hotstuff_core sample_env 0 PrivKeyDummy = Inr c" using sample_core by blast
  have "blk_voted (blk c 0) = {} \<and> c_b0 c = 0"
    using c by (auto simp: hotstuff_core_def sample_genesis alloc_blk_def add_blk_ref_def empty_storage_def
        block_default_def Let_def bindE_Inr_iff split: if_splits prod.splits option.splits)
  then have "blk_voted (blk sample_start 0) = {0, 1, 2, 3}"
    by (auto simp: sample_start_def c start_core_def on_init_def add_replica_def Let_def)
  then show ?thesis by simp
qed

lemma sample_idle:
  "idle sample_idle" "n_core sample_idle = sample_start" "n_blk_size sample_idle = 1"
  "n_cmd_pending_buffer sample_idle = [5, 6]" "get_proposer sample_idle = 0" "get_parents sample_idle = [0]"
proof -
  obtain c where c: "hotstuff_core sample_env 0 PrivKeyDummy = Inr c" using sample_core by blast
  obtain pace h where p: "new_pacemaker PaceMakerDummy 1 1 no_promises = (pace, h)" by force
  then have pace: "pace_kind pace = PaceMakerDummy" "locked pace = False" "last_proposed pace = 0" "hqc_tail pace = 0"
    by (auto simp: new_pacemaker_def Let_def split: prod.splits)
  note new = new_pacemaker_promises [OF p]
  have n: "n_core sample_idle = sample_start" "n_pace sample_idle = pace" "n_pms sample_idle = h"
    "n_blk_size sample_idle = 1" "n_cmd_pending_buffer sample_idle = [5, 6]"
    using p by (simp_all add: sample_idle_def hotstuff_base_def c)
  show "idle sample_idle"
    using pace new sample_genesis_votes sample_start(16)
    by (simp add: idle_def n n_reject_def pm_reject_def no_promises_def new_promise_def)
  show "n_core sample_idle = sample_start" "n_blk_size sample_idle = 1"
    "n_cmd_pending_buffer sample_idle = [5, 6]" "get_proposer sample_idle = 0" "get_parents sample_idle = [0]"
    using n pace sample_start(12) by (simp_all add: get_proposer_def get_id_def get_parents_def)
qed

lemma idle_beat_proposes_witness:
  "\<exists>n' ts c' props. on_propose sample_env [5] [0] [] sample_start = (Inr 1, c') \<and>
    (task_only sample_net)\<^sup>*\<^sup>* (snd (propose_commands sample_idle), fst (propose_commands sample_idle)) (n', ts) \<and>
    n_core n' = c' \<and> n_cmd_pending_buffer n' = [6] \<and> delivered (c_storage c') 1 \<and> blk_hash (blk c' 1) = 112 \<and>
    encode_proposals sample_env (rse_set_params 4) 0 1 112 [5] = Inr props \<and>
    next_task (Output (DoBroadcastProposals props)) \<in> set ts"
proof -
  obtain c' where run: "on_propose sample_env [5] [0] [] sample_start = (Inr 1, c')" "next_ref (c_storage c') = 2"
    using sample_proposes by blast
  have parents: "get_parents sample_idle = [0]" by (rule sample_idle)
  have tail: "hqc_tail (n_pace sample_idle) = 0" using parents by (simp add: get_parents_def)
  have del: "delivered (c_storage sample_start) 0" using sample_start(7,14) by (simp add: delivered_def)
  have coll: "no_collision sample_env [5] sample_idle"
    using sample_start(8) by (simp add: no_collision_def sample_idle(2) parents sample_offer find_blk_def)
      (simp add: sample_offer_def)
  have id: "get_proposer sample_idle = get_id (n_core sample_idle)"
    by (simp add: sample_idle(2,5) get_id_def sample_start(12))
  have hash: "blk_hash sample_offer = 112" by (simp add: sample_offer_def)
  have split: "take 1 [5, 6 :: uint256] = [5]" "drop 1 [5, 6 :: uint256] = [6]" by simp_all
  show ?thesis
    using idle_beat_proposes [OF sample_idle(1) sample_size [OF sample_idle(2)] id, of sample_net "Inr 1" c']
      run del coll tail parents sample_start(2,12) sample_start_hqc(3)
    by (simp add: sample_idle(2-5) sample_offer hash split get_id_def del: One_nat_def) blast
qed

end
