(* ===== verification/Agreement.thy ===== *)
theory Agreement
  imports CoreLocks "HOL-Library.Sublist"
begin

text \<open>
  Agreement of correct replicas: a group of replicas, some of them faulty, whose correct members
  run \<open>HotStuffCore\<close> and exchange blocks, proposals and votes in any order, with any losses and
  any behaviour of the faulty ones, executes one sequence of blocks.
\<close>

section \<open>Trees of hashes\<close>

text \<open>\<open>P h p\<close>: the block with hash \<open>h\<close> has the first parent \<open>p\<close>; \<open>g\<close> is the root.\<close>

definition hash_tree :: "('h \<Rightarrow> 'h \<Rightarrow> bool) \<Rightarrow> 'h \<Rightarrow> bool" where
  "hash_tree P g \<longleftrightarrow> (\<forall>x y z. P x y \<longrightarrow> P x z \<longrightarrow> y = z) \<and> (\<forall>p. \<not> P g p)"

definition at_level :: "('h \<Rightarrow> 'h \<Rightarrow> bool) \<Rightarrow> 'h \<Rightarrow> nat \<Rightarrow> 'h \<Rightarrow> bool" where
  "at_level P g n x \<longleftrightarrow> (P ^^ n) x g"

lemma hash_tree_parent: "hash_tree P g \<Longrightarrow> P x y \<Longrightarrow> P x z \<Longrightarrow> y = z"
  and hash_tree_root: "hash_tree P g \<Longrightarrow> \<not> P g p"
  unfolding hash_tree_def by blast+

lemma level_root: "at_level P g 0 x \<longleftrightarrow> x = g"
  by (simp add: at_level_def)

lemma level_parent: "P x p \<Longrightarrow> at_level P g n p \<Longrightarrow> at_level P g (Suc n) x"
  unfolding at_level_def by (rule relpowp_Suc_I2)

lemma level_unique: "hash_tree P g \<Longrightarrow> at_level P g m x \<Longrightarrow> at_level P g n x \<Longrightarrow> m = n"
  unfolding at_level_def
proof (induction m arbitrary: x n)
  case 0
  show ?case
  proof (cases n)
    case (Suc k)
    then have "\<exists>y. P g y" using 0 relpowp_Suc_D2 [of k P x g] by auto
    then show ?thesis using hash_tree_root [OF 0(1)] by blast
  qed simp
next
  case (Suc m)
  obtain y where y: "P x y" "(P ^^ m) y g" using relpowp_Suc_D2 [OF Suc.prems(2)] by blast
  then obtain k where k: "n = Suc k" using Suc.prems(1,3) by (cases n) (auto dest: hash_tree_root)
  then obtain z where z: "P x z" "(P ^^ k) z g" using relpowp_Suc_D2 Suc.prems(3) by metis
  then show ?case using Suc.IH [OF Suc.prems(1) y(2), of k] hash_tree_parent [OF Suc.prems(1) y(1)] k by simp
qed

lemma root_reaches: "hash_tree P g \<Longrightarrow> P\<^sup>*\<^sup>* g x \<Longrightarrow> x = g"
  by (erule converse_rtranclpE) (auto dest: hash_tree_root)

text \<open>Ancestors of one block lie on one path.\<close>

lemma ancestors_comparable:
  assumes "hash_tree P g" and "P\<^sup>*\<^sup>* z x" and "P\<^sup>*\<^sup>* z y"
  shows "P\<^sup>*\<^sup>* x y \<or> P\<^sup>*\<^sup>* y x"
  using assms(2)
proof (induction rule: rtranclp_induct)
  case (step u v)
  from step.IH show ?case
  proof
    assume "P\<^sup>*\<^sup>* u y"
    then show ?thesis
    proof (cases rule: converse_rtranclpE)
      case (step w)
      then show ?thesis using hash_tree_parent [OF assms(1)] \<open>P u v\<close> by blast
    qed (use step.hyps(2) in blast)
  qed (use step.hyps(2) in \<open>auto intro: rtranclp.rtrancl_into_rtrancl\<close>)
qed (use assms(3) in simp)

lemma ancestor_level:
  assumes "hash_tree P g" and "P\<^sup>*\<^sup>* x y" and "at_level P g m x" and "at_level P g n y"
  shows "n \<le> m \<and> (n = m \<longrightarrow> x = y)"
proof -
  obtain k where k: "(P ^^ k) x y" using assms(2) by (auto simp: rtranclp_power)
  then have "at_level P g (k + n) x" using assms(4) by (auto simp: at_level_def relpowp_add)
  then have "m = k + n" using level_unique [OF assms(1,3)] by simp
  with k show ?thesis by auto
qed

lemma ancestors_by_level:
  assumes "hash_tree P g" and "P\<^sup>*\<^sup>* z x" and "P\<^sup>*\<^sup>* z y" and "at_level P g m x" and "at_level P g n y" and "m \<le> n"
  shows "P\<^sup>*\<^sup>* y x"
  using ancestors_comparable [OF assms(1-3)]
proof
  assume "P\<^sup>*\<^sup>* x y"
  then have "x = y" using ancestor_level [OF assms(1) _ assms(4,5)] assms(6) by simp
  then show ?thesis by simp
qed

text \<open>Two paths from the root, the end of one below the end of the other.\<close>

abbreviation (input) path :: "('h \<Rightarrow> 'h \<Rightarrow> bool) \<Rightarrow> 'h list \<Rightarrow> bool" where
  "path P xs \<equiv> successively (\<lambda>a b. P b a) xs"

lemma path_snoc: "path P (g # xs @ [x]) \<longleftrightarrow> path P (g # xs) \<and> P x (last (g # xs))"
  using successively_append_iff [of "\<lambda>a b. P b a" "g # xs" "[x]"] by simp

lemma path_end_unique:
  assumes "hash_tree P g" and "path P (g # xs)" and "path P (g # ys)" and "last (g # xs) = last (g # ys)"
  shows "xs = ys"
  using assms(2-4)
proof (induction xs arbitrary: ys rule: rev_induct)
  case Nil
  show ?case
  proof (cases ys rule: rev_cases)
    case (snoc zs z)
    then have "P z (last (g # zs))" "z = g" using Nil.prems(2,3) by (simp_all only: path_snoc) simp_all
    then show ?thesis using hash_tree_root [OF assms(1)] by blast
  qed simp
next
  case (snoc x xs)
  have p: "P x (last (g # xs))" using snoc.prems(1) by (simp only: path_snoc)
  obtain zs where ys: "ys = zs @ [x]"
  proof (cases ys rule: rev_cases)
    case Nil
    then have "x = g" using snoc.prems(3) by simp
    then show ?thesis using p hash_tree_root [OF assms(1)] by blast
  qed (use snoc.prems(3) that in simp)
  have "P x (last (g # xs))" "P x (last (g # zs))" using snoc.prems(1,2) by (simp_all only: ys path_snoc)
  then have "last (g # xs) = last (g # zs)" using hash_tree_parent [OF assms(1)] by blast
  then show ?case using snoc.IH [of zs] snoc.prems(1,2) by (simp only: ys path_snoc)
qed

lemma path_prefix:
  assumes "hash_tree P g" and "path P (g # xs)" and "path P (g # ys)"
    and "P\<^sup>*\<^sup>* (last (g # ys)) (last (g # xs))"
  shows "prefix xs ys"
  using assms(3,4)
proof (induction ys rule: rev_induct)
  case Nil
  have "last (g # xs) = last [g]"
    using root_reaches [OF assms(1), of "last (g # xs)"] Nil.prems(2) by (simp only: last_ConsL [OF refl])
  then show ?case using path_end_unique [OF assms(1,2) Nil.prems(1)] by blast
next
  case (snoc y ys)
  from snoc.prems(2) have "P\<^sup>*\<^sup>* y (last (g # xs))" by simp
  then show ?case
  proof (cases rule: converse_rtranclpE)
    case base
    then show ?thesis using path_end_unique [OF assms(1,2) snoc.prems(1)] by simp
  next
    case (step z)
    have "P y (last (g # ys))" "path P (g # ys)" using snoc.prems(1) by (simp_all only: path_snoc)
    then have "prefix xs ys" using step snoc.IH hash_tree_parent [OF assms(1)] by metis
    then show ?thesis by (simp add: prefix_def) (metis append.assoc)
  qed
qed

section \<open>A group of replicas\<close>

text \<open>
  The replicas of one configuration and those of them that are correct. Of the others nothing is
  assumed but that they cannot sign for a correct one.
\<close>

record group =
  g_env :: env
  g_replicas :: "(peer_id \<times> pub_key) list"
  g_nfaulty :: u32
  g_correct :: "replica_id set"

type_synonym system = "replica_id \<Rightarrow> core"

definition members :: "group \<Rightarrow> replica_id set" where
  "members S = word_of_nat ` {..<length (g_replicas S)}"

definition quorum_size :: "group \<Rightarrow> nat" where
  "quorum_size S = length (g_replicas S) - unat (g_nfaulty S)"

text \<open>
  Fewer than a third of the replicas may be faulty; \<open>HotStuffBase::start\<close> computes \<open>nfaulty\<close> as
  a third of the number of its peers.
\<close>

definition group_ok :: "group \<Rightarrow> bool" where
  "group_ok S \<longleftrightarrow>
     3 * unat (g_nfaulty S) < length (g_replicas S) \<and>
     card (members S - g_correct S) \<le> unat (g_nfaulty S)"

definition system_started :: "group \<Rightarrow> system \<Rightarrow> bool" where
  "system_started S G \<longleftrightarrow>
     (\<forall>r\<in>g_correct S. \<exists>k c. hotstuff_core (g_env S) r k = Inr c \<and>
        G r = start_core (g_env S) (g_replicas S) (g_nfaulty S) c)"

text \<open>A quorum whose correct members voted for the hash.\<close>

definition backed :: "group \<Rightarrow> system \<Rightarrow> uint256 \<Rightarrow> bool" where
  "backed S G h \<longleftrightarrow>
     (\<exists>Q\<subseteq>members S. quorum_size S \<le> card Q \<and> (\<forall>r\<in>Q \<inter> g_correct S. voted (G r) h))"

definition genesis_hash :: "core \<Rightarrow> uint256" where
  "genesis_hash c = blk_hash (blk c (c_b0 c))"

text \<open>
  Certificates are verified before a block is delivered and signatures are not forged: whatever
  is certified in the state \<open>c\<close>, but the genesis block, a quorum voted for.
\<close>

definition certs_backed :: "group \<Rightarrow> system \<Rightarrow> core \<Rightarrow> bool" where
  "certs_backed S G c \<longleftrightarrow>
     (\<forall>x. certified_ref c x \<longrightarrow> blk_hash (blk c x) = genesis_hash c \<or> backed S G (blk_hash (blk c x)))"

text \<open>One correct replica handles a call; messages are arguments of calls.\<close>

inductive system_step :: "group \<Rightarrow> system \<Rightarrow> system \<Rightarrow> bool" for S where
  call: "system_step S G (G(r := c))"
    if "r \<in> g_correct S" and "next_ref (c_storage (G r)) < 2 ^ 32" and "allowed (g_env S) a (G r)"
      and "foreign (G r) a" and "run_call (g_env S) a (G r) = (x, c)" and "survives x"
      and "certs_backed S G c"

inductive_cases system_stepE: "system_step S G G'"

definition system_reachable :: "group \<Rightarrow> system \<Rightarrow> bool" where
  "system_reachable S G \<longleftrightarrow> (\<exists>G0. system_started S G0 \<and> (system_step S)\<^sup>*\<^sup>* G0 G)"

text \<open>
  What is assumed of the blocks that were delivered: blocks with equal hashes have equal parents
  and certified blocks, also across replicas, and certificates are for ancestors.
\<close>

definition hashes_agree :: "group \<Rightarrow> system \<Rightarrow> bool" where
  "hashes_agree S G \<longleftrightarrow>
     (\<forall>r\<in>g_correct S. \<forall>s\<in>g_correct S. \<forall>x y.
        delivered (c_storage (G r)) x \<longrightarrow> x \<noteq> c_b0 (G r) \<longrightarrow>
        delivered (c_storage (G s)) y \<longrightarrow> y \<noteq> c_b0 (G s) \<longrightarrow>
        blk_hash (blk (G r) x) = blk_hash (blk (G s) y) \<longrightarrow>
          blk_parent_hashes (blk (G r) x) = blk_parent_hashes (blk (G s) y) \<and>
          map_option qc_obj_hash (blk_qc (blk (G r) x)) = map_option qc_obj_hash (blk_qc (blk (G s) y)))"

lemma hashes_agreeD:
  assumes "hashes_agree S G" and "r \<in> g_correct S" and "s \<in> g_correct S"
    and "delivered (c_storage (G r)) x" and "x \<noteq> c_b0 (G r)"
    and "delivered (c_storage (G s)) y" and "y \<noteq> c_b0 (G s)"
    and "blk_hash (blk (G r) x) = blk_hash (blk (G s) y)"
  shows "blk_parent_hashes (blk (G r) x) = blk_parent_hashes (blk (G s) y)"
    and "map_option qc_obj_hash (blk_qc (blk (G r) x)) = map_option qc_obj_hash (blk_qc (blk (G s) y))"
proof -
  have "blk_parent_hashes (blk (G r) x) = blk_parent_hashes (blk (G s) y) \<and>
      map_option qc_obj_hash (blk_qc (blk (G r) x)) = map_option qc_obj_hash (blk_qc (blk (G s) y))"
    using assms(1) [unfolded hashes_agree_def, rule_format, OF assms(2-8)] .
  then show "blk_parent_hashes (blk (G r) x) = blk_parent_hashes (blk (G s) y)"
    and "map_option qc_obj_hash (blk_qc (blk (G r) x)) = map_option qc_obj_hash (blk_qc (blk (G s) y))"
    by blast+
qed

definition chains_ok :: "group \<Rightarrow> system \<Rightarrow> bool" where
  "chains_ok S G \<longleftrightarrow> hashes_agree S G \<and> (\<forall>r\<in>g_correct S. certs_on_branch (G r))"

section \<open>The start\<close>

lemma add_all_replicas_config:
  "nreplicas (c_config (add_all_replicas i rs c)) = nreplicas (c_config c) + length rs"
  by (induction i rs c rule: add_all_replicas.induct)
     (simp_all add: add_replica_def cfg_add_replica_def)

lemma add_all_replicas_hash:
  "blk_hash (blk (add_all_replicas i rs c) r) = blk_hash (blk c r) \<and> c_b0 (add_all_replicas i rs c) = c_b0 c"
  by (induction i rs c rule: add_all_replicas.induct)
     (simp_all add: add_replica_def set_blk_def upd_blk_def)

text \<open>Every replica computes the same quorum size.\<close>

lemma start_majority:
  assumes "hotstuff_core E r k = Inr c" and "unat nfaulty \<le> length replicas"
  shows "nmajority (c_config (start_core E replicas nfaulty c)) = length replicas - unat nfaulty"
proof -
  have "nreplicas (c_config c) = 0"
    using assms(1) by (auto simp: hotstuff_core_def bindE_Inr_iff empty_config_def Let_def split: if_splits prod.splits)
  then show ?thesis
    using assms(2) by (simp add: start_core_def on_init_def Let_def set_majority_def add_all_replicas_config)
qed

lemma start_genesis:
  assumes "hotstuff_core E r k = Inr c"
  shows "genesis_hash (start_core E replicas nfaulty c) = blk_hash (projr (block_genesis E True 1))"
proof -
  have "c_b0 c = 0 \<and> blk_hash (blk c 0) = blk_hash (projr (block_genesis E True 1))"
    using assms by (auto simp: hotstuff_core_def bindE_Inr_iff alloc_blk_def add_blk_ref_def
        empty_storage_def Let_def split: if_splits option.splits)
  then show ?thesis
    by (simp add: start_core_def on_init_def genesis_hash_def Let_def add_all_replicas_hash)
qed

lemma start_history:
  assumes "hotstuff_core E r k = Inr c0"
  shows "history_wf (start_core E replicas nfaulty c0)"
    and "votes_of (c_outs (start_core E replicas nfaulty c0)) = []"
    and "certified_ref (start_core E replicas nfaulty c0) x \<Longrightarrow> x = c_b0 (start_core E replicas nfaulty c0)"
proof -
  let ?c = "start_core E replicas nfaulty c0"
  have wf: "core_wf ?c" using assms core_started_wf [of E] unfolding core_started_def by blast
  let ?n = "word_of_nat (length replicas)"
  have "pre_init (c0\<lparr>c_rse := rse_set_params ?n, c_sc := set_pramas ?n (c_sc c0)\<rparr>)"
    using hotstuff_core_pre_init [OF assms] by (simp add: pre_init_def)
  then have "pre_init (add_all_replicas 0 replicas (c0\<lparr>c_rse := rse_set_params ?n, c_sc := set_pramas ?n (c_sc c0)\<rparr>))"
    by (rule add_all_replicas_pre_init)
  then have start: "c_b_lock ?c = c_b0 ?c" "c_b_exec ?c = c_b0 ?c" "c_outs ?c = []" "c_b0 ?c = 0"
    "next_ref (c_storage ?c) = 1"
    by (simp_all add: start_core_def on_init_def Let_def pre_init_def set_blk_def upd_blk_def)
  with wf show "history_wf ?c" "votes_of (c_outs ?c) = []"
    by (simp_all add: history_wf_def certified_ref_def committed_ref_def voted_def)
  show "certified_ref ?c x \<Longrightarrow> x = c_b0 ?c"
    using start(4,5) by (auto simp: certified_ref_def delivered_def)
qed

section \<open>What every step keeps\<close>

definition system_inv :: "group \<Rightarrow> system \<Rightarrow> bool" where
  "system_inv S G \<longleftrightarrow>
     (\<forall>r\<in>g_correct S. history_wf (G r) \<and> certs_backed S G (G r) \<and>
        genesis_hash (G r) = blk_hash (projr (block_genesis (g_env S) True 1)))"

definition advances :: "group \<Rightarrow> system \<Rightarrow> system \<Rightarrow> bool" where
  "advances S G G' \<longleftrightarrow>
     (\<forall>r\<in>g_correct S. G' r = G r \<or>
        grows (G r) (G' r) \<and> (\<exists>new. votes_of (c_outs (G' r)) = votes_of (c_outs (G r)) @ new))"

lemma voted_mono: "votes_of (c_outs c') = votes_of (c_outs c) @ new \<Longrightarrow> voted c h \<Longrightarrow> voted c' h"
  by (auto simp: voted_def)

lemma backed_mono:
  assumes "advances S G G'" and "backed S G h"
  shows "backed S G' h"
proof -
  have "voted (G' r) h" if "r \<in> g_correct S" "voted (G r) h" for r
    using assms(1) that voted_mono unfolding advances_def by metis
  then show ?thesis using assms(2) unfolding backed_def by blast
qed

lemma certs_backed_mono: "advances S G G' \<Longrightarrow> certs_backed S G c \<Longrightarrow> certs_backed S G' c"
  unfolding certs_backed_def using backed_mono by blast

lemma advances_refl: "advances S G G"
  by (simp add: advances_def)

lemma advances_trans:
  assumes "advances S F G" and "advances S G H"
  shows "advances S F H"
  unfolding advances_def
proof
  fix r assume r: "r \<in> g_correct S"
  from assms r have "G r = F r \<or> grows (F r) (G r) \<and> (\<exists>new. votes_of (c_outs (G r)) = votes_of (c_outs (F r)) @ new)"
    "H r = G r \<or> grows (G r) (H r) \<and> (\<exists>new. votes_of (c_outs (H r)) = votes_of (c_outs (G r)) @ new)"
    by (simp_all add: advances_def)
  then show "H r = F r \<or> grows (F r) (H r) \<and> (\<exists>new. votes_of (c_outs (H r)) = votes_of (c_outs (F r)) @ new)"
    using grows_trans by fastforce
qed

lemma advances_grows:
  assumes "advances S G G'" and "system_inv S G" and "r \<in> g_correct S"
  shows "grows (G r) (G' r)" and "\<exists>new. votes_of (c_outs (G' r)) = votes_of (c_outs (G r)) @ new"
proof -
  have "core_wf (G r)" using assms(2,3) by (simp add: system_inv_def history_wf_def)
  then have "grows (G r) (G r)" by (rule grows_refl)
  with assms(1,3) show "grows (G r) (G' r)" and "\<exists>new. votes_of (c_outs (G' r)) = votes_of (c_outs (G r)) @ new"
    by (auto simp: advances_def)
qed

text \<open>A step of the group is a step of one replica's history.\<close>

lemma system_step_cases:
  assumes "system_step S G G'" and inv: "system_inv S G"
  obtains r c where "r \<in> g_correct S" "G' = G(r := c)" "certs_backed S G c" "history_wf c" "grows (G r) c"
    "moves (G r) c \<or> (\<exists>b. casts (G r) c b)"
proof -
  from assms(1) obtain r a x c where step: "G' = G(r := c)" "r \<in> g_correct S" "next_ref (c_storage (G r)) < 2 ^ 32"
    "allowed (g_env S) a (G r)" "foreign (G r) a" "run_call (g_env S) a (G r) = (x, c)" "survives x"
    "certs_backed S G c"
    by (auto elim!: system_stepE)
  have hist: "history_wf (G r)" using inv step(2) by (simp add: system_inv_def)
  then have "core_wf (G r)" by (simp add: history_wf_def)
  from run_call_step [OF this step(3,4,6,7,5)]
  have mc: "moves (G r) c \<or> (\<exists>b. casts (G r) c b)" .
  then have "history_wf c" using moves_history [OF hist] casts_history [OF hist] by blast
  moreover have "grows (G r) c" using mc by (auto simp: moves_def casts_def roots_move_def)
  ultimately show thesis using that step(1,2,8) mc by blast
qed

lemma step_votes:
  "moves c c' \<or> (\<exists>b. casts c c' b) \<Longrightarrow> \<exists>new. votes_of (c_outs c') = votes_of (c_outs c) @ new"
  by (auto simp: moves_def casts_def)

lemma grows_genesis: "grows c c' \<Longrightarrow> genesis_hash c' = genesis_hash c"
  using grows_roots(1) [of c c'] grows_delivered(4) [of c c' "c_b0 c"]
    store_wfD(2) [OF core_wfD(1) [OF growsD(1)], of c c']
  by (simp add: genesis_hash_def genesis_wf_def)

lemma system_step_advances:
  assumes "system_step S G G'" and "system_inv S G"
  shows "advances S G G'"
  using assms
proof (rule system_step_cases)
  fix r c assume "G' = G(r := c)" "grows (G r) c" "moves (G r) c \<or> (\<exists>b. casts (G r) c b)"
  then show ?thesis using step_votes by (simp add: advances_def)
qed

lemma system_step_inv:
  assumes "system_step S G G'" and inv: "system_inv S G"
  shows "system_inv S G'"
  using assms
proof (rule system_step_cases)
  fix r c assume r: "r \<in> g_correct S" and G': "G' = G(r := c)" and c: "certs_backed S G c" "history_wf c" "grows (G r) c"
  have "advances S G G'" using assms by (rule system_step_advances)
  then have "certs_backed S G d \<Longrightarrow> certs_backed S G' d" for d by (rule certs_backed_mono)
  then show ?thesis using inv c r grows_genesis [OF c(3)] unfolding system_inv_def G' by simp
qed

lemma system_started_inv: "system_started S G \<Longrightarrow> system_inv S G"
  unfolding system_inv_def certs_backed_def
proof (intro ballI conjI allI impI disjI1)
  fix r assume "system_started S G" and "r \<in> g_correct S"
  then obtain k c where c: "hotstuff_core (g_env S) r k = Inr c"
    "G r = start_core (g_env S) (g_replicas S) (g_nfaulty S) c" by (auto simp: system_started_def)
  show "history_wf (G r)" unfolding c(2) by (rule start_history(1) [OF c(1)])
  show "genesis_hash (G r) = blk_hash (projr (block_genesis (g_env S) True 1))"
    unfolding c(2) by (rule start_genesis [OF c(1)])
  show "blk_hash (blk (G r) x) = genesis_hash (G r)" if "certified_ref (G r) x" for x
    using start_history(3) [OF c(1)] that by (simp add: c(2) genesis_hash_def)
qed

interpretation system: monitored_machine "system_started S" "system_step S" "system_inv S" "advances S" for S
  by unfold_locales
    (auto intro: system_started_inv system_step_inv system_step_advances advances_refl advances_trans)

lemma system_reachable_run: "system_reachable S G \<longleftrightarrow> system.run S G"
  by (simp add: system_reachable_def system.run_def)

lemma system_reachable_inv: "system_reachable S G \<Longrightarrow> system_inv S G"
  unfolding system_reachable_run by (rule system.run_inv)

section \<open>The tree of all delivered blocks\<close>

definition parent_hash :: "group \<Rightarrow> system \<Rightarrow> uint256 \<Rightarrow> uint256 \<Rightarrow> bool" where
  "parent_hash S G h p \<longleftrightarrow>
     (\<exists>r\<in>g_correct S. \<exists>x. delivered (c_storage (G r)) x \<and> x \<noteq> c_b0 (G r) \<and> blk_hash (blk (G r) x) = h \<and>
        blk_parent_hashes (blk (G r) x) ! 0 = p)"

definition cert_hash :: "group \<Rightarrow> system \<Rightarrow> uint256 \<Rightarrow> uint256 \<Rightarrow> bool" where
  "cert_hash S G h u \<longleftrightarrow>
     (\<exists>r\<in>g_correct S. \<exists>x y. delivered (c_storage (G r)) x \<and> x \<noteq> c_b0 (G r) \<and> blk_hash (blk (G r) x) = h \<and>
        blk_qc_ref (blk (G r) x) = Some y \<and> blk_hash (blk (G r) y) = u)"

abbreviation (input) common_genesis :: "group \<Rightarrow> uint256" where
  "common_genesis S \<equiv> blk_hash (projr (block_genesis (g_env S) True 1))"

abbreviation (input) hash_level :: "group \<Rightarrow> system \<Rightarrow> nat \<Rightarrow> uint256 \<Rightarrow> bool" where
  "hash_level S G \<equiv> at_level (parent_hash S G) (common_genesis S)"

lemma system_invD:
  assumes "system_inv S G" and "r \<in> g_correct S"
  shows "core_wf (G r)" "store_wf (c_b0 (G r)) (c_storage (G r))" "history_wf (G r)" "certs_backed S G (G r)"
    "blk_hash (blk (G r) (c_b0 (G r))) = common_genesis S" "delivered (c_storage (G r)) (c_b0 (G r))"
proof -
  show "core_wf (G r)" "history_wf (G r)" "certs_backed S G (G r)"
    "blk_hash (blk (G r) (c_b0 (G r))) = common_genesis S"
    using assms by (simp_all add: system_inv_def history_wf_def genesis_hash_def)
  then show W: "store_wf (c_b0 (G r)) (c_storage (G r))" using core_wfD(1) by blast
  show "delivered (c_storage (G r)) (c_b0 (G r))" using store_wfD(2) [OF W] by (simp add: genesis_wf_def)
qed

lemma genesis_only:
  assumes "system_inv S G" and "r \<in> g_correct S" and "delivered (c_storage (G r)) x"
    and "blk_hash (blk (G r) x) = common_genesis S"
  shows "x = c_b0 (G r)"
  using hash_inj [OF system_invD(2) [OF assms(1,2)] delivered_next [OF assms(3)]
      delivered_next [OF system_invD(6) [OF assms(1,2)]]] system_invD(5) [OF assms(1,2)] assms(4) by simp

lemma system_tree:
  assumes inv: "system_inv S G" and ok: "hashes_agree S G"
  shows "hash_tree (parent_hash S G) (common_genesis S)"
  unfolding hash_tree_def
proof (intro conjI allI impI notI)
  fix h p q assume "parent_hash S G h p" "parent_hash S G h q"
  then show "p = q" using ok unfolding parent_hash_def hashes_agree_def by metis
next
  fix p assume "parent_hash S G (common_genesis S) p"
  then show False using genesis_only [OF inv] by (auto simp: parent_hash_def)
qed

lemma link_hash:
  assumes inv: "system_inv S G" and r: "r \<in> g_correct S" and b: "delivered (c_storage (G r)) b"
    and l: "parent_link (c_storage (G r)) p b"
  shows "parent_hash S G (blk_hash (blk (G r) b)) (blk_hash (blk (G r) p))"
proof -
  note W = system_invD(2) [OF inv r]
  have "b \<noteq> c_b0 (G r)" using l store_wfD(2) [OF W] by (auto simp: parent_link_def genesis_wf_def)
  moreover from this have "blk_parent_hashes (blk (G r) b) ! 0 = blk_hash (blk (G r) p)"
    using store_wfD(3) [OF W b] l by (auto simp: delivered_wf_def parent_link_def)
  ultimately show ?thesis using r b unfolding parent_hash_def by blast
qed

lemma branch_hash:
  assumes inv: "system_inv S G" and r: "r \<in> g_correct S" and b: "delivered (c_storage (G r)) b"
    and br: "on_branch (c_storage (G r)) a b"
  shows "(parent_hash S G)\<^sup>*\<^sup>* (blk_hash (blk (G r) b)) (blk_hash (blk (G r) a))"
  using br b unfolding on_branch_def
proof (induction rule: rtranclp_induct)
  case (step p b)
  have "parent_hash S G (blk_hash (blk (G r) b)) (blk_hash (blk (G r) p))"
    using link_hash [OF inv r step.prems step.hyps(2)] .
  moreover have "delivered (c_storage (G r)) p"
    using parent_link_delivered(1) [OF system_invD(2) [OF inv r] step.hyps(2) step.prems] .
  ultimately show ?case using step.IH by (simp add: converse_rtranclp_into_rtranclp)
qed simp

text \<open>The height of a block is its level.\<close>

lemma height_level:
  assumes inv: "system_inv S G" and r: "r \<in> g_correct S"
  shows "delivered (c_storage (G r)) b \<Longrightarrow> hash_level S G (height_of (c_storage (G r)) b) (blk_hash (blk (G r) b))"
proof (induction "height_of (c_storage (G r)) b" arbitrary: b)
  case 0
  have "b = c_b0 (G r)"
  proof (rule ccontr)
    assume "b \<noteq> c_b0 (G r)"
    with first_parent [OF system_invD(2) [OF inv r] 0(2)] 0(1) show False by auto
  qed
  then show ?case using system_invD(5) [OF inv r] 0(1) by (metis level_root)
next
  case (Suc n)
  have "b \<noteq> c_b0 (G r)"
    using Suc(2) store_wfD(2) [OF system_invD(2) [OF inv r]] by (auto simp: genesis_wf_def)
  then obtain p where p: "parent_link (c_storage (G r)) p b" "delivered (c_storage (G r)) p"
    "height_of (c_storage (G r)) b = Suc (height_of (c_storage (G r)) p)"
    using first_parent [OF system_invD(2) [OF inv r] Suc.prems] by blast
  then show ?case
    using Suc.hyps(1) [of p] Suc.hyps(2) level_parent link_hash [OF inv r Suc.prems p(1)] by auto
qed

lemma cert_hashI:
  assumes "r \<in> g_correct S" and "delivered (c_storage (G r)) x" and "x \<noteq> c_b0 (G r)"
    and "blk_qc_ref (blk (G r) x) = Some y"
  shows "cert_hash S G (blk_hash (blk (G r) x)) (blk_hash (blk (G r) y))"
  using assms unfolding cert_hash_def by blast

lemma cert_hash_unique:
  assumes inv: "system_inv S G" and ok: "hashes_agree S G" and "cert_hash S G h u" and "cert_hash S G h v"
  shows "u = v"
proof -
  have q: "\<exists>q. blk_qc (blk (G r) x) = Some q \<and> blk_hash (blk (G r) y) = qc_obj_hash q"
    if "r \<in> g_correct S" "delivered (c_storage (G r)) x" "x \<noteq> c_b0 (G r)" "blk_qc_ref (blk (G r) x) = Some y" for r x y
    using qc_refD(4) [OF system_invD(2) [OF inv that(1)] delivered_next [OF that(2)] that(4,3)] .
  obtain r x y where 1: "r \<in> g_correct S" "delivered (c_storage (G r)) x" "x \<noteq> c_b0 (G r)"
    "blk_hash (blk (G r) x) = h" "blk_qc_ref (blk (G r) x) = Some y" "blk_hash (blk (G r) y) = u"
    using assms(3) by (auto simp: cert_hash_def)
  obtain s z w where 2: "s \<in> g_correct S" "delivered (c_storage (G s)) z" "z \<noteq> c_b0 (G s)"
    "blk_hash (blk (G s) z) = h" "blk_qc_ref (blk (G s) z) = Some w" "blk_hash (blk (G s) w) = v"
    using assms(4) by (auto simp: cert_hash_def)
  have "map_option qc_obj_hash (blk_qc (blk (G r) x)) = map_option qc_obj_hash (blk_qc (blk (G s) z))"
    using hashes_agreeD(2) [OF ok 1(1) 2(1) 1(2,3) 2(2,3)] 1(4) 2(4) by simp
  with q [OF 1(1,2,3,5)] q [OF 2(1,2,3,5)] 1(6) 2(6) show ?thesis by auto
qed

text \<open>What is certified by a delivered block is the genesis block or was voted for by a quorum.\<close>

lemma cert_hash_backed:
  assumes inv: "system_inv S G" and "cert_hash S G h u"
  shows "u = common_genesis S \<or> backed S G u"
proof -
  obtain r x y where 1: "r \<in> g_correct S" "delivered (c_storage (G r)) x" "x \<noteq> c_b0 (G r)"
    "blk_qc_ref (blk (G r) x) = Some y" "blk_hash (blk (G r) y) = u"
    using assms(2) by (auto simp: cert_hash_def)
  then have "certified_ref (G r) y" by (auto simp: certified_ref_def)
  then show ?thesis
    using system_invD(4,5) [OF inv 1(1)] 1(5) by (auto simp: certs_backed_def genesis_hash_def)
qed

section \<open>Quorums\<close>

text \<open>Two quorums have a correct replica in common.\<close>

lemma quorums_intersect:
  assumes "group_ok S" and "Q \<subseteq> members S" "quorum_size S \<le> card Q"
    and "R \<subseteq> members S" "quorum_size S \<le> card R"
  shows "\<exists>r. r \<in> Q \<inter> R \<inter> g_correct S"
proof (rule ccontr)
  assume none: "\<not> (\<exists>r. r \<in> Q \<inter> R \<inter> g_correct S)"
  have fin: "finite (members S)" "card (members S) \<le> length (g_replicas S)"
    using card_image_le [of "{..<length (g_replicas S)}"] by (auto simp: members_def)
  then have finQ: "finite Q" "finite R" using assms(2,4) finite_subset by blast+
  have "card Q + card R = card (Q \<union> R) + card (Q \<inter> R)" using finQ by (rule card_Un_Int)
  moreover have "card (Q \<union> R) \<le> card (members S)" using assms(2,4) fin by (intro card_mono) auto
  moreover have "card (Q \<inter> R) \<le> card (members S - g_correct S)"
    using none assms(2,4) fin by (intro card_mono) auto
  ultimately show False using assms(1,3,5) fin(2) by (simp add: group_ok_def quorum_size_def le_diff_conv)
qed

lemma backed_common:
  assumes "group_ok S" and "backed S G x" and "backed S G' y"
  obtains r where "r \<in> g_correct S" "voted (G r) x" "voted (G' r) y"
proof -
  obtain Q where Q: "Q \<subseteq> members S" "quorum_size S \<le> card Q" "\<forall>r\<in>Q \<inter> g_correct S. voted (G r) x"
    using assms(2) by (auto simp: backed_def)
  obtain R where R: "R \<subseteq> members S" "quorum_size S \<le> card R" "\<forall>r\<in>R \<inter> g_correct S. voted (G' r) y"
    using assms(3) by (auto simp: backed_def)
  obtain r where "r \<in> Q \<inter> R \<inter> g_correct S"
    using quorums_intersect [OF assms(1) Q(1,2) R(1,2)] by blast
  then show ?thesis using that Q(3) R(3) by blast
qed

text \<open>At one level only one block has the votes of a quorum.\<close>

lemma backed_unique:
  assumes grp: "group_ok S" and inv: "system_inv S G" and ok: "hashes_agree S G"
    and "backed S G x" "hash_level S G n x" and "backed S G y" "hash_level S G n y"
  shows "x = y"
proof -
  obtain r where r: "r \<in> g_correct S" "voted (G r) x" "voted (G r) y"
    using backed_common [OF grp assms(4,6)] by blast
  note wf = system_invD(1) [OF inv r(1)] and tree = system_tree [OF inv ok]
  obtain a where a: "delivered (c_storage (G r)) a" "blk_hash (blk (G r) a) = x"
    using voted_delivered [OF wf r(2)] by blast
  obtain b where b: "delivered (c_storage (G r)) b" "blk_hash (blk (G r) b) = y"
    using voted_delivered [OF wf r(3)] by blast
  have "height_of (c_storage (G r)) a = n" "height_of (c_storage (G r)) b = n"
    using level_unique [OF tree] height_level [OF inv r(1)] a b assms(5,7) by metis+
  then show ?thesis using voted_unique [OF wf] a b r by metis
qed

section \<open>Whatever a quorum votes for follows a committed block\<close>

text \<open>\<open>b\<close> is the tail of a three-chain \<open>b2\<close>, \<open>b1\<close>, \<open>b\<close> whose head is certified.\<close>

definition three_certs :: "group \<Rightarrow> system \<Rightarrow> uint256 \<Rightarrow> uint256 \<Rightarrow> uint256 \<Rightarrow> bool" where
  "three_certs S G b b1 b2 \<longleftrightarrow>
     parent_hash S G b2 b1 \<and> parent_hash S G b1 b \<and> cert_hash S G b2 b1 \<and> cert_hash S G b1 b \<and>
     (\<exists>n. cert_hash S G n b2)"

text \<open>Replicas that voted for the head of the chain later vote for descendants of its tail only.\<close>

definition votes_follow :: "group \<Rightarrow> system \<Rightarrow> system \<Rightarrow> uint256 \<Rightarrow> uint256 \<Rightarrow> nat \<Rightarrow> bool" where
  "votes_follow S T G b b2 k \<longleftrightarrow>
     (\<forall>r\<in>g_correct S. \<forall>w m. voted (G r) b2 \<longrightarrow> voted (G r) w \<longrightarrow> hash_level S T m w \<longrightarrow>
        k + 2 < m \<longrightarrow> (parent_hash S T)\<^sup>*\<^sup>* w b)"

lemma certified_follows:
  assumes grp: "group_ok S" and inv: "system_inv S T" and ok: "hashes_agree S T"
    and chain: "three_certs S T b b1 b2" and lb: "hash_level S T k b"
    and invG: "system_inv S G" and adv: "advances S G T" and follow: "votes_follow S T G b b2 k"
    and x: "x = common_genesis S \<or> backed S G x" and lx: "hash_level S T m x" and low: "k \<le> m"
  shows "(parent_hash S T)\<^sup>*\<^sup>* x b"
proof (cases "x = common_genesis S")
  case True
  note tree = system_tree [OF inv ok]
  have "m = 0" using level_unique [OF tree lx] True by (simp add: level_root)
  then have "b = common_genesis S" using lb low by (simp add: level_root)
  with True show ?thesis by simp
next
  case False
  note tree = system_tree [OF inv ok]
  have xG: "backed S G x" using x False by simp
  then have xT: "backed S T x" by (rule backed_mono [OF adv])
  have l1: "hash_level S T (k + 1) b1"
    using level_parent [of "parent_hash S T" b1 b, OF _ lb] chain by (simp add: three_certs_def)
  then have l2: "hash_level S T (k + 2) b2"
    using level_parent [of "parent_hash S T" b2 b1] chain by (simp add: three_certs_def)
  have p: "(parent_hash S T)\<^sup>*\<^sup>* b1 b" "(parent_hash S T)\<^sup>*\<^sup>* b2 b"
    using chain unfolding three_certs_def by (blast intro: converse_rtranclp_into_rtranclp)+
  have q2: "backed S T b2"
    using cert_hash_backed [OF inv] chain hash_tree_root [OF tree] unfolding three_certs_def by blast
  have same: "x = y" if "hash_level S T m y" "y = common_genesis S \<or> backed S T y" for y
  proof -
    have "y \<noteq> common_genesis S"
    proof
      assume "y = common_genesis S"
      then have "m = 0" using level_unique [OF tree that(1)] by (simp add: level_root)
      then show False using lx False by (simp add: level_root)
    qed
    then show ?thesis using backed_unique [OF grp inv ok xT lx _ that(1)] that(2) by blast
  qed
  consider "m = k" | "m = k + 1" | "m = k + 2" | "k + 2 < m" using low by linarith
  then show ?thesis
  proof cases
    case 1
    have "b = common_genesis S \<or> backed S T b"
      using cert_hash_backed [OF inv] chain by (auto simp: three_certs_def)
    with same [of b] lb 1 show ?thesis by simp
  next
    case 2
    have "b1 = common_genesis S \<or> backed S T b1"
      using cert_hash_backed [OF inv] chain by (auto simp: three_certs_def)
    with same [of b1] l1 2 p(1) show ?thesis by simp
  next
    case 3
    with same [of b2] l2 q2 p(2) show ?thesis by simp
  next
    case 4
    obtain r where r: "r \<in> g_correct S" "voted (G r) x" "voted (T r) b2"
      using backed_common [OF grp xG q2] by blast
    note g = advances_grows [OF adv invG r(1)]
    note wf = system_invD(1) [OF inv r(1)]
    obtain a where a: "delivered (c_storage (T r)) a" "blk_hash (blk (T r) a) = b2"
      using voted_delivered [OF wf r(3)] by blast
    obtain d where d: "delivered (c_storage (G r)) d" "blk_hash (blk (G r) d) = x"
      using voted_delivered [OF growsD(1) [OF g(1)] r(2)] by blast
    have dT: "delivered (c_storage (T r)) d" "blk_hash (blk (T r) d) = x"
      using grows_delivered [OF g(1) d(1)] d(2) by simp_all
    have ha: "height_of (c_storage (T r)) a = k + 2"
      using level_unique [OF tree height_level [OF inv r(1) a(1)]] l2 a(2) by simp
    have hd: "height_of (c_storage (T r)) d = m"
      using level_unique [OF tree height_level [OF inv r(1) dT(1)]] lx dT(2) by simp
    obtain new where "votes_of (c_outs (T r)) = votes_of (c_outs (G r)) @ new" using g(2) by blast
    then have "voted (G r) b2"
      using voted_before [OF wf, of "G r" new a d] a dT r(2,3) ha hd 4 by simp
    then show ?thesis using follow r(1,2) lx 4 unfolding votes_follow_def by blast
  qed
qed

text \<open>The step that casts a vote.\<close>

lemma cast_follows:
  assumes grp: "group_ok S" and inv: "system_inv S T" and ok: "chains_ok S T"
    and chain: "three_certs S T b b1 b2" and lb: "hash_level S T k b"
    and invG: "system_inv S G" and adv: "advances S G T" and follow: "votes_follow S T G b b2 k"
    and r: "r \<in> g_correct S" and c: "certs_backed S G c" "history_wf c" "grows (G r) c" "grows c (T r)"
    and cast: "casts (G r) c w" and b2: "voted c b2"
    and lw: "hash_level S T m (blk_hash (blk c w))" and high: "k + 2 < m"
  shows "(parent_hash S T)\<^sup>*\<^sup>* (blk_hash (blk c w)) b"
proof -
  note tree = system_tree [OF inv] and hok = ok [unfolded chains_ok_def, THEN conjunct1]
  have br: "certs_on_branch c"
    using grows_certs_on_branch [OF c(4)] ok r by (simp add: chains_ok_def)
  have wfc: "core_wf c" using c(3) by (rule growsD)
  note W = core_wfD(1) [OF wfc]
  have gen: "blk_hash (blk c (c_b0 c)) = common_genesis S"
    using grows_genesis [OF c(3)] system_invD(5) [OF invG r] by (simp add: genesis_hash_def)
  have level: "hash_level S T (height_of (c_storage c) d) (blk_hash (blk c d))"
    if "delivered (c_storage c) d" for d
    using height_level [OF inv r grows_delivered(1) [OF c(4) that]] grows_delivered [OF c(4) that] by simp
  have branch: "(parent_hash S T)\<^sup>*\<^sup>* (blk_hash (blk c d)) (blk_hash (blk c a))"
    if "delivered (c_storage c) d" "on_branch (c_storage c) a d" for a d
  proof -
    have "on_branch (c_storage (T r)) a d" using grows_branch [OF c(4) that(1)] that(2) by simp
    moreover have "delivered (c_storage c) a" using on_branch_height [OF W that(2,1)] by blast
    ultimately show ?thesis
      using branch_hash [OF inv r grows_delivered(1) [OF c(4) that(1)], of a]
        grows_delivered(4) [OF c(4) that(1)] grows_delivered(4) [OF c(4), of a] by simp
  qed
  have cert: "cert_hash S T (blk_hash (blk c d)) (blk_hash (blk c y)) \<and> delivered (c_storage c) y"
    if "delivered (c_storage c) d" "d \<noteq> c_b0 c" "blk_qc_ref (blk c d) = Some y" for d y
  proof -
    have "on_branch (c_storage c) y d" using br that(1,3) by (simp add: certs_on_branch_def)
    then have y: "delivered (c_storage c) y" using on_branch_height [OF W _ that(1)] by blast
    have "d \<noteq> c_b0 (T r)" using that(2) grows_roots(1) [OF c(4)] by simp
    then show ?thesis
      using cert_hashI [of r S T d y, OF r grows_delivered(1) [OF c(4) that(1)]] grows_qc_ref [OF c(4) that(1)]
        that(3) grows_delivered(4) [OF c(4) that(1)] grows_delivered(4) [OF c(4) y] y by simp
  qed
  have follows: "(parent_hash S T)\<^sup>*\<^sup>* (blk_hash (blk c x)) b"
    if "certified_ref c x" "delivered (c_storage c) x" "k \<le> height_of (c_storage c) x" for x
    using certified_follows [OF grp inv hok chain lb invG adv follow _ level [OF that(2)] that(3)]
      c(1) that(1) gen by (auto simp: certs_backed_def genesis_hash_def)
  \<comment> \<open>the lock is at least as high as \<open>b\<close>\<close>
  obtain a where a: "delivered (c_storage c) a" "blk_hash (blk c a) = b2"
    using voted_delivered [OF wfc b2] by blast
  have root: "d \<noteq> c_b0 c" if "parent_hash S T (blk_hash (blk c d)) p" for d p
    using hash_tree_root [OF tree [OF hok]] that gen by metis
  have "a \<noteq> c_b0 c" using root [of a] a(2) chain by (auto simp: three_certs_def)
  then obtain x where x: "blk_qc_ref (blk c a) = Some x"
    using store_wfD(3) [OF W a(1)] by (auto simp: delivered_wf_def)
  have xb: "blk_hash (blk c x) = b1" "delivered (c_storage c) x"
    using cert [OF a(1) \<open>a \<noteq> c_b0 c\<close> x] a(2) cert_hash_unique [OF inv hok] chain
    unfolding three_certs_def by blast+
  have "x \<noteq> c_b0 c" using root [of x] xb(1) chain by (auto simp: three_certs_def)
  then obtain y where y: "blk_qc_ref (blk c x) = Some y"
    using store_wfD(3) [OF W xb(2)] by (auto simp: delivered_wf_def)
  have yb: "blk_hash (blk c y) = b" "delivered (c_storage c) y"
    using cert [OF xb(2) \<open>x \<noteq> c_b0 c\<close> y] xb(1) cert_hash_unique [OF inv hok] chain
    unfolding three_certs_def by blast+
  have hy: "height_of (c_storage c) y = k"
    using level_unique [OF tree [OF hok] level [OF yb(2)]] yb(1) lb by simp
  have "locked_above c a" using c(2) br a b2 by (simp add: history_wf_def)
  then have hl: "k \<le> height_of (c_storage c) (c_b_lock c)" using x y hy by (auto simp: locked_above_def)
  have lock: "certified_ref c (c_b_lock c)" "delivered (c_storage c) (c_b_lock c)"
    using c(2) core_wfD(2) [OF wfc] by (simp_all add: history_wf_def roots_wf_def)
  have w: "delivered (c_storage c) w" using cast by (simp add: casts_def)
  from cast consider "on_branch (c_storage c) (c_b_lock c) w"
    | u where "blk_qc_ref (blk c w) = Some u" "height_of (c_storage c) (c_b_lock c) < height_of (c_storage c) u"
    by (auto simp: casts_def)
  then show ?thesis
  proof cases
    case 1
    show ?thesis using branch [OF w 1] follows [OF lock hl] by simp
  next
    case (2 u)
    have "w \<noteq> c_b0 c"
    proof
      assume "w = c_b0 c"
      then have "height_of (c_storage c) w = 0" using store_wfD(2) [OF W] by (simp add: genesis_wf_def)
      then show False using level_unique [OF tree [OF hok] level [OF w] lw] high by simp
    qed
    then have "certified_ref c u" "delivered (c_storage c) u"
      using w 2(1) cert [OF w] by (auto simp: certified_ref_def)
    then have "(parent_hash S T)\<^sup>*\<^sup>* (blk_hash (blk c u)) b" using follows hl 2(2) by simp
    moreover have "on_branch (c_storage c) u w" using br w 2(1) by (simp add: certs_on_branch_def)
    ultimately show ?thesis using branch [OF w] by fastforce
  qed
qed

lemma all_votes_follow:
  assumes grp: "group_ok S" and inv: "system_inv S T" and ok: "chains_ok S T"
    and chain: "three_certs S T b b1 b2" and lb: "hash_level S T k b"
    and start: "system_started S G0"
    and "(system_step S)\<^sup>*\<^sup>* G0 G" and "(system_step S)\<^sup>*\<^sup>* G T"
  shows "votes_follow S T G b b2 k"
  using assms(7,8)
proof (induction rule: rtranclp_induct)
  case base
  have "votes_of (c_outs (G0 r)) = []" if "r \<in> g_correct S" for r
    using start that start_history(2) unfolding system_started_def by metis
  then show ?case by (simp add: votes_follow_def voted_def)
next
  case (step G G')
  note tree = system_tree [OF inv ok [unfolded chains_ok_def, THEN conjunct1]]
  have steps: "(system_step S)\<^sup>*\<^sup>* G T" using step.hyps(2) step.prems by (rule converse_rtranclp_into_rtranclp)
  have invG: "system_inv S G" using system.steps_keep [OF step.hyps(1)] system_started_inv [OF start] by blast
  have invG': "system_inv S G'" using step.hyps(2) invG by (rule system_step_inv)
  have adv: "advances S G T" using system.steps_keep [OF steps invG] by blast
  have adv': "advances S G' T" using system.steps_keep [OF step.prems invG'] by blast
  have IH: "votes_follow S T G b b2 k" using step.IH [OF steps] .
  from step.hyps(2) invG obtain r c where
    c: "r \<in> g_correct S" "G' = G(r := c)" "certs_backed S G c" "history_wf c" "grows (G r) c"
      "moves (G r) c \<or> (\<exists>b. casts (G r) c b)" by (rule system_step_cases)
  have gT: "grows c (T r)" using advances_grows(1) [OF adv' invG' c(1)] c(2) by simp
  have "(parent_hash S T)\<^sup>*\<^sup>* w b"
    if s: "s \<in> g_correct S" and v: "voted (G' s) b2" "voted (G' s) w" and lw: "hash_level S T m w" "k + 2 < m" for s w m
  proof (cases "s = r \<and> \<not> (voted (G r) b2 \<and> voted (G r) w)")
    case False
    then show ?thesis using IH s v lw c(2) unfolding votes_follow_def by (metis fun_upd_apply)
  next
    case True
    then have vc: "voted c b2" "voted c w" using v c(2) by simp_all
    have wfc: "core_wf c" using c(5) by (rule growsD)
    have level: "height_of (c_storage c) d = n"
      if "delivered (c_storage c) d" "hash_level S T n (blk_hash (blk c d))" for d n
      using level_unique [OF tree height_level [OF inv c(1) grows_delivered(1) [OF gT that(1)]]]
        grows_delivered [OF gT that(1)] that(2) by simp
    obtain a where a: "delivered (c_storage c) a" "blk_hash (blk c a) = b2"
      using voted_delivered [OF wfc vc(1)] by blast
    obtain d where d: "delivered (c_storage c) d" "blk_hash (blk c d) = w"
      using voted_delivered [OF wfc vc(2)] by blast
    have "hash_level S T (k + 1) b1"
      using level_parent [of "parent_hash S T" b1 b, OF _ lb] chain by (simp add: three_certs_def)
    then have "hash_level S T (k + 2) b2"
      using level_parent [of "parent_hash S T" b2 b1] chain by (simp add: three_certs_def)
    then have low: "height_of (c_storage c) a < height_of (c_storage c) d"
      using level a d lw by simp
    have nw: "\<not> voted (G r) w"
    proof
      assume w: "voted (G r) w"
      obtain new where "votes_of (c_outs c) = votes_of (c_outs (G r)) @ new" using step_votes [OF c(6)] by blast
      then have "voted (G r) b2" using voted_before [OF wfc, of "G r" new a d] a d vc(1) w low by simp
      with w True show False by simp
    qed
    then obtain e where e: "casts (G r) c e" using c(6) vc(2) by (auto simp: moves_def voted_def)
    then have "w = blk_hash (blk c e)" using nw vc(2) by (auto simp: casts_def voted_def)
    then show ?thesis
      using cast_follows [OF grp inv ok chain lb invG adv IH c(1,3,4,5) gT e vc(1)] lw by simp
  qed
  then show ?case unfolding votes_follow_def by blast
qed

section \<open>Agreement\<close>

text \<open>The hashes of the blocks a replica executed, in order.\<close>

definition executed :: "core \<Rightarrow> uint256 list" where
  "executed c = map (\<lambda>b. blk_hash (blk c b)) (consensus_of (c_outs c))"

lemma executed_path:
  assumes inv: "system_inv S G" and r: "r \<in> g_correct S"
  shows "path (parent_hash S G) (common_genesis S # executed (G r))"
    and "last (common_genesis S # executed (G r)) = blk_hash (blk (G r) (c_b_exec (G r)))"
proof -
  let ?bs = "c_b0 (G r) # consensus_of (c_outs (G r))"
  have ex: "successively (parent_link (c_storage (G r))) ?bs" "last ?bs = c_b_exec (G r)"
    "\<forall>b\<in>set (consensus_of (c_outs (G r))). delivered (c_storage (G r)) b"
    using core_wfD(3) [OF system_invD(1) [OF inv r]] unfolding exec_wf_def Let_def by blast+
  have del: "delivered (c_storage (G r)) b" if "b \<in> set ?bs" for b
    using that ex(3) system_invD(6) [OF inv r] by auto
  have hashes: "common_genesis S # executed (G r) = map (\<lambda>b. blk_hash (blk (G r) b)) ?bs"
    using system_invD(5) [OF inv r] by (simp add: executed_def)
  show "path (parent_hash S G) (common_genesis S # executed (G r))"
    unfolding hashes successively_map
    using ex(1) by (rule successively_mono) (use link_hash [OF inv r] del in blast)
  show "last (common_genesis S # executed (G r)) = blk_hash (blk (G r) (c_b_exec (G r)))"
    unfolding hashes using ex(2) by (simp only: last_map list.distinct not_False_eq_True)
qed

text \<open>The executed block is the genesis block or the tail of a certified three-chain.\<close>

lemma executed_chain_certs:
  assumes inv: "system_inv S G" and r: "r \<in> g_correct S" and br: "certs_on_branch (G r)"
  defines "h \<equiv> blk_hash (blk (G r) (c_b_exec (G r)))"
  shows "h = common_genesis S \<or> (\<exists>b1 b2. three_certs S G h b1 b2)"
proof (cases "c_b_exec (G r) = c_b0 (G r)")
  case True
  then show ?thesis using system_invD(5) [OF inv r] by (simp add: h_def)
next
  case False
  let ?c = "G r"
  note W = system_invD(2) [OF inv r]
  obtain n b2 b1 where ch: "delivered (c_storage ?c) n" "n \<noteq> c_b0 ?c" "delivered (c_storage ?c) b2"
    "delivered (c_storage ?c) b1" "blk_qc_ref (blk ?c n) = Some b2" "blk_qc_ref (blk ?c b2) = Some b1"
    "blk_qc_ref (blk ?c b1) = Some (c_b_exec ?c)" "parent_link (c_storage ?c) b1 b2"
    "parent_link (c_storage ?c) (c_b_exec ?c) b1"
    using system_invD(3) [OF inv r] False by (auto simp: history_wf_def committed_ref_def)
  have ne: "b \<noteq> c_b0 ?c" if "parent_link (c_storage ?c) p b" for p b
    using that store_wfD(2) [OF W] by (auto simp: parent_link_def genesis_wf_def)
  have "three_certs S G h (blk_hash (blk ?c b1)) (blk_hash (blk ?c b2))"
    unfolding three_certs_def h_def
    using link_hash [OF inv r ch(3,8)] link_hash [OF inv r ch(4,9)]
      cert_hashI [of r S G b2 b1, OF r ch(3) ne [OF ch(8)] ch(6)]
      cert_hashI [of r S G b1 "c_b_exec ?c", OF r ch(4) ne [OF ch(9)] ch(7)]
      cert_hashI [of r S G n b2, OF r ch(1,2,5)] by blast
  then show ?thesis by blast
qed

lemma higher_follows:
  assumes grp: "group_ok S" and reach: "system_reachable S G" and ok: "chains_ok S G"
    and r: "r \<in> g_correct S" and s: "s \<in> g_correct S"
    and low: "height_of (c_storage (G r)) (c_b_exec (G r)) \<le> height_of (c_storage (G s)) (c_b_exec (G s))"
  shows "prefix (executed (G r)) (executed (G s))"
proof -
  let ?h = "\<lambda>r. blk_hash (blk (G r) (c_b_exec (G r)))"
  have inv: "system_inv S G" using reach by (rule system_reachable_inv)
  have hok: "hashes_agree S G" and br: "certs_on_branch (G q)" if "q \<in> g_correct S" for q
    using ok that by (simp_all add: chains_ok_def)
  note hok = hok [OF r]
  have del: "delivered (c_storage (G q)) (c_b_exec (G q))" if "q \<in> g_correct S" for q
    using core_wfD(2) [OF system_invD(1) [OF inv that]] by (simp add: roots_wf_def)
  note lr = height_level [OF inv r del [OF r]] and ls = height_level [OF inv s del [OF s]]
  have "(parent_hash S G)\<^sup>*\<^sup>* (?h s) (?h r)"
  proof (cases "?h r = common_genesis S")
    case True
    then show ?thesis using ls by (auto simp: at_level_def rtranclp_power)
  next
    case False
    then obtain b1 b2 where chain: "three_certs S G (?h r) b1 b2"
      using executed_chain_certs [OF inv r br [OF r]] by blast
    obtain G0 where G0: "system_started S G0" "(system_step S)\<^sup>*\<^sup>* G0 G"
      using reach by (auto simp: system_reachable_def)
    have follow: "votes_follow S G G (?h r) b2 (height_of (c_storage (G r)) (c_b_exec (G r)))"
      using all_votes_follow [OF grp inv ok chain lr G0] by simp
    have "?h s = common_genesis S \<or> backed S G (?h s)"
      using executed_chain_certs [OF inv s br [OF s]] cert_hash_backed [OF inv] by (auto simp: three_certs_def)
    from certified_follows [OF grp inv hok chain lr inv advances_refl follow this ls low] show ?thesis .
  qed
  then show ?thesis
    using path_prefix [OF system_tree [OF inv hok] executed_path(1) [OF inv r] executed_path(1) [OF inv s]]
    unfolding executed_path(2) [OF inv r] executed_path(2) [OF inv s] by blast
qed

text \<open>
  C1: Correct replicas agree: as long as fewer than a third of the replicas are faulty, signatures
  are not forged, hashes do not collide and certificates in blocks are for ancestors of the
  blocks, of any two correct replicas one has executed the blocks of the other, in the same
  order, and perhaps some more, whatever messages are delayed, lost, repeated or invented.
\<close>

theorem replicas_agree:
  assumes "group_ok S" and "system_reachable S G" and "chains_ok S G"
    and "r \<in> g_correct S" and "s \<in> g_correct S"
  shows "prefix (executed (G r)) (executed (G s)) \<or> prefix (executed (G s)) (executed (G r))"
  using higher_follows [OF assms(1-5)] higher_follows [OF assms(1-3,5,4)] nat_le_linear by blast

end
