(* ===== verification/GroupRuns.thy ===== *)
theory GroupRuns
  imports Agreement CoreExample
begin

text \<open>
  Runs of a group of four replicas, one of them faulty, on a given tree of blocks that the faulty
  one proposes. In the first run two correct replicas receive, deliver and vote for a chain of
  four blocks and execute the first one; in the second one a block carries a certificate of
  another branch, and two correct replicas execute different blocks.
\<close>

section \<open>Blocks from a table\<close>

text \<open>The number of the parent, of the certified block and the height of each block but the first.\<close>

record table =
  t_par :: "nat \<Rightarrow> nat"
  t_crt :: "nat \<Rightarrow> nat"
  t_hgt :: "nat \<Rightarrow> nat"

definition table_ok :: "table \<Rightarrow> bool" where
  "table_ok T \<longleftrightarrow>
     t_par T 0 = 0 \<and> t_crt T 0 = 0 \<and> t_hgt T 0 = 0 \<and>
     (\<forall>j. 1 \<le> j \<longrightarrow> t_par T j < j \<and> t_crt T j < j \<and> t_hgt T j = Suc (t_hgt T (t_par T j)))"

lemma table_okD:
  assumes "table_ok T"
  shows "t_par T 0 = 0" "t_crt T 0 = 0" "t_hgt T 0 = 0" "1 \<le> j \<Longrightarrow> t_par T j < j" "1 \<le> j \<Longrightarrow> t_crt T j < j"
    "1 \<le> j \<Longrightarrow> t_hgt T j = Suc (t_hgt T (t_par T j))"
  using assms by (simp_all add: table_ok_def)

lemma table_le: "table_ok T \<Longrightarrow> t_par T j \<le> j" "table_ok T \<Longrightarrow> t_crt T j \<le> j"
  using table_okD(1,2) [of T] table_okD(4,5) [of T j] by (cases "j = 0"; simp)+

definition table_hash :: "nat \<Rightarrow> uint256" where
  "table_hash j = (if j = 0 then 48 else word_of_nat (80 + j))"

text \<open>The blocks differ in the length of their extra data.\<close>

definition table_blk :: "table \<Rightarrow> nat \<Rightarrow> block" where
  "table_blk T j = (block_default sample_env)\<lparr>blk_parent_hashes := [table_hash (t_par T j)],
     blk_qc := Some (QuorumCertDummy (table_hash (t_crt T j))), blk_extra := replicate j 0,
     blk_hash := table_hash j\<rparr>"

definition table_bytes :: "table \<Rightarrow> nat \<Rightarrow> bytes" where
  "table_bytes T j = projr (put_block sample_env (table_blk T j))"

lemma table_hash_eq: "i < 100 \<Longrightarrow> j < 100 \<Longrightarrow> table_hash i = table_hash j \<longleftrightarrow> i = j"
proof -
  assume "i < 100" "j < 100"
  then have "unat (table_hash i) = (if i = 0 then 48 else 80 + i)" "unat (table_hash j) = (if j = 0 then 48 else 80 + j)"
    by (simp_all add: table_hash_def unat_of_nat del: of_nat_add)
  then have "table_hash i = table_hash j \<Longrightarrow> (if i = 0 then 48 else 80 + i) = (if j = 0 then 48 else 80 + j)"
    by simp
  then show ?thesis by (auto split: if_splits)
qed

lemma table_parse:
  assumes "0 < j" "j < 100"
  shows "get_block_data sample_env (table_bytes T j) = Inr (table_blk T j, [])"
proof -
  have put: "\<exists>s. put_block sample_env (table_blk T j) = Inr s \<and> length s = 80 + j"
    by (simp add: table_blk_def put_block_def put_vec_def put_blob_def block_default_def le_stream_def)
  then have "block_get_hash sample_env (table_blk T j) = Inr (blk_hash (table_blk T j))"
    using assms(1) by (auto simp: block_get_hash_def table_blk_def table_hash_def)
  moreover have "block_ok sample_env (table_blk T j)"
    using assms(2) by (simp add: block_ok_def table_blk_def block_default_def)
  moreover have "(block_content sample_env (table_blk T j))\<lparr>blk_hash := blk_hash (table_blk T j)\<rparr> = table_blk T j"
    by (simp add: block_content_def table_blk_def block_default_def)
  ultimately obtain s where s: "put_block sample_env (table_blk T j) = Inr s"
    "\<forall>r. get_block_data sample_env (s @ r) = Inr (table_blk T j, r)"
    using block_codec_total [of sample_env "table_blk T j"] le.laws by auto
  from s(2) have "get_block_data sample_env (s @ []) = Inr (table_blk T j, [])" by blast
  then show ?thesis by (simp add: table_bytes_def s(1))
qed

definition table_proposal :: "block_ref \<Rightarrow> proposal" where
  "table_proposal b = projr (new_proposal sample_env 3 sample_part (Some b) True)"

lemma table_proposal:
  "p_proposer (table_proposal b) = 3" "p_blk (table_proposal b) = Some b" "p_slice (table_proposal b) = sample_part"
  "slice_get_hash sample_env sample_part = Inr (p_s_hash (table_proposal b))"
  "validate (e_sha_hex sample_env) sample_part"
  using sample_part_hash by (auto simp: table_proposal_def new_proposal_def validate_def sample_part_def)

section \<open>The slices\<close>

text \<open>The container before and after the one slice that all proposals carry.\<close>

definition few_slices :: "shards_container \<Rightarrow> bool" where
  "few_slices sc \<longleftrightarrow>
     m_nodenum sc = 4 \<and> m_threshold sc = 3 \<and>
     (\<forall>h e. m_shards sc h = Some e \<longrightarrow> length (fst e) = 4 \<and>
        (snd e = 0 \<and> length (fst e ! 0) = 0 \<or> snd e = 1 \<and> length (fst e ! 0) = 1))"

lemma few_slices_default: "few_slices (set_pramas 4 sc_default)"
  by (simp add: few_slices_def set_pramas_def sc_default_def)

lemma few_slicesD:
  assumes "few_slices sc" and "m_shards sc h = Some (a, b)"
  shows "length a = 4" and "b = 0 \<and> length (a ! 0) = 0 \<or> b = 1 \<and> length (a ! 0) = 1"
proof -
  have "length (fst (a, b)) = 4 \<and>
      (snd (a, b) = 0 \<and> length (fst (a, b) ! 0) = 0 \<or> snd (a, b) = 1 \<and> length (fst (a, b) ! 0) = 1)"
    using assms unfolding few_slices_def by blast
  then show "length a = 4" and "b = 0 \<and> length (a ! 0) = 0 \<or> b = 1 \<and> length (a ! 0) = 1" by simp_all
qed

lemma few_slices_short:
  assumes "few_slices sc"
  shows "fst (get_block key out sc) \<noteq> 0"
proof (cases "m_shards sc key")
  case (Some e)
  obtain a b where e: "e = (a, b)" by force
  then have "b = 0 \<or> b = 1" using few_slicesD(2) [OF assms, of key a b] Some by blast
  then show ?thesis using assms Some e by (auto simp: few_slices_def get_block_def sc_entry_def)
qed (simp add: get_block_def)

lemma sample_slice_received:
  assumes "few_slices (c_sc c)"
  shows "fst (on_receive_slice sample_env sample_part c) = Inr ()"
    and "few_slices (c_sc (snd (on_receive_slice sample_env sample_part c)))"
proof -
  let ?h = "e_get_hex sample_env (m_blk_hash sample_part)"
  have ins: "\<exists>r sc. insert_shard ?h 0 [1] (c_sc c) = (Inr r, sc) \<and> few_slices sc"
  proof (cases "m_shards (c_sc c) ?h")
    case None
    then show ?thesis
      using assms by (auto simp: insert_shard_def new_block_def sc_entry_def few_slices_def Let_def)
  next
    case (Some e)
    obtain a b where e: "e = (a, b)" by force
    note D = few_slicesD [OF assms, of ?h a b]
    have "few_slices ((c_sc c)\<lparr>m_shards := (m_shards (c_sc c))(?h \<mapsto> (a[0 := [1]], 1))\<rparr>)"
      using assms D Some e by (simp add: few_slices_def)
    then show ?thesis
      using assms D Some e by (cases "length (a ! 0) = 0") (auto simp: insert_shard_def sc_entry_def Let_def)
  qed
  then obtain r sc where "insert_shard ?h 0 [1] (c_sc c) = (Inr r, sc)" "few_slices sc" by blast
  then show "fst (on_receive_slice sample_env sample_part c) = Inr ()"
    and "few_slices (c_sc (snd (on_receive_slice sample_env sample_part c)))"
    using table_proposal(5) by (simp_all add: on_receive_slice_def Let_def sample_part_def)
qed

text \<open>With so few slices nothing is decoded.\<close>

definition undecoded :: "core \<Rightarrow> bool" where
  "undecoded c \<longleftrightarrow> few_slices (c_sc c) \<and> c_futures c = Map.empty"

lemma undecoded_commit_blk: "undecoded c \<Longrightarrow> undecoded (snd (commit_blk E b c))"
  by (simp add: undecoded_def commit_blk_def Let_def emit_def)

lemma undecoded_commit: "undecoded c \<Longrightarrow> undecoded (snd (commit E b c))"
proof -
  assume c: "undecoded c"
  have all: "undecoded d \<Longrightarrow> undecoded (snd (commit_all E bs d))" for bs d
  proof (induction bs arbitrary: d)
    case (Cons b bs)
    show ?case
      unfolding commit_all.simps by (rule bindS_keeps) (use Cons undecoded_commit_blk in auto)
  qed simp
  have "undecoded (snd (bindS (commit_all E bs c) (\<lambda>_ c. (Inr (), c\<lparr>c_b_exec := b\<rparr>))))" for bs
    by (rule bindS_keeps, rule all [OF c]) (simp add: undecoded_def)
  with c show ?thesis by (simp add: commit_def split: sum.split prod.split)
qed

lemma undecoded_update: "undecoded c \<Longrightarrow> undecoded (snd (update E b c))"
proof -
  assume c: "undecoded c"
  have hqc: "undecoded (snd (update_hqc x q c))" for x q
    using c by (simp add: undecoded_def update_hqc_def on_hqc_update_def emit_def split: option.split)
  have sd: "start_decode E x d = d" if "undecoded d" for x d
  proof -
    obtain rst out where g: "get_block (e_get_hex E (blk_hash (blk d x))) [] (c_sc d) = (rst, out)" by force
    then have "rst \<noteq> 0" using few_slices_short that unfolding undecoded_def by (metis fst_conv)
    then show ?thesis by (simp add: start_decode_def g)
  qed
  have lk: "undecoded (lock_blk x d)" if "undecoded d" for x d
    using that by (simp add: lock_blk_def undecoded_def)
  define T where "T x2 y d = (case blk_qc_ref (blk d y) of
          None \<Rightarrow> (Inr (), d)
        | Some b \<Rightarrow> if blk_decision (blk d b) \<noteq> 0 then (Inr (), d)
            else case direct_parents x2 y b d of
                Inl e \<Rightarrow> (Inl e, d) | Inr False \<Rightarrow> (Inr (), d) | Inr True \<Rightarrow> commit E b d)" for x2 y d
  have T: "undecoded d \<Longrightarrow> undecoded (snd (T x2 y d))" for x2 y d
    using undecoded_commit by (auto simp: T_def split: option.split sum.split bool.split)
  have rest: "undecoded (snd (bindS (update_hqc x2 q c) (\<lambda>_ c. case blk_qc_ref (blk c x2) of
        None \<Rightarrow> (Inr (), c)
      | Some y \<Rightarrow> if blk_decision (blk c y) \<noteq> 0 then (Inr (), c)
          else T x2 y (lock_blk y (start_decode E y c)))))" for x2 q
    by (rule bindS_keeps, rule hqc) (auto simp: sd intro: T lk split: option.split)
  show ?thesis
  proof (cases "blk_qc_ref (blk c b)")
    case (Some x2)
    then show ?thesis
      using c rest [of x2 "blk_qc (blk c b)"] unfolding update_def T_def Let_def Some
      by (simp only: option.case split: if_split) simp
  qed (use c in \<open>simp add: update_def\<close>)
qed

section \<open>A replica on the table\<close>

text \<open>Exactly the first \<open>n\<close> blocks of the table are delivered, in their order.\<close>

definition table_blocks :: "table \<Rightarrow> nat \<Rightarrow> core \<Rightarrow> bool" where
  "table_blocks T n c \<longleftrightarrow>
     core_wf c \<and> c_b0 c = 0 \<and> (\<forall>j. delivered (c_storage c) j \<longleftrightarrow> j \<le> n) \<and>
     (\<forall>j\<le>n. blk_hash (blk c j) = table_hash j \<and>
        (j \<noteq> 0 \<longrightarrow> blk_parents (blk c j) = [t_par T j] \<and> blk_qc_ref (blk c j) = Some (t_crt T j)))"

text \<open>Its last vote had height \<open>v\<close>, it is locked on \<open>l\<close>, executed \<open>cs\<close> and voted for the blocks \<open>V\<close>.\<close>

definition table_state ::
  "table \<Rightarrow> replica_id \<Rightarrow> nat \<Rightarrow> nat \<Rightarrow> nat \<Rightarrow> nat list \<Rightarrow> nat set \<Rightarrow> core \<Rightarrow> bool" where
  "table_state T i n v l cs V c \<longleftrightarrow>
     table_blocks T n c \<and> c_id c = i \<and> next_ref (c_storage c) = Suc n \<and> unat (c_vheight c) = v \<and>
     \<not> c_vote_disabled c \<and> c_priv_key c = PrivKeyDummy \<and> undecoded c \<and> c_b_lock c = l \<and>
     consensus_of (c_outs c) = cs \<and> (\<forall>j\<in>V. voted c (table_hash j))"

lemma table_blocksD:
  assumes "table_blocks T n c" and ok: "table_ok T"
  shows "core_wf c" "store_wf 0 (c_storage c)" "c_b0 c = 0" "delivered (c_storage c) j \<longleftrightarrow> j \<le> n"
    "j \<le> n \<Longrightarrow> blk_hash (blk c j) = table_hash j"
    "j \<le> n \<Longrightarrow> parent_link (c_storage c) p j \<longleftrightarrow> j \<noteq> 0 \<and> p = t_par T j"
    "j \<le> n \<Longrightarrow> blk_qc_ref (blk c j) = Some (t_crt T j)"
proof -
  show wf: "core_wf c" and b0: "c_b0 c = 0" and "delivered (c_storage c) j \<longleftrightarrow> j \<le> n"
    and "j \<le> n \<Longrightarrow> blk_hash (blk c j) = table_hash j"
    using assms by (simp_all add: table_blocks_def)
  show W: "store_wf 0 (c_storage c)" using core_wfD(1) [OF wf] b0 by simp
  have gen: "blk_qc_ref (blk c 0) = Some 0" "blk_parents (blk c 0) = []"
    using store_wfD(2) [OF W] by (simp_all add: genesis_wf_def)
  have other: "\<forall>j\<le>n. j \<noteq> 0 \<longrightarrow> blk_parents (blk c j) = [t_par T j] \<and> blk_qc_ref (blk c j) = Some (t_crt T j)"
    using assms by (simp add: table_blocks_def)
  show "j \<le> n \<Longrightarrow> parent_link (c_storage c) p j \<longleftrightarrow> j \<noteq> 0 \<and> p = t_par T j"
    using gen(2) other by (cases "j = 0") (auto simp: parent_link_def)
  show "j \<le> n \<Longrightarrow> blk_qc_ref (blk c j) = Some (t_crt T j)"
    using gen(1) other table_okD(2) [OF ok] by (cases "j = 0") auto
qed

lemma table_height:
  assumes "table_blocks T n c" and ok: "table_ok T"
  shows "j \<le> n \<Longrightarrow> height_of (c_storage c) j = t_hgt T j"
proof (induction j rule: less_induct)
  case (less j)
  note B = table_blocksD [OF assms]
  show ?case
  proof (cases "j = 0")
    case True
    then show ?thesis using store_wfD(2) [OF B(2)] table_okD(3) [OF ok] by (simp add: genesis_wf_def)
  next
    case False
    have "height_of (c_storage c) j = Suc (height_of (c_storage c) (t_par T j))"
      using parent_link_delivered(2) [OF B(2)] B(4,6) less.prems False by blast
    then show ?thesis using less table_okD(4,6) [OF ok, of j] False by simp
  qed
qed

lemma table_on_branch:
  assumes "table_blocks T n c" and ok: "table_ok T"
  shows "b \<le> n \<Longrightarrow> on_branch (c_storage c) ((t_par T ^^ k) b) b"
proof (induction k arbitrary: b)
  case (Suc k)
  have "on_branch (c_storage c) (t_par T b) b"
    using table_blocksD(6) [OF assms Suc.prems] table_okD(1) [OF ok] unfolding on_branch_def
    by (cases "b = 0") auto
  moreover have "on_branch (c_storage c) ((t_par T ^^ k) (t_par T b)) (t_par T b)"
    using Suc.IH [of "t_par T b"] Suc.prems table_le(1) [OF ok, of b] by simp
  ultimately show ?case unfolding funpow_Suc_right comp_def by (blast intro: on_branch_trans)
qed simp

lemma table_certified:
  assumes "table_blocks T n c" and ok: "table_ok T" and "certified_ref c x"
  shows "x = 0 \<or> (\<exists>j. 1 \<le> j \<and> j \<le> n \<and> x = t_crt T j)"
  using assms(3) table_blocksD(3,4,7) [OF assms(1,2)] unfolding certified_ref_def
  by (metis One_nat_def Suc_leI neq0_conv option.inject)

text \<open>The path to a block from the first one.\<close>

fun table_path :: "table \<Rightarrow> nat \<Rightarrow> nat \<Rightarrow> nat list" where
  "table_path T 0 b = []"
| "table_path T (Suc k) b = table_path T k (t_par T b) @ [b]"

lemma table_path_unique:
  assumes "table_blocks T n c" and ok: "table_ok T"
  shows "successively (parent_link (c_storage c)) (0 # cs) \<Longrightarrow> last (0 # cs) \<le> n \<Longrightarrow>
    cs = table_path T (t_hgt T (last (0 # cs))) (last (0 # cs))"
proof (induction cs rule: rev_induct)
  case Nil
  then show ?case using table_okD(3) [OF ok] by simp
next
  case (snoc z cs)
  note B = table_blocksD [OF assms]
  have l: "parent_link (c_storage c) (last (0 # cs)) z" "successively (parent_link (c_storage c)) (0 # cs)"
    using successively_append_iff [of "parent_link (c_storage c)" "0 # cs" "[z]"] snoc.prems(1) by simp_all
  have z: "z \<le> n" "z \<noteq> 0" "last (0 # cs) = t_par T z" using B(6) [of z] l(1) snoc.prems(2) by simp_all
  then have "cs = table_path T (t_hgt T (t_par T z)) (t_par T z)"
    using snoc.IH [OF l(2)] table_le(1) [OF ok, of z] by simp
  then show ?case using table_okD(6) [OF ok, of z] z(2) by simp
qed

lemma table_stateD:
  assumes "table_state T i n v l cs V c"
  shows "table_blocks T n c" "c_id c = i" "next_ref (c_storage c) = Suc n" "unat (c_vheight c) = v"
    "\<not> c_vote_disabled c" "c_priv_key c = PrivKeyDummy" "undecoded c" "c_b_lock c = l"
    "consensus_of (c_outs c) = cs" "j \<in> V \<Longrightarrow> voted c (table_hash j)"
  using assms by (simp_all add: table_state_def)

text \<open>What is decided, and what is executed.\<close>

lemma table_decided:
  assumes "table_blocks T n c" and ok: "table_ok T"
  defines "cs \<equiv> consensus_of (c_outs c)"
  shows "j \<le> n \<Longrightarrow> blk_decision (blk c j) \<noteq> 0 \<longleftrightarrow> j \<in> set (0 # cs)" and "c_b_exec c = last (0 # cs)"
    and "cs = table_path T (t_hgt T (c_b_exec c)) (c_b_exec c)"
proof -
  note B = table_blocksD [OF assms(1,2)]
  have ex: "successively (parent_link (c_storage c)) (0 # cs)" "last (0 # cs) = c_b_exec c"
    "\<forall>r<next_ref (c_storage c). blk_decision (blk c r) \<noteq> 0 \<longleftrightarrow> r \<in> set (0 # cs)"
    using core_wfD(3) [OF B(1)] B(3) unfolding exec_wf_def Let_def cs_def by simp_all
  show "j \<le> n \<Longrightarrow> blk_decision (blk c j) \<noteq> 0 \<longleftrightarrow> j \<in> set (0 # cs)"
    using ex(3) delivered_next [of "c_storage c" j] B(4) by blast
  show "c_b_exec c = last (0 # cs)" using ex(2) by simp
  have "c_b_exec c \<le> n" using core_wfD(2) [OF B(1)] B(4) by (simp add: roots_wf_def)
  then show "cs = table_path T (t_hgt T (c_b_exec c)) (c_b_exec c)"
    using table_path_unique [OF assms(1,2) ex(1)] unfolding ex(2) by simp
qed

section \<open>The update\<close>

definition table_chain :: "table \<Rightarrow> nat list \<Rightarrow> nat \<Rightarrow> bool" where
  "table_chain T cs n \<longleftrightarrow>
     (let x = t_crt T n; y = t_crt T x; z = t_crt T y in
      t_par T x = y \<and> t_par T y = z \<and> x \<notin> set (0 # cs) \<and> y \<notin> set (0 # cs) \<and> z \<notin> set (0 # cs))"

definition table_lock :: "table \<Rightarrow> nat list \<Rightarrow> nat \<Rightarrow> nat \<Rightarrow> nat" where
  "table_lock T cs l n =
     (let x = t_crt T n; y = t_crt T x in
      if x \<in> set (0 # cs) \<or> y \<in> set (0 # cs) then l else if t_hgt T l < t_hgt T y then y else l)"

lemma table_three_chain:
  assumes "table_blocks T n c" and ok: "table_ok T"
  shows "three_chain c n b \<longleftrightarrow> table_chain T (consensus_of (c_outs c)) n \<and> b = t_crt T (t_crt T (t_crt T n))"
proof -
  note B = table_blocksD [OF assms] and D = table_decided [OF assms]
  have le: "t_crt T n \<le> n" "t_crt T (t_crt T n) \<le> n" "t_crt T (t_crt T (t_crt T n)) \<le> n"
    using table_le(2) [OF ok] le_trans by blast+
  show ?thesis
    using B(7) [of n] B(7) [OF le(1)] B(7) [OF le(2)] B(6) [OF le(1)] B(6) [OF le(2)]
      D(1) [OF le(1)] D(1) [OF le(2)] D(1) [OF le(3)]
    by (auto simp: three_chain_def table_chain_def Let_def)
qed

lemma table_update:
  assumes c: "table_blocks T n c" and ok: "table_ok T" and u: "undecoded c"
    and br: "table_chain T (consensus_of (c_outs c)) n \<Longrightarrow>
      \<exists>k. (t_par T ^^ k) (t_crt T (t_crt T (t_crt T n))) = c_b_exec c"
    and run: "update E n c = (r, c')"
  shows "r = Inr () \<and> undecoded c' \<and> c_b_lock c' = table_lock T (consensus_of (c_outs c)) (c_b_lock c) n \<and>
    (if table_chain T (consensus_of (c_outs c)) n then c_b_exec c' = t_crt T (t_crt T (t_crt T n))
     else consensus_of (c_outs c') = consensus_of (c_outs c))"
proof -
  let ?cs = "consensus_of (c_outs c)" and ?z = "t_crt T (t_crt T (t_crt T n))"
  note B = table_blocksD [OF c ok] and D = table_decided [OF c ok] and U = update_decides [OF B(1) _ run]
  have nr: "n < next_ref (c_storage c)" using delivered_next B(4) [of n] by blast
  have u': "undecoded c'" using undecoded_update [OF u, of E n] run by simp
  have le: "t_crt T n \<le> n" "t_crt T (t_crt T n) \<le> n" "?z \<le> n" using table_le(2) [OF ok] le_trans by blast+
  have ll: "c_b_lock c \<le> n" using core_wfD(2) [OF B(1)] B(4) by (simp add: roots_wf_def)
  have lock: "c_b_lock c' = table_lock T ?cs (c_b_lock c) n"
    using update_lock [OF B(1) nr run] B(7) [of n] B(7) [OF le(1)] D(1) [OF le(1)] D(1) [OF le(2)]
      table_height [OF c ok le(2)] table_height [OF c ok ll]
    by (auto simp: table_lock_def Let_def height_of_def word_less_nat_alt)
  show ?thesis
  proof (cases "table_chain T ?cs n")
    case False
    then show ?thesis using U [OF nr] table_three_chain [OF c ok] u' lock by simp
  next
    case True
    have "on_branch (c_storage c) (c_b_exec c) ?z" using br [OF True] table_on_branch [OF c ok le(3)] by metis
    then have "case r of Inl e \<Rightarrow> \<exists>k. c_futures c' k = Some (Inl e) | Inr _ \<Rightarrow> c_b_exec c' = ?z"
      using U [OF nr] True table_three_chain [OF c ok] by (auto split: sum.splits)
    then show ?thesis using u' True lock by (cases r) (auto simp: undecoded_def)
  qed
qed

section \<open>One block\<close>

text \<open>It is fetched \<dots>\<close>

lemma table_fetch:
  assumes c: "table_state T i n v l cs V c" and ok: "table_ok T" and n: "n < 90"
  defines "d \<equiv> store_blk (table_blk T (Suc n)) c"
  shows "run_call sample_env (Fetch (table_bytes T (Suc n))) c = (Inr (), d)" and "table_blocks T n d"
    and "next_ref (c_storage d) = Suc (Suc n)"
    and "blk d (Suc n) = table_blk T (Suc n)" and "\<And>j. j \<le> n \<Longrightarrow> blk d j = blk c j"
    and "\<And>j. j \<le> n \<Longrightarrow> find_blk (c_storage d) (table_hash j) = Some j" and "deliver_pre (Suc n) d"
proof -
  note C = table_stateD [OF c] and B = table_blocksD [OF table_stateD(1) [OF c] ok]
  have parse: "get_block_data sample_env (table_bytes T (Suc n)) = Inr (table_blk T (Suc n), [])"
    using n by (intro table_parse) simp_all
  show "run_call sample_env (Fetch (table_bytes T (Suc n))) c = (Inr (), d)" using parse by (simp add: d_def)
  have none: "find_blk (c_storage c) (blk_hash (table_blk T (Suc n))) = None"
  proof (rule ccontr)
    assume "find_blk (c_storage c) (blk_hash (table_blk T (Suc n))) \<noteq> None"
    then obtain r where "find_blk (c_storage c) (blk_hash (table_blk T (Suc n))) = Some r" by auto
    from find_blkD [OF B(2) this] C(3) B(5) [of r] have "r \<le> n" "table_hash r = table_hash (Suc n)"
      by (simp_all add: table_blk_def)
    then show False using table_hash_eq [of r "Suc n"] n by simp
  qed
  have wf: "core_wf d"
    unfolding d_def using store_blk_wf [OF B(1) get_block_data_fresh [OF parse]] by blast
  show nx: "next_ref (c_storage d) = Suc (Suc n)" and new: "blk d (Suc n) = table_blk T (Suc n)"
    and old: "\<And>j. j \<le> n \<Longrightarrow> blk d j = blk c j"
    using C(3) by (simp_all add: d_def store_blk_def add_blk_new [OF none])
  have del: "delivered (c_storage d) j \<longleftrightarrow> j \<le> n" for j
  proof (cases "j \<le> n")
    case True
    then show ?thesis using B(4) [of j] old nx by (simp add: delivered_def)
  next
    case False
    then show ?thesis using new nx by (cases "j = Suc n") (auto simp: delivered_def table_blk_def block_default_def)
  qed
  have "c_b0 d = 0" using B(3) by (simp add: d_def store_blk_def)
  then show blocks: "table_blocks T n d"
    using wf del old C(1) by (simp add: table_blocks_def)
  show found: "\<And>j. j \<le> n \<Longrightarrow> find_blk (c_storage d) (table_hash j) = Some j"
  proof -
    fix j assume "j \<le> n"
    then show "find_blk (c_storage d) (table_hash j) = Some j"
      using find_stored [OF table_blocksD(2) [OF blocks ok], of j] nx table_blocksD(5) [OF blocks ok, of j] by simp
  qed
  have "t_par T (Suc n) \<le> n" "t_crt T (Suc n) \<le> n" using table_okD(4,5) [OF ok, of "Suc n"] by simp_all
  then show "deliver_pre (Suc n) d"
    using found [of "t_par T (Suc n)"] found [of "t_crt T (Suc n)"] del [of "t_par T (Suc n)"] nx new
    by (simp add: deliver_pre_def table_blk_def block_default_def is_blk_delivered_def is_blk_fetched_def
        find_blk_def delivered_def)
qed

text \<open>\<dots> delivered \<dots>\<close>

lemma table_deliver:
  assumes c: "table_state T i n v l cs V c" and ok: "table_ok T" and n: "n < 90"
  defines "d \<equiv> store_blk (table_blk T (Suc n)) c"
  defines "e \<equiv> deliver_state (Suc n) d"
  shows "run_call sample_env (Deliver (Suc n)) d = (Inr (), e)" and "table_state T i (Suc n) v l cs V e"
proof -
  let ?p = "t_par T (Suc n)" and ?q = "t_crt T (Suc n)"
  note C = table_stateD [OF c] and F = table_fetch [OF c ok n, folded d_def]
  note D = table_blocksD [OF F(2) ok]
  have le: "?p \<le> n" "?q \<le> n" using table_okD(4,5) [OF ok, of "Suc n"] by simp_all
  show "run_call sample_env (Deliver (Suc n)) d = (Inr (), e)"
    using on_deliver_blk_pre [OF D(1) F(7)] by (simp add: e_def bindS_def)
  have e: "core_wf e" "extends d e" "delivered (c_storage e) (Suc n)"
    using deliver_state_wf [OF D(1) F(7)] F(3) n by (simp_all add: e_def)
  have heap: "blk e = (blk d)(Suc n := (table_blk T (Suc n))\<lparr>blk_parents := [?p],
      blk_height := blk_height (blk d ?p) + 1, blk_qc_ref := Some ?q, blk_delivered := True\<rparr>)"
    using F(4) F(6) [OF le(1)] F(6) [OF le(2)]
    by (simp add: e_def deliver_state_def set_blk_def upd_blk_def table_blk_def Let_def fun_eq_iff)
  have same: "c_b0 e = 0" "next_ref (c_storage e) = Suc (Suc n)" "c_id e = i" "c_outs e = c_outs c"
    "c_vheight e = c_vheight c" "c_vote_disabled e = c_vote_disabled c" "c_priv_key e = c_priv_key c"
    "c_sc e = c_sc c" "c_futures e = c_futures c" "c_b_lock e = c_b_lock c"
    using D(3) F(3) C(2)
    by (simp_all add: e_def deliver_state_def set_blk_def upd_blk_def d_def store_blk_def Let_def)
  have del: "delivered (c_storage e) j \<longleftrightarrow> j \<le> Suc n" for j
    using e(3) D(4) [of j] heap same(2) F(3) by (cases "j = Suc n") (auto simp: delivered_def)
  have "table_blocks T (Suc n) e"
    unfolding table_blocks_def
  proof (intro conjI allI impI)
    fix j assume j: "j \<le> Suc n"
    show "blk_hash (blk e j) = table_hash j" using j heap D(5) [of j] by (simp add: table_blk_def)
    assume "j \<noteq> 0"
    then show "blk_parents (blk e j) = [t_par T j]" "blk_qc_ref (blk e j) = Some (t_crt T j)"
      using j heap F(2) by (auto simp: table_blocks_def)
  qed (use e(1) same(1) del in simp_all)
  then show "table_state T i (Suc n) v l cs V e"
    using C same by (simp add: table_state_def undecoded_def voted_def)
qed

text \<open>\<dots> and voted for.\<close>

lemma finish_keeps:
  "undecoded (snd (finish_proposal E p b s)) = undecoded s \<and>
   consensus_of (c_outs (snd (finish_proposal E p b s))) = consensus_of (c_outs s) \<and>
   c_vote_disabled (snd (finish_proposal E p b s)) = c_vote_disabled s \<and>
   c_priv_key (snd (finish_proposal E p b s)) = c_priv_key s"
proof -
  have qf: "c_sc (on_qc_finish r d) = c_sc d \<and> c_futures (on_qc_finish r d) = c_futures d \<and>
      consensus_of (c_outs (on_qc_finish r d)) = consensus_of (c_outs d) \<and>
      c_vote_disabled (on_qc_finish r d) = c_vote_disabled d \<and> c_priv_key (on_qc_finish r d) = c_priv_key d" for r d
    by (simp add: on_qc_finish_def emit_def split: option.split)
  have two: "consensus_of [x, y] = consensus_of [x] @ consensus_of [y]" for x y
    using consensus_of_append [of "[x]" "[y]"] by simp
  show ?thesis
    by (simp add: finish_proposal_def Let_def on_receive_proposal_fin_def emit_def undecoded_def qf two
        split: sum.split option.split)
qed


lemma table_vote:
  assumes e: "table_state T i n v l cs V e" and ok: "table_ok T" and i: "i \<noteq> 3"
    and br: "table_chain T cs n \<Longrightarrow> \<exists>k. (t_par T ^^ k) (t_crt T (t_crt T (t_crt T n))) = last (0 # cs)"
    and high: "v < t_hgt T n"
    and rule: "(\<exists>k. (t_par T ^^ k) n = table_lock T cs l n) \<or> t_hgt T (table_lock T cs l n) < t_hgt T (t_crt T n)"
  shows "\<exists>c'. run_call sample_env (ReceiveProposal (table_proposal n)) e = (Inr (), c') \<and>
    table_state T i n (t_hgt T n) (table_lock T cs l n)
      (if table_chain T cs n
       then let z = t_crt T (t_crt T (t_crt T n)) in table_path T (t_hgt T z) z else cs) (insert n V) c'"
proof -
  let ?E = sample_env and ?p = "table_proposal n" and ?l = "table_lock T cs l n"
  note C = table_stateD [OF e] and B = table_blocksD [OF table_stateD(1) [OF e] ok]
  obtain c1 where slice: "on_receive_slice ?E sample_part e = (Inr (), c1)" "few_slices (c_sc c1)"
    using sample_slice_received [of e] C(7) by (cases "on_receive_slice ?E sample_part e") (auto simp: undecoded_def)
  define c2 where "c2 = emit (DoBroadcastSlice sample_part) c1"
  have "same_roots e c1" "c_futures c1 = c_futures e" "c_vote_disabled c1 = c_vote_disabled e" "c_priv_key c1 = c_priv_key e"
    using slice(1) by (auto simp: on_receive_slice_def same_roots_def Let_def split: if_splits prod.splits)
  then have c2: "same_roots e c2" "c_futures c2 = c_futures e" "c_vote_disabled c2 = c_vote_disabled e"
    "c_priv_key c2 = c_priv_key e" "c_sc c2 = c_sc c1"
    using same_roots_trans [OF _ emit_same_roots [of "DoBroadcastSlice sample_part" c1]]
    by (simp_all add: c2_def) (simp_all add: emit_def)
  have st2: "c_storage c2 = c_storage e" "c_b0 c2 = 0" "c_id c2 = i" "consensus_of (c_outs c2) = cs" "c_b_lock c2 = l"
    using c2(1) B(3) C(2,8,9) by (simp_all add: same_roots_def)
  have wf2: "core_wf c2" using same_roots_wf [OF c2(1) B(1)] core_wfD(5) [OF B(1)] futures_wf_cong [OF c2(2)] by blast
  have cb2: "table_blocks T n c2" using C(1) wf2 st2(1,2) by (simp add: table_blocks_def)
  have un2: "undecoded c2" using C(7) slice(2) c2(2,5) by (simp add: undecoded_def)
  obtain r s where up: "update ?E n c2 = (r, s)" by force
  have "c_b_exec c2 = last (0 # cs)" using table_decided(2) [OF cb2 ok] st2(4) by simp
  then have s: "r = Inr ()" "undecoded s" "c_b_lock s = ?l"
    "if table_chain T cs n then c_b_exec s = t_crt T (t_crt T (t_crt T n)) else consensus_of (c_outs s) = cs"
    using table_update [OF cb2 ok un2 _ up] br st2(4,5) by simp_all
  have b2: "n < next_ref (c_storage c2)" using st2(1) C(3) by simp
  have g: "grows c2 s" using update_grows [OF wf2 b2 up] s(1) by simp
  have sv: "same_votes c2 s" using update_votes [of c2 ?E n] up by simp
  have nxs: "next_ref (c_storage s) = Suc n" using same_shape_fields(1) [OF update_shape [OF up]] st2(1) C(3) by simp
  have wfs: "core_wf s" using g by (rule growsD)
  have cbs: "table_blocks T n s"
  proof -
    have "delivered (c_storage s) = delivered (c_storage c2)" using same_shape_views(1) [OF update_shape [OF up]] .
    then show ?thesis
      using cb2 wfs grows_roots(1) [OF g] same_shape_fields(4,6,7) [OF update_shape [OF up]]
      by (simp add: table_blocks_def)
  qed
  have cons: "consensus_of (c_outs s) = (if table_chain T cs n
      then let z = t_crt T (t_crt T (t_crt T n)) in table_path T (t_hgt T z) z else cs)"
  proof (cases "table_chain T cs n")
    case True
    then show ?thesis using s(4) table_decided(3) [OF cbs ok] by (simp add: Let_def)
  qed (use s(4) in simp)
  have vs: "c_vheight s = c_vheight e" "votes_of (c_outs s) = votes_of (c_outs e)" "\<not> c_vote_disabled s"
    "c_priv_key s = PrivKeyDummy" "c_id s = i"
    using sv c2(1,3,4) C(5,6) st2(3) grows_roots(2) [OF g] by (simp_all add: same_votes_def same_roots_def)
  obtain r' c' where fin: "finish_proposal ?E ?p n s = (r', c')" by force
  have ll: "?l \<le> n"
    using core_wfD(2) [OF wfs] table_blocksD(4) [OF cbs ok] s(3) by (simp add: roots_wf_def)
  have branch: "on_branch (c_storage s) ?l n \<or> t_hgt T ?l < t_hgt T (t_crt T n)"
    using rule table_on_branch [OF cbs ok, of n] by (metis order_refl)
  have "vote_rule s n"
    using branch table_height [OF cbs ok, of n] table_height [OF cbs ok ll]
      table_height [OF cbs ok table_le(2) [OF ok]] table_blocksD(7) [OF cbs ok, of n] s(3) vs(1) C(4) high
    by (auto simp: vote_rule_def)
  note rule = this
  have bs: "n < next_ref (c_storage s)" using nxs by simp
  have r': "r' = Inr ()" and F: "c_vheight c' = blk_height (blk s n)" "voted c' = (\<lambda>h. voted e h \<or> h = table_hash n)"
    using finish_votes [OF wfs bs fin] rule vs(2-4) table_blocksD(5) [OF cbs ok, of n]
    by (auto simp: voting_def Let_def voted_def fun_eq_iff)
  have same: "c_storage c' = c_storage s" "c_b_lock c' = ?l"
    using finish_roots [of ?E ?p n s] fin s(3) by simp_all
  have keeps: "undecoded c'" "consensus_of (c_outs c') = consensus_of (c_outs s)" "\<not> c_vote_disabled c'"
    "c_priv_key c' = PrivKeyDummy"
    using finish_keeps [of ?E ?p n s] fin s(2) vs(3,4) by simp_all
  have wf': "core_wf c'" "extends s c'" using finish_proposal_wf [OF wfs bs fin] by simp_all
  have "table_blocks T n c'" using cbs wf' same(1) by (simp add: table_blocks_def extends_def)
  moreover have "unat (c_vheight c') = t_hgt T n"
    using table_height [OF cbs ok, of n] F(1) by (simp add: height_of_def)
  moreover have "voted c' (table_hash j)" if "j \<in> insert n V" for j
    using C(10) that F(2) by (cases "j = n") simp_all
  ultimately have "table_state T i n (t_hgt T n) ?l (if table_chain T cs n
      then let z = t_crt T (t_crt T (t_crt T n)) in table_path T (t_hgt T z) z else cs) (insert n V) c'"
    using wf'(2) vs(5) nxs same keeps cons by (simp add: table_state_def extends_def)
  moreover have "on_receive_proposal ?E ?p e = (Inr (), c')"
  proof -
    have "p_proposer ?p \<noteq> c_id c2" using i st2(3) by (simp add: table_proposal(1))
    moreover have "blk_delivered (blk c2 n)" using table_blocksD(4) [OF cb2 ok, of n] by (simp add: delivered_def)
    ultimately show ?thesis
      using slice(1) up s(1) fin r'
      by (simp add: on_receive_proposal_def table_proposal(1-3,5) table_proposal(4) [of n]
          sanity_check_delivered_def Let_def bindS_def c2_def)
  qed
  ultimately show ?thesis by auto
qed

section \<open>The group\<close>

definition sample_group :: group where
  "sample_group = \<lparr>g_env = sample_env,
     g_replicas = [(1, PubKeyDummy), (2, PubKeyDummy), (3, PubKeyDummy), (4, PubKeyDummy)],
     g_nfaulty = 1, g_correct = {0, 1, 2}\<rparr>"

lemma sample_group_simps [simp]:
  "g_env sample_group = sample_env" "length (g_replicas sample_group) = 4" "g_nfaulty sample_group = 1"
  "g_correct sample_group = {0, 1, 2}"
  by (simp_all add: sample_group_def)

lemma sample_members: "members sample_group = {0, 1, 2, 3}"
proof -
  have "{..<4 :: nat} = {0, 1, 2, 3}" by auto
  then show ?thesis by (simp add: members_def)
qed

lemma sample_group_ok: "group_ok sample_group"
proof -
  have "{0, 1, 2, 3} - {0, 1, 2} = {3 :: replica_id}" by auto
  then show ?thesis by (simp add: group_ok_def sample_members)
qed

text \<open>What the replicas 0 and 1 voted for has a quorum, with the faulty one.\<close>

lemma sample_backed:
  assumes "voted (G 0) h" and "voted (G 1) h"
  shows "backed sample_group G h"
  unfolding backed_def
proof (intro exI [of _ "{0, 1, 3}"] conjI ballI)
  show "quorum_size sample_group \<le> card {0, 1, 3 :: replica_id}" by (simp add: quorum_size_def)
  show "voted (G r) h" if "r \<in> {0, 1, 3} \<inter> g_correct sample_group" for r using that assms by auto
qed (simp add: sample_members)

definition certs_voted :: "table \<Rightarrow> nat \<Rightarrow> system \<Rightarrow> bool" where
  "certs_voted T n G \<longleftrightarrow>
     (\<forall>j. 1 \<le> j \<longrightarrow> j \<le> n \<longrightarrow> t_crt T j = 0 \<or>
        voted (G 0) (table_hash (t_crt T j)) \<and> voted (G 1) (table_hash (t_crt T j)))"

lemma table_certs_backed:
  assumes c: "table_blocks T n c" and ok: "table_ok T" and m: "n \<le> m" "certs_voted T m G"
  shows "certs_backed sample_group G c"
  unfolding certs_backed_def
proof (intro allI impI)
  fix x assume "certified_ref c x"
  from table_certified [OF c ok this] consider "x = 0" | j where "1 \<le> j" "j \<le> n" "x = t_crt T j" by blast
  then show "blk_hash (blk c x) = genesis_hash c \<or> backed sample_group G (blk_hash (blk c x))"
  proof cases
    case 1
    then show ?thesis using table_blocksD(3) [OF c ok] by (simp add: genesis_hash_def)
  next
    case 2
    then have "x \<le> n" using table_le(2) [OF ok, of j] by simp
    then have "blk_hash (blk c x) = table_hash x" by (rule table_blocksD(5) [OF c ok])
    moreover have "x = 0 \<or> backed sample_group G (table_hash x)"
      using m 2 sample_backed [of G] unfolding certs_voted_def by (metis le_trans)
    ultimately show ?thesis using table_blocksD(3) [OF c ok] by (auto simp: genesis_hash_def)
  qed
qed

lemma deliver_step:
  assumes c: "table_state T r n v l cs V (G r)" and ok: "table_ok T" and n: "n < 90" and r: "r \<in> {0, 1, 2}"
    and q: "certs_voted T (Suc n) G"
  shows "\<exists>e. (system_step sample_group)\<^sup>*\<^sup>* G (G(r := e)) \<and> table_state T r (Suc n) v l cs V e \<and>
    voted e = voted (G r)"
proof -
  let ?S = sample_group
  define d where "d = store_blk (table_blk T (Suc n)) (G r)"
  define e where "e = deliver_state (Suc n) d"
  note F = table_fetch [OF c ok n, folded d_def] and D = table_deliver [OF c ok n, folded d_def e_def]
  have votes: "voted d = voted (G r)" "voted e = voted (G r)"
    by (simp_all add: voted_def d_def e_def store_blk_def deliver_state_def set_blk_def Let_def fun_eq_iff)
  have q': "certs_voted T (Suc n) (G(r := d))" using q votes(1) by (simp add: certs_voted_def)
  have r': "r \<in> g_correct ?S" using r by simp
  have s1: "system_step ?S G (G(r := d))"
  proof (rule system_step.call [OF r'])
    show "certs_backed ?S G d" using table_certs_backed [OF F(2) ok _ q] by simp
    show "run_call (g_env ?S) (Fetch (table_bytes T (Suc n))) (G r) = (Inr (), d)" using F(1) by simp
  qed (use table_stateD(3) [OF c] n in \<open>simp_all add: foreign_def\<close>)
  have s2: "system_step ?S (G(r := d)) (G(r := d, r := e))"
  proof (rule system_step.call [OF r'])
    show "certs_backed ?S (G(r := d)) e"
      using table_certs_backed [OF table_stateD(1) [OF D(2)] ok _ q'] by simp
    show "run_call (g_env ?S) (Deliver (Suc n)) ((G(r := d)) r) = (Inr (), e)" using D(1) by simp
  qed (use F(3,7) n in \<open>simp_all add: foreign_def\<close>)
  have "(system_step ?S)\<^sup>*\<^sup>* G (G(r := e))" using s1 s2 by (simp add: rtranclp.rtrancl_into_rtrancl)
  with D(2) votes(2) show ?thesis by blast
qed

lemma vote_step:
  assumes c: "table_state T r n v l cs V (G r)" and ok: "table_ok T" and n: "n < 90" and r: "r \<in> {0, 1, 2}"
    and q: "certs_voted T n G"
    and br: "table_chain T cs n \<Longrightarrow> \<exists>k. (t_par T ^^ k) (t_crt T (t_crt T (t_crt T n))) = last (0 # cs)"
    and high: "v < t_hgt T n"
    and rule: "(\<exists>k. (t_par T ^^ k) n = table_lock T cs l n) \<or> t_hgt T (table_lock T cs l n) < t_hgt T (t_crt T n)"
  shows "\<exists>e. (system_step sample_group)\<^sup>*\<^sup>* G (G(r := e)) \<and>
    table_state T r n (t_hgt T n) (table_lock T cs l n)
      (if table_chain T cs n
       then let z = t_crt T (t_crt T (t_crt T n)) in table_path T (t_hgt T z) z else cs) (insert n V) e"
proof -
  let ?S = sample_group
  have r3: "r \<noteq> 3" using r by auto
  obtain e where e: "run_call sample_env (ReceiveProposal (table_proposal n)) (G r) = (Inr (), e)"
    "table_state T r n (t_hgt T n) (table_lock T cs l n)
      (if table_chain T cs n
       then let z = t_crt T (t_crt T (t_crt T n)) in table_path T (t_hgt T z) z else cs) (insert n V) e"
    using table_vote [OF c ok r3 br high rule] by blast
  have "system_step ?S G (G(r := e))"
  proof (rule system_step.call)
    show "certs_backed ?S G e" using table_certs_backed [OF table_stateD(1) [OF e(2)] ok _ q] by simp
    show "run_call (g_env ?S) (ReceiveProposal (table_proposal n)) (G r) = (Inr (), e)" using e(1) by simp
  qed (use table_stateD(2,3) [OF c] n r r3 in \<open>simp_all add: foreign_def table_proposal\<close>)
  with e(2) show ?thesis by blast
qed

section \<open>Two replicas in step\<close>

definition both :: "table \<Rightarrow> nat \<Rightarrow> nat \<Rightarrow> nat \<Rightarrow> nat list \<Rightarrow> nat set \<Rightarrow> system \<Rightarrow> bool" where
  "both T n v l cs V G \<longleftrightarrow> table_state T 0 n v l cs V (G 0) \<and> table_state T 1 n v l cs V (G 1)"

lemma both_certs:
  assumes "both T n v l cs V G" and "\<And>j. 1 \<le> j \<Longrightarrow> j \<le> m \<Longrightarrow> t_crt T j = 0 \<or> t_crt T j \<in> V"
  shows "certs_voted T m G"
  using assms(2) table_stateD(10) [of T 0 n v l cs V "G 0"] table_stateD(10) [of T 1 n v l cs V "G 1"] assms(1)
  unfolding both_def certs_voted_def by blast

lemma both_deliver:
  assumes b: "both T n v l cs V G" and ok: "table_ok T" and n: "n < 90"
    and crt: "\<And>j. 1 \<le> j \<Longrightarrow> j \<le> Suc n \<Longrightarrow> t_crt T j = 0 \<or> t_crt T j \<in> V"
  shows "\<exists>G'. (system_step sample_group)\<^sup>*\<^sup>* G G' \<and> both T (Suc n) v l cs V G' \<and> G' 2 = G 2"
proof -
  have q: "certs_voted T (Suc n) G" using both_certs [OF b crt] .
  have s: "table_state T 0 n v l cs V (G 0)" "table_state T 1 n v l cs V (G 1)" using b by (simp_all add: both_def)
  obtain e where e: "(system_step sample_group)\<^sup>*\<^sup>* G (G(0 := e))" "table_state T 0 (Suc n) v l cs V e"
    "voted e = voted (G 0)"
    using deliver_step [of T 0 n v l cs V G, OF s(1) ok n _ q] by blast
  let ?G = "G(0 := e)"
  have "certs_voted T (Suc n) ?G" using q e(3) by (simp add: certs_voted_def)
  then obtain f where f: "(system_step sample_group)\<^sup>*\<^sup>* ?G (?G(1 := f))" "table_state T 1 (Suc n) v l cs V f"
    using deliver_step [of T 1 n v l cs V ?G, OF _ ok n] s(2) by auto
  have "both T (Suc n) v l cs V (?G(1 := f))" using e(2) f(2) by (simp add: both_def)
  then show ?thesis using rtranclp_trans [OF e(1) f(1)] by (intro exI [of _ "?G(1 := f)"]) simp
qed

text \<open>The decisions that a vote leads to.\<close>

definition table_commit :: "table \<Rightarrow> nat list \<Rightarrow> nat \<Rightarrow> nat list" where
  "table_commit T cs n = (if table_chain T cs n
     then let z = t_crt T (t_crt T (t_crt T n)) in table_path T (t_hgt T z) z else cs)"

lemma both_vote:
  assumes b: "both T n v l cs V G" and ok: "table_ok T" and n: "n < 90"
    and crt: "\<And>j. 1 \<le> j \<Longrightarrow> j \<le> n \<Longrightarrow> t_crt T j = 0 \<or> t_crt T j \<in> V"
    and br: "table_chain T cs n \<Longrightarrow> \<exists>k. (t_par T ^^ k) (t_crt T (t_crt T (t_crt T n))) = last (0 # cs)"
    and high: "v < t_hgt T n"
    and rule: "(\<exists>k. (t_par T ^^ k) n = table_lock T cs l n) \<or> t_hgt T (table_lock T cs l n) < t_hgt T (t_crt T n)"
  shows "\<exists>G'. (system_step sample_group)\<^sup>*\<^sup>* G G' \<and>
    both T n (t_hgt T n) (table_lock T cs l n) (table_commit T cs n) (insert n V) G' \<and> G' 2 = G 2"
proof -
  have q: "certs_voted T n G" using both_certs [OF b crt] .
  have s: "table_state T 0 n v l cs V (G 0)" "table_state T 1 n v l cs V (G 1)" using b by (simp_all add: both_def)
  obtain e where e: "(system_step sample_group)\<^sup>*\<^sup>* G (G(0 := e))"
    "table_state T 0 n (t_hgt T n) (table_lock T cs l n) (table_commit T cs n) (insert n V) e"
    using vote_step [of T 0 n v l cs V G, OF s(1) ok n _ q br high rule] unfolding table_commit_def by blast
  let ?G = "G(0 := e)"
  have "certs_voted T n ?G"
    unfolding certs_voted_def
    using crt table_stateD(10) [OF e(2)] table_stateD(10) [OF s(2)]
    by (metis fun_upd_other fun_upd_same insertI2 zero_neq_one)
  then obtain f where f: "(system_step sample_group)\<^sup>*\<^sup>* ?G (?G(1 := f))"
    "table_state T 1 n (t_hgt T n) (table_lock T cs l n) (table_commit T cs n) (insert n V) f"
    using vote_step [of T 1 n v l cs V ?G, OF _ ok n _ _ br high rule] s(2) unfolding table_commit_def by auto
  have "both T n (t_hgt T n) (table_lock T cs l n) (table_commit T cs n) (insert n V) (?G(1 := f))"
    using e(2) f(2) by (simp add: both_def)
  then show ?thesis using rtranclp_trans [OF e(1) f(1)] by (intro exI [of _ "?G(1 := f)"]) simp
qed

section \<open>The start\<close>

definition sample_system :: system where
  "sample_system r = start_core sample_env (g_replicas sample_group) (g_nfaulty sample_group)
     (projr (hotstuff_core sample_env r PrivKeyDummy))"

lemma sample_system_started: "system_started sample_group sample_system"
proof -
  have "\<exists>c. hotstuff_core sample_env r PrivKeyDummy = Inr c" for r
    by (simp add: hotstuff_core_def sample_genesis parity_leo_def alloc_blk_def add_blk_ref_def
        empty_storage_def Let_def split: option.split)
  then show ?thesis unfolding system_started_def sample_system_def sample_group_simps by (metis sum.sel(2))
qed

lemma sample_system_state: "table_state T r 0 0 0 [] {} (sample_system r)"
proof -
  obtain c where c: "hotstuff_core sample_env r PrivKeyDummy = Inr c" "blk_hash (blk c 0) = 48" "c_sc c = sc_default"
    "c_priv_key c = PrivKeyDummy" "\<not> c_vote_disabled c" "c_id c = r" "c_vheight c = 0"
    by (simp add: hotstuff_core_def sample_genesis parity_leo_def alloc_blk_def add_blk_ref_def
      empty_storage_def Let_def split: option.split)
  note pre = hotstuff_core_pre_init [OF c(1), unfolded pre_init_def]
  have S: "sample_system r = start_core sample_env (g_replicas sample_group) 1 c"
    by (simp add: sample_system_def c(1))
  have wf: "core_wf (sample_system r)" unfolding S by (rule core_started_wf) (use c(1) core_started_def in blast)
  have "c_b0 (sample_system r) = 0 \<and> next_ref (c_storage (sample_system r)) = 1 \<and>
      blk_hash (blk (sample_system r) 0) = 48 \<and> blk_delivered (blk (sample_system r) 0) \<and>
      c_outs (sample_system r) = [] \<and> c_futures (sample_system r) = Map.empty \<and>
      c_sc (sample_system r) = set_pramas 4 sc_default \<and> c_priv_key (sample_system r) = PrivKeyDummy \<and>
      \<not> c_vote_disabled (sample_system r) \<and> c_id (sample_system r) = r \<and> c_vheight (sample_system r) = 0 \<and>
      c_b_lock (sample_system r) = 0"
    using c pre by (simp add: S start_core_def Let_def on_init_def add_replica_def set_blk_def upd_blk_def
        sample_group_def)
  then show ?thesis
    using wf few_slices_default
    by (auto simp: table_state_def table_blocks_def undecoded_def delivered_def table_hash_def)
qed

text \<open>In a run on a table hashes do not collide.\<close>

lemma table_hashes_agree:
  assumes c: "\<And>r. r \<in> {0, 1, 2} \<Longrightarrow> \<exists>n\<le>90. table_blocks T n (G r)" and ok: "table_ok T"
  shows "hashes_agree sample_group G"
proof -
  have content: "x < 100 \<and> blk_hash (blk (G r) x) = table_hash x \<and>
      blk_parent_hashes (blk (G r) x) = [table_hash (t_par T x)] \<and>
      map_option qc_obj_hash (blk_qc (blk (G r) x)) = Some (table_hash (t_crt T x))"
    if r: "r \<in> {0, 1, 2}" and x: "delivered (c_storage (G r)) x" "x \<noteq> c_b0 (G r)" for r x
  proof -
    obtain n where n: "n \<le> 90" "table_blocks T n (G r)" using c [OF r] by blast
    note B = table_blocksD [OF n(2) ok]
    have xn: "x \<le> n" "x \<noteq> 0" using x B(3,4) by simp_all
    then have "blk_parents (blk (G r) x) = [t_par T x]" "blk_qc_ref (blk (G r) x) = Some (t_crt T x)"
      using n(2) by (simp_all add: table_blocks_def)
    moreover have "delivered_wf (c_storage (G r)) x" using store_wfD(3) [OF B(2) x(1)] xn(2) by simp
    moreover have "t_par T x \<le> n" "t_crt T x \<le> n" using table_le [OF ok, of x] xn(1) by simp_all
    ultimately show ?thesis
      using n(1) xn B(5) [of x] B(5) [of "t_par T x"] B(5) [of "t_crt T x"] by (auto simp: delivered_wf_def)
  qed
  have "x = y" if "r \<in> {0, 1, 2}" "s \<in> {0, 1, 2}" "delivered (c_storage (G r)) x" "x \<noteq> c_b0 (G r)"
    "delivered (c_storage (G s)) y" "y \<noteq> c_b0 (G s)" "blk_hash (blk (G r) x) = blk_hash (blk (G s) y)" for r s x y
    using content [OF that(1,3,4)] content [OF that(2,5,6)] that(7) table_hash_eq [of x y] by simp
  then show ?thesis unfolding hashes_agree_def sample_group_simps using content by metis
qed

lemma table_executed:
  assumes "table_state T r n v l cs V c" and "table_ok T" and "\<forall>j\<in>set cs. j \<le> n"
  shows "executed c = map table_hash cs"
  using assms table_blocksD(5) [OF table_stateD(1) [OF assms(1)] assms(2)] table_stateD(9) [OF assms(1)]
  by (simp add: executed_def)

section \<open>A chain\<close>

definition line :: table where
  "line = \<lparr>t_par = (\<lambda>j. j - 1), t_crt = (\<lambda>j. j - 1), t_hgt = (\<lambda>j. j)\<rparr>"

lemma line_simps [simp]: "t_par line j = j - 1" "t_crt line j = j - 1" "t_hgt line j = j"
  by (simp_all add: line_def)

lemma line_ok: "table_ok line"
  by (simp add: table_ok_def)

lemma line_round:
  assumes "both line n n l cs {1..n} G" and "n < 4" and "cs = []"
  shows "\<exists>G'. (system_step sample_group)\<^sup>*\<^sup>* G G' \<and>
    both line (Suc n) (Suc n) (table_lock line cs l (Suc n)) (table_commit line cs (Suc n)) {1..Suc n} G' \<and> G' 2 = G 2"
proof -
  have crt: "t_crt line j = 0 \<or> t_crt line j \<in> {1..n}" if "1 \<le> j" "j \<le> Suc n" for j
    using that by auto
  have "n < 90" using assms(2) by simp
  from both_deliver [OF assms(1) line_ok this crt] obtain H where
    H: "(system_step sample_group)\<^sup>*\<^sup>* G H" "both line (Suc n) n l cs {1..n} H" "H 2 = G 2"
    by blast
  have pow: "(t_par line ^^ k) m = m - k" for k m by (induction k arbitrary: m) (simp_all add: funpow_swap1)
  have l: "l \<le> Suc n"
  proof -
    have t: "table_state line 0 (Suc n) n l cs {1..n} (H 0)" using H(2) by (simp add: both_def)
    then have "c_b_lock (H 0) \<le> Suc n"
      using core_wfD(2) [OF table_blocksD(1) [OF table_stateD(1) [OF t] line_ok]]
        table_blocksD(4) [OF table_stateD(1) [OF t] line_ok] by (simp add: roots_wf_def)
    then show ?thesis using table_stateD(8) [OF t] by simp
  qed
  then have "table_lock line cs l (Suc n) \<le> Suc n" by (auto simp: table_lock_def Let_def)
  then have anc: "\<exists>k. (t_par line ^^ k) (Suc n) = table_lock line cs l (Suc n)"
    by (intro exI [of _ "Suc n - table_lock line cs l (Suc n)"]) (simp add: pow)
  have "\<exists>K. (system_step sample_group)\<^sup>*\<^sup>* H K \<and>
      both line (Suc n) (t_hgt line (Suc n)) (table_lock line cs l (Suc n)) (table_commit line cs (Suc n))
        (insert (Suc n) {1..n}) K \<and> K 2 = H 2"
  proof (rule both_vote [OF H(2) line_ok])
    show "\<exists>k. (t_par line ^^ k) (t_crt line (t_crt line (t_crt line (Suc n)))) = last (0 # cs)"
      using assms(3) by (intro exI [of _ n]) (simp add: pow)
  qed (use assms(2) anc crt in auto)
  moreover have "insert (Suc n) {1..n} = {1..Suc n}" by auto
  ultimately show ?thesis using rtranclp_trans [OF H(1)] H(3) by (metis line_simps(3))
qed

lemma line_run:
  "\<exists>G. (system_step sample_group)\<^sup>*\<^sup>* sample_system G \<and> both line 4 4 2 [1] {1..4} G \<and> G 2 = sample_system 2"
proof -
  note eval = table_lock_def table_commit_def table_chain_def Let_def
  have "both line 0 0 0 [] {1..0} sample_system" using sample_system_state by (simp add: both_def)
  from line_round [OF this] obtain A where A: "(system_step sample_group)\<^sup>*\<^sup>* sample_system A"
    "both line 1 1 0 [] {1..1} A" "A 2 = sample_system 2" by (auto simp: eval)
  from line_round [OF A(2)] obtain B where B: "(system_step sample_group)\<^sup>*\<^sup>* A B"
    "both line 2 2 0 [] {1..2} B" "B 2 = A 2" by (auto simp: eval numeral_2_eq_2)
  from line_round [OF B(2)] obtain C where C: "(system_step sample_group)\<^sup>*\<^sup>* B C"
    "both line 3 3 1 [] {1..3} C" "C 2 = B 2" by (auto simp: eval)
  from line_round [OF C(2)] obtain D where D: "(system_step sample_group)\<^sup>*\<^sup>* C D"
    "both line 4 4 2 [1] {1..4} D" "D 2 = C 2" by (auto simp: eval)
  have "(system_step sample_group)\<^sup>*\<^sup>* sample_system D" using A(1) B(1) C(1) D(1) by (meson rtranclp_trans)
  then show ?thesis using A(3) B(3) C(3) D(2,3) by auto
qed

lemma replicas_agree_witness:
  "\<exists>G. system_reachable sample_group G \<and> executed (G 0) = [table_hash 1] \<and> executed (G 1) = [table_hash 1] \<and>
     (prefix (executed (G 2)) (executed (G 0)) \<or> prefix (executed (G 0)) (executed (G 2)))"
proof -
  obtain G where G: "(system_step sample_group)\<^sup>*\<^sup>* sample_system G" "table_state line 0 4 4 2 [1] {1..4} (G 0)"
    "table_state line 1 4 4 2 [1] {1..4} (G 1)" "table_state line 2 0 0 0 [] {} (G 2)"
    using line_run sample_system_state by (auto simp: both_def)
  have reach: "system_reachable sample_group G"
    using G(1) sample_system_started by (auto simp: system_reachable_def)
  have blocks: "\<exists>n\<le>90. table_blocks line n (G r)" if "r \<in> {0, 1, 2}" for r
    using that table_stateD(1) [OF G(2)] table_stateD(1) [OF G(3)] table_stateD(1) [OF G(4)]
    by (auto intro: exI [of _ 4] exI [of _ 0])
  have "certs_on_branch (G r)" if "r \<in> {0, 1, 2}" for r
  proof -
    obtain n where n: "table_blocks line n (G r)" using blocks [OF \<open>r \<in> {0, 1, 2}\<close>] by blast
    show ?thesis
      unfolding certs_on_branch_def
    proof (intro allI impI)
      fix b x assume b: "delivered (c_storage (G r)) b" "blk_qc_ref (blk (G r) b) = Some x"
      have bn: "b \<le> n" using table_blocksD(4) [OF n line_ok] b(1) by simp
      then have "x = t_crt line b" using table_blocksD(7) [OF n line_ok bn] b(2) by simp
      then have "x = (t_par line ^^ 1) b" by simp
      then show "on_branch (c_storage (G r)) x b" using table_on_branch [OF n line_ok bn, of 1] by simp
    qed
  qed
  then have ok: "chains_ok sample_group G"
    using table_hashes_agree [OF blocks line_ok] by (simp add: chains_ok_def)
  have "prefix (executed (G 2)) (executed (G 0)) \<or> prefix (executed (G 0)) (executed (G 2))"
    by (rule replicas_agree [OF sample_group_ok reach ok]) simp_all
  then show ?thesis
    using reach table_executed [OF G(2) line_ok] table_executed [OF G(3) line_ok] by auto
qed

section \<open>A certificate of another branch\<close>

text \<open>
  The blocks 1 to 4 are a chain as before. The blocks 5 to 8 are a chain beside it, without
  certificates; block 9 on top of it carries the certificate of block 3; the blocks 10, 11 and 12
  follow block 9 with the certificates of their parents.
\<close>

definition fork :: table where
  "fork = \<lparr>t_par = (\<lambda>j. if j = 5 then 0 else j - 1),
     t_crt = (\<lambda>j. if 5 \<le> j \<and> j \<le> 8 then 0 else if j = 9 then 3 else j - 1),
     t_hgt = (\<lambda>j. if j \<le> 4 then j else j - 4)\<rparr>"

lemma fork_simps [simp]:
  "t_par fork j = (if j = 5 then 0 else j - 1)"
  "t_crt fork j = (if 5 \<le> j \<and> j \<le> 8 then 0 else if j = 9 then 3 else j - 1)"
  "t_hgt fork j = (if j \<le> 4 then j else j - 4)"
  by (simp_all add: fork_def)

lemma fork_ok: "table_ok fork"
  by (auto simp: table_ok_def)

lemma fork_deliver:
  assumes "both fork n v l cs V G" and "n < 12"
    and "\<forall>j\<in>{1..Suc n}. t_crt fork j = 0 \<or> t_crt fork j \<in> V"
  shows "\<exists>G'. (system_step sample_group)\<^sup>*\<^sup>* G G' \<and> both fork (Suc n) v l cs V G' \<and> G' 2 = G 2"
  using both_deliver [OF assms(1) fork_ok] assms(2,3) by simp

lemma fork_round:
  assumes b: "both fork n v l cs V G" and n: "n < 12"
    and crt: "\<forall>j\<in>{1..Suc n}. t_crt fork j = 0 \<or> t_crt fork j \<in> V"
    and br: "table_chain fork cs (Suc n) \<Longrightarrow>
      \<exists>k. (t_par fork ^^ k) (t_crt fork (t_crt fork (t_crt fork (Suc n)))) = last (0 # cs)"
    and high: "v < t_hgt fork (Suc n)"
    and rule: "(\<exists>k. (t_par fork ^^ k) (Suc n) = table_lock fork cs l (Suc n)) \<or>
      t_hgt fork (table_lock fork cs l (Suc n)) < t_hgt fork (t_crt fork (Suc n))"
  shows "\<exists>G'. (system_step sample_group)\<^sup>*\<^sup>* G G' \<and> both fork (Suc n) (t_hgt fork (Suc n))
    (table_lock fork cs l (Suc n)) (table_commit fork cs (Suc n)) (insert (Suc n) V) G' \<and> G' 2 = G 2"
proof -
  obtain H where H: "(system_step sample_group)\<^sup>*\<^sup>* G H" "both fork (Suc n) v l cs V H" "H 2 = G 2"
    using fork_deliver [OF b n crt] by blast
  have "Suc n < 90" using n by simp
  have crt': "t_crt fork j = 0 \<or> t_crt fork j \<in> V" if "1 \<le> j" "j \<le> Suc n" for j
    using crt that by simp
  obtain K where "(system_step sample_group)\<^sup>*\<^sup>* H K" "both fork (Suc n) (t_hgt fork (Suc n))
    (table_lock fork cs l (Suc n)) (table_commit fork cs (Suc n)) (insert (Suc n) V) K" "K 2 = H 2"
    using both_vote [OF H(2) fork_ok \<open>Suc n < 90\<close> crt' br high rule] by blast
  then show ?thesis using rtranclp_trans [OF H(1)] H(3) by metis
qed

text \<open>The two replicas vote for the chain and execute its first block \<dots>\<close>

lemmas fork_eval = table_lock_def table_commit_def table_chain_def Let_def

lemma fork_start_round:
  assumes b: "both fork n n l [] {1..n} G" and n: "n < 4"
    and rule: "(\<exists>k. (t_par fork ^^ k) (Suc n) = table_lock fork [] l (Suc n)) \<or>
      t_hgt fork (table_lock fork [] l (Suc n)) < t_hgt fork (t_crt fork (Suc n))"
  shows "\<exists>G'. (system_step sample_group)\<^sup>*\<^sup>* G G' \<and> both fork (Suc n) (Suc n)
    (table_lock fork [] l (Suc n)) (table_commit fork [] (Suc n)) {1..Suc n} G' \<and> G' 2 = G 2"
proof -
  have "\<exists>G'. (system_step sample_group)\<^sup>*\<^sup>* G G' \<and> both fork (Suc n) (t_hgt fork (Suc n))
    (table_lock fork [] l (Suc n)) (table_commit fork [] (Suc n)) (insert (Suc n) {1..n}) G' \<and> G' 2 = G 2"
  proof (rule fork_round [OF b])
    assume chain: "table_chain fork [] (Suc n)"
    consider "n = 0" | "n = 1" | "n = 2" | "n = 3" using n by linarith
    then have "n = 3" by cases (use chain in \<open>simp_all add: table_chain_def Let_def\<close>)
    then show "\<exists>k. (t_par fork ^^ k) (t_crt fork (t_crt fork (t_crt fork (Suc n)))) = last (0 # [])"
      by (intro exI [of _ 1]) simp
  qed (use n rule in auto)
  moreover have "insert (Suc n) {1..n} = {1..Suc n}" by auto
  ultimately show ?thesis using n by simp
qed

lemma fork_prefix:
  "\<exists>G. (system_step sample_group)\<^sup>*\<^sup>* sample_system G \<and> both fork 4 4 2 [1] {1..4} G \<and> G 2 = sample_system 2"
proof -
  have "both fork 0 0 0 [] {1..0} sample_system" using sample_system_state by (simp add: both_def)
  moreover have "\<exists>k. (t_par fork ^^ k) (Suc 0) = table_lock fork [] 0 (Suc 0)"
    by (intro exI [of _ 1]) (simp add: fork_eval)
  ultimately obtain A where A: "(system_step sample_group)\<^sup>*\<^sup>* sample_system A" "both fork 1 1 0 [] {1..1} A"
    "A 2 = sample_system 2" using fork_start_round [of 0 0 sample_system] by (auto simp: fork_eval)
  from fork_start_round [OF A(2)] obtain B where B: "(system_step sample_group)\<^sup>*\<^sup>* A B"
    "both fork 2 2 0 [] {1..2} B" "B 2 = A 2" by (auto simp: fork_eval numeral_2_eq_2)
  from fork_start_round [OF B(2)] obtain C where C: "(system_step sample_group)\<^sup>*\<^sup>* B C"
    "both fork 3 3 1 [] {1..3} C" "C 2 = B 2" by (auto simp: fork_eval)
  from fork_start_round [OF C(2)] obtain D where D: "(system_step sample_group)\<^sup>*\<^sup>* C D"
    "both fork 4 4 2 [1] {1..4} D" "D 2 = C 2" by (auto simp: fork_eval)
  have "(system_step sample_group)\<^sup>*\<^sup>* sample_system D" using A(1) B(1) C(1) D(1) by (meson rtranclp_trans)
  then show ?thesis using A(3) B(3) C(3) D(2,3) by auto
qed

text \<open>\<dots> then deliver the other chain, and vote for the blocks on top of it.\<close>

lemma fork_beside:
  assumes "both fork 4 4 2 [1] {1..4} G"
  shows "n \<le> 4 \<Longrightarrow> \<exists>G'. (system_step sample_group)\<^sup>*\<^sup>* G G' \<and> both fork (4 + n) 4 2 [1] {1..4} G' \<and> G' 2 = G 2"
proof (induction n)
  case 0
  then show ?case using assms by auto
next
  case (Suc n)
  then obtain H where H: "(system_step sample_group)\<^sup>*\<^sup>* G H" "both fork (4 + n) 4 2 [1] {1..4} H" "H 2 = G 2" by auto
  have "\<forall>j\<in>{1..Suc (4 + n)}. t_crt fork j = 0 \<or> t_crt fork j \<in> {1..4}" using Suc.prems by auto
  from fork_deliver [OF H(2) _ this] Suc.prems obtain K where
    "(system_step sample_group)\<^sup>*\<^sup>* H K" "both fork (4 + Suc n) 4 2 [1] {1..4} K" "K 2 = H 2" by auto
  then show ?case using rtranclp_trans [OF H(1)] H(3) by metis
qed

lemma fork_votes:
  "\<exists>G. (system_step sample_group)\<^sup>*\<^sup>* sample_system G \<and> both fork 11 7 9 [1] ({1..4} \<union> {9..11}) G \<and>
     G 2 = sample_system 2"
proof -
  obtain G where G: "(system_step sample_group)\<^sup>*\<^sup>* sample_system G" "both fork 4 4 2 [1] {1..4} G"
    "G 2 = sample_system 2" using fork_prefix by blast
  obtain A where A: "(system_step sample_group)\<^sup>*\<^sup>* G A" "both fork 8 4 2 [1] {1..4} A" "A 2 = G 2"
    using fork_beside [OF G(2), of 4] by auto
  have crt: "\<forall>j\<in>{1..Suc 8}. t_crt fork j = 0 \<or> t_crt fork j \<in> {1..4}"
    "\<forall>j\<in>{1..Suc 9}. t_crt fork j = 0 \<or> t_crt fork j \<in> insert 9 {1..4}"
    "\<forall>j\<in>{1..Suc 10}. t_crt fork j = 0 \<or> t_crt fork j \<in> insert 10 (insert 9 {1..4})"
    by auto
  obtain B where B: "(system_step sample_group)\<^sup>*\<^sup>* A B" "both fork 9 5 2 [1] (insert 9 {1..4}) B" "B 2 = A 2"
    using fork_round [OF A(2) _ crt(1)] by (auto simp: fork_eval)
  obtain C where C: "(system_step sample_group)\<^sup>*\<^sup>* B C" "both fork 10 6 3 [1] (insert 10 (insert 9 {1..4})) C" "C 2 = B 2"
    using fork_round [OF B(2) _ crt(2)] by (auto simp: fork_eval)
  obtain D where D: "(system_step sample_group)\<^sup>*\<^sup>* C D"
    "both fork 11 7 9 [1] (insert 11 (insert 10 (insert 9 {1..4}))) D" "D 2 = C 2"
    using fork_round [OF C(2) _ crt(3)] by (auto simp: fork_eval)
  have "insert 11 (insert 10 (insert 9 {1..4})) = {1..4} \<union> {9..11 :: nat}" by auto
  moreover have "(system_step sample_group)\<^sup>*\<^sup>* sample_system D"
    using G(1) A(1) B(1) C(1) D(1) by (meson rtranclp_trans)
  ultimately show ?thesis using D(2,3) C(3) B(3) A(3) G(3) by auto
qed

text \<open>The slow replica gets all blocks in the end, but only the last proposal.\<close>

lemma fork_slow:
  assumes G: "both fork 11 7 9 [1] ({1..4} \<union> {9..11}) G" "G 2 = sample_system 2"
  shows "n \<le> 12 \<Longrightarrow> \<exists>G'. (system_step sample_group)\<^sup>*\<^sup>* G G' \<and> table_state fork 2 n 0 0 [] {} (G' 2) \<and>
    G' 0 = G 0 \<and> G' 1 = G 1"
proof (induction n)
  case 0
  then show ?case using G(2) sample_system_state by auto
next
  case (Suc n)
  then obtain H where H: "(system_step sample_group)\<^sup>*\<^sup>* G H" "table_state fork 2 n 0 0 [] {} (H 2)"
    "H 0 = G 0" "H 1 = G 1" by auto
  have "certs_voted fork (Suc n) H"
  proof (rule both_certs)
    show "both fork 11 7 9 [1] ({1..4} \<union> {9..11}) H" using G(1) H(3,4) by (simp add: both_def)
    show "t_crt fork j = 0 \<or> t_crt fork j \<in> {1..4} \<union> {9..11}" if "1 \<le> j" "j \<le> Suc n" for j
      using that Suc.prems by auto
  qed
  then obtain e where e: "(system_step sample_group)\<^sup>*\<^sup>* H (H(2 := e))" "table_state fork 2 (Suc n) 0 0 [] {} e"
    using deliver_step [of fork 2 n 0 0 "[]" "{}" H, OF H(2) fork_ok] Suc.prems by auto
  show ?case
  proof (intro exI [of _ "H(2 := e)"] conjI)
    show "(system_step sample_group)\<^sup>*\<^sup>* G (H(2 := e))" using H(1) e(1) by (rule rtranclp_trans)
  qed (use e(2) H(3,4) in simp_all)
qed

lemma fork_commits:
  "\<exists>G. (system_step sample_group)\<^sup>*\<^sup>* sample_system G \<and> both fork 11 7 9 [1] ({1..4} \<union> {9..11}) G \<and>
     table_state fork 2 12 8 10 [5, 6, 7, 8, 9] {12} (G 2)"
proof -
  obtain F where F: "(system_step sample_group)\<^sup>*\<^sup>* sample_system F" "both fork 11 7 9 [1] ({1..4} \<union> {9..11}) F"
    "F 2 = sample_system 2" using fork_votes by blast
  obtain G where G: "(system_step sample_group)\<^sup>*\<^sup>* F G" "table_state fork 2 12 0 0 [] {} (G 2)" "G 0 = F 0" "G 1 = F 1"
    using fork_slow [OF F(2,3), of 12] by auto
  have b: "both fork 11 7 9 [1] ({1..4} \<union> {9..11}) G" using F(2) G(3,4) by (simp add: both_def)
  have q: "certs_voted fork 12 G" by (rule both_certs [OF b]) auto
  have chain: "table_chain fork [] 12" by (simp add: table_chain_def Let_def)
  have lock: "table_lock fork [] 0 12 = 10" by (simp add: table_lock_def Let_def)
  have par: "(t_par fork ^^ 5) 9 = 0" by (simp add: eval_nat_numeral)
  have "\<exists>e. (system_step sample_group)\<^sup>*\<^sup>* G (G(2 := e)) \<and>
    table_state fork 2 12 (t_hgt fork 12) (table_lock fork [] 0 12)
      (if table_chain fork [] 12
       then let z = t_crt fork (t_crt fork (t_crt fork 12)) in table_path fork (t_hgt fork z) z else []) (insert 12 {}) e"
  proof (rule vote_step [of fork 2 12 0 0 "[]" "{}" G, OF G(2) fork_ok])
    show "\<exists>k. (t_par fork ^^ k) (t_crt fork (t_crt fork (t_crt fork 12))) = last (0 # [])"
      using par by (intro exI [of _ 5]) simp
    show "(\<exists>k. (t_par fork ^^ k) 12 = table_lock fork [] 0 12) \<or>
        t_hgt fork (table_lock fork [] 0 12) < t_hgt fork (t_crt fork 12)" by (simp add: lock)
  qed (use q in simp_all)
  then obtain e where e: "(system_step sample_group)\<^sup>*\<^sup>* G (G(2 := e))"
    "table_state fork 2 12 8 10 [5, 6, 7, 8, 9] {12} e"
    using chain lock by (auto simp: Let_def eval_nat_numeral)
  have "(system_step sample_group)\<^sup>*\<^sup>* sample_system (G(2 := e))"
    using F(1) G(1) e(1) by (meson rtranclp_trans)
  moreover have "both fork 11 7 9 [1] ({1..4} \<union> {9..11}) (G(2 := e))" using b by (simp add: both_def)
  ultimately show ?thesis using e(2) by (intro exI [of _ "G(2 := e)"]) simp
qed

text \<open>
  C2: Agreement rests on the condition that a block's certificate is for an ancestor of it, which
  \<open>on_deliver_blk\<close> does not check: with one faulty replica of four, and without a collision of
  hashes or a forged vote, two correct replicas come to execute different first blocks.
\<close>

theorem unchecked_certificate_breaks_agreement:
  "\<exists>S G r s. group_ok S \<and> system_reachable S G \<and> hashes_agree S G \<and> r \<in> g_correct S \<and> s \<in> g_correct S \<and>
     card (members S) = 4 \<and> card (members S - g_correct S) = 1 \<and>
     executed (G r) \<noteq> [] \<and> executed (G s) \<noteq> [] \<and> hd (executed (G r)) \<noteq> hd (executed (G s)) \<and>
     \<not> prefix (executed (G r)) (executed (G s)) \<and> \<not> prefix (executed (G s)) (executed (G r))"
proof -
  obtain G where G: "(system_step sample_group)\<^sup>*\<^sup>* sample_system G" "table_state fork 0 11 7 9 [1] ({1..4} \<union> {9..11}) (G 0)"
    "table_state fork 1 11 7 9 [1] ({1..4} \<union> {9..11}) (G 1)" "table_state fork 2 12 8 10 [5, 6, 7, 8, 9] {12} (G 2)"
    using fork_commits by (auto simp: both_def)
  have reach: "system_reachable sample_group G"
    using G(1) sample_system_started by (auto simp: system_reachable_def)
  have "\<exists>n\<le>90. table_blocks fork n (G r)" if "r \<in> {0, 1, 2}" for r
    using that table_stateD(1) [OF G(2)] table_stateD(1) [OF G(3)] table_stateD(1) [OF G(4)]
    by (auto intro: exI [of _ 11] exI [of _ 12])
  then have agree: "hashes_agree sample_group G" using table_hashes_agree fork_ok by blast
  have ex: "executed (G 0) = [table_hash 1]" "executed (G 2) = map table_hash [5, 6, 7, 8, 9]"
    using table_executed [OF G(2) fork_ok] table_executed [OF G(4) fork_ok] by simp_all
  have ne: "table_hash 1 \<noteq> table_hash 5" using table_hash_eq [of 1 5] by simp
  have "executed (G 0) \<noteq> []" "executed (G 2) \<noteq> []" "hd (executed (G 0)) \<noteq> hd (executed (G 2))"
    "\<not> prefix (executed (G 0)) (executed (G 2))" "\<not> prefix (executed (G 2)) (executed (G 0))"
    using ne by (simp_all add: ex)
  moreover have "card (members sample_group) = 4" "card (members sample_group - g_correct sample_group) = 1"
    by (simp_all add: sample_members insert_Diff_if)
  moreover have "0 \<in> g_correct sample_group" "2 \<in> g_correct sample_group" by simp_all
  ultimately show ?thesis using sample_group_ok reach agree by blast
qed

end
