(* ===== verification/PromiseHandle.thy ===== *)
theory PromiseHandle
  imports Prelude
begin

text \<open>
  The handles \<open>promise_t\<close> of promises (include/hotstuff/promise.hpp): a pointer to the promise and
  one to the number of its handles. The other theories speak of a promise itself; here it is
  created with its first handle and freed with its last one.
\<close>

section \<open>Handles\<close>

text \<open>\<open>pm\<close> is null after a move. A promise and its counter share one identity.\<close>

record handle =
  h_pm :: "nat option"
  h_ref_cnt :: nat

text \<open>The counters in memory, freed ones gone; addresses are not reused.\<close>

record counters =
  cnt :: "nat \<rightharpoonup> nat"
  cnt_next :: nat

text \<open>\<open>promise_t()\<close> and \<open>promise_t(callback)\<close> allocate the promise and the counter.\<close>

definition handle_new :: "counters \<Rightarrow> handle \<times> counters" where
  "handle_new m =
     (\<lparr>h_pm = Some (cnt_next m), h_ref_cnt = cnt_next m\<rparr>,
      \<lparr>cnt = (cnt m)(cnt_next m \<mapsto> 1), cnt_next = Suc (cnt_next m)\<rparr>)"

text \<open>The copy counts even when \<open>other\<close> was moved from.\<close>

definition handle_copy :: "handle \<Rightarrow> counters \<Rightarrow> (handle \<times> counters) res" where
  "handle_copy other m =
     (case cnt m (h_ref_cnt other) of
        None \<Rightarrow> Inl Uninitialised
      | Some n \<Rightarrow> Inr (other, m\<lparr>cnt := (cnt m)(h_ref_cnt other \<mapsto> n + 1)\<rparr>))"

text \<open>The new handle and what is left of \<open>other\<close>.\<close>

definition handle_move :: "handle \<Rightarrow> handle \<times> handle" where
  "handle_move other = (other, other\<lparr>h_pm := None\<rparr>)"

definition handle_destroy :: "handle \<Rightarrow> counters \<Rightarrow> counters res" where
  "handle_destroy h m =
     (case h_pm h of
        None \<Rightarrow> Inr m
      | Some p \<Rightarrow>
          (case cnt m (h_ref_cnt h) of
             None \<Rightarrow> Inl Uninitialised
           | Some n \<Rightarrow> Inr (m\<lparr>cnt := (cnt m)(h_ref_cnt h := (if n - 1 \<noteq> 0 then Some (n - 1) else None))\<rparr>)))"

text \<open>The assignments make a temporary handle, swap it in and destroy it.\<close>

definition handle_assign :: "handle \<Rightarrow> handle \<Rightarrow> counters \<Rightarrow> (handle \<times> counters) res" where
  "handle_assign this other m =
     bindE (handle_copy other m) (\<lambda>(tmp, m). bindE (handle_destroy this m) (\<lambda>m. Inr (tmp, m)))"

definition handle_move_assign :: "handle \<Rightarrow> handle \<Rightarrow> counters \<Rightarrow> (handle \<times> handle \<times> counters) res" where
  "handle_move_assign this other m =
     (let (tmp, other) = handle_move other in
      bindE (handle_destroy this m) (\<lambda>m. Inr (tmp, other, m)))"

section \<open>Programs on handles\<close>

text \<open>The operations on variables; an assignment to itself does nothing.\<close>

datatype handle_op =
    New nat
  | Copy nat nat
  | Move nat nat
  | Assign nat nat
  | MoveAssign nat nat
  | Destroy nat

type_synonym handle_state = "(nat \<rightharpoonup> handle) \<times> counters"

fun run_handle_op :: "handle_op \<Rightarrow> handle_state \<Rightarrow> handle_state res" where
  "run_handle_op (New v) (s, m) = (let (h, m) = handle_new m in Inr (s(v \<mapsto> h), m))"
| "run_handle_op (Copy v w) (s, m) = bindE (handle_copy (the (s w)) m) (\<lambda>(h, m). Inr (s(v \<mapsto> h), m))"
| "run_handle_op (Move v w) (s, m) = (let (h, h') = handle_move (the (s w)) in Inr (s(w \<mapsto> h', v \<mapsto> h), m))"
| "run_handle_op (Assign v w) (s, m) =
     (if v = w then Inr (s, m)
      else bindE (handle_assign (the (s v)) (the (s w)) m) (\<lambda>(h, m). Inr (s(v \<mapsto> h), m)))"
| "run_handle_op (MoveAssign v w) (s, m) =
     (if v = w then Inr (s, m)
      else bindE (handle_move_assign (the (s v)) (the (s w)) m) (\<lambda>(h, h', m). Inr (s(w \<mapsto> h', v \<mapsto> h), m)))"
| "run_handle_op (Destroy v) (s, m) = bindE (handle_destroy (the (s v)) m) (\<lambda>m. Inr (s(v := None), m))"

text \<open>The scopes of the language: a variable is constructed once and used until it is destroyed.\<close>

fun in_scope :: "handle_op \<Rightarrow> handle_state \<Rightarrow> bool" where
  "in_scope (New v) (s, m) \<longleftrightarrow> s v = None"
| "in_scope (Copy v w) (s, m) \<longleftrightarrow> s v = None \<and> s w \<noteq> None"
| "in_scope (Move v w) (s, m) \<longleftrightarrow> s v = None \<and> s w \<noteq> None"
| "in_scope (Assign v w) (s, m) \<longleftrightarrow> s v \<noteq> None \<and> s w \<noteq> None"
| "in_scope (MoveAssign v w) (s, m) \<longleftrightarrow> s v \<noteq> None \<and> s w \<noteq> None"
| "in_scope (Destroy v) (s, m) \<longleftrightarrow> s v \<noteq> None"

text \<open>No copy is made of a handle that was moved from.\<close>

fun copies_held :: "handle_op \<Rightarrow> handle_state \<Rightarrow> bool" where
  "copies_held (Copy v w) (s, m) \<longleftrightarrow> (\<forall>h. s w = Some h \<longrightarrow> h_pm h \<noteq> None)"
| "copies_held (Assign v w) (s, m) \<longleftrightarrow> v = w \<or> (\<forall>h. s w = Some h \<longrightarrow> h_pm h \<noteq> None)"
| "copies_held _ _ \<longleftrightarrow> True"

inductive handle_run :: "handle_state \<Rightarrow> bool" where
  start: "handle_run (Map.empty, \<lparr>cnt = Map.empty, cnt_next = 0\<rparr>)"
| step: "handle_run s'" if "handle_run s" and "in_scope a s" and "copies_held a s" and "run_handle_op a s = Inr s'"

section \<open>The count\<close>

definition holders :: "(nat \<rightharpoonup> handle) \<Rightarrow> nat \<Rightarrow> nat set" where
  "holders s p = {v. \<exists>h. s v = Some h \<and> h_pm h = Some p}"

definition counted :: "handle_state \<Rightarrow> bool" where
  "counted x \<longleftrightarrow>
     (case x of (s, m) \<Rightarrow>
       finite (dom s) \<and> (\<forall>v h p. s v = Some h \<longrightarrow> h_pm h = Some p \<longrightarrow> h_ref_cnt h = p \<and> p < cnt_next m) \<and>
       (\<forall>p. cnt m p = (if holders s p = {} then None else Some (card (holders s p)))))"

lemma countedD:
  assumes "counted (s, m)"
  shows "finite (dom s)" and "s v = Some h \<Longrightarrow> h_pm h = Some p \<Longrightarrow> h_ref_cnt h = p \<and> p < cnt_next m"
    and "cnt m p = (if holders s p = {} then None else Some (card (holders s p)))"
  using assms by (simp_all add: counted_def)

lemma finite_holders: "finite (dom s) \<Longrightarrow> finite (holders s p)"
  by (rule finite_subset [of _ "dom s"]) (auto simp: holders_def)

lemma holders_upd: "holders (s(v \<mapsto> h)) p = (if h_pm h = Some p then insert v (holders s p) else holders s p - {v})"
  by (auto simp: holders_def)

lemma holders_del: "holders (s(v := None)) p = holders s p - {v}"
  by (auto simp: holders_def)

lemma holders_iff: "s v = Some h \<Longrightarrow> v \<in> holders s p \<longleftrightarrow> h_pm h = Some p"
  by (simp add: holders_def)

lemma holders_none: "s v = None \<Longrightarrow> v \<notin> holders s p"
  by (simp add: holders_def)

text \<open>Destroying the handle of a variable.\<close>

lemma destroy_counted:
  assumes c: "counted (s, m)" and v: "s v = Some h"
  shows "\<exists>m'. handle_destroy h m = Inr m' \<and> counted (s(v := None), m')"
proof (cases "h_pm h")
  case None
  then have "holders (s(v := None)) p = holders s p" for p using holders_iff [of s v h p] v by (simp add: holders_del)
  moreover have "finite (dom (s(v := None)))" using countedD(1) [OF c] by simp
  ultimately have "counted (s(v := None), m)" using c by (auto simp: counted_def)
  then show ?thesis using None by (simp add: handle_destroy_def)
next
  case (Some p)
  have p: "h_ref_cnt h = p" using countedD(2) [OF c v Some] by simp
  have mem: "v \<in> holders s p" using holders_iff [of s v h p] v Some by simp
  then have n: "cnt m p = Some (card (holders s p))" using countedD(3) [OF c, of p] by auto
  have fin: "finite (holders s q)" for q using countedD(1) [OF c] by (rule finite_holders)
  have card: "card (holders s p - {v}) = card (holders s p) - 1" using mem by (rule card_Diff_singleton)
  have zero: "card (holders s p) - 1 = 0 \<longleftrightarrow> holders s p - {v} = {}"
    using card fin by (metis card_eq_0_iff finite_Diff)
  have hold: "holders (s(v := None)) q = (if q = p then holders s p - {v} else holders s q)" for q
    using holders_iff [of s v h q] v Some by (auto simp: holders_del)
  have "cnt m q = (if holders s q = {} then None else Some (card (holders s q)))" for q
    by (rule countedD(3) [OF c])
  then have cnts: "((cnt m)(p := (if card (holders s p) - 1 \<noteq> 0 then Some (card (holders s p) - 1) else None))) q =
      (if holders (s(v := None)) q = {} then None else Some (card (holders (s(v := None)) q)))" for q
    unfolding hold using zero card by simp
  have "counted (s(v := None), m\<lparr>cnt := (cnt m)(p := (if card (holders s p) - 1 \<noteq> 0
      then Some (card (holders s p) - 1) else None))\<rparr>)"
    using countedD(1) [OF c] countedD(2) [OF c] cnts by (simp add: counted_def)
  then show ?thesis using Some n p by (simp add: handle_destroy_def)
qed

text \<open>Giving a free variable a handle of a promise that has one.\<close>

lemma copy_counted:
  assumes c: "counted (s, m)" and w: "s w = Some h" "h_pm h = Some p" and v: "s v = None"
  shows "\<exists>m'. handle_copy h m = Inr (h, m') \<and> cnt_next m' = cnt_next m \<and> counted (s(v \<mapsto> h), m')"
proof -
  have p: "h_ref_cnt h = p" "p < cnt_next m" using countedD(2) [OF c w] by simp_all
  have mem: "w \<in> holders s p" using holders_iff [of s w h p] w by simp
  then have n: "cnt m p = Some (card (holders s p))" using countedD(3) [OF c, of p] by auto
  have fin: "finite (holders s p)" using countedD(1) [OF c] by (rule finite_holders)
  have hold: "holders (s(v \<mapsto> h)) q = (if q = p then insert v (holders s p) else holders s q)" for q
    using holders_none [of s v q, OF v] w(2) by (auto simp: holders_upd)
  have free: "v \<notin> holders s p" using v by (rule holders_none)
  have "cnt m q = (if holders s q = {} then None else Some (card (holders s q)))" for q
    by (rule countedD(3) [OF c])
  then have cnts: "((cnt m)(p \<mapsto> card (holders s p) + 1)) q =
      (if holders (s(v \<mapsto> h)) q = {} then None else Some (card (holders (s(v \<mapsto> h)) q)))" for q
    unfolding hold using fin free by simp
  have "counted (s(v \<mapsto> h), m\<lparr>cnt := (cnt m)(p \<mapsto> card (holders s p) + 1)\<rparr>)"
    using countedD(1) [OF c] countedD(2) [OF c] p w(2) cnts by (simp add: counted_def)
  then show ?thesis using n p by (simp add: handle_copy_def)
qed

text \<open>Creating the first handle of a promise.\<close>

lemma new_counted:
  assumes c: "counted (s, m)" and v: "s v = None"
  shows "\<exists>h m'. handle_new m = (h, m') \<and> counted (s(v \<mapsto> h), m')"
proof -
  let ?n = "cnt_next m" and ?h = "\<lparr>h_pm = Some (cnt_next m), h_ref_cnt = cnt_next m\<rparr>"
  have none: "holders s ?n = {}" using countedD(2) [OF c] by (fastforce simp: holders_def)
  have hold: "holders (s(v \<mapsto> ?h)) q = (if q = ?n then {v} else holders s q)" for q
    using holders_none [of s v q, OF v] none by (auto simp: holders_upd)
  have "cnt m q = (if holders s q = {} then None else Some (card (holders s q)))" for q
    by (rule countedD(3) [OF c])
  then have "((cnt m)(?n \<mapsto> 1)) q =
      (if holders (s(v \<mapsto> ?h)) q = {} then None else Some (card (holders (s(v \<mapsto> ?h)) q)))" for q
    unfolding hold by simp
  moreover have "(s(v \<mapsto> ?h)) u = Some g \<Longrightarrow> h_pm g = Some p \<Longrightarrow> h_ref_cnt g = p \<and> p < Suc ?n" for u g p
    using countedD(2) [OF c, of u g p] by (auto split: if_splits)
  ultimately have "counted (s(v \<mapsto> ?h), \<lparr>cnt = (cnt m)(?n \<mapsto> 1), cnt_next = Suc ?n\<rparr>)"
    using countedD(1) [OF c] by (simp add: counted_def)
  then show ?thesis by (simp add: handle_new_def)
qed

text \<open>Handing the promise of one variable to another one.\<close>

lemma shift_counted:
  assumes c: "counted (s, m)" and w: "s w = Some h" and v: "s v = None"
    and g: "g = None \<or> h_pm (the g) = None"
  shows "counted ((s(v \<mapsto> h))(w := g), m)"
proof -
  have vw: "v \<noteq> w" using v w by auto
  have hold: "holders ((s(v \<mapsto> h))(w := g)) q = (if h_pm h = Some q then insert v (holders s q - {w}) else holders s q)" for q
  proof -
    have "v \<notin> holders s q" using v by (rule holders_none)
    moreover have "w \<in> holders s q \<longleftrightarrow> h_pm h = Some q" using w by (rule holders_iff)
    ultimately show ?thesis using vw g by (cases g) (auto simp: holders_upd holders_del)
  qed
  have "card (insert v (holders s q - {w})) = card (holders s q)" and "holders s q \<noteq> {}" if "h_pm h = Some q" for q
  proof -
    have mem: "w \<in> holders s q" using w that by (simp add: holders_iff)
    then show "holders s q \<noteq> {}" by auto
    show "card (insert v (holders s q - {w})) = card (holders s q)"
      using mem finite_holders [OF countedD(1) [OF c], of q] holders_none [of s v q, OF v]
      by (metis DiffD1 card.insert card.remove finite_Diff)
  qed
  then have "cnt m q = (if holders ((s(v \<mapsto> h))(w := g)) q = {} then None
      else Some (card (holders ((s(v \<mapsto> h))(w := g)) q)))" for q
    unfolding hold using countedD(3) [OF c, of q] by auto
  moreover have "((s(v \<mapsto> h))(w := g)) u = Some k \<Longrightarrow> h_pm k = Some p \<Longrightarrow> h_ref_cnt k = p \<and> p < cnt_next m" for u k p
    using countedD(2) [OF c, of u k p] countedD(2) [OF c w, of p] g by (auto split: if_splits)
  ultimately show ?thesis using countedD(1) [OF c] by (cases g) (simp_all add: counted_def)
qed

text \<open>An assignment of a handle that holds a promise.\<close>

lemma assign_counted:
  assumes c: "counted (s, m)" and w: "s w = Some h" "h_pm h = Some p" and v: "s v = Some k" and vw: "v \<noteq> w"
  shows "\<exists>m'. handle_assign k h m = Inr (h, m') \<and> counted (s(v \<mapsto> h), m')"
proof -
  obtain t where t: "s t = None" using countedD(1) [OF c] ex_new_if_finite [of "dom s"] by auto
  obtain m1 where m1: "handle_copy h m = Inr (h, m1)" and c1: "counted (s(t \<mapsto> h), m1)"
    using copy_counted [OF c w t] by blast
  have tv: "t \<noteq> v" using t v by auto
  then have "(s(t \<mapsto> h)) v = Some k" using v by simp
  from destroy_counted [OF c1 this] obtain m2
    where m2: "handle_destroy k m1 = Inr m2" and c2: "counted ((s(t \<mapsto> h))(v := None), m2)" by blast
  have "counted ((((s(t \<mapsto> h))(v := None))(v \<mapsto> h))(t := None), m2)"
    by (rule shift_counted [OF c2]) (use tv in simp_all)
  moreover have "((((s(t \<mapsto> h))(v := None))(v \<mapsto> h))(t := None)) = s(v \<mapsto> h)" using t tv by (auto simp: fun_eq_iff)
  ultimately show ?thesis using m1 m2 by (simp add: handle_assign_def)
qed

lemma handle_op_counted:
  assumes c: "counted x" and i: "in_scope a x" and h: "copies_held a x"
  shows "\<exists>y. run_handle_op a x = Inr y \<and> counted y"
proof -
  obtain s m where x: "x = (s, m)" by (cases x)
  note c = c [unfolded x]
  show ?thesis
  proof (cases a)
    case (New v)
    then show ?thesis using new_counted [OF c, of v] i by (auto simp: x)
  next
    case (Copy v w)
    then obtain h where "s w = Some h" "h_pm h \<noteq> None" "s v = None" using i \<open>copies_held a x\<close> by (auto simp: x)
    then show ?thesis using copy_counted [OF c, of w h "the (h_pm h)" v] Copy by (auto simp: x)
  next
    case (Move v w)
    then obtain h where w: "s w = Some h" and v: "s v = None" using i by (auto simp: x)
    then have "counted ((s(v \<mapsto> h))(w := Some (h\<lparr>h_pm := None\<rparr>)), m)" by (intro shift_counted [OF c]) simp_all
    moreover have "v \<noteq> w" using v w by auto
    ultimately show ?thesis using Move w by (simp add: x handle_move_def fun_upd_twist)
  next
    case (Assign v w)
    show ?thesis
    proof (cases "v = w")
      case True
      then show ?thesis using Assign c by (simp add: x)
    next
      case False
      then obtain h k where "s w = Some h" "h_pm h \<noteq> None" "s v = Some k"
        using Assign i \<open>copies_held a x\<close> by (auto simp: x)
      then show ?thesis using assign_counted [OF c, of w h "the (h_pm h)" v k] False Assign by (auto simp: x)
    qed
  next
    case (MoveAssign v w)
    show ?thesis
    proof (cases "v = w")
      case True
      then show ?thesis using MoveAssign c by (simp add: x)
    next
      case False
      then obtain h k where w: "s w = Some h" and v: "s v = Some k" using MoveAssign i by (auto simp: x)
      obtain m' where m': "handle_destroy k m = Inr m'" and c': "counted (s(v := None), m')"
        using destroy_counted [OF c v] by blast
      have "counted (((s(v := None))(v \<mapsto> h))(w := Some (h\<lparr>h_pm := None\<rparr>)), m')"
        by (rule shift_counted [OF c']) (use False w in simp_all)
      then show ?thesis using m' w v False MoveAssign
        by (simp add: x handle_move_assign_def handle_move_def fun_upd_twist)
    qed
  next
    case (Destroy v)
    then obtain h where "s v = Some h" using i by (auto simp: x)
    then show ?thesis using destroy_counted [OF c, of v h] Destroy by (auto simp: x)
  qed
qed

lemma handle_run_counted: "handle_run x \<Longrightarrow> counted x"
proof (induction rule: handle_run.induct)
  case start
  show ?case by (simp add: counted_def holders_def)
next
  case (step s a s')
  then show ?case using handle_op_counted by fastforce
qed

text \<open>
  C40: A program that never copies a handle that was moved from, does no invalid access: the next
  operation succeeds, and afterwards a promise is in memory exactly as long as a handle holds it,
  its counter being the number of the variables that do.
\<close>

theorem handles_counted:
  assumes "handle_run x" and "in_scope a x" and "copies_held a x"
  shows "\<exists>s m. run_handle_op a x = Inr (s, m) \<and>
           (\<forall>p. cnt m p = (if holders s p = {} then None else Some (card (holders s p))))"
proof -
  obtain s m where "run_handle_op a x = Inr (s, m)" "counted (s, m)"
    using handle_op_counted [OF handle_run_counted [OF assms(1)] assms(2,3)] by auto
  then show ?thesis using countedD(3) by blast
qed

theorem handles_counted_witness:
  "\<exists>x s m. handle_run x \<and> run_handle_op (Copy 1 0) x = Inr (s, m) \<and> holders s 0 = {0, 1} \<and> cnt m 0 = Some 2"
proof -
  obtain y :: handle_state where y: "y = ([0 \<mapsto> \<lparr>h_pm = Some 0, h_ref_cnt = 0\<rparr>], \<lparr>cnt = [0 \<mapsto> 1], cnt_next = 1\<rparr>)" by blast
  have run: "handle_run y"
    by (rule handle_run.step [OF handle_run.start, of "New 0"]) (simp_all add: y handle_new_def)
  obtain s m where r: "run_handle_op (Copy 1 0) y = Inr (s, m)"
    and n: "\<And>p. cnt m p = (if holders s p = {} then None else Some (card (holders s p)))"
    using handles_counted [OF run, of "Copy 1 0"] by (auto simp: y)
  have "s = [0 \<mapsto> \<lparr>h_pm = Some 0, h_ref_cnt = 0\<rparr>, 1 \<mapsto> \<lparr>h_pm = Some 0, h_ref_cnt = 0\<rparr>]"
    using r by (simp add: y handle_copy_def)
  then have two: "holders s 0 = {0, 1}" by (auto simp: holders_def)
  have "cnt m 0 = Some 2" using n [of 0] unfolding two by simp
  with run r two show ?thesis by blast
qed

text \<open>The assumption is needed: a copy of a handle whose promise is gone counts in freed memory.\<close>

lemma copy_after_move:
  "bindE (bindE (bindE (run_handle_op (New 0) (Map.empty, \<lparr>cnt = Map.empty, cnt_next = 0\<rparr>))
     (run_handle_op (Move 1 0))) (run_handle_op (Destroy 1))) (run_handle_op (Copy 2 0)) = Inl Uninitialised"
  by (simp add: handle_new_def handle_move_def handle_destroy_def handle_copy_def)

end
