(* ===== verification/Spec2Isabelle.thy ===== *)
theory Spec2Isabelle
  imports CoreHistory CoreQuorum CorePrune Dissemination Selection Progress GroupRuns PromiseHandle
begin

text \<open>
  A verification development of libhotstuff-svid, a C++ implementation of the HotStuff
  consensus protocol whose leader disseminates the commands of a block as erasure-coded slices
  with Merkle proofs. Every definition names the file and the function under \<open>src/\<close> that it
  translates in the text before it.

  \<^bold>\<open>The program.\<close> A replica is a \<open>HotStuffBase\<close> (src/hotstuff.cpp) around a \<open>HotStuffCore\<close>
  (src/consensus.cpp). The core keeps a tree of blocks with certificates, votes for proposals,
  collects votes into certificates and executes a block once three certificates in a row are on
  direct descendants. The base fetches blocks by their hashes, verifies and delivers them to the
  core, and turns the core's outputs into messages. A pace maker (liveness.h) decides who
  proposes when, and on which block. All wait for each other through promises (promise.hpp).
  Commands come from clients over the application (examples/) and go through a queue into
  blocks; their hashes are encoded with RSE.cpp into one slice per replica, each with a proof
  from MerkleTree.cpp; replicas collect slices in a ShardsContainer and decode them when the
  block has two certificates in a row.

  \<^bold>\<open>The theories.\<close>
  \<^item> \<open>Prelude\<close>: names of types, errors as the left side of a sum (\<open>'a res\<close>, the exception or
    undefined access of the C++ code as a value), \<open>bindE\<close> and \<open>bindS\<close> for computations that
    may throw, the locale of monitored machines with its invariant rule.
  \<^item> \<open>DataStream\<close>: salticidae's stream as a parameter, and the locale \<open>codec\<close> that every
    serializable class interprets.
  \<^item> \<open>Crypto\<close>, \<open>QuorumCert\<close>, \<open>ReplicaConfig\<close>: keys, signatures, partial and quorum
    certificates, the configuration (crypto.h, crypto.cpp, entity.h).
  \<^item> \<open>RSE\<close>, \<open>MerkleTree\<close>, \<open>ShardsContainer\<close>: the files of rse-merkle/.
  \<^item> \<open>Entity\<close>, \<open>Messages\<close>: blocks and their storage, an explicit heap whose references are the
    \<open>block_t\<close> pointers (entity.h, entity.cpp); slices, proposals, votes, decisions and the five
    network messages (consensus.h, hotstuff.h).
  \<^item> \<open>Core\<close>: the record \<open>core\<close> and one definition per method of \<open>HotStuffCore\<close>. Calls of the
    virtual \<open>do_\<close> methods and resolutions of promises are appended to \<open>c_outs\<close>.
    \<open>CoreInvariant\<close>, \<open>CoreSteps\<close>, \<open>CoreReach\<close>: the invariant of the core, what each method does
    to it, and the machine of all documented calls but \<open>prune\<close>, which nothing in the repository
    calls. \<open>CoreChain\<close>, \<open>CoreHistory\<close>, \<open>CoreVotes\<close>,
    \<open>CoreQuorum\<close>, \<open>CorePrune\<close>, \<open>Dissemination\<close>: execution, history, votes, certificates,
    pruning and the path of commands through slices. \<open>CoreExample\<close>: a concrete run.
  \<^item> \<open>CoreLocks\<close>, \<open>Agreement\<close>: what locks and votes say about the history of one core; the record
    \<open>group\<close> of replicas, of which the correct ones run cores and the others send anything, its
    machine \<open>system_step\<close>, and the agreement of the correct ones. \<open>GroupRuns\<close>: runs of four
    replicas on tables of blocks, one that commits and one in which agreement breaks.
  \<^item> \<open>Promise\<close>, \<open>PromiseLaws\<close>, \<open>PromiseTyping\<close>, \<open>PromiseRuns\<close>: promises as a heap with
    first-order callbacks, their laws, and the locale that types their values. \<open>PromiseHandle\<close>: the counted handles
    \<open>promise_t\<close>, for themselves.
  \<^item> \<open>Node\<close>, \<open>Liveness\<close>, \<open>Base\<close>: the record \<open>node\<close>, the verification pool, the pace makers and
    every method of \<open>HotStuffBase\<close>; events (messages, timers, workers, the queue) and the tasks
    they leave to run. \<open>NodeTyping\<close>, \<open>NodeInvariant\<close>, \<open>NodeSteps\<close>, \<open>NodePace\<close>, \<open>NodeBase\<close>,
    \<open>NodeReach\<close>, \<open>CoreGrowth\<close>: the invariant of a running replica, method by method, up to the
    theorem that the replica calls its core only as documented, through which the theorems on
    reachable cores hold for it. \<open>NodeSafety\<close>, \<open>Callbacks\<close>, \<open>Selection\<close>, \<open>Progress\<close>: what the
    parts guarantee together. \<open>Proposing\<close>: what a call of \<open>on_propose\<close> that returns has done.
    \<open>NodeExample\<close>: concrete runs.
  \<^item> \<open>Client\<close>, \<open>App\<close>: the client program and the application around a replica.

  \<^bold>\<open>What the lemmas show.\<close> With fewer than a third of the replicas faulty, correct replicas execute
  the same blocks in the same order, if each certificate in a block is for an ancestor of it;
  the code does not check this, and without it two correct replicas execute different blocks.
  Executed blocks form one chain and stay executed; a replica casts at
  most one vote per height, for delivered blocks that obey the voting rule; certificates are
  complete and sound with respect to the signatures of a majority; what is serialized is read
  back; any threshold of slices gives the proposer's commands back; Merkle proofs bind slices to
  the root; pruning and the client's loop of sending return; promises settle once and live
  as long as they are held; values in promises have the types they are cast to; only verified blocks and votes reach the core; each
  commit callback is called at most once and clients get no response they did not ask for; an
  idle proposer has its core propose. Some theorems show where the code falls short of its intent: short
  slices that cannot be decoded, indices that the Merkle proof does not bound, empty slices that
  are counted again, the two-step build that decides nothing, a client that counts one replica
  several times.

  \<^bold>\<open>Parameters and hypotheses.\<close> libsecp256k1, OpenSSL, Leopard, salticidae's streams and hashes
  and the order in which unordered containers are iterated are arguments of the definitions
  (\<open>crypto_ops\<close>, \<open>leo_ops\<close>, \<open>stream_ops\<close>, \<open>env\<close>, \<open>net_env\<close>). What the code relies on is stated as
  \<open>stream_ok\<close>, \<open>crypto_ok\<close>, \<open>leo_ok\<close> and \<open>order_ok\<close>, each shown for concrete functions. A replica
  is followed until it creates \<open>2\<^sup>3\<^sup>2\<close> blocks, since heights are 32-bit words (\<open>size_ok\<close>), and as long
  as a block it proposes does not have the hash of another one (\<open>no_collision\<close>). In a group, the
  calls are those of one replica with proposals that are not its own (\<open>foreign\<close>) and blocks whose
  certificates hold votes that correct replicas cast (\<open>certs_backed\<close>: certificates were verified
  and signatures are not forged), equal hashes mean equal blocks (\<open>hashes_agree\<close>), and, for
  agreement, certificates are for ancestors (\<open>certs_on_branch\<close>). The faulty replicas have no
  definition: a correct replica may receive any call that meets these conditions.

  \<^bold>\<open>Bounds and fuel.\<close> No definition takes fuel. Loops that the source bounds are structural; the
  walks up the parents, pruning and the client's loop, which need not end on arbitrary states,
  are partial functions into \<open>option\<close>, and theorems show that they return on the states that
  occur. Words have the width of the source; heights, sizes and counters wrap.

  \<^bold>\<open>Simplifications.\<close> The callbacks of a promise that the core resolves run after the call of the
  core, not within it. The virtual \<open>do_\<close> methods are handled after the call in the order of their
  outputs. Threads are events of one machine. The replica's promises are
  references without a count; \<open>PromiseHandle\<close> has the counts.

  \<^bold>\<open>Not modelled.\<close> Logging, the string operators and times; opening sockets and threads and
  stopping them; the command line and configuration of the two programs in examples/; the tools
  that generate keys and the benchmark, which print what a library returns; callbacks that
  return a promise and the build with \<open>CPPROMISE_USE_STACK_FREE\<close>, which nothing in the repository
  uses; template plumbing.
\<close>

end
